(* ===== verification/Prelude.thy ===== *)
theory Prelude
  imports Complex_Main "HOL-Library.Word" "HOL-Library.Multiset"
begin

text \<open>
  What the component theories share: the names of the machine integers the code uses, the
  values by which the model reports a C++ failure, the sequencing of fallible operations,
  the collections of rewrite rules, and generic lemmas on words, lists, maps and multisets.

  A C++ exception, a failed allocation and undefined behaviour are all values of
  \<open>cpp_error\<close>; an operation that can fail returns \<open>'a res\<close>, with \<open>Inl\<close> for the failure,
  so that no theorem can hold because an out-of-range read happened to be unspecified.
\<close>

named_theorems ring_simps "rewrite rules of the bounded queues"
named_theorems hm_simps "rewrite rules of the hash map"
named_theorems engine_simps "rewrite rules of the coroutine engine"

type_synonym size_t = "64 word"
type_synonym u32 = "32 word"
type_synonym uptr = "64 word"

datatype cpp_error =
    RuntimeError string    \<comment> \<open>\<open>throw std::runtime_error\<close>\<close>
  | BadAlloc               \<comment> \<open>\<open>throw std::bad_alloc\<close>\<close>
  | OutOfBounds            \<comment> \<open>undefined: array read or write past its end\<close>
  | DivByZero              \<comment> \<open>undefined: integer division by zero\<close>
  | NullDeref              \<comment> \<open>undefined: dereference of a null pointer\<close>
  | AssertFailed           \<comment> \<open>\<open>assert\<close> of a false condition\<close>
  | WildPointer            \<comment> \<open>undefined: dereference of a pointer to no object\<close>
  | NullHandle             \<comment> \<open>undefined: use of a null coroutine handle\<close>
  | DeadHandle             \<comment> \<open>undefined: use of a handle whose frame is destroyed or done\<close>
  | SystemError            \<comment> \<open>\<open>throw system_error\<close>: a system call failed\<close>
  | SignedOverflow         \<comment> \<open>undefined: a signed result that does not fit\<close>

type_synonym 'a res = "cpp_error + 'a"

definition bindE :: "'a res \<Rightarrow> ('a \<Rightarrow> 'b res) \<Rightarrow> 'b res" where
  "bindE x f = (case x of Inl e \<Rightarrow> Inl e | Inr a \<Rightarrow> f a)"

lemma bindE_simps [simp]:
  "bindE (Inl e) f = Inl e"
  "bindE (Inr a) f = f a"
  by (simp_all add: bindE_def)

lemma bindE_Inr_iff: "bindE x f = Inr b \<longleftrightarrow> (\<exists>a. x = Inr a \<and> f a = Inr b)"
  by (cases x) auto

text \<open>
  Sequencing of runs that may fail and may also not return: \<open>None\<close> is a run that never returns.
\<close>

definition bind_run :: "'a res option \<Rightarrow> ('a \<Rightarrow> 'b res option) \<Rightarrow> 'b res option" where
  "bind_run x f = Option.bind x (\<lambda>r. case r of Inl e \<Rightarrow> Some (Inl e) | Inr a \<Rightarrow> f a)"

lemma bind_run_simps [simp]:
  "bind_run None f = None"
  "bind_run (Some (Inl e)) f = Some (Inl e)"
  "bind_run (Some (Inr a)) f = f a"
  by (simp_all add: bind_run_def)

lemma bind_run_Some_Inr:
  "bind_run x f = Some (Inr b) \<longleftrightarrow> (\<exists>a. x = Some (Inr a) \<and> f a = Some (Inr b))"
proof (cases x)
  case (Some y)
  then show ?thesis by (cases y) simp_all
qed simp

lemma bind_run_mono [partial_function_mono]:
  assumes "mono_option A" and "\<And>a. mono_option (B a)"
  shows "mono_option (\<lambda>f. bind_run (A f) (\<lambda>a. B a f))"
  unfolding bind_run_def
proof (rule bind_mono [OF assms(1)])
  fix y
  show "mono_option (\<lambda>f. case y of Inl e \<Rightarrow> Some (Inl e) | Inr a \<Rightarrow> B a f)"
    by (cases y) (simp_all add: assms(2) option.const_mono)
qed

text \<open>Array reads: the value, or the failure an out-of-range index is.\<close>

definition array_get :: "'a list \<Rightarrow> nat \<Rightarrow> 'a res" where
  "array_get xs i = (if i < length xs then Inr (xs ! i) else Inl OutOfBounds)"

lemma array_get_in [simp]: "i < length xs \<Longrightarrow> array_get xs i = Inr (xs ! i)"
  by (simp add: array_get_def)

lemma array_get_out [simp]: "length xs \<le> i \<Longrightarrow> array_get xs i = Inl OutOfBounds"
  by (simp add: array_get_def)

lemma array_get_Inr_iff: "array_get xs i = Inr x \<longleftrightarrow> i < length xs \<and> x = xs ! i"
  by (auto simp: array_get_def)

subsection \<open>Words\<close>

lemma unat_size_bound: "unat (w :: size_t) < 2 ^ 64"
  using unsigned_less [of w] by simp

lemma unat_Suc_size: "unat (w :: size_t) + 1 < 2 ^ 64 \<Longrightarrow> unat (w + 1) = unat w + 1"
  by (simp add: unat_word_ariths)

lemma unat_of_nat_size: "n < 2 ^ 64 \<Longrightarrow> unat (of_nat n :: size_t) = n"
  by (simp add: unat_of_nat take_bit_nat_eq_self)

lemma unat_exp_size: "e < 64 \<Longrightarrow> unat (2 ^ e :: size_t) = 2 ^ e"
proof -
  assume "e < 64"
  then have "(2::nat) ^ e < 2 ^ 64" by (intro power_strict_increasing) simp_all
  from unat_of_nat_size [OF this] show ?thesis by simp
qed

lemma unat_half: "unat ((w :: size_t) div 2) = unat w div 2"
  by (simp add: unat_div)

lemma unat_pred_size: "(w :: size_t) \<noteq> 0 \<Longrightarrow> unat (w - 1) = unat w - 1"
  by (rule unat_minus_one)

subsection \<open>Lists and multisets\<close>

lemma in_set_take_nth: "x \<in> set (take n xs) \<Longrightarrow> \<exists>i < n. i < length xs \<and> x = xs ! i"
  by (auto simp: in_set_conv_nth)

lemma mset_map_cong: "mset xs = mset ys \<Longrightarrow> mset (map f xs) = mset (map f ys)"
  by simp

text \<open>Sums over the places of a list, when one place is overwritten.\<close>

lemma sum_nth_update:
  fixes f :: "nat \<Rightarrow> 'a \<Rightarrow> 'b :: comm_monoid_add"
  assumes "k < length xs"
  shows "(\<Sum>i<length xs. f i (xs[k := v] ! i)) + f k (xs ! k) = (\<Sum>i<length xs. f i (xs ! i)) + f k v"
proof -
  have "(\<Sum>i\<in>{..<length xs} - {k}. f i (xs[k := v] ! i)) = (\<Sum>i\<in>{..<length xs} - {k}. f i (xs ! i))"
    by (rule sum.cong) auto
  then show ?thesis
    using assms by (simp add: sum.remove [of "{..<length xs}" k] add_ac)
qed

lemma mset_distinct: "(\<And>a. count (mset xs) a \<le> 1) \<Longrightarrow> distinct xs"
proof (induction xs)
  case (Cons x xs)
  then have "count (mset xs) a \<le> 1" for a by (metis add_leD1 count_add_mset mset.simps(2) nat_le_linear Suc_eq_plus1)
  moreover have "x \<notin> set xs" using Cons.prems [of x] by (simp add: count_eq_zero_iff)
  ultimately show ?case using Cons.IH by simp
qed simp

end
