(* ===== verification/Power_Two.thy ===== *)
theory Power_Two
  imports Prelude
begin

unbundle bit_operations_syntax

text \<open>
  \<open>next_power_of_2\<close> of applications/map/map.hpp on 64-bit words: the decrement, the six
  shift-and-or steps that smear the highest set bit downwards, the increment; and the proof
  that this rounds up to a power of two.
\<close>

subsection \<open>Rounding up to a power of two\<close>

definition next_power_of_2 :: "size_t \<Rightarrow> size_t" where
  "next_power_of_2 n =
     (let n = n - 1;
          n = n OR drop_bit 1 n;
          n = n OR drop_bit 2 n;
          n = n OR drop_bit 4 n;
          n = n OR drop_bit 8 n;
          n = n OR drop_bit 16 n;
          n = n OR drop_bit 32 n
      in n + 1)"

text \<open>
  Each step doubles the width of the window that is smeared downwards: after the steps
  \<open>1, \<dots>, k\<close> bit \<open>i\<close> is set when one of the bits \<open>i, \<dots>, i + 2 k - 1\<close> was.
\<close>

definition smeared :: "nat \<Rightarrow> size_t \<Rightarrow> size_t \<Rightarrow> bool" where
  "smeared k n x \<longleftrightarrow> (\<forall>i. bit x i \<longleftrightarrow> (\<exists>d < k. bit n (i + d)))"

lemma smeared_1: "smeared 1 n n"
  by (simp add: smeared_def)

lemma smeared_step:
  assumes "smeared k n x"
  shows "smeared (2 * k) n (x OR drop_bit k x)"
proof -
  have "bit (x OR drop_bit k x) i \<longleftrightarrow> (\<exists>d < 2 * k. bit n (i + d))" for i
  proof -
    have "bit (x OR drop_bit k x) i \<longleftrightarrow>
        (\<exists>d < k. bit n (i + d)) \<or> (\<exists>d < k. bit n (i + (k + d)))"
      using assms by (simp add: smeared_def bit_or_iff bit_drop_bit_eq add.commute add.left_commute)
    also have "\<dots> \<longleftrightarrow> (\<exists>d < 2 * k. bit n (i + d))" (is "?l \<longleftrightarrow> ?r")
    proof
      assume ?l
      then show ?r
      proof (elim disjE exE conjE)
        fix d assume "d < k" "bit n (i + d)"
        then show ?r by (intro exI [of _ d]) simp
      next
        fix d assume "d < k" "bit n (i + (k + d))"
        then show ?r by (intro exI [of _ "k + d"]) simp
      qed
    next
      assume ?r
      then obtain d where d: "d < 2 * k" "bit n (i + d)" by blast
      show ?l
      proof (cases "d < k")
        case True
        with d show ?thesis by blast
      next
        case False
        with d have "d - k < k" "bit n (i + (k + (d - k)))" by simp_all
        then show ?thesis by blast
      qed
    qed
    finally show ?thesis .
  qed
  then show ?thesis by (simp add: smeared_def)
qed

lemma smeared_double: "smeared k n x \<Longrightarrow> m = 2 * k \<Longrightarrow> smeared m n (x OR drop_bit k x)"
  using smeared_step by simp

text \<open>The number of significant bits of a word, and the mask of all of them.\<close>

definition bit_len :: "size_t \<Rightarrow> nat" where
  "bit_len n = (LEAST m. unat n < 2 ^ m)"

lemma bit_len_bound: "unat n < 2 ^ bit_len n"
  unfolding bit_len_def by (rule LeastI [of _ 64]) (rule unat_size_bound)

lemma bit_len_least: "unat n < 2 ^ m \<Longrightarrow> bit_len n \<le> m"
  unfolding bit_len_def by (rule Least_le)

lemma bit_len_le_64: "bit_len n \<le> 64"
  by (rule bit_len_least) (rule unat_size_bound)

lemma bit_above_bit_len: "bit n j \<Longrightarrow> j < bit_len n"
proof (rule ccontr)
  assume b: "bit n j" and "\<not> j < bit_len n"
  then have "unat n < 2 ^ j" using bit_len_bound [of n]
    by (meson less_le_trans linorder_not_less one_le_numeral power_increasing)
  then have "\<not> bit (unat n) j" by (simp add: bit_iff_odd)
  with b show False by (simp add: bit_unsigned_iff)
qed

lemma bit_top_bit_len: "0 < bit_len n \<Longrightarrow> bit n (bit_len n - 1)"
proof -
  assume pos: "0 < bit_len n"
  let ?m = "bit_len n - 1"
  have m: "Suc ?m = bit_len n" using pos by simp
  have "\<not> unat n < 2 ^ ?m"
    using bit_len_least [of n ?m] pos by linarith
  moreover have "unat n < 2 ^ Suc ?m" using bit_len_bound [of n] by (simp only: m)
  ultimately have "unat n div 2 ^ ?m = 1"
    by (simp add: div_nat_eqI)
  then have "bit (unat n) ?m" by (simp add: bit_iff_odd)
  then show ?thesis by (simp add: bit_unsigned_iff)
qed

lemma smeared_64_mask:
  assumes "smeared 64 n x"
  shows "x = mask (bit_len n)"
proof (rule bit_word_eqI)
  fix i assume i: "i < LENGTH(64)"
  have "bit x i \<longleftrightarrow> (\<exists>d < 64. bit n (i + d))" using assms by (simp add: smeared_def)
  also have "\<dots> \<longleftrightarrow> i < bit_len n"
  proof
    assume "\<exists>d < 64. bit n (i + d)"
    then show "i < bit_len n" using bit_above_bit_len by fastforce
  next
    assume lt: "i < bit_len n"
    then have "bit n (i + (bit_len n - 1 - i))" using bit_top_bit_len [of n] by simp
    moreover have "bit_len n - 1 - i < 64" using lt bit_len_le_64 [of n] by linarith
    ultimately show "\<exists>d < 64. bit n (i + d)" by blast
  qed
  finally show "bit x i \<longleftrightarrow> bit (mask (bit_len n) :: size_t) i"
    using i by (simp add: bit_mask_iff)
qed

lemma next_power_of_2_mask: "next_power_of_2 n = mask (bit_len (n - 1)) + 1"
proof -
  let ?s0 = "n - 1"
  let ?s1 = "?s0 OR drop_bit 1 ?s0"
  let ?s2 = "?s1 OR drop_bit 2 ?s1"
  let ?s3 = "?s2 OR drop_bit 4 ?s2"
  let ?s4 = "?s3 OR drop_bit 8 ?s3"
  let ?s5 = "?s4 OR drop_bit 16 ?s4"
  let ?s6 = "?s5 OR drop_bit 32 ?s5"
  have "smeared 2 ?s0 ?s1" by (rule smeared_double [OF smeared_1]) simp
  then have "smeared 4 ?s0 ?s2" by (rule smeared_double) simp
  then have "smeared 8 ?s0 ?s3" by (rule smeared_double) simp
  then have "smeared 16 ?s0 ?s4" by (rule smeared_double) simp
  then have "smeared 32 ?s0 ?s5" by (rule smeared_double) simp
  then have "smeared 64 ?s0 ?s6" by (rule smeared_double) simp
  then have "?s6 = mask (bit_len ?s0)" by (rule smeared_64_mask)
  then show ?thesis by (simp add: next_power_of_2_def Let_def)
qed

lemma next_power_of_2_exp: "next_power_of_2 n = 2 ^ bit_len (n - 1)"
  by (simp add: next_power_of_2_mask mask_eq_exp_minus_1)

lemma next_power_of_2_min:
  assumes "0 < n" and "unat n \<le> 2 ^ 63"
  shows "\<exists>e \<le> 63. unat (next_power_of_2 n) = 2 ^ e \<and> unat n \<le> 2 ^ e \<and>
           (\<forall>e'. unat n \<le> 2 ^ e' \<longrightarrow> e \<le> e')"
proof -
  let ?e = "bit_len (n - 1)"
  have n: "unat (n - 1) = unat n - 1" "0 < unat n"
    using assms(1) by (simp_all add: unat_minus_one word_gt_0 unat_gt_0)
  then have le: "?e \<le> 63" using assms(2) by (intro bit_len_least) simp
  have eq: "unat (next_power_of_2 n) = 2 ^ ?e"
    using le by (simp add: next_power_of_2_exp unat_exp_size)
  have ge: "unat n \<le> 2 ^ ?e" using bit_len_bound [of "n - 1"] n by linarith
  have "?e \<le> e'" if "unat n \<le> 2 ^ e'" for e'
    using that n by (intro bit_len_least) linarith
  with le eq ge show ?thesis by blast
qed

text \<open>
  \<open>next_power_of_2\<close> is right on the whole range where the answer fits a \<open>size_t\<close>: for
  \<open>1 \<le> n \<le> 2^63\<close> it is the least power of two that is at least \<open>n\<close>.
\<close>

lemma next_power_of_2_least:
  assumes "0 < n" and "unat n \<le> 2 ^ 63"
  shows "\<exists>e \<le> 63. unat (next_power_of_2 n) = 2 ^ e \<and> unat n \<le> 2 ^ e \<and>
           (\<forall>e'. unat n \<le> 2 ^ e' \<longrightarrow> e \<le> e')"
  using assms by (rule next_power_of_2_min)

end
