(* ===== verification/Hash_Map.thy ===== *)
theory Hash_Map
  imports Power_Two
begin

unbundle bit_operations_syntax

text \<open>
  The chaining hash map of applications/map/map.hpp: its state, the
  constructor, \<open>lookup\<close>, \<open>insert\<close>, \<open>update\<close>, \<open>remove\<close>, the resize, \<open>count\<close> and \<open>stats\<close>.

  A bucket's chain is the list of the entries reached from \<open>first\<close> by \<open>next\<close>, so \<open>[]\<close> is a
  null \<open>first\<close>; the bucket's own \<open>n_items\<close> is kept beside it, as in the code, because the
  code's emptiness test reads the counter and not the pointer. Counts and capacities are
  64-bit words. The hasher (\<open>std::hash<KeyT>\<close> or the user's functor) is an argument.
\<close>

subsection \<open>State\<close>

record ('k, 'v) entry =
  key :: 'k
  val :: 'v

record ('k, 'v) bucket =
  first :: "('k, 'v) entry list"
  b_items :: size_t

record ('k, 'v) hmap =
  n_items :: size_t
  capacity :: size_t
  max_capacity :: size_t
  buckets :: "('k, 'v) bucket list"

definition new_entry :: "'k \<Rightarrow> 'v \<Rightarrow> ('k, 'v) entry" where
  "new_entry k v = \<lparr>key = k, val = v\<rparr>"

definition new_bucket :: "('k, 'v) bucket" where
  "new_bucket = \<lparr>first = [], b_items = 0\<rparr>"

definition DEFAULT_INIT_CAPACITY :: size_t where
  "DEFAULT_INIT_CAPACITY = 16"

definition DEFAULT_MAX_CAPACITY :: size_t where
  "DEFAULT_MAX_CAPACITY = - 1"

subsection \<open>Construction\<close>

definition Map_new :: "size_t \<Rightarrow> ('k, 'v) hmap res" where
  "Map_new mc =
     (if mc = 0 then Inl (RuntimeError ''maximum capacity must be nonzero'')
      else let init_capacity =
             drop_bit 1 (next_power_of_2 (min DEFAULT_INIT_CAPACITY mc))
           in Inr \<lparr>n_items = 0, capacity = init_capacity, max_capacity = mc,
                   buckets = replicate (unat init_capacity) new_bucket\<rparr>)"

definition Map_default :: "('k, 'v) hmap res" where
  "Map_default = Map_new DEFAULT_MAX_CAPACITY"

subsection \<open>Lookup\<close>

definition bucket_index :: "('k \<Rightarrow> size_t) \<Rightarrow> size_t \<Rightarrow> 'k \<Rightarrow> size_t" where
  "bucket_index hasher cap k = hasher k AND (cap - 1)"

definition bucket_index_for_key :: "('k \<Rightarrow> size_t) \<Rightarrow> ('k, 'v) hmap \<Rightarrow> 'k \<Rightarrow> size_t" where
  "bucket_index_for_key hasher m k = bucket_index hasher (capacity m) k"

definition bucket_for :: "('k \<Rightarrow> size_t) \<Rightarrow> ('k, 'v) hmap \<Rightarrow> 'k \<Rightarrow> ('k, 'v) bucket res" where
  "bucket_for hasher m k = array_get (buckets m) (unat (bucket_index_for_key hasher m k))"

text \<open>
  The loop that \<open>lookup\<close>, \<open>insert\<close> and \<open>update\<close> share: from \<open>bucket.first\<close> along \<open>next\<close>, the
  first entry with this key, \<open>None\<close> at the end of the chain. It reads \<open>entry->key\<close> before it
  tests any pointer, so it dereferences a null \<open>first\<close>.
\<close>

fun chain_find :: "'k \<Rightarrow> ('k, 'v) entry list \<Rightarrow> ('k, 'v) entry option res" where
  "chain_find k [] = Inl NullDeref"
| "chain_find k (e # es) =
     (if k = key e then Inr (Some e)
      else if es = [] then Inr None
      else chain_find k es)"

text \<open>\<open>LookupKVResult\<close>: a pair of pointers into the entry, both null when nothing was found.\<close>

type_synonym ('k, 'v) lookup_result = "('k, 'v) entry option"

definition lookup_get_key :: "('k, 'v) lookup_result \<Rightarrow> 'k res" where
  "lookup_get_key r = (case r of None \<Rightarrow> Inl NullDeref | Some e \<Rightarrow> Inr (key e))"

definition lookup_get_value :: "('k, 'v) lookup_result \<Rightarrow> 'v res" where
  "lookup_get_value r = (case r of None \<Rightarrow> Inl NullDeref | Some e \<Rightarrow> Inr (val e))"

definition lookup_bool :: "('k, 'v) lookup_result \<Rightarrow> bool" where
  "lookup_bool r \<longleftrightarrow> r \<noteq> None"

definition lookup_kv ::
  "('k \<Rightarrow> size_t) \<Rightarrow> ('k, 'v) hmap \<Rightarrow> 'k \<Rightarrow> ('k, 'v) lookup_result res" where
  "lookup_kv hasher m k =
     bindE (bucket_for hasher m k) (\<lambda>bucket.
       if b_items bucket = 0 then Inr None
       else chain_find k (first bucket))"

fun sequential_multilookup ::
  "('k \<Rightarrow> size_t) \<Rightarrow> ('k, 'v) hmap \<Rightarrow> 'k list \<Rightarrow> ('k, 'v) lookup_result list res" where
  "sequential_multilookup hasher m [] = Inr []"
| "sequential_multilookup hasher m (k # ks) =
     bindE (lookup_kv hasher m k) (\<lambda>r.
       bindE (sequential_multilookup hasher m ks) (\<lambda>rs. Inr (r # rs)))"

subsection \<open>Resizing\<close>

text \<open>
  The load factor is a quotient of doubles. The model takes the exact quotient: \<open>n_items\<close> up to
  \<open>2^53\<close> converts exactly and \<open>capacity\<close> is a power of two, so the division only changes the
  exponent; with a zero capacity the quotient is infinite (or not a number when the map is
  empty, which compares false).
\<close>

definition load_factor_exceeded :: "size_t \<Rightarrow> size_t \<Rightarrow> bool" where
  "load_factor_exceeded n c \<longleftrightarrow>
     (if c = 0 then n \<noteq> 0 else rat_of_nat (unat n) / rat_of_nat (unat c) > 1 / 2)"

definition resize_required :: "('k, 'v) hmap \<Rightarrow> bool" where
  "resize_required m \<longleftrightarrow>
     (let load_factor_exceeded = load_factor_exceeded (n_items m) (capacity m);
          capacity_available = push_bit 1 (capacity m) \<le> max_capacity m
      in load_factor_exceeded \<and> capacity_available)"

definition insert_into_bucket :: "('k, 'v) bucket \<Rightarrow> ('k, 'v) entry \<Rightarrow> ('k, 'v) bucket" where
  "insert_into_bucket b e = b\<lparr>first := first b @ [e], b_items := b_items b + 1\<rparr>"

fun move_chain :: "('k \<Rightarrow> size_t) \<Rightarrow> size_t \<Rightarrow> ('k, 'v) entry list \<Rightarrow> ('k, 'v) bucket list \<Rightarrow>
    ('k, 'v) bucket list res" where
  "move_chain hasher new_capacity [] nbs = Inr nbs"
| "move_chain hasher new_capacity (e # es) nbs =
     (let new_index = unat (bucket_index hasher new_capacity (key e))
      in bindE (array_get nbs new_index) (\<lambda>new_bucket.
           move_chain hasher new_capacity es
             (nbs[new_index := insert_into_bucket new_bucket e])))"

fun move_buckets :: "('k \<Rightarrow> size_t) \<Rightarrow> size_t \<Rightarrow> ('k, 'v) bucket list \<Rightarrow> nat list \<Rightarrow>
    ('k, 'v) bucket list \<Rightarrow> ('k, 'v) bucket list res" where
  "move_buckets hasher new_capacity bs [] nbs = Inr nbs"
| "move_buckets hasher new_capacity bs (i # is) nbs =
     bindE (array_get bs i) (\<lambda>bucket.
       bindE (move_chain hasher new_capacity (first bucket) nbs) (\<lambda>nbs'.
         move_buckets hasher new_capacity bs is nbs'))"

definition perform_resize_if_required ::
  "('k \<Rightarrow> size_t) \<Rightarrow> ('k, 'v) hmap \<Rightarrow> ('k, 'v) hmap res" where
  "perform_resize_if_required hasher m =
     (if \<not> resize_required m then Inr m
      else let new_capacity = push_bit 1 (capacity m);
               new_buckets = replicate (unat new_capacity) new_bucket
           in bindE (move_buckets hasher new_capacity (buckets m) [0 ..< unat (capacity m)]
                       new_buckets) (\<lambda>nbs.
                Inr (m\<lparr>buckets := nbs, capacity := new_capacity\<rparr>)))"

subsection \<open>Insertion, update and removal\<close>

text \<open>\<open>InsertKVResult\<close>: the key, the value and whether the map took the pair.\<close>

record ('k, 'v) insert_result =
  ins_key :: 'k
  ins_value :: 'v
  inserted :: bool

definition put_bucket :: "('k \<Rightarrow> size_t) \<Rightarrow> ('k, 'v) hmap \<Rightarrow> 'k \<Rightarrow> ('k, 'v) bucket \<Rightarrow>
    ('k, 'v) hmap" where
  "put_bucket hasher m k b =
     m\<lparr>buckets := (buckets m)[unat (bucket_index_for_key hasher m k) := b]\<rparr>"

definition insert_kv :: "('k \<Rightarrow> size_t) \<Rightarrow> 'k \<Rightarrow> 'v \<Rightarrow> ('k, 'v) hmap \<Rightarrow>
    (('k, 'v) hmap \<times> ('k, 'v) insert_result) res" where
  "insert_kv hasher k v m =
     bindE (bucket_for hasher m k) (\<lambda>bucket.
       if b_items bucket = 0 then
         let m' = put_bucket hasher m k
               (bucket\<lparr>first := [new_entry k v], b_items := b_items bucket + 1\<rparr>)
         in bindE (perform_resize_if_required hasher (m'\<lparr>n_items := n_items m' + 1\<rparr>)) (\<lambda>m''.
              Inr (m'', \<lparr>ins_key = k, ins_value = v, inserted = True\<rparr>))
       else
         bindE (chain_find k (first bucket)) (\<lambda>found.
           case found of
             Some e \<Rightarrow> Inr (m, \<lparr>ins_key = key e, ins_value = val e, inserted = False\<rparr>)
           | None \<Rightarrow>
               let m' = put_bucket hasher m k (bucket\<lparr>first := first bucket @ [new_entry k v],
                          b_items := b_items bucket + 1\<rparr>)
               in bindE (perform_resize_if_required hasher (m'\<lparr>n_items := n_items m' + 1\<rparr>))
                    (\<lambda>m''. Inr (m'', \<lparr>ins_key = k, ins_value = v, inserted = True\<rparr>))))"

fun chain_set :: "'k \<Rightarrow> 'v \<Rightarrow> ('k, 'v) entry list \<Rightarrow> ('k, 'v) entry list" where
  "chain_set k v [] = []"
| "chain_set k v (e # es) = (if k = key e then e\<lparr>val := v\<rparr> # es else e # chain_set k v es)"

definition update_kv :: "('k \<Rightarrow> size_t) \<Rightarrow> 'k \<Rightarrow> 'v \<Rightarrow> ('k, 'v) hmap \<Rightarrow>
    (('k, 'v) hmap \<times> ('k, 'v) insert_result) res" where
  "update_kv hasher k v m =
     bindE (bucket_for hasher m k) (\<lambda>bucket.
       if b_items bucket = 0 then
         let m' = put_bucket hasher m k
               (bucket\<lparr>first := [new_entry k v], b_items := b_items bucket + 1\<rparr>)
         in bindE (perform_resize_if_required hasher (m'\<lparr>n_items := n_items m' + 1\<rparr>)) (\<lambda>m''.
              Inr (m'', \<lparr>ins_key = k, ins_value = v, inserted = True\<rparr>))
       else
         bindE (chain_find k (first bucket)) (\<lambda>found.
           case found of
             Some e \<Rightarrow>
               Inr (put_bucket hasher m k (bucket\<lparr>first := chain_set k v (first bucket)\<rparr>),
                    \<lparr>ins_key = key e, ins_value = v, inserted = True\<rparr>)
           | None \<Rightarrow>
               let m' = put_bucket hasher m k (bucket\<lparr>first := first bucket @ [new_entry k v],
                          b_items := b_items bucket + 1\<rparr>)
               in bindE (perform_resize_if_required hasher (m'\<lparr>n_items := n_items m' + 1\<rparr>))
                    (\<lambda>m''. Inr (m'', \<lparr>ins_key = k, ins_value = v, inserted = True\<rparr>))))"

text \<open>
  The loop of \<open>remove\<close>. \<open>prev\<close> is the entry before the current one, with the entries before it
  (\<open>Some pre\<close>), or null; the code initialises it to null and never assigns it. The result is
  the removed entry and the chain that is left.
\<close>

fun remove_loop :: "'k \<Rightarrow> ('k, 'v) entry list option \<Rightarrow> ('k, 'v) entry list \<Rightarrow>
    (('k, 'v) entry \<times> ('k, 'v) entry list) option res" where
  "remove_loop k prev [] = Inl NullDeref"
| "remove_loop k prev (e # es) =
     (if k = key e then
        Inr (Some (e, case prev of Some pre \<Rightarrow> pre @ es | None \<Rightarrow> es))
      else if es = [] then Inr None
      else remove_loop k prev es)"

text \<open>\<open>RemoveKVResult\<close>: the key and the value moved out of the entry, or nothing.\<close>

type_synonym ('k, 'v) remove_result = "('k \<times> 'v) option"

definition remove_kv :: "('k \<Rightarrow> size_t) \<Rightarrow> 'k \<Rightarrow> ('k, 'v) hmap \<Rightarrow>
    (('k, 'v) hmap \<times> ('k, 'v) remove_result) res" where
  "remove_kv hasher k m =
     bindE (bucket_for hasher m k) (\<lambda>bucket.
       if b_items bucket = 0 then Inr (m, None)
       else
         bindE (remove_loop k None (first bucket)) (\<lambda>found.
           case found of
             None \<Rightarrow> Inr (m, None)
           | Some (e, rest) \<Rightarrow>
               let m' = put_bucket hasher m k
                     (bucket\<lparr>first := rest, b_items := b_items bucket - 1\<rparr>)
               in Inr (m'\<lparr>n_items := n_items m' - 1\<rparr>, Some (key e, val e))))"

subsection \<open>Counting\<close>

definition count_items :: "('k, 'v) hmap \<Rightarrow> size_t" where
  "count_items m = n_items m"

record stats_result =
  st_count :: size_t
  st_capacity :: size_t
  st_max_capacity :: size_t
  st_load_factor :: rat
  st_min_bucket_depth :: size_t
  st_max_bucket_depth :: size_t
  st_avg_bucket_depth :: size_t

fun depth_loop :: "('k, 'v) bucket list \<Rightarrow> nat list \<Rightarrow> size_t \<times> size_t \<times> size_t \<Rightarrow>
    (size_t \<times> size_t \<times> size_t) res" where
  "depth_loop bs [] acc = Inr acc"
| "depth_loop bs (i # is) (min_length, max_length, sum_length) =
     bindE (array_get bs i) (\<lambda>bucket.
       depth_loop bs is (min (b_items bucket) min_length, max (b_items bucket) max_length,
         sum_length + b_items bucket))"

definition stats :: "('k, 'v) hmap \<Rightarrow> stats_result res" where
  "stats m =
     bindE (depth_loop (buckets m) [0 ..< unat (capacity m)] (- 1, 0, 0))
       (\<lambda>(min_length, max_length, sum_length).
         if capacity m = 0 then Inl DivByZero
         else Inr \<lparr>st_count = n_items m, st_capacity = capacity m,
           st_max_capacity = max_capacity m,
           st_load_factor = rat_of_nat (unat (n_items m)) / rat_of_nat (unat (capacity m)),
           st_min_bucket_depth = min_length, st_max_bucket_depth = max_length,
           st_avg_bucket_depth = sum_length div capacity m\<rparr>)"

subsection \<open>The invariant and the contents\<close>

text \<open>
  \<open>bucket_ok\<close>: the counter is the length of the chain, the keys of a chain are distinct and all
  hash to the bucket. \<open>hm_inv\<close> adds that the capacity is a power of two and the length of the
  array, within the maximum, and that \<open>n_items\<close> is the number of entries.
\<close>

definition bucket_ok :: "('k \<Rightarrow> size_t) \<Rightarrow> size_t \<Rightarrow> nat \<Rightarrow> ('k, 'v) bucket \<Rightarrow> bool" where
  "bucket_ok hasher cap i b \<longleftrightarrow>
     b_items b = of_nat (length (first b)) \<and> distinct (map key (first b)) \<and>
     (\<forall>e \<in> set (first b). unat (bucket_index hasher cap (key e)) = i)"

definition all_entries :: "('k, 'v) bucket list \<Rightarrow> ('k, 'v) entry list" where
  "all_entries bs = concat (map first bs)"

definition hm_inv :: "('k \<Rightarrow> size_t) \<Rightarrow> ('k, 'v) hmap \<Rightarrow> bool" where
  "hm_inv hasher m \<longleftrightarrow>
     (\<exists>e < 64. unat (capacity m) = 2 ^ e) \<and>
     length (buckets m) = unat (capacity m) \<and>
     capacity m \<le> max_capacity m \<and>
     unat (n_items m) = length (all_entries (buckets m)) \<and>
     (\<forall>i < length (buckets m). bucket_ok hasher (capacity m) i (buckets m ! i))"

definition alist :: "('k, 'v) entry list \<Rightarrow> ('k \<times> 'v) list" where
  "alist es = map (\<lambda>e. (key e, val e)) es"

definition contents :: "('k \<Rightarrow> size_t) \<Rightarrow> ('k, 'v) hmap \<Rightarrow> 'k \<rightharpoonup> 'v" where
  "contents hasher m k =
     map_of (alist (first (buckets m ! unat (bucket_index_for_key hasher m k)))) k"

subsection \<open>Chains\<close>

lemma alist_simps [hm_simps]:
  "alist [] = []"
  "alist (e # es) = (key e, val e) # alist es"
  "alist (xs @ ys) = alist xs @ alist ys"
  by (simp_all add: alist_def)

lemma dom_alist [hm_simps]: "dom (map_of (alist es)) = key ` set es"
  by (simp add: alist_def dom_map_of_conv_image_fst image_image)

lemma alist_None_iff [hm_simps]: "map_of (alist es) k = None \<longleftrightarrow> k \<notin> key ` set es"
  by (simp add: dom_alist [symmetric] domIff)

lemma chain_find_eq:
  "es \<noteq> [] \<Longrightarrow> chain_find k es = Inr (List.find (\<lambda>e. k = key e) es)"
  by (induction k es rule: chain_find.induct) auto

lemma find_contents: "map_option val (List.find (\<lambda>e. k = key e) es) = map_of (alist es) k"
  by (induction es) (auto simp: hm_simps)

lemma find_key: "List.find (\<lambda>e. k = key e) es = Some e \<Longrightarrow> key e = k \<and> e \<in> set es"
  by (auto simp: find_Some_iff)

lemma chain_set_keys [hm_simps]: "map key (chain_set k v es) = map key es"
  by (induction es) auto

lemma chain_set_contents [hm_simps]:
  "k \<in> key ` set es \<Longrightarrow> map_of (alist (chain_set k v es)) = (map_of (alist es))(k \<mapsto> v)"
  by (induction es) (auto simp: hm_simps)

lemma length_chain_set [hm_simps]: "length (chain_set k v es) = length es"
  using chain_set_keys [of k v es] by (metis length_map)

text \<open>Whether a bucket is well formed depends on its keys and its counter alone.\<close>

lemma bucket_ok_keys:
  "bucket_ok hasher c i b \<longleftrightarrow>
     b_items b = of_nat (length (map key (first b))) \<and> distinct (map key (first b)) \<and>
     (\<forall>k \<in> set (map key (first b)). unat (bucket_index hasher c k) = i)"
  by (simp add: bucket_ok_def)

lemma remove_loop_eq:
  "es \<noteq> [] \<Longrightarrow> remove_loop k None es =
     Inr (case dropWhile (\<lambda>e. k \<noteq> key e) es of [] \<Rightarrow> None | e # rest \<Rightarrow> Some (e, rest))"
  by (induction es) auto

lemma remove_loop_None:
  "es \<noteq> [] \<Longrightarrow> k \<notin> key ` set es \<Longrightarrow> remove_loop k None es = Inr None"
  by (induction es) auto

subsection \<open>Indices\<close>

lemma bucket_index_mod:
  assumes "unat cap = 2 ^ e"
  shows "unat (bucket_index hasher cap k) = unat (hasher k) mod 2 ^ e"
proof -
  have pos: "0 < unat cap" using assms by simp
  have e: "e < 64" using assms unat_size_bound [of cap]
    by (metis linorder_not_less nat_power_less_imp_less numeral_2_eq_2 zero_less_Suc
        power_increasing_iff one_less_numeral_iff semiring_norm(76) not_le)
  have "cap = 2 ^ e"
    using assms unat_exp_size [OF e] by (metis word_unat_eq_iff)
  then have "bucket_index hasher cap k = take_bit e (hasher k)"
    by (simp add: bucket_index_def take_bit_eq_mask mask_eq_exp_minus_1)
  then show ?thesis by (simp add: unsigned_take_bit_eq take_bit_nat_def)
qed

lemma bucket_index_less:
  "unat cap = 2 ^ e \<Longrightarrow> unat (bucket_index hasher cap k) < unat cap"
  by (simp add: bucket_index_mod)

lemma bucket_for_inv:
  assumes "hm_inv hasher m"
  shows "unat (bucket_index_for_key hasher m k) < length (buckets m)"
    and "bucket_for hasher m k = Inr (buckets m ! unat (bucket_index_for_key hasher m k))"
  using assms bucket_index_less [of "capacity m" _ hasher k]
  by (auto simp: hm_inv_def bucket_for_def bucket_index_for_key_def)

lemma length_chain_le:
  assumes "i < length bs"
  shows "length (first (bs ! i)) \<le> length (all_entries bs)"
proof -
  have "length (first (bs ! i)) \<in> set (map (\<lambda>b. length (first b)) bs)" using assms by simp
  then have "length (first (bs ! i)) \<le> sum_list (map (\<lambda>b. length (first b)) bs)"
    by (rule member_le_sum_list) simp_all
  then show ?thesis by (simp add: all_entries_def length_concat comp_def)
qed

lemma b_items_zero_iff:
  assumes "hm_inv hasher m" "i < length (buckets m)"
  shows "b_items (buckets m ! i) = 0 \<longleftrightarrow> first (buckets m ! i) = []"
proof -
  let ?n = "length (first (buckets m ! i))"
  have "?n < 2 ^ 64"
    using assms length_chain_le [of i "buckets m"] unat_size_bound [of "n_items m"]
    by (auto simp: hm_inv_def)
  moreover have "b_items (buckets m ! i) = of_nat ?n"
    using assms by (auto simp: hm_inv_def bucket_ok_def)
  ultimately show ?thesis using unat_of_nat_size [of ?n] by (metis length_0_conv unat_0 unat_eq_zero)
qed

subsection \<open>Lookup\<close>

lemma lookup_kv_eq:
  assumes "hm_inv hasher m"
  shows "lookup_kv hasher m k =
    Inr (List.find (\<lambda>e. k = key e) (first (buckets m ! unat (bucket_index_for_key hasher m k))))"
  using assms bucket_for_inv [OF assms, of k]
    b_items_zero_iff [OF assms, of "unat (bucket_index_for_key hasher m k)"]
  by (simp add: lookup_kv_def chain_find_eq)

lemma lookup_kv_contents:
  assumes "hm_inv hasher m"
  shows "\<exists>r. lookup_kv hasher m k = Inr r \<and> map_option val r = contents hasher m k \<and>
             (\<forall>e. r = Some e \<longrightarrow> key e = k)"
  using lookup_kv_eq [OF assms, of k]
  by (auto simp: contents_def find_contents dest: find_key)

subsection \<open>Replacing one bucket\<close>

lemma length_all_entries: "length (all_entries bs) = sum_list (map (\<lambda>b. length (first b)) bs)"
  by (simp add: all_entries_def length_concat comp_def)

lemma length_all_entries_update:
  assumes "i < length bs"
  shows "length (all_entries (bs[i := b])) + length (first (bs ! i)) =
         length (all_entries bs) + length (first b)"
proof -
  have "length (first (bs ! i)) \<le> sum_list (map (\<lambda>b. length (first b)) bs)"
    using length_chain_le [OF assms] by (simp add: length_all_entries)
  then show ?thesis
    using assms by (simp add: length_all_entries map_update sum_list_update)
qed

lemma hm_inv_put_bucket:
  assumes inv: "hm_inv hasher m"
    and ok: "bucket_ok hasher (capacity m) (unat (bucket_index_for_key hasher m k)) b"
    and n: "unat n + length (first (buckets m ! unat (bucket_index_for_key hasher m k))) =
            unat (n_items m) + length (first b)"
  shows "hm_inv hasher ((put_bucket hasher m k b)\<lparr>n_items := n\<rparr>)"
proof -
  let ?i = "unat (bucket_index_for_key hasher m k)"
  have i: "?i < length (buckets m)" by (rule bucket_for_inv(1) [OF inv])
  have "unat n = length (all_entries ((buckets m)[?i := b]))"
    using n length_all_entries_update [OF i, of b] inv by (simp add: hm_inv_def)
  then show ?thesis
    using inv ok i by (auto simp: hm_inv_def put_bucket_def nth_list_update)
qed

lemma contents_put_bucket:
  assumes inv: "hm_inv hasher m"
    and other: "\<And>k'. k' \<noteq> k \<Longrightarrow> map_of (alist (first b)) k' =
      map_of (alist (first (buckets m ! unat (bucket_index_for_key hasher m k)))) k'"
  shows "contents hasher ((put_bucket hasher m k b)\<lparr>n_items := n\<rparr>) =
         (contents hasher m) (k := map_of (alist (first b)) k)"
  using bucket_for_inv(1) [OF inv] other
  by (auto simp: contents_def put_bucket_def bucket_index_for_key_def nth_list_update fun_eq_iff)

lemma contents_n_items [hm_simps]: "contents hasher (m\<lparr>n_items := n\<rparr>) = contents hasher m"
  by (simp add: contents_def bucket_index_for_key_def fun_eq_iff)

subsection \<open>Resizing\<close>

lemma load_factor_exceeded_iff:
  "c \<noteq> 0 \<Longrightarrow> load_factor_exceeded n c \<longleftrightarrow> unat c < 2 * unat n"
proof -
  assume "c \<noteq> 0"
  then have "0 < unat c" by (simp add: unat_gt_0)
  then have pos: "rat_of_nat (unat c) > 0" by (simp only: of_nat_0_less_iff)
  have "load_factor_exceeded n c \<longleftrightarrow> rat_of_nat (unat c) < 2 * rat_of_nat (unat n)"
    using \<open>c \<noteq> 0\<close> pos by (simp add: load_factor_exceeded_def field_simps)
  also have "\<dots> \<longleftrightarrow> rat_of_nat (unat c) < rat_of_nat (2 * unat n)" by simp
  also have "\<dots> \<longleftrightarrow> unat c < 2 * unat n" by (rule of_nat_less_iff)
  finally show ?thesis .
qed

text \<open>Moving one chain distributes its entries, in order, over the new buckets.\<close>

definition add_chain :: "('k \<Rightarrow> size_t) \<Rightarrow> size_t \<Rightarrow> ('k, 'v) entry list \<Rightarrow> nat \<Rightarrow>
    ('k, 'v) bucket \<Rightarrow> ('k, 'v) bucket" where
  "add_chain hasher c es j b =
     (let new = filter (\<lambda>e. unat (bucket_index hasher c (key e)) = j) es
      in b\<lparr>first := first b @ new, b_items := b_items b + of_nat (length new)\<rparr>)"

lemma add_chain_simps [hm_simps]:
  "add_chain hasher c [] j b = b"
  "unat (bucket_index hasher c (key e)) = j \<Longrightarrow>
     add_chain hasher c (e # es) j b = add_chain hasher c es j (insert_into_bucket b e)"
  "unat (bucket_index hasher c (key e)) \<noteq> j \<Longrightarrow>
     add_chain hasher c (e # es) j b = add_chain hasher c es j b"
  "add_chain hasher c (xs @ ys) j b = add_chain hasher c ys j (add_chain hasher c xs j b)"
  by (simp_all add: add_chain_def insert_into_bucket_def Let_def add.assoc)

lemma move_chain_eq:
  assumes "\<And>k. unat (bucket_index hasher c k) < length nbs"
  shows "\<exists>nbs'. move_chain hasher c es nbs = Inr nbs' \<and> length nbs' = length nbs \<and>
           (\<forall>j < length nbs. nbs' ! j = add_chain hasher c es j (nbs ! j))"
  using assms
proof (induction es arbitrary: nbs)
  case (Cons e es)
  let ?j = "unat (bucket_index hasher c (key e))"
  let ?nbs = "nbs[?j := insert_into_bucket (nbs ! ?j) e]"
  obtain nbs' where "move_chain hasher c es ?nbs = Inr nbs'" "length nbs' = length ?nbs"
      "\<forall>j < length ?nbs. nbs' ! j = add_chain hasher c es j (?nbs ! j)"
    using Cons.IH [of ?nbs] Cons.prems by auto
  with Cons.prems show ?case
    by (auto simp: Let_def hm_simps nth_list_update)
qed (simp add: hm_simps)

lemma move_buckets_eq:
  assumes "\<And>k. unat (bucket_index hasher c k) < length nbs"
    and "\<forall>i \<in> set is. i < length bs"
  shows "\<exists>nbs'. move_buckets hasher c bs is nbs = Inr nbs' \<and> length nbs' = length nbs \<and>
           (\<forall>j < length nbs. nbs' ! j =
              add_chain hasher c (concat (map (\<lambda>i. first (bs ! i)) is)) j (nbs ! j))"
  using assms
proof (induction "is" arbitrary: nbs)
  case (Cons i "is")
  obtain nbs1 where 1: "move_chain hasher c (first (bs ! i)) nbs = Inr nbs1"
      "length nbs1 = length nbs"
      "\<forall>j < length nbs. nbs1 ! j = add_chain hasher c (first (bs ! i)) j (nbs ! j)"
    using move_chain_eq [OF Cons.prems(1)] by blast
  obtain nbs2 where "move_buckets hasher c bs is nbs1 = Inr nbs2" "length nbs2 = length nbs1"
      "\<forall>j < length nbs1. nbs2 ! j =
         add_chain hasher c (concat (map (\<lambda>i. first (bs ! i)) is)) j (nbs1 ! j)"
    using Cons.IH [of nbs1] Cons.prems 1(2) by auto
  with 1 Cons.prems show ?case by (auto simp: hm_simps)
qed (simp add: hm_simps)

lemma all_entries_nth: "all_entries bs = concat (map (\<lambda>i. first (bs ! i)) [0 ..< length bs])"
proof -
  have "map first bs = map (\<lambda>i. first (bs ! i)) [0 ..< length bs]"
    by (rule nth_equalityI) simp_all
  then show ?thesis by (simp add: all_entries_def)
qed

lemma distinct_all_entries:
  assumes "\<forall>i < length bs. bucket_ok hasher c i (bs ! i)"
  shows "distinct (map key (all_entries bs))"
proof -
  let ?f = "\<lambda>e. unat (bucket_index hasher c (key e))"
  have "distinct (map key (concat (map (\<lambda>i. first (bs ! i)) is)))"
    if "distinct is" "\<forall>i \<in> set is. i < length bs" for "is"
    using that
  proof (induction "is")
    case (Cons i "is")
    have "?f e = i" if "e \<in> set (first (bs ! i))" for e
      using that assms Cons.prems by (auto simp: bucket_ok_def)
    moreover have "?f e \<in> set is" if "e \<in> set (concat (map (\<lambda>i. first (bs ! i)) is))" for e
      using that assms Cons.prems by (auto simp: bucket_ok_def)
    ultimately have "key ` set (first (bs ! i)) \<inter>
        key ` set (concat (map (\<lambda>i. first (bs ! i)) is)) = {}"
      using Cons.prems(1) by fastforce
    then show ?case
      using Cons assms by (auto simp: bucket_ok_def)
  qed simp
  from this [of "[0 ..< length bs]"] show ?thesis
    by (simp add: all_entries_nth)
qed

lemma sum_filter_lengths:
  assumes "\<forall>e \<in> set es. f e < N"
  shows "sum_list (map (\<lambda>j. length (filter (\<lambda>e. f e = j) es)) [0 ..< N]) = length es"
  using assms
proof (induction es)
  case (Cons e es)
  have "sum_list (map (\<lambda>j. length (filter (\<lambda>e. f e = j) (e # es))) [0 ..< N]) =
      sum_list (map (\<lambda>j. (if f e = j then 1 else 0) +
        length (filter (\<lambda>e. f e = j) es)) [0 ..< N])"
    by (intro arg_cong [of _ _ sum_list] map_cong) auto
  also have "\<dots> = (\<Sum>j = 0 ..< N. if f e = j then 1 else 0) + length es"
    using Cons by (simp add: sum_list_addf sum_list_distinct_conv_sum_set interv_sum_list_conv_sum_set_nat)
  also have "\<dots> = length (e # es)" using Cons.prems by simp
  finally show ?case .
qed simp

lemma map_of_filter_key:
  assumes "\<forall>e \<in> set es. key e = k \<longrightarrow> P e"
  shows "map_of (alist (filter P es)) k = map_of (alist es) k"
  using assms by (induction es) (auto simp: hm_simps)

lemma map_of_all_entries:
  assumes ok: "\<forall>i < length bs. bucket_ok hasher c i (bs ! i)"
    and i: "unat (bucket_index hasher c k) < length bs"
  shows "map_of (alist (all_entries bs)) k =
         map_of (alist (first (bs ! unat (bucket_index hasher c k)))) k"
proof -
  let ?i = "unat (bucket_index hasher c k)"
  let ?P = "\<lambda>e. unat (bucket_index hasher c (key e)) = ?i"
  have "filter ?P (concat (map (\<lambda>j. first (bs ! j)) is)) =
      (if ?i \<in> set is then first (bs ! ?i) else [])"
    if "distinct is" "\<forall>j \<in> set is. j < length bs" for "is"
    using that
  proof (induction "is")
    case (Cons j "is")
    have "filter ?P (first (bs ! j)) = (if j = ?i then first (bs ! ?i) else [])"
      using ok Cons.prems by (auto simp: bucket_ok_def filter_id_conv filter_empty_conv)
    with Cons show ?case by auto
  qed simp
  from this [of "[0 ..< length bs]"] i have "filter ?P (all_entries bs) = first (bs ! ?i)"
    by (simp add: all_entries_nth)
  then show ?thesis
    using map_of_filter_key [of "all_entries bs" k ?P] by simp
qed

text \<open>
  A resize doubles the capacity and nothing else that can be observed: the invariant, the
  contents and the number of items stay. The bound on \<open>n_items\<close> rules out the shift overflowing.
\<close>

lemma double_capacity:
  assumes "hm_inv hasher m" "resize_required m" "unat (n_items m) < 2 ^ 62"
  shows "\<exists>e < 63. unat (capacity m) = 2 ^ e \<and> unat (push_bit 1 (capacity m)) = 2 ^ Suc e"
proof -
  obtain e where e: "e < 64" "unat (capacity m) = 2 ^ e" using assms(1) by (auto simp: hm_inv_def)
  then have "capacity m \<noteq> 0" by auto
  then have "unat (capacity m) < 2 * unat (n_items m)"
    using assms(2) by (simp add: resize_required_def load_factor_exceeded_iff)
  then have "(2::nat) ^ e < 2 ^ 63" using assms(3) e by simp
  then have lt: "e < 63" using power_less_imp_less_exp [of "2::nat" e 63] by simp
  have "capacity m = 2 ^ e" using e unat_exp_size [of e] by (metis word_unat_eq_iff)
  then have "push_bit 1 (capacity m) = 2 ^ Suc e" by (simp add: push_bit_eq_mult)
  then have "unat (push_bit 1 (capacity m)) = 2 ^ Suc e" using lt unat_exp_size [of "Suc e"] by simp
  with lt e show ?thesis by blast
qed

lemma perform_resize_inv:
  assumes inv: "hm_inv hasher m" and small: "unat (n_items m) < 2 ^ 62"
  shows "\<exists>m'. perform_resize_if_required hasher m = Inr m' \<and> hm_inv hasher m' \<and>
           contents hasher m' = contents hasher m \<and> n_items m' = n_items m \<and>
           max_capacity m' = max_capacity m \<and>
           capacity m' = (if resize_required m then push_bit 1 (capacity m) else capacity m)"
proof (cases "resize_required m")
  case False
  with inv show ?thesis by (simp add: perform_resize_if_required_def)
next
  case True
  let ?c = "push_bit 1 (capacity m)"
  let ?nbs = "replicate (unat ?c) new_bucket :: ('a, 'b) bucket list"
  let ?f = "\<lambda>e. unat (bucket_index hasher ?c (key e))"
  obtain e where e: "e < 63" "unat (capacity m) = 2 ^ e" "unat ?c = 2 ^ Suc e"
    using double_capacity [OF inv True small] by blast
  have len: "length (buckets m) = unat (capacity m)" using inv by (simp add: hm_inv_def)
  have idx: "unat (bucket_index hasher ?c k) < unat ?c" for k
    by (rule bucket_index_less [OF e(3)])
  obtain bs where bs: "move_buckets hasher ?c (buckets m) [0 ..< unat (capacity m)] ?nbs = Inr bs"
      "length bs = unat ?c"
      "\<forall>j < unat ?c. bs ! j = add_chain hasher ?c (all_entries (buckets m)) j new_bucket"
    using move_buckets_eq [of hasher ?c ?nbs "[0 ..< unat (capacity m)]" "buckets m"] idx len
    by (auto simp: all_entries_nth)
  let ?m = "m\<lparr>buckets := bs, capacity := ?c\<rparr>"
  have chain: "first (bs ! j) = filter (\<lambda>e. ?f e = j) (all_entries (buckets m))"
    if "j < unat ?c" for j
    using that bs(3) by (simp add: add_chain_def new_bucket_def Let_def)
  have distinct: "distinct (map key (all_entries (buckets m)))"
    using inv by (intro distinct_all_entries) (auto simp: hm_inv_def)
  have ok: "bucket_ok hasher ?c j (bs ! j)" if "j < unat ?c" for j
    using that bs(3) distinct
    by (auto simp: bucket_ok_def add_chain_def new_bucket_def Let_def distinct_map_filter)
  have "length (all_entries bs) = sum_list (map (\<lambda>j. length (first (bs ! j))) [0 ..< length bs])"
    by (simp add: all_entries_nth length_concat comp_def)
  also have "\<dots> = sum_list (map (\<lambda>j. length (filter (\<lambda>e. ?f e = j) (all_entries (buckets m))))
      [0 ..< unat ?c])"
    using chain bs(2) by (intro arg_cong [of _ _ sum_list] map_cong) auto
  also have "\<dots> = length (all_entries (buckets m))"
    using idx by (intro sum_filter_lengths) simp
  finally have count: "length (all_entries bs) = length (all_entries (buckets m))" .
  have "\<exists>e < 64. unat ?c = 2 ^ e" using e by (intro exI [of _ "Suc e"]) simp
  with count have "hm_inv hasher ?m"
    using inv ok bs(2) True by (simp add: hm_inv_def resize_required_def Let_def)
  moreover have "contents hasher ?m k = contents hasher m k" for k
  proof -
    have "contents hasher ?m k = map_of (alist (all_entries (buckets m))) k"
      using chain [OF idx [of k]] map_of_filter_key [of "all_entries (buckets m)" k
          "\<lambda>e. ?f e = unat (bucket_index hasher ?c k)"]
      by (simp add: contents_def bucket_index_for_key_def)
    also have "\<dots> = contents hasher m k"
      using inv bucket_index_less [OF e(2), of hasher k] len
      by (simp add: contents_def bucket_index_for_key_def hm_inv_def map_of_all_entries)
    finally show ?thesis .
  qed
  ultimately show ?thesis
    using True bs(1) by (auto simp: perform_resize_if_required_def Let_def fun_eq_iff)
qed

subsection \<open>Insertion and update\<close>

lemma b_items_of_chain:
  assumes "hm_inv hasher m"
  shows "b_items (buckets m ! unat (bucket_index_for_key hasher m k)) =
         of_nat (length (first (buckets m ! unat (bucket_index_for_key hasher m k))))"
  using assms bucket_for_inv(1) [OF assms, of k] by (auto simp: hm_inv_def bucket_ok_def)

lemma bucket_ok_for:
  "hm_inv hasher m \<Longrightarrow> bucket_ok hasher (capacity m) (unat (bucket_index_for_key hasher m k))
     (buckets m ! unat (bucket_index_for_key hasher m k))"
  using bucket_for_inv(1) [of hasher m k] by (simp add: hm_inv_def)

text \<open>Appending a pair for a key the chain does not have, then resizing if required.\<close>

lemma append_then_resize:
  fixes hasher :: "'k \<Rightarrow> size_t" and v :: "'v"
  assumes inv: "hm_inv hasher m" and small: "unat (n_items m) + 1 < 2 ^ 62"
    and b: "b = buckets m ! unat (bucket_index_for_key hasher m k)"
    and fresh: "k \<notin> key ` set (first b)"
  defines "m1 \<equiv> put_bucket hasher m k
      (b\<lparr>first := first b @ [new_entry k v], b_items := b_items b + 1\<rparr>)"
  shows "\<exists>m'. perform_resize_if_required hasher (m1\<lparr>n_items := n_items m1 + 1\<rparr>) = Inr m' \<and>
           hm_inv hasher m' \<and> contents hasher m' = (contents hasher m)(k \<mapsto> v) \<and>
           n_items m' = n_items m + 1 \<and> max_capacity m' = max_capacity m \<and>
           capacity m' = (if resize_required (m\<lparr>n_items := n_items m + 1\<rparr>)
                          then push_bit 1 (capacity m) else capacity m)"
proof -
  let ?b = "b\<lparr>first := first b @ [new_entry k v], b_items := b_items b + 1\<rparr>"
  have n1: "n_items m1 = n_items m" by (simp add: m1_def put_bucket_def)
  have un: "unat (n_items m + 1) = unat (n_items m) + 1"
    using small by (intro unat_Suc_size) simp
  have ok: "bucket_ok hasher (capacity m) (unat (bucket_index_for_key hasher m k)) ?b"
    using bucket_ok_for [OF inv, of k] fresh b
    by (auto simp: bucket_ok_def new_entry_def bucket_index_for_key_def)
  have inv1: "hm_inv hasher (m1\<lparr>n_items := n_items m1 + 1\<rparr>)"
    unfolding m1_def using n1 un b
    by (intro hm_inv_put_bucket [OF inv ok]) (simp add: m1_def)
  have "map_of (alist (first ?b)) k' = map_of (alist (first b)) k'" if "k' \<noteq> k" for k'
    using that by (simp add: alist_simps new_entry_def map_add_def split: option.splits)
  moreover have "map_of (alist (first ?b)) k = Some v"
    using fresh alist_None_iff [of "first b" k] by (simp add: alist_simps new_entry_def map_add_def)
  ultimately have "contents hasher (m1\<lparr>n_items := n_items m1 + 1\<rparr>) = (contents hasher m)(k \<mapsto> v)"
    unfolding m1_def using contents_put_bucket [OF inv, of k ?b] b by simp
  moreover have "unat (n_items (m1\<lparr>n_items := n_items m1 + 1\<rparr>)) < 2 ^ 62"
    using small un n1 by simp
  ultimately show ?thesis
    using perform_resize_inv [OF inv1] n1 by (auto simp: m1_def put_bucket_def resize_required_def)
qed

lemma insert_kv_inv:
  assumes inv: "hm_inv hasher m" and small: "unat (n_items m) + 1 < 2 ^ 62"
  shows "\<exists>m' r. insert_kv hasher k v m = Inr (m', r) \<and> hm_inv hasher m' \<and> ins_key r = k \<and>
           (case contents hasher m k of
              Some w \<Rightarrow> m' = m \<and> \<not> inserted r \<and> ins_value r = w
            | None \<Rightarrow> contents hasher m' = (contents hasher m)(k \<mapsto> v) \<and> inserted r \<and>
                ins_value r = v \<and> n_items m' = n_items m + 1 \<and> max_capacity m' = max_capacity m \<and>
                capacity m' = (if resize_required (m\<lparr>n_items := n_items m + 1\<rparr>)
                               then push_bit 1 (capacity m) else capacity m))"
proof -
  define b where "b = buckets m ! unat (bucket_index_for_key hasher m k)"
  have bf: "bucket_for hasher m k = Inr b" using bucket_for_inv(2) [OF inv] by (simp add: b_def)
  have z: "b_items b = 0 \<longleftrightarrow> first b = []"
    using b_items_zero_iff [OF inv bucket_for_inv(1) [OF inv]] by (simp add: b_def)
  have cont: "contents hasher m k = map_option val (List.find (\<lambda>e. k = key e) (first b))"
    by (simp add: contents_def find_contents b_def)
  show ?thesis
  proof (cases "List.find (\<lambda>e. k = key e) (first b)")
    case (Some e)
    then have "first b \<noteq> []" "key e = k" by (auto dest: find_key)
    with Some bf z cont inv show ?thesis by (simp add: insert_kv_def chain_find_eq)
  next
    case None
    then have "k \<notin> key ` set (first b)" by (auto simp: find_None_iff)
    then show ?thesis
      using append_then_resize [OF inv small b_def, of v] bf z cont None
      by (cases "first b = []") (auto simp: insert_kv_def chain_find_eq Let_def)
  qed
qed

lemma update_kv_inv:
  assumes inv: "hm_inv hasher m" and small: "unat (n_items m) + 1 < 2 ^ 62"
  shows "\<exists>m' r. update_kv hasher k v m = Inr (m', r) \<and> hm_inv hasher m' \<and>
           r = \<lparr>ins_key = k, ins_value = v, inserted = True\<rparr> \<and>
           contents hasher m' = (contents hasher m)(k \<mapsto> v) \<and>
           n_items m' = n_items m + (if contents hasher m k = None then 1 else 0) \<and>
           max_capacity m' = max_capacity m"
proof -
  define b where "b = buckets m ! unat (bucket_index_for_key hasher m k)"
  have bf: "bucket_for hasher m k = Inr b" using bucket_for_inv(2) [OF inv] by (simp add: b_def)
  have z: "b_items b = 0 \<longleftrightarrow> first b = []"
    using b_items_zero_iff [OF inv bucket_for_inv(1) [OF inv]] by (simp add: b_def)
  have cont: "contents hasher m k = map_option val (List.find (\<lambda>e. k = key e) (first b))"
    by (simp add: contents_def find_contents b_def)
  show ?thesis
  proof (cases "List.find (\<lambda>e. k = key e) (first b)")
    case (Some e)
    then have ne: "first b \<noteq> []" and k: "key e = k" and mem: "k \<in> key ` set (first b)"
      by (auto dest: find_key)
    let ?b = "b\<lparr>first := chain_set k v (first b)\<rparr>"
    have "bucket_ok hasher (capacity m) (unat (bucket_index_for_key hasher m k)) ?b"
      using bucket_ok_for [OF inv, of k] by (simp add: bucket_ok_keys chain_set_keys b_def)
    then have "hm_inv hasher ((put_bucket hasher m k ?b)\<lparr>n_items := n_items m\<rparr>)"
      by (intro hm_inv_put_bucket [OF inv]) (simp_all add: b_def hm_simps)
    moreover have "contents hasher ((put_bucket hasher m k ?b)\<lparr>n_items := n_items m\<rparr>) =
        (contents hasher m)(k \<mapsto> v)"
      using contents_put_bucket [OF inv, of k ?b "n_items m"] mem by (simp add: b_def hm_simps)
    moreover have "(put_bucket hasher m k ?b)\<lparr>n_items := n_items m\<rparr> = put_bucket hasher m k ?b"
      by (simp add: put_bucket_def)
    ultimately show ?thesis
      using Some ne k bf z cont by (simp add: update_kv_def chain_find_eq put_bucket_def)
  next
    case None
    then have "k \<notin> key ` set (first b)" by (auto simp: find_None_iff)
    then show ?thesis
      using append_then_resize [OF inv small b_def, of v] bf z cont None
      by (cases "first b = []") (auto simp: update_kv_def chain_find_eq Let_def)
  qed
qed

subsection \<open>Removal\<close>

text \<open>
  \<open>at_chain\<close> says where a key sits: after the entries \<open>pre\<close> of its bucket, before \<open>post\<close>.
\<close>

definition at_chain :: "('k \<Rightarrow> size_t) \<Rightarrow> ('k, 'v) hmap \<Rightarrow> 'k \<Rightarrow> ('k, 'v) entry list \<Rightarrow>
    ('k, 'v) entry \<Rightarrow> ('k, 'v) entry list \<Rightarrow> bool" where
  "at_chain hasher m k pre e post \<longleftrightarrow>
     first (buckets m ! unat (bucket_index_for_key hasher m k)) = pre @ e # post \<and>
     key e = k \<and> k \<notin> key ` set pre"

lemma at_chain_exists:
  assumes "contents hasher m k = Some v"
  shows "\<exists>pre e post. at_chain hasher m k pre e post \<and> val e = v"
proof -
  let ?es = "first (buckets m ! unat (bucket_index_for_key hasher m k))"
  have "\<exists>pre e post. es = pre @ e # post \<and> key e = k \<and> k \<notin> key ` set pre \<and> val e = v"
    if "map_of (alist es) k = Some v" for es
    using that
  proof (induction es)
    case (Cons e es)
    show ?case
    proof (cases "key e = k")
      case True
      with Cons.prems show ?thesis by (intro exI [of _ "[]"]) (auto simp: hm_simps)
    next
      case False
      with Cons obtain pre e' post where "es = pre @ e' # post" "key e' = k"
          "k \<notin> key ` set pre" "val e' = v" by (auto simp: hm_simps)
      with False show ?thesis
        by (intro exI [of _ "e # pre"] exI [of _ e'] exI [of _ post]) auto
    qed
  qed (simp add: hm_simps)
  from this [of ?es] assms show ?thesis by (auto simp: at_chain_def contents_def)
qed

lemma dropWhile_at:
  "key e = k \<Longrightarrow> k \<notin> key ` set pre \<Longrightarrow> dropWhile (\<lambda>e. k \<noteq> key e) (pre @ e # post) = e # post"
  by (induction pre) auto

lemma remove_kv_at:
  assumes inv: "hm_inv hasher m" and at: "at_chain hasher m k pre e post"
  shows "remove_kv hasher k m =
    Inr ((put_bucket hasher m k \<lparr>first = post, b_items = of_nat (length pre + length post)\<rparr>)
           \<lparr>n_items := n_items m - 1\<rparr>, Some (k, val e))"
proof -
  define b where "b = buckets m ! unat (bucket_index_for_key hasher m k)"
  have bf: "bucket_for hasher m k = Inr b" using bucket_for_inv(2) [OF inv] by (simp add: b_def)
  have chain: "first b = pre @ e # post" "key e = k" "k \<notin> key ` set pre"
    using at by (simp_all add: at_chain_def b_def)
  have "b_items b \<noteq> 0"
    using b_items_zero_iff [OF inv bucket_for_inv(1) [OF inv], of k] chain by (simp add: b_def)
  moreover have "b_items b - 1 = of_nat (length pre + length post)"
    using b_items_of_chain [OF inv, of k] chain by (simp add: b_def)
  moreover have "remove_loop k None (first b) = Inr (Some (e, post))"
    using chain remove_loop_eq [of "first b" k] dropWhile_at [of e k pre post] by simp
  ultimately show ?thesis
    using bf chain by (simp add: remove_kv_def Let_def put_bucket_def)
      (cases b, simp)
qed

lemma remove_kv_absent:
  assumes inv: "hm_inv hasher m" and "contents hasher m k = None"
  shows "remove_kv hasher k m = Inr (m, None)"
proof -
  define b where "b = buckets m ! unat (bucket_index_for_key hasher m k)"
  have bf: "bucket_for hasher m k = Inr b" using bucket_for_inv(2) [OF inv] by (simp add: b_def)
  have "k \<notin> key ` set (first b)" using assms(2) by (simp add: contents_def b_def hm_simps)
  then have "first b \<noteq> [] \<Longrightarrow> remove_loop k None (first b) = Inr None"
    by (rule remove_loop_None [rotated])
  moreover have "b_items b = 0 \<longleftrightarrow> first b = []"
    using b_items_zero_iff [OF inv bucket_for_inv(1) [OF inv]] by (simp add: b_def)
  ultimately show ?thesis using bf by (cases "first b = []") (simp_all add: remove_kv_def)
qed

lemma contents_remove_at:
  assumes inv: "hm_inv hasher m" and at: "at_chain hasher m k pre e post"
    and m': "remove_kv hasher k m = Inr (m', r)"
  shows "contents hasher m' k' =
    (if k' = k \<or> k' \<in> key ` set pre then None else contents hasher m k')"
proof -
  let ?i = "\<lambda>k. unat (bucket_index_for_key hasher m k)"
  have chain: "first (buckets m ! ?i k) = pre @ e # post" "key e = k" "k \<notin> key ` set pre"
    using at by (simp_all add: at_chain_def)
  have ok: "bucket_ok hasher (capacity m) (?i k) (buckets m ! ?i k)"
    by (rule bucket_ok_for [OF inv])
  have m'': "m' = (put_bucket hasher m k
      \<lparr>first = post, b_items = of_nat (length pre + length post)\<rparr>)\<lparr>n_items := n_items m - 1\<rparr>"
    using remove_kv_at [OF inv at] m' by simp
  show ?thesis
  proof (cases "?i k' = ?i k")
    case True
    then have "contents hasher m' k' = map_of (alist post) k'"
      using bucket_for_inv(1) [OF inv, of k]
      by (simp add: m'' contents_def put_bucket_def bucket_index_for_key_def)
    moreover have "contents hasher m k' = map_of (alist (pre @ e # post)) k'"
      using True chain by (simp add: contents_def)
    moreover have "distinct (map key (pre @ e # post))"
      using ok chain by (simp add: bucket_ok_def)
    ultimately show ?thesis
      using chain(2) alist_None_iff [of post k'] alist_None_iff [of pre k']
      by (auto simp: alist_simps map_add_def split: option.splits)
  next
    case False
    then have "contents hasher m' k' = contents hasher m k'"
      by (simp add: m'' contents_def put_bucket_def bucket_index_for_key_def)
    moreover have "k' \<noteq> k" using False by auto
    moreover have "k' \<notin> key ` set pre"
      using ok chain False by (auto simp: bucket_ok_def bucket_index_for_key_def)
    ultimately show ?thesis by simp
  qed
qed

lemma remove_head_inv:
  assumes inv: "hm_inv hasher m" and at: "at_chain hasher m k [] e post"
  shows "hm_inv hasher ((put_bucket hasher m k \<lparr>first = post, b_items = of_nat (length post)\<rparr>)
           \<lparr>n_items := n_items m - 1\<rparr>)"
proof (rule hm_inv_put_bucket [OF inv])
  let ?i = "unat (bucket_index_for_key hasher m k)"
  have chain: "first (buckets m ! ?i) = e # post" using at by (simp add: at_chain_def)
  show "bucket_ok hasher (capacity m) ?i \<lparr>first = post, b_items = of_nat (length post)\<rparr>"
    using bucket_ok_for [OF inv, of k] chain by (simp add: bucket_ok_def)
  have "0 < unat (n_items m)"
    using inv chain length_chain_le [OF bucket_for_inv(1) [OF inv, of k]]
    by (auto simp: hm_inv_def)
  then have "unat (n_items m - 1) = unat (n_items m) - 1"
    by (intro unat_pred_size) (auto simp: unat_gt_0)
  with chain \<open>0 < unat (n_items m)\<close>
  show "unat (n_items m - 1) + length (first (buckets m ! ?i)) =
      unat (n_items m) + length (first \<lparr>first = post, b_items = of_nat (length post)\<rparr>)"
    by simp
qed

lemma short_chain_not_inv:
  assumes "i < length (buckets m)" "length (first (buckets m ! i)) < n" "n < 2 ^ 64"
    and "b_items (buckets m ! i) = of_nat n"
  shows "\<not> hm_inv hasher m"
proof
  assume "hm_inv hasher m"
  then have "(of_nat n :: size_t) = of_nat (length (first (buckets m ! i)))"
    using assms(1,4) by (simp add: hm_inv_def bucket_ok_def)
  with assms(2,3) show False
    using unat_of_nat_size [of n] unat_of_nat_size [of "length (first (buckets m ! i))"] by simp
qed

lemma remove_kv_inv_iff:
  assumes inv: "hm_inv hasher m" and at: "at_chain hasher m k pre e post"
    and m': "remove_kv hasher k m = Inr (m', r)"
  shows "hm_inv hasher m' \<longleftrightarrow> pre = []"
proof
  assume "pre = []"
  then show "hm_inv hasher m'"
    using remove_kv_at [OF inv at] remove_head_inv [OF inv, of k e post] at m' by simp
next
  assume inv': "hm_inv hasher m'"
  let ?i = "unat (bucket_index_for_key hasher m k)"
  have i: "?i < length (buckets m)" by (rule bucket_for_inv(1) [OF inv])
  have m'': "m' = (put_bucket hasher m k
      \<lparr>first = post, b_items = of_nat (length pre + length post)\<rparr>)\<lparr>n_items := n_items m - 1\<rparr>"
    using remove_kv_at [OF inv at] m' by simp
  have "length pre + length post < 2 ^ 64"
    using at length_chain_le [OF i] inv unat_size_bound [of "n_items m"]
    by (simp add: at_chain_def hm_inv_def)
  then have "\<not> length post < length pre + length post"
    using short_chain_not_inv [of ?i m' "length pre + length post" hasher] inv' i
    by (auto simp: m'' put_bucket_def)
  then show "pre = []" by simp
qed

text \<open>
  When the key was the last of a chain of two or more, the chain is gone but the counter is not
  zero: the next operation on the bucket dereferences the null \<open>first\<close>.
\<close>

lemma lookup_after_bad_remove:
  assumes inv: "hm_inv hasher m" and at: "at_chain hasher m k pre e []" and "pre \<noteq> []"
    and m': "remove_kv hasher k m = Inr (m', r)"
    and same: "bucket_index_for_key hasher m k' = bucket_index_for_key hasher m k"
  shows "lookup_kv hasher m' k' = Inl NullDeref"
proof -
  let ?i = "unat (bucket_index_for_key hasher m k)"
  have i: "?i < length (buckets m)" by (rule bucket_for_inv(1) [OF inv])
  have m'': "m' = (put_bucket hasher m k
      \<lparr>first = [], b_items = of_nat (length pre)\<rparr>)\<lparr>n_items := n_items m - 1\<rparr>"
    using remove_kv_at [OF inv at] m' by simp
  have "length pre < 2 ^ 64"
    using at length_chain_le [OF i] inv unat_size_bound [of "n_items m"]
    by (simp add: at_chain_def hm_inv_def)
  then have "of_nat (length pre) \<noteq> (0 :: size_t)"
    using \<open>pre \<noteq> []\<close> unat_of_nat_size [of "length pre"] by auto
  moreover have "bucket_for hasher m' k' =
      Inr \<lparr>first = [], b_items = of_nat (length pre)\<rparr>"
    using i same by (simp add: m'' bucket_for_def put_bucket_def bucket_index_for_key_def)
  ultimately show ?thesis by (simp add: lookup_kv_def)
qed

subsection \<open>Construction and counting\<close>

lemma init_capacity:
  assumes "2 \<le> mc"
  shows "\<exists>e \<le> 3. unat (drop_bit 1 (next_power_of_2 (min DEFAULT_INIT_CAPACITY mc))) = 2 ^ e \<and>
           2 ^ e < min 16 (unat mc) \<and> min 16 (unat mc) \<le> 2 * 2 ^ e"
proof -
  let ?n = "min DEFAULT_INIT_CAPACITY mc"
  have n: "unat ?n = min 16 (unat mc)"
    by (simp add: DEFAULT_INIT_CAPACITY_def min_def word_le_nat_alt)
  have ge: "2 \<le> unat mc" using assms by (simp add: word_le_nat_alt)
  then have pos: "0 < ?n" using n by (auto simp: word_less_nat_alt)
  have "unat ?n \<le> 16" using n by simp
  then have small: "unat ?n \<le> 2 ^ 63" by (rule order_trans) simp
  obtain e where e: "e \<le> 63" "unat (next_power_of_2 ?n) = 2 ^ e" "unat ?n \<le> 2 ^ e"
      "\<forall>e'. unat ?n \<le> 2 ^ e' \<longrightarrow> e \<le> e'"
    using next_power_of_2_min [OF pos small] by blast
  have "e \<le> 4" using e(4) n by (auto dest: spec [of _ 4])
  have "e \<noteq> 0" using e(3) ge n by (cases e) auto
  then obtain d where d: "e = Suc d" by (cases e) auto
  have "2 ^ d < unat ?n" using e(4) d by (meson Suc_n_not_le_n linorder_not_less)
  moreover have "unat (drop_bit 1 (next_power_of_2 ?n)) = 2 ^ d"
    using e(2) d by (simp add: unat_half drop_bit_Suc)
  ultimately show ?thesis using \<open>e \<le> 4\<close> d e(3) n by auto
qed

lemma Map_new_inv:
  assumes "2 \<le> mc"
  shows "\<exists>m. Map_new mc = Inr m \<and> hm_inv hasher m \<and> contents hasher m = Map.empty \<and>
           n_items m = 0 \<and> max_capacity m = mc \<and>
           unat (capacity m) < min 16 (unat mc) \<and> min 16 (unat mc) \<le> 2 * unat (capacity m)"
proof -
  let ?c = "drop_bit 1 (next_power_of_2 (min DEFAULT_INIT_CAPACITY mc))"
  obtain e where e: "e \<le> 3" "unat ?c = 2 ^ e" "2 ^ e \<le> unat mc"
    using init_capacity [OF assms] by auto
  let ?m = "\<lparr>n_items = 0, capacity = ?c, max_capacity = mc,
     buckets = replicate (unat ?c) new_bucket\<rparr> :: ('a, 'b) hmap"
  have new: "Map_new mc = Inr ?m" using assms by (auto simp: Map_new_def Let_def)
  have small: "unat ?c < min 16 (unat mc) \<and> min 16 (unat mc) \<le> 2 * unat ?c"
    using init_capacity [OF assms] by fastforce
  have "\<exists>e < 64. unat ?c = 2 ^ e" using e by (intro exI [of _ e]) simp
  moreover have "?c \<le> mc" using e by (simp add: word_le_nat_alt)
  ultimately have "hm_inv hasher ?m"
    by (simp add: hm_inv_def bucket_ok_def new_bucket_def all_entries_def)
  moreover have "contents hasher ?m = Map.empty"
    using bucket_for_inv(1) [OF \<open>hm_inv hasher ?m\<close>]
    by (simp add: contents_def fun_eq_iff bucket_index_for_key_def new_bucket_def alist_def)
  ultimately show ?thesis using new small by simp
qed

lemma contents_all_entries:
  assumes "hm_inv hasher m"
  shows "contents hasher m k = map_of (alist (all_entries (buckets m))) k"
  using assms bucket_for_inv(1) [OF assms, of k]
    map_of_all_entries [of "buckets m" hasher "capacity m" k]
  by (simp add: contents_def bucket_index_for_key_def hm_inv_def)

lemma finite_contents:
  assumes "hm_inv hasher m"
  shows "finite (dom (contents hasher m))"
proof -
  have "contents hasher m = map_of (alist (all_entries (buckets m)))"
    by (rule ext) (rule contents_all_entries [OF assms])
  then show ?thesis by (simp add: finite_dom_map_of)
qed

lemma card_contents:
  assumes "hm_inv hasher m"
  shows "card (dom (contents hasher m)) = unat (n_items m)"
proof -
  have "dom (contents hasher m) = set (map key (all_entries (buckets m)))"
    using contents_all_entries [OF assms] dom_alist [of "all_entries (buckets m)"]
    by (simp add: dom_def)
  moreover have "distinct (map key (all_entries (buckets m)))"
    using assms by (intro distinct_all_entries) (auto simp: hm_inv_def)
  ultimately show ?thesis
    using assms distinct_card [of "map key (all_entries (buckets m))"] by (simp add: hm_inv_def)
qed

subsection \<open>Statistics\<close>

lemma depth_loop_eq:
  assumes "\<forall>i \<in> set is. i < length bs"
  shows "depth_loop bs is (lo, hi, s) =
    Inr (fold (\<lambda>i a. min (b_items (bs ! i)) a) is lo, fold (\<lambda>i a. max (b_items (bs ! i)) a) is hi,
         fold (\<lambda>i a. a + b_items (bs ! i)) is s)"
  using assms by (induction "is" arbitrary: lo hi s) auto

lemma fold_min_le:
  fixes f :: "nat \<Rightarrow> size_t"
  shows "fold (\<lambda>i a. min (f i) a) is lo \<le> lo" and
    "i \<in> set is \<Longrightarrow> fold (\<lambda>i a. min (f i) a) is lo \<le> f i"
proof -
  show le: "fold (\<lambda>i a. min (f i) a) is lo \<le> lo" for "is" lo
  proof (induction "is" arbitrary: lo)
    case (Cons j "is")
    from Cons [of "min (f j) lo"] show ?case by (auto intro: order_trans)
  qed simp
  show "i \<in> set is \<Longrightarrow> fold (\<lambda>i a. min (f i) a) is lo \<le> f i"
  proof (induction "is" arbitrary: lo)
    case (Cons j "is")
    with le [of "is" "min (f j) lo"] show ?case by (auto intro: order_trans)
  qed simp
qed

lemma fold_max_ge:
  fixes f :: "nat \<Rightarrow> size_t"
  shows "hi \<le> fold (\<lambda>i a. max (f i) a) is hi" and
    "i \<in> set is \<Longrightarrow> f i \<le> fold (\<lambda>i a. max (f i) a) is hi"
proof -
  show ge: "hi \<le> fold (\<lambda>i a. max (f i) a) is hi" for "is" hi
  proof (induction "is" arbitrary: hi)
    case (Cons j "is")
    from Cons [of "max (f j) hi"] show ?case by (auto intro: order_trans)
  qed simp
  show "i \<in> set is \<Longrightarrow> f i \<le> fold (\<lambda>i a. max (f i) a) is hi"
  proof (induction "is" arbitrary: hi)
    case (Cons j "is")
    with ge [of "max (f j) hi" "is"] show ?case by (auto intro: order_trans)
  qed simp
qed

lemma fold_add_of_nat:
  "fold (\<lambda>i a. a + (of_nat (g i) :: size_t)) is s = s + of_nat (sum_list (map g is))"
  by (induction "is" arbitrary: s) (simp_all add: add.assoc)

lemma b_items_nth:
  assumes "hm_inv hasher m" "i < length (buckets m)"
  shows "b_items (buckets m ! i) = of_nat (length (first (buckets m ! i)))"
    and "unat (b_items (buckets m ! i)) = length (first (buckets m ! i))"
proof -
  show eq: "b_items (buckets m ! i) = of_nat (length (first (buckets m ! i)))"
    using assms by (simp add: hm_inv_def bucket_ok_def)
  have "length (first (buckets m ! i)) < 2 ^ 64"
    using length_chain_le [OF assms(2)] assms(1) unat_size_bound [of "n_items m"]
    by (simp add: hm_inv_def)
  then show "unat (b_items (buckets m ! i)) = length (first (buckets m ! i))"
    unfolding eq by (rule unat_of_nat_size)
qed

lemma stats_inv:
  assumes inv: "hm_inv hasher m"
  shows "\<exists>s. stats m = Inr s \<and> st_count s = n_items m \<and> st_capacity s = capacity m \<and>
           unat (st_avg_bucket_depth s) = unat (n_items m) div unat (capacity m) \<and>
           (\<forall>i < length (buckets m).
              unat (st_min_bucket_depth s) \<le> length (first (buckets m ! i)) \<and>
              length (first (buckets m ! i)) \<le> unat (st_max_bucket_depth s))"
proof -
  let ?is = "[0 ..< unat (capacity m)]" and ?b = "\<lambda>i. b_items (buckets m ! i)"
  have len: "length (buckets m) = unat (capacity m)" and nz: "capacity m \<noteq> 0"
    using inv by (auto simp: hm_inv_def)
  have all: "\<forall>i \<in> set ?is. i < length (buckets m)" using len by simp
  have "fold (\<lambda>i a. a + ?b i) ?is 0 =
      fold (\<lambda>i a. a + of_nat (length (first (buckets m ! i)))) ?is 0"
    using b_items_nth(1) [OF inv] all by (intro fold_cong) auto
  also have "\<dots> = of_nat (sum_list (map (\<lambda>i. length (first (buckets m ! i))) ?is))"
    using fold_add_of_nat [of "\<lambda>i. length (first (buckets m ! i))" ?is 0] by simp
  also have "sum_list (map (\<lambda>i. length (first (buckets m ! i))) ?is) = unat (n_items m)"
    using inv len by (simp add: hm_inv_def all_entries_nth length_concat comp_def)
  finally have sum: "fold (\<lambda>i a. a + ?b i) ?is 0 = n_items m" by simp
  let ?s = "\<lparr>st_count = n_items m, st_capacity = capacity m, st_max_capacity = max_capacity m,
    st_load_factor = rat_of_nat (unat (n_items m)) / rat_of_nat (unat (capacity m)),
    st_min_bucket_depth = fold (\<lambda>i a. min (?b i) a) ?is (- 1),
    st_max_bucket_depth = fold (\<lambda>i a. max (?b i) a) ?is 0,
    st_avg_bucket_depth = n_items m div capacity m\<rparr>"
  have stats: "stats m = Inr ?s"
    using depth_loop_eq [OF all, of "- 1" 0 0] sum nz by (simp add: stats_def)
  have "unat (fold (\<lambda>i a. min (?b i) a) ?is (- 1)) \<le> length (first (buckets m ! i)) \<and>
      length (first (buckets m ! i)) \<le> unat (fold (\<lambda>i a. max (?b i) a) ?is 0)"
    if "i < length (buckets m)" for i
    using fold_min_le(2) [of i ?is ?b "- 1"] fold_max_ge(2) [of i ?is ?b 0]
      b_items_nth(2) [OF inv that] that len
    by (simp add: word_le_nat_alt)
  then show ?thesis using stats by (intro exI [of _ ?s]) (simp add: unat_div)
qed

end
