(* ===== verification/Map_History.thy ===== *)
theory Map_History
  imports Hash_Map
begin

text \<open>
  Sequences of calls on the hash map against an abstract map, and the properties of the map:
  that the code's map behaves as a partial function, what a resize keeps, what a removal keeps
  and what it loses, the statistics, and the smallest capacities.
\<close>

subsection \<open>Histories against the abstract map\<close>

text \<open>
  A history is a sequence of calls; \<open>map_step\<close> is one call on the model of the code, with what
  its result object reports, and \<open>spec_step\<close> the same call on a partial function.
\<close>

datatype ('k, 'v) map_call = Lookup 'k | Insert 'k 'v | Update 'k 'v | Remove 'k | Count

datatype ('k, 'v) map_out =
    Found "'v option" | Stored 'k 'v bool | Removed "('k \<times> 'v) option" | Counted size_t

fun map_step :: "('k \<Rightarrow> size_t) \<Rightarrow> ('k, 'v) map_call \<Rightarrow> ('k, 'v) hmap \<Rightarrow>
    (('k, 'v) hmap \<times> ('k, 'v) map_out) res" where
  "map_step hasher (Lookup k) m =
     bindE (lookup_kv hasher m k) (\<lambda>r. Inr (m, Found (map_option val r)))"
| "map_step hasher (Insert k v) m =
     bindE (insert_kv hasher k v m) (\<lambda>(m', r).
       Inr (m', Stored (ins_key r) (ins_value r) (inserted r)))"
| "map_step hasher (Update k v) m =
     bindE (update_kv hasher k v m) (\<lambda>(m', r).
       Inr (m', Stored (ins_key r) (ins_value r) (inserted r)))"
| "map_step hasher (Remove k) m =
     bindE (remove_kv hasher k m) (\<lambda>(m', r). Inr (m', Removed r))"
| "map_step hasher Count m = Inr (m, Counted (count_items m))"

fun spec_step :: "('k, 'v) map_call \<Rightarrow> ('k \<rightharpoonup> 'v) \<Rightarrow> ('k \<rightharpoonup> 'v) \<times> ('k, 'v) map_out" where
  "spec_step (Lookup k) f = (f, Found (f k))"
| "spec_step (Insert k v) f =
     (case f k of Some w \<Rightarrow> (f, Stored k w False) | None \<Rightarrow> (f(k \<mapsto> v), Stored k v True))"
| "spec_step (Update k v) f = (f(k \<mapsto> v), Stored k v True)"
| "spec_step (Remove k) f = (f(k := None), Removed (map_option (\<lambda>v. (k, v)) (f k)))"
| "spec_step Count f = (f, Counted (of_nat (card (dom f))))"

fun map_run :: "('k \<Rightarrow> size_t) \<Rightarrow> ('k, 'v) map_call list \<Rightarrow> ('k, 'v) hmap \<Rightarrow>
    (('k, 'v) hmap \<times> ('k, 'v) map_out list) res" where
  "map_run hasher [] m = Inr (m, [])"
| "map_run hasher (c # cs) m =
     bindE (map_step hasher c m) (\<lambda>(m', out).
       bindE (map_run hasher cs m') (\<lambda>(m'', outs). Inr (m'', out # outs)))"

fun spec_run :: "('k, 'v) map_call list \<Rightarrow> ('k \<rightharpoonup> 'v) \<Rightarrow> ('k \<rightharpoonup> 'v) \<times> ('k, 'v) map_out list" where
  "spec_run [] f = (f, [])"
| "spec_run (c # cs) f =
     (let (f', out) = spec_step c f; (f'', outs) = spec_run cs f' in (f'', out # outs))"

text \<open>
  The removals the code gets right: of a key that is absent or first in its chain.
  \<open>safe_run\<close> asks it of every removal of a history.
\<close>

definition head_removal :: "('k \<Rightarrow> size_t) \<Rightarrow> ('k, 'v) map_call \<Rightarrow> ('k, 'v) hmap \<Rightarrow> bool" where
  "head_removal hasher c m =
     (case c of
        Remove k \<Rightarrow>
          (case first (buckets m ! unat (bucket_index_for_key hasher m k)) of
             [] \<Rightarrow> True
           | e # es \<Rightarrow> key e = k \<or> k \<notin> key ` set es)
      | _ \<Rightarrow> True)"

fun safe_run :: "('k \<Rightarrow> size_t) \<Rightarrow> ('k, 'v) map_call list \<Rightarrow> ('k, 'v) hmap \<Rightarrow> bool" where
  "safe_run hasher [] m = True"
| "safe_run hasher (c # cs) m =
     (head_removal hasher c m \<and>
      (case map_step hasher c m of Inl _ \<Rightarrow> False | Inr (m', _) \<Rightarrow> safe_run hasher cs m'))"

lemma remove_kv_head:
  assumes inv: "hm_inv hasher m" and safe: "head_removal hasher (Remove k) m"
  shows "\<exists>m'. remove_kv hasher k m = Inr (m', map_option (\<lambda>v. (k, v)) (contents hasher m k)) \<and>
           hm_inv hasher m' \<and> contents hasher m' = (contents hasher m)(k := None) \<and>
           unat (n_items m') \<le> unat (n_items m)"
proof (cases "contents hasher m k")
  case None
  with remove_kv_absent [OF inv None] inv show ?thesis by (auto simp: fun_eq_iff)
next
  case (Some v)
  obtain pre e post where at: "at_chain hasher m k pre e post" and v: "val e = v"
    using at_chain_exists [OF Some] by blast
  have "pre = []"
    using safe at by (cases pre) (auto simp: head_removal_def at_chain_def)
  obtain m' where m': "remove_kv hasher k m = Inr (m', Some (k, v))"
    using remove_kv_at [OF inv at] v by blast
  have inv': "hm_inv hasher m'" using remove_kv_inv_iff [OF inv at m'] \<open>pre = []\<close> by simp
  have cont: "contents hasher m' = (contents hasher m)(k := None)"
    using contents_remove_at [OF inv at m'] \<open>pre = []\<close> by (auto simp: fun_eq_iff)
  have "finite (dom (contents hasher m))" by (rule finite_contents [OF inv])
  have "unat (n_items m') \<le> unat (n_items m)"
    using card_contents [OF inv] card_contents [OF inv'] cont
    by (metis card_Diff1_le dom_fun_upd)
  with m' inv' cont Some show ?thesis by auto
qed

lemma map_step_spec:
  assumes inv: "hm_inv hasher m" and small: "unat (n_items m) + 1 < 2 ^ 62"
    and safe: "head_removal hasher c m"
  shows "\<exists>m' out. map_step hasher c m = Inr (m', out) \<and> hm_inv hasher m' \<and>
           spec_step c (contents hasher m) = (contents hasher m', out) \<and>
           unat (n_items m') \<le> unat (n_items m) + 1"
proof -
  have Suc: "unat (n_items m + 1) = unat (n_items m) + 1"
    using small by (intro unat_Suc_size) simp
  show ?thesis
  proof (cases c)
    case (Lookup k)
    with lookup_kv_contents [OF inv, of k] inv show ?thesis by auto
  next
    case (Insert k v)
    with insert_kv_inv [OF inv small, of k v] inv Suc show ?thesis
      by (cases "contents hasher m k") auto
  next
    case (Update k v)
    with update_kv_inv [OF inv small, of k v] Suc show ?thesis by auto
  next
    case (Remove k)
    with remove_kv_head [OF inv, of k] safe show ?thesis by auto
  next
    case Count
    with inv card_contents [OF inv] show ?thesis by (simp add: count_items_def)
  qed
qed

lemma map_run_spec:
  assumes "hm_inv hasher m" "unat (n_items m) + length cs < 2 ^ 62" "safe_run hasher cs m"
  shows "\<exists>m' outs. map_run hasher cs m = Inr (m', outs) \<and> hm_inv hasher m' \<and>
           spec_run cs (contents hasher m) = (contents hasher m', outs)"
  using assms
proof (induction cs arbitrary: m)
  case (Cons c cs)
  obtain m1 out where 1: "map_step hasher c m = Inr (m1, out)" "hm_inv hasher m1"
      "spec_step c (contents hasher m) = (contents hasher m1, out)"
      "unat (n_items m1) \<le> unat (n_items m) + 1"
    using map_step_spec [of hasher m c] Cons.prems by auto
  then obtain m2 outs where "map_run hasher cs m1 = Inr (m2, outs)" "hm_inv hasher m2"
      "spec_run cs (contents hasher m1) = (contents hasher m2, outs)"
    using Cons.IH [of m1] Cons.prems by auto
  with 1 show ?case by simp
qed simp

lemma safe_run_no_remove:
  assumes "hm_inv hasher m" "unat (n_items m) + length cs < 2 ^ 62" "\<forall>k. Remove k \<notin> set cs"
  shows "safe_run hasher cs m"
  using assms
proof (induction cs arbitrary: m)
  case (Cons c cs)
  have head: "head_removal hasher c m"
    using Cons.prems(3) by (cases c) (auto simp: head_removal_def)
  then obtain m1 out where "map_step hasher c m = Inr (m1, out)" "hm_inv hasher m1"
      "unat (n_items m1) \<le> unat (n_items m) + 1"
    using map_step_spec [of hasher m c] Cons.prems by auto
  with head Cons show ?case by auto
qed simp

subsection \<open>Properties\<close>

text \<open>A small map, evaluated: capacity 8, so that the keys 0, 8 and 16 share a bucket.\<close>

definition map_16 :: "(size_t, nat) hmap" where
  "map_16 = \<lparr>n_items = 0, capacity = 8, max_capacity = 16, buckets = replicate 8 new_bucket\<rparr>"

lemma Map_new_16: "Map_new 16 = Inr map_16"
  by code_simp

text \<open>
  C1. Every history of lookups, insertions, updates and counts on a newly constructed map
  (maximum capacity at least 2) succeeds, keeps the invariant and returns, call by call, what
  the abstract map returns, through all the resizes that happen on the way.
\<close>

theorem map_without_removal_is_spec:
  fixes cs :: "('k, 'v) map_call list"
  assumes "2 \<le> mc" and "length cs < 2 ^ 62" and "\<forall>k. Remove k \<notin> set cs"
  shows "\<exists>m m' outs. Map_new mc = Inr m \<and> map_run hasher cs m = Inr (m', outs) \<and>
           hm_inv hasher m' \<and> spec_run cs Map.empty = (contents hasher m', outs)"
proof -
  obtain m :: "('k, 'v) hmap" where m: "Map_new mc = Inr m" "hm_inv hasher m"
      "contents hasher m = Map.empty" "n_items m = 0"
    using Map_new_inv [OF assms(1)] by blast
  with assms have "safe_run hasher cs m" by (intro safe_run_no_remove) simp_all
  with m assms(2) show ?thesis using map_run_spec [of hasher m cs] by auto
qed

theorem map_without_removal_is_spec_witness:
  "\<exists>m m' outs. Map_new 16 = Inr m \<and>
     map_run id [Insert 0 10, Insert 8 (20 :: nat), Insert 0 30, Update 8 40, Lookup 8] m
       = Inr (m', outs) \<and>
     outs = [Stored 0 10 True, Stored 8 20 True, Stored 0 10 False, Stored 8 40 True,
             Found (Some 40)]"
proof -
  let ?cs = "[Insert 0 10, Insert 8 (20 :: nat), Insert 0 30, Update 8 40, Lookup (8 :: size_t)]"
  have "\<forall>k. Remove k \<notin> set ?cs" by simp
  moreover have "length ?cs < 2 ^ 62" by simp
  moreover have "(2 :: size_t) \<le> 16" by simp
  ultimately obtain m m' outs where "Map_new 16 = Inr m" "map_run id ?cs m = Inr (m', outs)"
      "spec_run ?cs Map.empty = (contents id m', outs)"
    using map_without_removal_is_spec [of 16 ?cs id] by blast
  then show ?thesis by (intro exI [of _ m] exI [of _ m'] exI [of _ outs]) simp
qed

text \<open>
  C34. With removals the same holds of every history whose removals are of keys that are absent
  or at the head of their chain when they are removed.
\<close>

theorem map_with_head_removals_is_spec:
  fixes m :: "('k, 'v) hmap"
  assumes "2 \<le> mc" and "length cs < 2 ^ 62"
    and "Map_new mc = Inr m" and "safe_run hasher cs m"
  shows "\<exists>m' outs. map_run hasher cs m = Inr (m', outs) \<and> hm_inv hasher m' \<and>
           spec_run cs Map.empty = (contents hasher m', outs)"
proof -
  have m: "hm_inv hasher m" "contents hasher m = Map.empty" "n_items m = 0"
    using Map_new_inv [OF assms(1), of hasher, where 'b = 'v] assms(3) by auto
  then show ?thesis using map_run_spec [of hasher m cs] assms(2,4) by simp
qed

theorem map_with_head_removals_is_spec_witness:
  "\<exists>m' outs. map_run id [Insert 0 10, Insert 8 20, Remove 0, Lookup 8, Remove 3, Count] map_16
     = Inr (m', outs) \<and>
     outs = [Stored 0 10 True, Stored 8 20 True, Removed (Some (0, 10)), Found (Some 20),
             Removed None, Counted 1]"
proof -
  let ?cs = "[Insert 0 10, Insert 8 20, Remove 0, Lookup 8, Remove 3, Count]"
  have "safe_run id ?cs map_16" by code_simp
  then obtain m' outs where "map_run id ?cs map_16 = Inr (m', outs)"
      "spec_run ?cs Map.empty = (contents id m', outs)"
    using map_with_head_removals_is_spec [of 16 ?cs map_16 id] Map_new_16 by auto
  then show ?thesis by (intro exI [of _ m'] exI [of _ outs]) simp
qed

text \<open>
  C37. What \<open>remove\<close> does for a key at any position of its chain: it returns the pair and takes
  one off the count, but with the key go all the keys \<open>pre\<close> that precede it in the chain, since
  the loop never moves \<open>prev\<close>. The invariant survives exactly when there are none.
\<close>

theorem remove_loses_prefix:
  assumes "hm_inv hasher m" and "at_chain hasher m k pre e post"
  shows "\<exists>m'. remove_kv hasher k m = Inr (m', Some (k, val e)) \<and> n_items m' = n_items m - 1 \<and>
           (\<forall>k'. contents hasher m' k' =
              (if k' = k \<or> k' \<in> key ` set pre then None else contents hasher m k')) \<and>
           (hm_inv hasher m' \<longleftrightarrow> pre = [])"
proof -
  obtain m' where "remove_kv hasher k m = Inr (m', Some (k, val e))" "n_items m' = n_items m - 1"
    using remove_kv_at [OF assms] by (auto simp: put_bucket_def)
  with contents_remove_at [OF assms] remove_kv_inv_iff [OF assms] show ?thesis by blast
qed

text \<open>
  Two keys of one bucket: \<open>two_keys\<close> is what inserting 0 and then 8 into \<open>map_16\<close> gives.
\<close>

definition two_keys :: "(size_t, nat) hmap" where
  "two_keys = \<lparr>n_items = 2, capacity = 8, max_capacity = 16,
     buckets = (replicate 8 new_bucket)
       [0 := \<lparr>first = [\<lparr>key = 0, val = 10\<rparr>, \<lparr>key = 8, val = 20\<rparr>], b_items = 2\<rparr>]\<rparr>"

lemma two_keys_run: "map_run id [Insert 0 10, Insert 8 20] map_16 =
    Inr (two_keys, [Stored 0 10 True, Stored 8 20 True])"
  by code_simp

lemma two_keys_inv: "hm_inv id two_keys"
proof -
  have "hm_inv id map_16"
    using Map_new_inv [of 16 id, where 'b = nat] Map_new_16 by auto
  moreover have "safe_run id [Insert 0 10, Insert 8 20] map_16" by code_simp
  ultimately show ?thesis
    using map_run_spec [of id map_16 "[Insert 0 10, Insert 8 20]"] two_keys_run
    by (auto simp: map_16_def)
qed

lemma two_keys_at: "at_chain id two_keys 8 [\<lparr>key = 0, val = 10\<rparr>] \<lparr>key = 8, val = 20\<rparr> []"
  by (simp add: at_chain_def two_keys_def bucket_index_for_key_def bucket_index_def)

theorem remove_loses_prefix_witness:
  "\<exists>m'. remove_kv id 8 two_keys = Inr (m', Some (8, 20)) \<and>
     contents id m' 0 = None \<and> \<not> hm_inv id m'"
  using remove_loses_prefix [OF two_keys_inv two_keys_at] by auto

text \<open>
  After the removal of the last key of a chain of two or more, every lookup of a key of
  that bucket dereferences a null pointer.
\<close>

lemma lookup_after_remove_crashes:
  assumes "hm_inv hasher m" and "at_chain hasher m k pre e []" and "pre \<noteq> []"
    and "bucket_index_for_key hasher m k' = bucket_index_for_key hasher m k"
  shows "\<exists>m' r. remove_kv hasher k m = Inr (m', r) \<and> lookup_kv hasher m' k' = Inl NullDeref"
  using remove_kv_at [OF assms(1,2)] lookup_after_bad_remove [OF assms(1-3)] assms(4) by blast

text \<open>
  Construction: from maximum capacity 2 on the map starts empty, within its invariant, with
  the power of two below \<open>min 16 max_capacity\<close> buckets (half of what the default initial
  capacity announces).
\<close>

lemma Map_new_capacity:
  assumes "2 \<le> mc"
  shows "\<exists>m. Map_new mc = Inr m \<and> hm_inv hasher m \<and> contents hasher m = Map.empty \<and>
           n_items m = 0 \<and> max_capacity m = mc \<and>
           unat (capacity m) < min 16 (unat mc) \<and> min 16 (unat mc) \<le> 2 * unat (capacity m)"
  using Map_new_inv [OF assms] .

text \<open>
  The two smallest maximum capacities: 0 is rejected by the constructor's exception; 1 is
  accepted, gives a map of no buckets at all, and every operation on it reads out of bounds.
\<close>

lemma Map_new_degenerate:
  "(Map_new 0 :: ('k, 'v) hmap res) = Inl (RuntimeError ''maximum capacity must be nonzero'') \<and>
   (\<exists>m :: ('k, 'v) hmap. Map_new 1 = Inr m \<and> capacity m = 0 \<and>
      (\<forall>hasher k v. lookup_kv hasher m k = Inl OutOfBounds \<and>
         insert_kv hasher k v m = Inl OutOfBounds \<and> update_kv hasher k v m = Inl OutOfBounds \<and>
         remove_kv hasher k m = Inl OutOfBounds))"
proof -
  have "drop_bit 1 (next_power_of_2 (min DEFAULT_INIT_CAPACITY 1)) = 0" by code_simp
  then have new: "(Map_new 1 :: ('k, 'v) hmap res)
      = Inr \<lparr>n_items = 0, capacity = 0, max_capacity = 1, buckets = []\<rparr>"
    by (simp add: Map_new_def Let_def)
  let ?m = "\<lparr>n_items = 0, capacity = 0, max_capacity = 1, buckets = []\<rparr> :: ('k, 'v) hmap"
  have out: "bucket_for h ?m k = Inl OutOfBounds" for h k by (simp add: bucket_for_def)
  have "(Map_new 0 :: ('k, 'v) hmap res) = Inl (RuntimeError ''maximum capacity must be nonzero'')"
    by (simp add: Map_new_def)
  moreover have "\<forall>hasher k v. lookup_kv hasher ?m k = Inl OutOfBounds \<and>
      insert_kv hasher k v ?m = Inl OutOfBounds \<and> update_kv hasher k v ?m = Inl OutOfBounds \<and>
      remove_kv hasher k ?m = Inl OutOfBounds"
    by (simp add: lookup_kv_def insert_kv_def update_kv_def remove_kv_def out)
  ultimately show ?thesis using new by (intro conjI exI [of _ ?m]) simp_all
qed

text \<open>
  \<open>stats\<close> on a map within its invariant: the count and the capacity are reported as they
  are, every chain lies between the minimum and the maximum depth, and the average is the
  number of items divided by the number of buckets.
\<close>

lemma stats_bounds:
  assumes "hm_inv hasher m"
  shows "\<exists>s. stats m = Inr s \<and> st_count s = n_items m \<and> st_capacity s = capacity m \<and>
           unat (st_avg_bucket_depth s) = unat (n_items m) div unat (capacity m) \<and>
           (\<forall>i < length (buckets m).
              unat (st_min_bucket_depth s) \<le> length (first (buckets m ! i)) \<and>
              length (first (buckets m ! i)) \<le> unat (st_max_bucket_depth s))"
  using assms by (rule stats_inv)

end
