(* ===== verification/Ring_Queue.thy ===== *)
theory Ring_Queue
  imports Prelude
begin

text \<open>
  The bounded task queues: \<open>StaticQueueScheduler\<close> of applications/map/scheduler.hpp and
  \<open>scheduler_queue\<close> of applications/binary-search/coro_infra.hpp. Both are a fixed array of
  coroutine handles with a write index (\<open>head\<close>) and a read index (\<open>tail\<close>) that wrap around;
  neither checks for a full queue. A handle is \<open>'h option\<close>, with \<open>None\<close> the null handle
  \<open>CoroHandle{}\<close>. The contract of a bounded FIFO is a locale; both queues provide it.
\<close>

subsection \<open>The contract\<close>

locale bounded_fifo =
  fixes qinv :: "'q \<Rightarrow> bool"
    and pend :: "'q \<Rightarrow> 'h option list"
    and room :: "'q \<Rightarrow> nat"
    and push :: "'h option \<Rightarrow> 'q \<Rightarrow> 'q"
    and pop :: "'q \<Rightarrow> 'h option \<times> 'q"
    and try_pop :: "'q \<Rightarrow> 'h option \<times> 'q"
  assumes push_inv: "qinv q \<Longrightarrow> length (pend q) < room q \<Longrightarrow> qinv (push h q)"
    and push_pend: "qinv q \<Longrightarrow> length (pend q) < room q \<Longrightarrow> pend (push h q) = pend q @ [h]"
    and push_room: "qinv q \<Longrightarrow> length (pend q) < room q \<Longrightarrow> room (push h q) = room q"
    and pop_nonempty: "qinv q \<Longrightarrow> pend q = h # hs \<Longrightarrow>
      \<exists>q'. pop q = (h, q') \<and> qinv q' \<and> pend q' = hs \<and> room q' = room q"
    and try_pop_nonempty: "qinv q \<Longrightarrow> pend q \<noteq> [] \<Longrightarrow> try_pop q = pop q"
    and try_pop_empty: "qinv q \<Longrightarrow> pend q = [] \<Longrightarrow> try_pop q = (None, q)"
begin

fun push_all :: "'h option list \<Rightarrow> 'q \<Rightarrow> 'q" where
  "push_all [] q = q"
| "push_all (h # hs) q = push_all hs (push h q)"

fun pop_n :: "nat \<Rightarrow> 'q \<Rightarrow> 'h option list" where
  "pop_n 0 q = []"
| "pop_n (Suc n) q = fst (pop q) # pop_n n (snd (pop q))"

lemma push_all_pend:
  "qinv q \<Longrightarrow> length (pend q) + length hs \<le> room q \<Longrightarrow>
    qinv (push_all hs q) \<and> pend (push_all hs q) = pend q @ hs \<and> room (push_all hs q) = room q"
  by (induction hs arbitrary: q) (auto simp: push_inv push_pend push_room)

lemma pop_n_pend: "qinv q \<Longrightarrow> n \<le> length (pend q) \<Longrightarrow> pop_n n q = take n (pend q)"
proof (induction n arbitrary: q)
  case (Suc n)
  then obtain h hs where "pend q = h # hs" by (cases "pend q") auto
  with Suc obtain q' where "pop q = (h, q')" "qinv q'" "pend q' = hs" using pop_nonempty by blast
  with Suc \<open>pend q = h # hs\<close> show ?case by simp
qed simp

text \<open>First in, first out: what is pushed into an empty queue comes out in the same order.\<close>

lemma fifo:
  assumes "qinv q" "pend q = []" "length hs \<le> room q"
  shows "pop_n (length hs) (push_all hs q) = hs"
  using assms push_all_pend [of q hs] pop_n_pend [of "push_all hs q" "length hs"] by simp

end

subsection \<open>Index arithmetic of a ring\<close>

text \<open>
  The slots of a ring of \<open>d\<close> slots from \<open>t\<close> up to, not including, \<open>h\<close>, going round the end.
\<close>

definition ring_count :: "nat \<Rightarrow> nat \<Rightarrow> nat \<Rightarrow> nat" where
  "ring_count d h t = (if t \<le> h then h - t else d - t + h)"

definition ring_slots :: "'a list \<Rightarrow> nat \<Rightarrow> nat \<Rightarrow> 'a list" where
  "ring_slots b h t = map (\<lambda>i. b ! ((t + i) mod length b)) [0 ..< ring_count (length b) h t]"

lemma length_ring_slots [simp, ring_simps]:
  "length (ring_slots b h t) = ring_count (length b) h t"
  by (simp add: ring_slots_def)

lemma ring_count_less [ring_simps]: "h < d \<Longrightarrow> t < d \<Longrightarrow> ring_count d h t < d"
  by (auto simp: ring_count_def)

lemma ring_count_eq_0 [ring_simps]: "h < d \<Longrightarrow> t < d \<Longrightarrow> ring_count d h t = 0 \<longleftrightarrow> h = t"
  by (auto simp: ring_count_def)

lemma ring_slots_Nil_iff [ring_simps]:
  "h < length b \<Longrightarrow> t < length b \<Longrightarrow> ring_slots b h t = [] \<longleftrightarrow> h = t"
  by (simp add: ring_slots_def ring_count_eq_0)

lemma Suc_mod_wrap: "x < d \<Longrightarrow> Suc x mod d = (if Suc x = d then 0 else Suc x)"
  by simp

lemma ring_count_push:
  assumes "h < d" "t < d" "ring_count d h t < d - 1"
  shows "ring_count d (Suc h mod d) t = Suc (ring_count d h t)"
  using assms by (auto simp: ring_count_def Suc_mod_wrap split: if_splits)

lemma ring_last_slot:
  assumes "h < d" "t < d"
  shows "(t + ring_count d h t) mod d = h"
  using assms by (auto simp: ring_count_def)

lemma ring_slot_other:
  assumes "h < d" "t < d" "i < ring_count d h t"
  shows "(t + i) mod d \<noteq> h"
proof (cases "t \<le> h")
  case True
  with assms have "t + i < h" by (simp add: ring_count_def)
  with assms(1) show ?thesis by simp
next
  case False
  with assms have i: "t + i < d + h" by (simp add: ring_count_def)
  show ?thesis
  proof (cases "t + i < d")
    case True
    with False show ?thesis by simp
  next
    case no_wrap: False
    then have "(t + i) mod d = t + i - d" using i assms(1) by (simp add: le_mod_geq)
    with i no_wrap show ?thesis by simp
  qed
qed

lemma ring_slots_push:
  assumes "h < length b" "t < length b" "ring_count (length b) h t < length b - 1"
  shows "ring_slots (b[h := x]) (Suc h mod length b) t = ring_slots b h t @ [x]"
proof -
  have same: "b[h := x] ! ((t + i) mod length b) = b ! ((t + i) mod length b)"
    if "i < ring_count (length b) h t" for i
    using ring_slot_other [OF assms(1,2) that] by simp
  have last: "b[h := x] ! ((t + ring_count (length b) h t) mod length b) = x"
    using ring_last_slot [OF assms(1,2)] assms(1) by simp
  show ?thesis
    using same last by (simp add: ring_slots_def ring_count_push [OF assms])
qed

lemma ring_count_pop:
  assumes "h < d" "t < d" "h \<noteq> t"
  shows "ring_count d h t = Suc (ring_count d h (Suc t mod d))"
  using assms by (auto simp: ring_count_def Suc_mod_wrap split: if_splits)

lemma ring_slots_pop:
  assumes "h < length b" "t < length b" "h \<noteq> t"
  shows "ring_slots b h t = b ! t # ring_slots b h (Suc t mod length b)"
proof -
  let ?d = "length b"
  have "ring_slots b h t
      = map (\<lambda>i. b ! ((t + i) mod ?d)) (0 # map Suc [0 ..< ring_count ?d h (Suc t mod ?d)])"
    by (simp add: ring_slots_def ring_count_pop [OF assms] map_Suc_upt upt_conv_Cons
        del: upt_Suc map_map)
  also have "\<dots> = b ! t # ring_slots b h (Suc t mod ?d)"
    using assms(2) by (simp add: ring_slots_def mod_simps del: upt_Suc)
  finally show ?thesis .
qed

subsection \<open>The scheduler of the map\<close>

text \<open>
  \<open>StaticQueueScheduler<QueueDepth>\<close>: the depth is the length of the array, which no operation
  changes. The two indices are declared \<open>mutable\<close> and every operation \<open>const\<close>; the model
  returns the new state. A freshly constructed scheduler holds null handles.
\<close>

record 'h static_queue =
  head :: nat
  tail :: nat
  buffer :: "'h option list"

definition queue_depth :: "'h static_queue \<Rightarrow> nat" where
  "queue_depth q = length (buffer q)"

definition static_queue_init :: "nat \<Rightarrow> 'h static_queue" where
  "static_queue_init depth = \<lparr>head = 0, tail = 0, buffer = replicate depth None\<rparr>"

definition schedule :: "'h option \<Rightarrow> 'h static_queue \<Rightarrow> 'h static_queue" where
  "schedule handle q =
     q\<lparr>buffer := (buffer q)[head q := handle], head := (head q + 1) mod queue_depth q\<rparr>"

definition get_next_task :: "'h static_queue \<Rightarrow> 'h option" where
  "get_next_task q = buffer q ! tail q"

definition remove_next_task :: "'h static_queue \<Rightarrow> 'h option \<times> 'h static_queue" where
  "remove_next_task q =
     (let result = buffer q ! tail q
      in (result, q\<lparr>tail := (tail q + 1) mod queue_depth q\<rparr>))"

definition try_remove_next_task :: "'h static_queue \<Rightarrow> 'h option \<times> 'h static_queue" where
  "try_remove_next_task q = (if head q \<noteq> tail q then remove_next_task q else (None, q))"

text \<open>What the scheduler promises: the indices stay inside the array.\<close>

definition static_queue_inv :: "'h static_queue \<Rightarrow> bool" where
  "static_queue_inv q \<longleftrightarrow> head q < length (buffer q) \<and> tail q < length (buffer q)"

definition pending :: "'h static_queue \<Rightarrow> 'h option list" where
  "pending q = ring_slots (buffer q) (head q) (tail q)"

text \<open>One slot is lost: with all slots in use \<open>head = tail\<close>, and the queue looks empty.\<close>

definition queue_room :: "'h static_queue \<Rightarrow> nat" where
  "queue_room q = length (buffer q) - 1"

lemma static_queue_inv_init [ring_simps]: "0 < depth \<Longrightarrow> static_queue_inv (static_queue_init depth)"
  by (simp add: static_queue_inv_def static_queue_init_def)

lemma pending_init [ring_simps]: "pending (static_queue_init depth) = []"
  by (simp add: pending_def static_queue_init_def ring_slots_def ring_count_def)

lemma queue_room_init [ring_simps]: "queue_room (static_queue_init depth) = depth - 1"
  by (simp add: queue_room_def static_queue_init_def)

lemma pending_Nil_iff [ring_simps]: "static_queue_inv q \<Longrightarrow> pending q = [] \<longleftrightarrow> head q = tail q"
  by (simp add: static_queue_inv_def pending_def ring_slots_Nil_iff)

interpretation static_queue: bounded_fifo static_queue_inv pending queue_room schedule
  remove_next_task try_remove_next_task
proof (unfold_locales, goal_cases)
  case (1 q h)
  then show ?case
    by (auto simp: static_queue_inv_def schedule_def queue_depth_def intro!: mod_less_divisor)
next
  case (2 q h)
  then show ?case
    using ring_slots_push [of "head q" "buffer q" "tail q" h]
    by (simp add: static_queue_inv_def schedule_def queue_depth_def pending_def queue_room_def)
next
  case (3 q h)
  then show ?case by (simp add: schedule_def queue_room_def)
next
  case (4 q h hs)
  then have ne: "head q \<noteq> tail q" using pending_Nil_iff [of q] by auto
  with 4 have "h = buffer q ! tail q"
    and "hs = ring_slots (buffer q) (head q) (Suc (tail q) mod length (buffer q))"
    using ring_slots_pop [of "head q" "buffer q" "tail q"]
    by (simp_all add: static_queue_inv_def pending_def)
  with 4(1) show ?case
    by (auto simp: remove_next_task_def static_queue_inv_def pending_def queue_room_def
        queue_depth_def intro!: mod_less_divisor)
next
  case (5 q)
  then show ?case by (simp add: try_remove_next_task_def pending_Nil_iff)
next
  case (6 q)
  then show ?case by (simp add: try_remove_next_task_def pending_Nil_iff)
qed

subsection \<open>The scheduler of the binary search\<close>

text \<open>
  \<open>scheduler_queue\<close> is the same ring with a fixed depth of 256 and its own field and operation
  names. \<open>as_ring\<close> reads one as a \<open>static_queue\<close>; the operations commute with it.
\<close>

record 'h scheduler_queue =
  sq_head :: nat
  sq_tail :: nat
  sq_arr :: "'h option list"

definition scheduler_queue_N :: nat where
  "scheduler_queue_N = 256"

definition scheduler_queue_init :: "'h scheduler_queue" where
  "scheduler_queue_init =
     \<lparr>sq_head = 0, sq_tail = 0, sq_arr = replicate scheduler_queue_N None\<rparr>"

definition push_back :: "'h option \<Rightarrow> 'h scheduler_queue \<Rightarrow> 'h scheduler_queue" where
  "push_back h q =
     q\<lparr>sq_arr := (sq_arr q)[sq_head q := h], sq_head := (sq_head q + 1) mod scheduler_queue_N\<rparr>"

definition pop_front :: "'h scheduler_queue \<Rightarrow> 'h option \<times> 'h scheduler_queue" where
  "pop_front q =
     (let result = sq_arr q ! sq_tail q
      in (result, q\<lparr>sq_tail := (sq_tail q + 1) mod scheduler_queue_N\<rparr>))"

definition try_pop_front :: "'h scheduler_queue \<Rightarrow> 'h option \<times> 'h scheduler_queue" where
  "try_pop_front q = (if sq_head q \<noteq> sq_tail q then pop_front q else (None, q))"

definition as_ring :: "'h scheduler_queue \<Rightarrow> 'h static_queue" where
  "as_ring q = \<lparr>head = sq_head q, tail = sq_tail q, buffer = sq_arr q\<rparr>"

definition scheduler_queue_inv :: "'h scheduler_queue \<Rightarrow> bool" where
  "scheduler_queue_inv q \<longleftrightarrow>
     length (sq_arr q) = scheduler_queue_N \<and> static_queue_inv (as_ring q)"

definition sq_pending :: "'h scheduler_queue \<Rightarrow> 'h option list" where
  "sq_pending q = pending (as_ring q)"

definition sq_room :: "'h scheduler_queue \<Rightarrow> nat" where
  "sq_room q = queue_room (as_ring q)"

lemma as_ring_commutes [ring_simps]:
  assumes "length (sq_arr q) = scheduler_queue_N"
  shows "as_ring (push_back h q) = schedule h (as_ring q)"
    and "fst (pop_front q) = fst (remove_next_task (as_ring q))"
    and "as_ring (snd (pop_front q)) = snd (remove_next_task (as_ring q))"
  using assms
  by (simp_all add: as_ring_def push_back_def schedule_def pop_front_def remove_next_task_def
      queue_depth_def Let_def)

lemma scheduler_queue_arr [ring_simps]:
  "length (sq_arr (push_back h q)) = length (sq_arr q)"
  "sq_arr (snd (pop_front q)) = sq_arr q"
  by (simp_all add: push_back_def pop_front_def Let_def)

lemma scheduler_queue_init [ring_simps]:
  "scheduler_queue_inv scheduler_queue_init"
  "sq_pending scheduler_queue_init = []"
  "sq_room scheduler_queue_init = 255"
  by (simp_all add: scheduler_queue_inv_def scheduler_queue_init_def scheduler_queue_N_def
      static_queue_inv_def as_ring_def sq_pending_def pending_def ring_slots_def ring_count_def
      sq_room_def queue_room_def)

interpretation scheduler_queue: bounded_fifo scheduler_queue_inv sq_pending sq_room push_back
  pop_front try_pop_front
proof (unfold_locales, goal_cases)
  case (1 q h)
  then show ?case
    using static_queue.push_inv [of "as_ring q" h]
    by (simp add: scheduler_queue_inv_def sq_pending_def sq_room_def ring_simps)
next
  case (2 q h)
  then show ?case
    using static_queue.push_pend [of "as_ring q" h]
    by (simp add: scheduler_queue_inv_def sq_pending_def sq_room_def ring_simps)
next
  case (3 q h)
  then show ?case
    using static_queue.push_room [of "as_ring q" h]
    by (simp add: scheduler_queue_inv_def sq_pending_def sq_room_def ring_simps)
next
  case (4 q h hs)
  then have len: "length (sq_arr q) = scheduler_queue_N" by (simp add: scheduler_queue_inv_def)
  obtain q' where "remove_next_task (as_ring q) = (h, q')" "static_queue_inv q'" "pending q' = hs"
      "queue_room q' = queue_room (as_ring q)"
    using static_queue.pop_nonempty [of "as_ring q" h hs] 4
    by (auto simp: scheduler_queue_inv_def sq_pending_def)
  with as_ring_commutes [OF len] len show ?case
    by (intro exI [of _ "snd (pop_front q)"])
      (auto simp: scheduler_queue_inv_def sq_pending_def sq_room_def ring_simps prod_eq_iff)
next
  case (5 q)
  then show ?case
    using pending_Nil_iff [of "as_ring q"]
    by (simp add: try_pop_front_def scheduler_queue_inv_def sq_pending_def as_ring_def)
next
  case (6 q)
  then show ?case
    using pending_Nil_iff [of "as_ring q"]
    by (simp add: try_pop_front_def scheduler_queue_inv_def sq_pending_def as_ring_def)
qed

subsection \<open>Whole histories\<close>

text \<open>
  A history is a sequence of \<open>schedule\<close> and \<open>try_remove_next_task\<close> calls. \<open>ring_run\<close> gives the
  handles the removals return; \<open>ideal_run\<close> is the same history on an unbounded list, and
  \<open>fits\<close> says that the list never holds more than \<open>n\<close> handles.
\<close>

datatype 'h queue_call = Put "'h option" | Take

fun ring_run :: "'h queue_call list \<Rightarrow> 'h static_queue \<Rightarrow> 'h option list" where
  "ring_run [] q = []"
| "ring_run (Put h # cs) q = ring_run cs (schedule h q)"
| "ring_run (Take # cs) q =
     (let (h, q') = try_remove_next_task q in h # ring_run cs q')"

fun ideal_run :: "'h queue_call list \<Rightarrow> 'h option list \<Rightarrow> 'h option list" where
  "ideal_run [] hs = []"
| "ideal_run (Put h # cs) hs = ideal_run cs (hs @ [h])"
| "ideal_run (Take # cs) [] = None # ideal_run cs []"
| "ideal_run (Take # cs) (h # hs) = h # ideal_run cs hs"

fun fits :: "nat \<Rightarrow> 'h queue_call list \<Rightarrow> nat \<Rightarrow> bool" where
  "fits n [] k = (k \<le> n)"
| "fits n (Put h # cs) k = (k < n \<and> fits n cs (k + 1))"
| "fits n (Take # cs) k = (k \<le> n \<and> fits n cs (k - 1))"

lemma ring_run_ideal:
  assumes "static_queue_inv q" "fits (queue_room q) cs (length (pending q))"
  shows "ring_run cs q = ideal_run cs (pending q)"
  using assms
proof (induction cs arbitrary: q)
  case (Cons c cs)
  show ?case
  proof (cases c)
    case (Put h)
    with Cons.prems show ?thesis
      using Cons.IH [of "schedule h q"] static_queue.push_inv [of q h]
        static_queue.push_pend [of q h] static_queue.push_room [of q h] by simp
  next
    case Take
    show ?thesis
    proof (cases "pending q")
      case Nil
      with Take Cons.prems show ?thesis
        using Cons.IH [of q] static_queue.try_pop_empty [of q] by simp
    next
      case (Cons h hs)
      then obtain q' where "try_remove_next_task q = (h, q')" "static_queue_inv q'"
          "pending q' = hs" "queue_room q' = queue_room q"
        using static_queue.pop_nonempty [of q h hs] static_queue.try_pop_nonempty [of q]
          \<open>static_queue_inv q\<close> by auto
      with Take Cons Cons.prems show ?thesis using Cons.IH [of q'] by simp
    qed
  qed
qed simp

text \<open>
  A freshly constructed scheduler of depth \<open>d\<close> is a first-in first-out queue of capacity
  \<open>d - 1\<close>: on every history that never has more than \<open>d - 1\<close> handles waiting, its removals
  return what those of an unbounded list return, the null handle on empty included.
\<close>

lemma static_queue_is_fifo:
  assumes "0 < depth" and "fits (depth - 1) cs 0"
  shows "ring_run cs (static_queue_init depth) = ideal_run cs []"
  using assms ring_run_ideal [of "static_queue_init depth" cs] by (simp add: ring_simps)

lemma schedule_n:
  assumes "head q = k" "k + length hs \<le> length (buffer q)"
  shows "head (foldl (\<lambda>q h. schedule h q) q hs) =
           (if hs = [] then k else (k + length hs) mod length (buffer q)) \<and>
         tail (foldl (\<lambda>q h. schedule h q) q hs) = tail q"
  using assms
proof (induction hs arbitrary: q k)
  case (Cons h hs)
  show ?case
  proof (cases "hs = []")
    case True
    with Cons.prems show ?thesis by (simp add: schedule_def queue_depth_def)
  next
    case False
    with Cons.prems have "Suc k < length (buffer q)" by (cases hs) auto
    with False Cons.prems show ?thesis
      using Cons.IH [of "schedule h q" "Suc k"] by (simp add: schedule_def queue_depth_def)
  qed
qed simp

text \<open>
  The capacity is exact: a scheduler of depth \<open>d\<close> that is given \<open>d\<close> handles reports itself empty,
  and none of them is ever returned.
\<close>

lemma full_scheduler_looks_empty:
  assumes "length hs = depth"
  shows "fst (try_remove_next_task (foldl (\<lambda>q h. schedule h q) (static_queue_init depth) hs)) = None"
  using schedule_n [of "static_queue_init depth" 0 hs] assms
  by (cases "hs = []") (simp_all add: static_queue_init_def try_remove_next_task_def)

end
