(* ===== verification/Throttling.thy ===== *)
theory Throttling
  imports Ring_Queue
begin

text \<open>
  The coroutine engine shared by the interleaved lookups: suspended coroutine frames, the
  prefetch awaitable that queues the running coroutine and transfers to the next one, and the
  throttler that bounds how many lookups are in flight (applications/map: prefetch.hpp,
  throttler.hpp and \<open>run\<close> of scheduler.hpp; applications/binary-search/coro_infra.hpp has the
  same parts under other names).

  A coroutine handle is a number; the frame it designates is kept in a finite map from which
  it disappears when the coroutine finishes, so that resuming a destroyed coroutine is the
  failure \<open>DeadHandle\<close>. The body of a coroutine is cut at its suspension points: a
  frame is what is live there, and \<open>step\<close> runs it to the next suspension or to its end. The
  engine takes the queue operations and \<open>step\<close> as arguments; the two programs supply their own.
\<close>

datatype ('f, 'r) outcome = Suspend 'f | Return 'r

record ('f, 'r, 'q) world =
  queue :: 'q
  frames :: "nat \<rightharpoonup> 'f"
  next_handle :: nat
  limit :: size_t
  results :: "'r list"

type_synonym 'q push_op = "nat option \<Rightarrow> 'q \<Rightarrow> 'q"
type_synonym 'q pop_op = "'q \<Rightarrow> nat option \<times> 'q"
type_synonym ('f, 'r) body = "'f \<Rightarrow> ('f, 'r) outcome res"

subsection \<open>Suspension and symmetric transfer\<close>

text \<open>
  \<open>await_ready\<close> is always false. \<open>await_suspend\<close> queues the awaiting coroutine and returns the next handle
  of the queue, which is resumed in its place; the prefetch itself has no effect on the state.
\<close>

definition await_suspend ::
  "'q push_op \<Rightarrow> 'q pop_op \<Rightarrow> nat \<Rightarrow> ('f, 'r, 'q) world \<Rightarrow> nat option \<times> ('f, 'r, 'q) world" where
  "await_suspend push pop awaiting w =
     (let (h, q) = pop (push (Some awaiting) (queue w)) in (h, w\<lparr>queue := q\<rparr>))"

text \<open>
  The end of a coroutine: \<open>return_void\<close> tells the throttler, and since \<open>final_suspend\<close> never
  suspends the frame is destroyed at once.
\<close>

definition on_task_complete :: "('f, 'r, 'q) world \<Rightarrow> ('f, 'r, 'q) world" where
  "on_task_complete w = w\<lparr>limit := limit w + 1\<rparr>"

definition finish :: "nat \<Rightarrow> 'r \<Rightarrow> ('f, 'r, 'q) world \<Rightarrow> ('f, 'r, 'q) world" where
  "finish i r w =
     (let w = w\<lparr>results := results w @ [r]\<rparr>;
          w = on_task_complete w
      in w\<lparr>frames := (frames w)(i := None)\<rparr>)"

text \<open>
  \<open>handle.resume()\<close> runs until some coroutine of the chain of transfers finishes; whoever called
  \<open>resume\<close> then goes on.
\<close>

partial_function (option) resume ::
  "('f, 'r) body \<Rightarrow> 'q push_op \<Rightarrow> 'q pop_op \<Rightarrow> nat option \<Rightarrow> ('f, 'r, 'q) world \<Rightarrow>
   ('f, 'r, 'q) world res option" where
  "resume step push pop h w =
     (case h of
        None \<Rightarrow> Some (Inl NullHandle)
      | Some i \<Rightarrow>
          (case frames w i of
             None \<Rightarrow> Some (Inl DeadHandle)
           | Some f \<Rightarrow>
               (case step f of
                  Inl e \<Rightarrow> Some (Inl e)
                | Inr (Return r) \<Rightarrow> Some (Inr (finish i r w))
                | Inr (Suspend f') \<Rightarrow>
                    (let (h', w') = await_suspend push pop i (w\<lparr>frames := (frames w)(i \<mapsto> f')\<rparr>)
                     in resume step push pop h' w'))))"

subsection \<open>The throttler\<close>

text \<open>
  Creating the coroutine allocates its frame and suspends at once (\<open>initial_suspend\<close> is
  \<open>suspend_always\<close>); this happens before \<open>spawn\<close> is entered.
\<close>

definition new_coroutine :: "'f \<Rightarrow> ('f, 'r, 'q) world \<Rightarrow> nat \<times> ('f, 'r, 'q) world" where
  "new_coroutine f w =
     (next_handle w,
      w\<lparr>frames := (frames w)(next_handle w \<mapsto> f), next_handle := next_handle w + 1\<rparr>)"

definition spawn ::
  "('f, 'r) body \<Rightarrow> 'q push_op \<Rightarrow> 'q pop_op \<Rightarrow> nat \<Rightarrow> ('f, 'r, 'q) world \<Rightarrow>
   ('f, 'r, 'q) world res option" where
  "spawn step push pop handle w =
     bind_run
       (if limit w = 0
        then let (h, q) = pop (queue w) in resume step push pop h (w\<lparr>queue := q\<rparr>)
        else Some (Inr w))
       (\<lambda>w. let w = w\<lparr>queue := push (Some handle) (queue w)\<rparr>
            in Some (Inr (w\<lparr>limit := limit w - 1\<rparr>)))"

fun spawn_each ::
  "('f, 'r) body \<Rightarrow> 'q push_op \<Rightarrow> 'q pop_op \<Rightarrow> 'f list \<Rightarrow> ('f, 'r, 'q) world \<Rightarrow>
   ('f, 'r, 'q) world res option" where
  "spawn_each step push pop [] w = Some (Inr w)"
| "spawn_each step push pop (f # fs) w =
     (let (h, w) = new_coroutine f w
      in bind_run (spawn step push pop h w) (spawn_each step push pop fs))"

text \<open>The scheduler's loop: until the queue gives the null handle, resume what it gives.\<close>

partial_function (option) run_queue ::
  "('f, 'r) body \<Rightarrow> 'q push_op \<Rightarrow> 'q pop_op \<Rightarrow> 'q pop_op \<Rightarrow> ('f, 'r, 'q) world \<Rightarrow>
   ('f, 'r, 'q) world res option" where
  "run_queue step push pop try_pop w =
     (let (h, q) = try_pop (queue w); w = w\<lparr>queue := q\<rparr>
      in if h = None then Some (Inr w)
         else bind_run (resume step push pop h w) (\<lambda>w. run_queue step push pop try_pop w))"

declare resume.simps [code]
declare run_queue.simps [code]

text \<open>A throttler of \<open>n\<close> streams on a queue: its scope runs the queue once more at the end.\<close>

definition throttle ::
  "('f, 'r) body \<Rightarrow> 'q push_op \<Rightarrow> 'q pop_op \<Rightarrow> 'q pop_op \<Rightarrow> 'q \<Rightarrow> size_t \<Rightarrow> 'f list \<Rightarrow>
   ('f, 'r, 'q) world res option" where
  "throttle step push pop try_pop q n fs =
     (let w = \<lparr>queue = q, frames = Map.empty, next_handle = 0, limit = n, results = []\<rparr>
      in bind_run (spawn_each step push pop fs w) (\<lambda>w.
           bind_run (run_queue step push pop try_pop w) (run_queue step push pop try_pop)))"

subsection \<open>What every body of bounded length gets\<close>

text \<open>
  \<open>live w is\<close>: the suspended coroutines are exactly \<open>is\<close>, no handle twice. \<open>promised\<close> is the bag of
  the results delivered and of those the suspended coroutines are going to deliver.
\<close>

definition live :: "('f \<Rightarrow> bool) \<Rightarrow> ('f, 'r, 'q) world \<Rightarrow> nat list \<Rightarrow> bool" where
  "live good w is \<longleftrightarrow> distinct is \<and> set is = dom (frames w) \<and>
     (\<forall>i \<in> set is. i < next_handle w \<and> good (the (frames w i)))"

definition promised :: "('f \<Rightarrow> 'r) \<Rightarrow> ('f, 'r, 'q) world \<Rightarrow> nat list \<Rightarrow> 'r multiset" where
  "promised fin w is = mset (results w) + mset (map (\<lambda>i. fin (the (frames w i))) is)"

definition work :: "('f \<Rightarrow> nat) \<Rightarrow> ('f, 'r, 'q) world \<Rightarrow> nat list \<Rightarrow> nat" where
  "work mu w is = (\<Sum>i \<leftarrow> is. mu (the (frames w i)))"

lemma live_perm: "mset is = mset js \<Longrightarrow> live good w is \<Longrightarrow> live good w js"
  unfolding live_def by (metis mset_eq_setD mset_eq_imp_distinct_iff)

lemma promised_perm: "mset is = mset js \<Longrightarrow> promised fin w is = promised fin w js"
  by (simp add: promised_def)

lemma work_perm: "mset is = mset js \<Longrightarrow> work mu w is = work mu w js"
  unfolding work_def by (metis mset_map sum_mset_sum_list)

lemma live_queue [engine_simps]:
  "live good (w\<lparr>queue := q\<rparr>) = live good w"
  "promised fin (w\<lparr>queue := q\<rparr>) = promised fin w"
  "work mu (w\<lparr>queue := q\<rparr>) = work mu w"
  "live good (w\<lparr>limit := l\<rparr>) = live good w"
  by (simp_all add: live_def promised_def work_def fun_eq_iff)

lemma live_Cons: "live good w (i # is) \<Longrightarrow> \<exists>f. frames w i = Some f \<and> good f"
  unfolding live_def by (metis domIff insertCI list.set(2) not_None_eq option.sel)

lemma live_suspend:
  assumes "live good w (i # is)" "good f'"
  shows "live good (w\<lparr>frames := (frames w)(i \<mapsto> f')\<rparr>) (i # is)"
  using assms by (auto simp: live_def)

lemma map_frames_other:
  "i \<notin> set is \<Longrightarrow> map (\<lambda>j. g (the ((m(i := x)) j))) is = map (\<lambda>j. g (the (m j))) is"
  by (rule map_cong) auto

lemma promised_suspend:
  assumes "live good w (i # is)" "fin f' = fin (the (frames w i))"
  shows "promised fin (w\<lparr>frames := (frames w)(i \<mapsto> f')\<rparr>) (i # is) = promised fin w (i # is)"
proof -
  have "i \<notin> set is" using assms(1) by (simp add: live_def)
  note other = map_frames_other [OF this, of fin "frames w" "Some f'"]
  show ?thesis using assms(2) by (simp add: promised_def other fun_upd_same del: fun_upd_apply mset_map)
qed

lemma work_suspend:
  assumes "live good w (i # is)" "mu f' < mu (the (frames w i))"
  shows "work mu (w\<lparr>frames := (frames w)(i \<mapsto> f')\<rparr>) (i # is) < work mu w (i # is)"
proof -
  have "i \<notin> set is" using assms(1) by (simp add: live_def)
  note other = map_frames_other [OF this, of mu "frames w" "Some f'"]
  show ?thesis using assms(2) by (simp add: work_def other fun_upd_same del: fun_upd_apply)
qed

lemma finish_facts [engine_simps]:
  "queue (finish i r w) = queue w"
  "limit (finish i r w) = limit w + 1"
  "next_handle (finish i r w) = next_handle w"
  by (simp_all add: finish_def on_task_complete_def Let_def)

lemma live_finish: "live good w (i # is) \<Longrightarrow> live good (finish i r w) is"
  by (auto simp: live_def finish_def on_task_complete_def Let_def)

lemma promised_finish:
  assumes "live good w (i # is)" "r = fin (the (frames w i))"
  shows "promised fin (finish i r w) is = promised fin w (i # is)"
proof -
  have "i \<notin> set is" using assms(1) by (simp add: live_def)
  note other = map_frames_other [OF this, of fin "frames w" None]
  show ?thesis using assms(2)
    by (simp add: promised_def finish_def on_task_complete_def Let_def other
        del: fun_upd_apply mset_map)
qed

text \<open>
  The contract between the engine and a coroutine body: from a good frame the body either
  returns the frame's result, or suspends in a good frame of the same result and less work. On
  a bounded queue that is all the engine needs.
\<close>

locale engine = bounded_fifo qinv pend room push pop try_pop
  for qinv :: "'q \<Rightarrow> bool" and pend :: "'q \<Rightarrow> nat option list" and room push pop try_pop +
  fixes step :: "('f, 'r) body"
    and good :: "'f \<Rightarrow> bool"
    and fin :: "'f \<Rightarrow> 'r"
    and mu :: "'f \<Rightarrow> nat"
  assumes step_ok: "good f \<Longrightarrow> step f = Inr (Return (fin f)) \<or>
    (\<exists>f'. step f = Inr (Suspend f') \<and> good f' \<and> fin f' = fin f \<and> mu f' < mu f)"
begin

definition queued :: "('f, 'r, 'q) world \<Rightarrow> nat list \<Rightarrow> bool" where
  "queued w is \<longleftrightarrow> qinv (queue w) \<and> pend (queue w) = map Some is"

text \<open>
  Resuming \<open>i\<close> while \<open>is\<close> are queued and \<open>held\<close> exist outside the queue: it returns, exactly one
  coroutine has finished, nothing promised is lost.
\<close>

lemma resume_ok:
  assumes "live good w (i # is @ held)" "queued w is" "length is < room (queue w)"
  shows "\<exists>w' is'. resume step push pop (Some i) w = Some (Inr w') \<and>
    live good w' (is' @ held) \<and> queued w' is' \<and> length is' = length is \<and>
    promised fin w' (is' @ held) = promised fin w (i # is @ held) \<and>
    limit w' = limit w + 1 \<and> room (queue w') = room (queue w) \<and>
    next_handle w' = next_handle w"
  using assms
proof (induction "work mu w (i # is @ held)" arbitrary: w i "is" rule: less_induct)
  case less
  obtain f where f: "frames w i = Some f" "good f"
    using live_Cons [OF less.prems(1)] by blast
  from step_ok [OF f(2)] show ?case
  proof
    assume ret: "step f = Inr (Return (fin f))"
    then have "resume step push pop (Some i) w = Some (Inr (finish i (fin f) w))"
      by (simp add: resume.simps f)
    with less.prems show ?thesis
      using live_finish [OF less.prems(1)] promised_finish [OF less.prems(1), of "fin f" fin] f
      by (intro exI [of _ "finish i (fin f) w"] exI [of _ "is"])
        (simp add: queued_def engine_simps)
  next
    assume "\<exists>f'. step f = Inr (Suspend f') \<and> good f' \<and> fin f' = fin f \<and> mu f' < mu f"
    then obtain f' where f': "step f = Inr (Suspend f')" "good f'" "fin f' = fin f" "mu f' < mu f"
      by blast
    define w1 where "w1 = w\<lparr>frames := (frames w)(i \<mapsto> f')\<rparr>"
    have w1: "live good w1 (i # is @ held)" "promised fin w1 (i # is @ held) = promised fin w (i # is @ held)"
        "work mu w1 (i # is @ held) < work mu w (i # is @ held)" "queue w1 = queue w"
        "limit w1 = limit w" "next_handle w1 = next_handle w"
      unfolding w1_def
      using live_suspend [OF less.prems(1) f'(2)] promised_suspend [OF less.prems(1), of fin f']
        work_suspend [OF less.prems(1), of mu f'] f f' by simp_all
    obtain j js where j: "is @ [i] = j # js" by (cases "is @ [i]") auto
    then have same: "mset (j # js @ held) = mset (i # is @ held)"
      by (metis append_Cons append_assoc append_Nil mset_append union_commute union_assoc)
    have q: "qinv (queue w)" "length (pend (queue w)) < room (queue w)" "pend (queue w) = map Some is"
      using less.prems by (simp_all add: queued_def)
    have "pend (push (Some i) (queue w)) = Some j # map Some js"
      using push_pend [OF q(1,2)] q(3) j by (metis list.simps(9) map_append list.simps(8))
    from pop_nonempty [OF push_inv [OF q(1,2)] this] push_room [OF q(1,2)]
    obtain q' where q': "pop (push (Some i) (queue w)) = (Some j, q')" "qinv q'"
        "pend q' = map Some js" "room q' = room (queue w)" by auto
    define w2 where "w2 = w1\<lparr>queue := q'\<rparr>"
    have eq: "resume step push pop (Some i) w = resume step push pop (Some j) w2"
      by (subst resume.simps)
        (simp add: f f' await_suspend_def q'(1) w1_def w2_def)
    have len: "length js = length is" using j by (metis length_append_singleton length_Cons nat.inject)
    have "live good w2 (j # js @ held)"
      unfolding w2_def live_queue using live_perm [OF same [symmetric] w1(1)] .
    moreover have "queued w2 js" using q' by (simp add: queued_def w2_def)
    moreover have "length js < room (queue w2)" using q q' len by (simp add: w2_def)
    moreover have "work mu w2 (j # js @ held) < work mu w (i # is @ held)"
      unfolding w2_def live_queue work_perm [OF same] using w1(3) .
    moreover have "promised fin w2 (j # js @ held) = promised fin w (i # is @ held)"
      unfolding w2_def live_queue promised_perm [OF same] using w1(2) .
    moreover have "limit w2 = limit w" "next_handle w2 = next_handle w" "room (queue w2) = room (queue w)"
      using w1 q' by (simp_all add: w2_def)
    ultimately show ?thesis using less.hyps [of w2 j js] eq len by auto
  qed
qed

text \<open>
  Between calls: \<open>is\<close> are queued, nothing else exists, and the limit is what is left of \<open>n\<close>.
\<close>

definition steady :: "nat \<Rightarrow> ('f, 'r, 'q) world \<Rightarrow> nat list \<Rightarrow> bool" where
  "steady n w is \<longleftrightarrow> live good w is \<and> queued w is \<and> unat (limit w) + length is = n \<and>
     n \<le> room (queue w)"

lemma resume_next:
  assumes "live good w (j # js @ held)" "qinv (queue w)" "pend (queue w) = map Some (j # js)"
    "length js < room (queue w)" "pop (queue w) = (h, q)"
  shows "\<exists>w' is'. resume step push pop h (w\<lparr>queue := q\<rparr>) = Some (Inr w') \<and>
    live good w' (is' @ held) \<and> queued w' is' \<and> length is' = length js \<and>
    promised fin w' (is' @ held) = promised fin w (j # js @ held) \<and>
    limit w' = limit w + 1 \<and> room (queue w') = room (queue w) \<and>
    next_handle w' = next_handle w"
proof -
  have "h = Some j" "qinv q" "pend q = map Some js" "room q = room (queue w)"
    using pop_nonempty [OF assms(2), of "Some j" "map Some js"] assms(3,5) by auto
  then show ?thesis
    using resume_ok [of "w\<lparr>queue := q\<rparr>" j js held] assms(1,4)
    by (simp add: engine_simps queued_def)
qed

lemma spawn_ok:
  assumes st: "steady n w is" and n: "1 \<le> n" "n < 2 ^ 64" and "good f"
    and new: "new_coroutine f w = (h, w0)"
  shows "\<exists>w' is'. spawn step push pop h w0 = Some (Inr w') \<and> steady n w' is' \<and>
    promised fin w' is' = add_mset (fin f) (promised fin w is)"
proof -
  have h: "h = next_handle w" and fr: "frames w0 = (frames w)(h \<mapsto> f)" and nh: "next_handle w0 = h + 1"
    and same: "queue w0 = queue w" "limit w0 = limit w" "results w0 = results w"
    using new by (auto simp: new_coroutine_def)
  have lv: "live good w0 (is @ [h])" and fresh: "h \<notin> set is"
    using st \<open>good f\<close>
    by (auto simp: steady_def live_def h fr nh intro!: less_SucI intro: domI)
  have pr: "promised fin w0 (is @ [h]) = add_mset (fin f) (promised fin w is)"
    by (simp add: promised_def fr same fun_upd_same map_frames_other [OF fresh, of fin "frames w" "Some f"]
        del: fun_upd_apply mset_map)
  have "\<exists>w1 is1. (if limit w0 = 0 then let (g, q) = pop (queue w0) in resume step push pop g (w0\<lparr>queue := q\<rparr>)
      else Some (Inr w0)) = Some (Inr w1) \<and> live good w1 (is1 @ [h]) \<and> queued w1 is1 \<and>
      promised fin w1 (is1 @ [h]) = promised fin w0 (is @ [h]) \<and> limit w1 \<noteq> 0 \<and>
      unat (limit w1) + length is1 = n \<and> n \<le> room (queue w1)"
  proof (cases "limit w0 = 0")
    case True
    then have len: "length is = n" using st same by (simp add: steady_def)
    then obtain j js where js: "is = j # js" using n(1) by (cases "is") auto
    obtain g q where "pop (queue w0) = (g, q)" by fastforce
    moreover from resume_next [OF _ _ _ _ this, of j js "[h]"] lv js st len
    obtain w1 is1 where "resume step push pop g (w0\<lparr>queue := q\<rparr>) = Some (Inr w1)"
        "live good w1 (is1 @ [h])" "queued w1 is1" "length is1 = length js"
        "promised fin w1 (is1 @ [h]) = promised fin w0 (is @ [h])"
        "limit w1 = limit w0 + 1" "room (queue w1) = room (queue w)"
      by (auto simp: steady_def queued_def same)
    ultimately show ?thesis using True len js st
      by (intro exI [of _ w1] exI [of _ is1]) (simp add: steady_def)
  next
    case False
    with lv st show ?thesis
      by (intro exI [of _ w0] exI [of _ "is"]) (simp add: steady_def queued_def same)
  qed
  then obtain w1 is1 where w1: "(if limit w0 = 0 then let (g, q) = pop (queue w0) in resume step push pop g (w0\<lparr>queue := q\<rparr>)
      else Some (Inr w0)) = Some (Inr w1)" "live good w1 (is1 @ [h])" "queued w1 is1"
      "promised fin w1 (is1 @ [h]) = promised fin w0 (is @ [h])" "limit w1 \<noteq> 0"
      "unat (limit w1) + length is1 = n" "n \<le> room (queue w1)" by blast
  define w2 where "w2 = w1\<lparr>queue := push (Some h) (queue w1), limit := limit w1 - 1\<rparr>"
  have "spawn step push pop h w0 = Some (Inr w2)"
    unfolding spawn_def w1(1) by (simp add: w2_def Let_def)
  moreover have "0 < unat (limit w1)" using w1(5) by (simp add: unat_gt_0)
  then have q: "qinv (queue w1)" "length (pend (queue w1)) < room (queue w1)"
    using w1 by (simp_all add: queued_def)
  have "live good w2 (is1 @ [h])" using w1(2) by (simp only: w2_def engine_simps)
  then have "steady n w2 (is1 @ [h])"
    using w1(3-7) push_inv [OF q] push_pend [OF q] push_room [OF q] \<open>0 < unat (limit w1)\<close>
    by (simp add: steady_def w2_def queued_def unat_pred_size)
  moreover have "promised fin w2 (is1 @ [h]) = add_mset (fin f) (promised fin w is)"
    using w1(4) pr by (simp add: promised_def w2_def)
  ultimately show ?thesis by blast
qed

lemma spawn_each_ok:
  assumes "steady n w is" "1 \<le> n" "n < 2 ^ 64" "\<forall>f \<in> set fs. good f"
  shows "\<exists>w' is'. spawn_each step push pop fs w = Some (Inr w') \<and> steady n w' is' \<and>
    promised fin w' is' = promised fin w is + mset (map fin fs)"
  using assms
proof (induction fs arbitrary: w "is")
  case (Cons f fs)
  obtain h w0 where new: "new_coroutine f w = (h, w0)" by fastforce
  from spawn_ok [OF Cons.prems(1-3) _ new] Cons.prems(4)
  obtain w1 is1 where w1: "spawn step push pop h w0 = Some (Inr w1)" "steady n w1 is1"
      "promised fin w1 is1 = add_mset (fin f) (promised fin w is)" by auto
  from Cons.IH [OF w1(2) Cons.prems(2,3)] Cons.prems(4) w1 new show ?case by auto
qed auto

lemma run_queue_ok:
  assumes "steady n w is" "n < 2 ^ 64"
  shows "\<exists>w'. run_queue step push pop try_pop w = Some (Inr w') \<and> steady n w' [] \<and>
    promised fin w' [] = promised fin w is"
  using assms
proof (induction "length is" arbitrary: w "is")
  case 0
  then have "try_pop (queue w) = (None, queue w)"
    by (intro try_pop_empty) (simp_all add: steady_def queued_def)
  with 0 show ?case by (subst run_queue.simps) simp
next
  case (Suc k)
  then obtain j js where js: "is = j # js" by (cases "is") auto
  then have q: "qinv (queue w)" "pend (queue w) = Some j # map Some js"
    using Suc.prems by (simp_all add: steady_def queued_def)
  obtain h q where pop: "pop (queue w) = (h, q)" by fastforce
  then have h: "h = Some j" using pop_nonempty [OF q] by auto
  have bound: "length js < room (queue w)" "unat (limit w) + 1 < 2 ^ 64"
    using Suc.prems js by (auto simp: steady_def)
  obtain w1 is1 where w1: "resume step push pop h (w\<lparr>queue := q\<rparr>) = Some (Inr w1)"
      "live good w1 is1" "queued w1 is1" "length is1 = length js"
      "promised fin w1 is1 = promised fin w is" "limit w1 = limit w + 1"
      "room (queue w1) = room (queue w)"
    using resume_next [OF _ _ _ bound(1) pop, of j "[]"] Suc.prems js q
    by (auto simp: steady_def)
  have "steady n w1 is1"
    using w1 Suc.prems js unat_Suc_size [OF bound(2)] by (simp add: steady_def)
  then obtain w' where "run_queue step push pop try_pop w1 = Some (Inr w')" "steady n w' []"
      "promised fin w' [] = promised fin w is"
    using Suc.hyps(1) [of is1 w1] Suc.hyps(2) Suc.prems w1 js by auto
  moreover have "try_pop (queue w) = (h, q)" using try_pop_nonempty [OF q(1)] q(2) pop by simp
  ultimately show ?case
    using w1(1) h by (intro exI [of _ w'], subst run_queue.simps) simp
qed

text \<open>
  With at least one stream and no more streams than the queue has room for, the throttler runs
  every body to its end: the call returns, the results are exactly those of the bodies, no
  coroutine is left, and the limit is back at its start.
\<close>

lemma throttle_ok:
  assumes "qinv q" "pend q = []" "1 \<le> n" "unat n \<le> room q" "\<forall>f \<in> set fs. good f"
  shows "\<exists>w'. throttle step push pop try_pop q n fs = Some (Inr w') \<and>
    mset (results w') = mset (map fin fs) \<and> frames w' = Map.empty \<and> limit w' = n \<and>
    qinv (queue w') \<and> pend (queue w') = []"
proof -
  let ?w = "\<lparr>queue = q, frames = Map.empty, next_handle = 0, limit = n, results = []\<rparr>"
  have st: "steady (unat n) ?w []" using assms by (simp add: steady_def live_def queued_def)
  have n: "1 \<le> unat n" "unat n < 2 ^ 64"
    using assms(3) unat_size_bound [of n] by (auto simp: word_le_nat_alt)
  obtain w1 is1 where w1: "spawn_each step push pop fs ?w = Some (Inr w1)" "steady (unat n) w1 is1"
      "promised fin w1 is1 = mset (map fin fs)"
    using spawn_each_ok [OF st n assms(5)] by (auto simp: promised_def)
  obtain w2 where w2: "run_queue step push pop try_pop w1 = Some (Inr w2)" "steady (unat n) w2 []"
      "promised fin w2 [] = mset (map fin fs)"
    using run_queue_ok [OF w1(2) n(2)] w1(3) by auto
  obtain w3 where w3: "run_queue step push pop try_pop w2 = Some (Inr w3)" "steady (unat n) w3 []"
      "promised fin w3 [] = mset (map fin fs)"
    using run_queue_ok [OF w2(2) n(2)] w2(3) by auto
  have "throttle step push pop try_pop q n fs = Some (Inr w3)"
    by (simp add: throttle_def w1 w2 w3)
  moreover have "limit w3 = n" using w3(2) by (simp add: steady_def word_unat_eq_iff)
  ultimately show ?thesis using w3 by (auto simp: steady_def live_def queued_def promised_def)
qed

text \<open>
  With a single stream there is nobody to transfer to: a suspended coroutine takes itself back
  off the queue, and the results come in the order of the spawns.
\<close>

definition delivered :: "('f, 'r, 'q) world \<Rightarrow> nat list \<Rightarrow> 'r list" where
  "delivered w is = results w @ map (\<lambda>i. fin (the (frames w i))) is"

lemma resume_alone:
  assumes "live good w (i # held)" "queued w []" "0 < room (queue w)"
  shows "\<exists>w'. resume step push pop (Some i) w = Some (Inr w') \<and>
    live good w' held \<and> queued w' [] \<and> delivered w' held = delivered w (i # held) \<and>
    limit w' = limit w + 1 \<and> room (queue w') = room (queue w)"
  using assms
proof (induction "mu (the (frames w i))" arbitrary: w rule: less_induct)
  case less
  obtain f where f: "frames w i = Some f" "good f" using live_Cons [OF less.prems(1)] by blast
  have "i \<notin> set held" using less.prems(1) by (simp add: live_def)
  note other = map_frames_other [OF this, of fin "frames w"]
  from step_ok [OF f(2)] show ?case
  proof
    assume ret: "step f = Inr (Return (fin f))"
    then have "resume step push pop (Some i) w = Some (Inr (finish i (fin f) w))"
      by (simp add: resume.simps f)
    moreover have "delivered (finish i (fin f) w) held = delivered w (i # held)"
      by (simp add: delivered_def finish_def on_task_complete_def Let_def other f
          del: fun_upd_apply)
    ultimately show ?thesis
      using live_finish [OF less.prems(1)] less.prems(2,3)
      by (intro exI [of _ "finish i (fin f) w"]) (simp add: queued_def engine_simps)
  next
    assume "\<exists>f'. step f = Inr (Suspend f') \<and> good f' \<and> fin f' = fin f \<and> mu f' < mu f"
    then obtain f' where f': "step f = Inr (Suspend f')" "good f'" "fin f' = fin f" "mu f' < mu f"
      by blast
    define w1 where "w1 = w\<lparr>frames := (frames w)(i \<mapsto> f')\<rparr>"
    have w1: "live good w1 (i # held)"
      unfolding w1_def using live_suspend [OF less.prems(1) f'(2)] .
    have q: "qinv (queue w)" "length (pend (queue w)) < room (queue w)" "pend (queue w) = []"
      using less.prems by (simp_all add: queued_def)
    from pop_nonempty [OF push_inv [OF q(1,2)], of "Some i" "Some i" "[]"] push_pend [OF q(1,2)]
      push_room [OF q(1,2)] q(3)
    obtain q' where q': "pop (push (Some i) (queue w)) = (Some i, q')" "qinv q'" "pend q' = []"
        "room q' = room (queue w)" by auto
    define w2 where "w2 = w1\<lparr>queue := q'\<rparr>"
    have eq: "resume step push pop (Some i) w = resume step push pop (Some i) w2"
      by (subst resume.simps) (simp add: f f' await_suspend_def q'(1) w1_def w2_def)
    have w2: "live good w2 (i # held)" "queued w2 []" "0 < room (queue w2)" "frames w2 i = Some f'"
        "limit w2 = limit w" "room (queue w2) = room (queue w)"
      using w1 q' less.prems(3) by (simp_all add: w2_def live_queue queued_def w1_def)
    have "delivered w2 (i # held) = delivered w (i # held)"
      by (simp add: delivered_def w2_def w1_def other f f' fun_upd_same del: fun_upd_apply)
    moreover have "mu (the (frames w2 i)) < mu (the (frames w i))" using f f' w2 by simp
    ultimately show ?thesis using less.hyps [OF _ w2(1-3)] eq w2 by auto
  qed
qed

lemma resume_next_alone:
  assumes "live good w (j # held)" "qinv (queue w)" "pend (queue w) = [Some j]"
    "0 < room (queue w)" "pop (queue w) = (h, q)"
  shows "\<exists>w'. resume step push pop h (w\<lparr>queue := q\<rparr>) = Some (Inr w') \<and>
    live good w' held \<and> queued w' [] \<and> delivered w' held = delivered w (j # held) \<and>
    limit w' = limit w + 1 \<and> room (queue w') = room (queue w)"
proof -
  have "h = Some j" "qinv q" "pend q = []" "room q = room (queue w)"
    using pop_nonempty [OF assms(2,3)] assms(5) by auto
  then show ?thesis
    using resume_alone [of "w\<lparr>queue := q\<rparr>" j held] assms(1,4)
    by (simp add: engine_simps queued_def delivered_def)
qed

lemma spawn_alone:
  assumes st: "steady 1 w is" and "good f" and new: "new_coroutine f w = (h, w0)"
  shows "\<exists>w'. spawn step push pop h w0 = Some (Inr w') \<and> steady 1 w' [h] \<and>
    delivered w' [h] = delivered w is @ [fin f]"
proof -
  have h: "h = next_handle w" and fr: "frames w0 = (frames w)(h \<mapsto> f)" and nh: "next_handle w0 = h + 1"
    and same: "queue w0 = queue w" "limit w0 = limit w" "results w0 = results w"
    using new by (auto simp: new_coroutine_def)
  have lv: "live good w0 (is @ [h])" and fresh: "h \<notin> set is"
    using st \<open>good f\<close>
    by (auto simp: steady_def live_def h fr nh intro!: less_SucI intro: domI)
  have dl: "delivered w0 (is @ [h]) = delivered w is @ [fin f]"
    by (simp add: delivered_def fr same fun_upd_same map_frames_other [OF fresh, of fin "frames w" "Some f"]
        del: fun_upd_apply)
  have rm: "0 < room (queue w)" using st by (simp add: steady_def)
  have "\<exists>w1. (if limit w0 = 0 then let (g, q) = pop (queue w0) in resume step push pop g (w0\<lparr>queue := q\<rparr>)
      else Some (Inr w0)) = Some (Inr w1) \<and> live good w1 [h] \<and> queued w1 [] \<and>
      delivered w1 [h] = delivered w0 (is @ [h]) \<and> limit w1 = 1 \<and> room (queue w1) = room (queue w)"
  proof (cases "limit w0 = 0")
    case True
    then obtain j where j: "is = [j]" using st same
      by (auto simp: steady_def length_Suc_conv)
    obtain g q where "pop (queue w0) = (g, q)" by fastforce
    with True show ?thesis
      using resume_next_alone [of w0 j "[h]" g q] lv j st same rm
      by (auto simp: steady_def queued_def)
  next
    case False
    then have "0 < unat (limit w)" by (simp add: same unat_gt_0)
    then have "unat (limit w) = 1 \<and> length is = 0" using st unfolding steady_def by linarith
    then have "is = []" "limit w = 1" by (simp_all add: word_unat_eq_iff)
    with False lv st show ?thesis
      by (intro exI [of _ w0]) (simp add: steady_def queued_def same)
  qed
  then obtain w1 where w1: "(if limit w0 = 0 then let (g, q) = pop (queue w0) in resume step push pop g (w0\<lparr>queue := q\<rparr>)
      else Some (Inr w0)) = Some (Inr w1)" "live good w1 [h]" "queued w1 []"
      "delivered w1 [h] = delivered w0 (is @ [h])" "limit w1 = 1" "room (queue w1) = room (queue w)"
    by blast
  define w2 where "w2 = w1\<lparr>queue := push (Some h) (queue w1), limit := limit w1 - 1\<rparr>"
  have "spawn step push pop h w0 = Some (Inr w2)"
    unfolding spawn_def w1(1) by (simp add: w2_def Let_def)
  moreover have q: "qinv (queue w1)" "length (pend (queue w1)) < room (queue w1)"
    using w1 rm by (simp_all add: queued_def)
  have "live good w2 [h]" using w1(2) by (simp only: w2_def engine_simps)
  then have "steady 1 w2 [h]"
    using w1(3-6) push_inv [OF q] push_pend [OF q] push_room [OF q] rm
    by (simp add: steady_def w2_def queued_def)
  moreover have "delivered w2 [h] = delivered w is @ [fin f]"
    using w1(4) dl by (simp add: delivered_def w2_def)
  ultimately show ?thesis by blast
qed

lemma spawn_each_alone:
  assumes "steady 1 w is" "\<forall>f \<in> set fs. good f"
  shows "\<exists>w' is'. spawn_each step push pop fs w = Some (Inr w') \<and> steady 1 w' is' \<and>
    delivered w' is' = delivered w is @ map fin fs"
  using assms
proof (induction fs arbitrary: w "is")
  case (Cons f fs)
  obtain h w0 where new: "new_coroutine f w = (h, w0)" by fastforce
  from spawn_alone [OF Cons.prems(1) _ new] Cons.prems(2)
  obtain w1 where w1: "spawn step push pop h w0 = Some (Inr w1)" "steady 1 w1 [h]"
      "delivered w1 [h] = delivered w is @ [fin f]" by auto
  from Cons.IH [OF w1(2)] Cons.prems(2) w1 new show ?case by auto
qed auto

lemma run_queue_alone:
  assumes "steady 1 w is"
  shows "\<exists>w'. run_queue step push pop try_pop w = Some (Inr w') \<and> steady 1 w' [] \<and>
    delivered w' [] = delivered w is"
proof (cases "is")
  case Nil
  with assms have "try_pop (queue w) = (None, queue w)"
    by (intro try_pop_empty) (simp_all add: steady_def queued_def)
  with assms Nil show ?thesis by (subst run_queue.simps) simp
next
  case (Cons j js)
  with assms have one: "is = [j]" and q: "qinv (queue w)" "pend (queue w) = [Some j]"
    by (auto simp: steady_def queued_def)
  obtain h q where pop: "pop (queue w) = (h, q)" by fastforce
  have h: "h = Some j" using pop_nonempty [OF q] pop by auto
  obtain w1 where w1: "resume step push pop h (w\<lparr>queue := q\<rparr>) = Some (Inr w1)"
      "live good w1 []" "queued w1 []" "delivered w1 [] = delivered w is"
      "limit w1 = limit w + 1" "room (queue w1) = room (queue w)"
    using resume_next_alone [OF _ q _ pop, of "[]"] assms one by (auto simp: steady_def)
  have st: "steady 1 w1 []" using w1 assms one by (simp add: steady_def unat_eq_zero)
  then have "try_pop (queue w1) = (None, queue w1)"
    by (intro try_pop_empty) (simp_all add: steady_def queued_def)
  then have "run_queue step push pop try_pop w1 = Some (Inr w1)"
    by (subst run_queue.simps) simp
  moreover have "try_pop (queue w) = (h, q)" using try_pop_nonempty [OF q(1)] q(2) pop by simp
  ultimately show ?thesis
    using w1(1,4) st h by (intro exI [of _ w1], subst run_queue.simps) simp
qed

lemma throttle_alone:
  assumes "qinv q" "pend q = []" "0 < room q" "\<forall>f \<in> set fs. good f"
  shows "\<exists>w'. throttle step push pop try_pop q 1 fs = Some (Inr w') \<and> results w' = map fin fs"
proof -
  let ?w = "\<lparr>queue = q, frames = Map.empty, next_handle = 0, limit = 1, results = []\<rparr>"
  have st: "steady 1 ?w []" using assms by (simp add: steady_def live_def queued_def)
  obtain w1 is1 where w1: "spawn_each step push pop fs ?w = Some (Inr w1)" "steady 1 w1 is1"
      "delivered w1 is1 = map fin fs"
    using spawn_each_alone [OF st assms(4)] by (auto simp: delivered_def)
  obtain w2 where w2: "run_queue step push pop try_pop w1 = Some (Inr w2)" "steady 1 w2 []"
      "delivered w2 [] = map fin fs"
    using run_queue_alone [OF w1(2)] w1(3) by auto
  obtain w3 where w3: "run_queue step push pop try_pop w2 = Some (Inr w3)"
      "delivered w3 [] = map fin fs"
    using run_queue_alone [OF w2(2)] w2(3) by auto
  show ?thesis
    using w3 by (intro exI [of _ w3]) (simp add: throttle_def w1 w2 delivered_def)
qed

end

subsection \<open>Too many streams, or none\<close>

text \<open>
  While the limit lasts nothing is resumed: the handles of the new coroutines go into the queue
  one after the other. This needs no assumption on the queue or on the body.
\<close>

lemma spawn_each_within_limit:
  assumes "length fs \<le> unat (limit w)"
  shows "\<exists>w'. spawn_each step push pop fs w = Some (Inr w') \<and> results w' = results w \<and>
    queue w' = foldl (\<lambda>q h. push h q) (queue w)
      (map Some [next_handle w ..< next_handle w + length fs]) \<and>
    dom (frames w') = dom (frames w) \<union> {next_handle w ..< next_handle w + length fs}"
  using assms
proof (induction fs arbitrary: w)
  case (Cons f fs)
  define w1 where "w1 = w\<lparr>frames := (frames w)(next_handle w \<mapsto> f), next_handle := next_handle w + 1,
    queue := push (Some (next_handle w)) (queue w), limit := limit w - 1\<rparr>"
  have lim: "limit w \<noteq> 0" using Cons.prems by auto
  then have "spawn_each step push pop (f # fs) w = spawn_each step push pop fs w1"
    by (simp add: new_coroutine_def spawn_def w1_def)
  moreover have "length fs \<le> unat (limit w1)"
    using Cons.prems lim by (simp add: w1_def unat_pred_size)
  moreover have "[next_handle w ..< next_handle w + length (f # fs)] =
      next_handle w # [next_handle w1 ..< next_handle w1 + length fs]"
    by (simp add: w1_def upt_conv_Cons del: upt_Suc)
  moreover have "{next_handle w ..< next_handle w + length (f # fs)} =
      insert (next_handle w) {next_handle w1 ..< next_handle w1 + length fs}"
    by (auto simp: w1_def)
  moreover have "dom (frames w1) = insert (next_handle w) (dom (frames w))"
      "results w1 = results w" "queue w1 = push (Some (next_handle w)) (queue w)"
    by (simp_all add: w1_def)
  ultimately show ?case using Cons.IH [of w1] by (simp del: upt_Suc) 
qed simp

end
