(* ===== verification/Interleaved_Map.thy ===== *)
theory Interleaved_Map
  imports Map_History Throttling
begin

text \<open>
  The interleaved lookups of applications/map/map.hpp: the body of \<open>lookup_task\<close>, cut at its
  suspension points, on the engine of \<open>Throttling\<close> with the \<open>StaticQueueScheduler\<close>, and
  \<open>interleaved_multilookup\<close> against \<open>sequential_multilookup\<close>.
\<close>

subsection \<open>The coroutine body\<close>

text \<open>
  What is live at a suspension point: before the first resumption the key, afterwards also the
  entry pointer that the prefetch was given, here the rest of the chain from that entry on.
  What is delivered, through \<open>on_found\<close> and \<open>on_not_found\<close>, is a \<open>LookupKVResult\<close>.
\<close>

datatype ('k, 'v) lookup_frame = Created 'k | Prefetched 'k "('k, 'v) entry list"

fun lookup_task ::
  "('k \<Rightarrow> size_t) \<Rightarrow> ('k, 'v) hmap \<Rightarrow> (('k, 'v) lookup_frame, ('k, 'v) lookup_result) body" where
  "lookup_task hasher m (Created k) =
     bindE (bucket_for hasher m k) (\<lambda>bucket.
       if b_items bucket = 0 then Inr (Return None)
       else Inr (Suspend (Prefetched k (first bucket))))"
| "lookup_task hasher m (Prefetched k []) = Inl NullDeref"
| "lookup_task hasher m (Prefetched k (e # es)) =
     (if k = key e then Inr (Return (Some e))
      else if es = [] then Inr (Return None)
      else Inr (Suspend (Prefetched k es)))"

definition interleaved_multilookup ::
  "('k \<Rightarrow> size_t) \<Rightarrow> ('k, 'v) hmap \<Rightarrow> nat static_queue \<Rightarrow> size_t \<Rightarrow> 'k list \<Rightarrow>
   (('k, 'v) lookup_frame, ('k, 'v) lookup_result, nat static_queue) world res option" where
  "interleaved_multilookup hasher m scheduler n_streams keys =
     throttle (lookup_task hasher m) schedule remove_next_task try_remove_next_task
       scheduler n_streams (map Created keys)"

subsection \<open>The body meets the contract of the engine\<close>

fun chain_of :: "('k \<Rightarrow> size_t) \<Rightarrow> ('k, 'v) hmap \<Rightarrow> ('k, 'v) lookup_frame \<Rightarrow> ('k, 'v) entry list" where
  "chain_of hasher m (Created k) = first (buckets m ! unat (bucket_index_for_key hasher m k))"
| "chain_of hasher m (Prefetched k es) = es"

fun sought :: "('k, 'v) lookup_frame \<Rightarrow> 'k" where
  "sought (Created k) = k"
| "sought (Prefetched k es) = k"

definition lookup_fin ::
  "('k \<Rightarrow> size_t) \<Rightarrow> ('k, 'v) hmap \<Rightarrow> ('k, 'v) lookup_frame \<Rightarrow> ('k, 'v) lookup_result" where
  "lookup_fin hasher m f = List.find (\<lambda>e. sought f = key e) (chain_of hasher m f)"

definition lookup_good :: "('k \<Rightarrow> size_t) \<Rightarrow> ('k, 'v) hmap \<Rightarrow> ('k, 'v) lookup_frame \<Rightarrow> bool" where
  "lookup_good hasher m f \<longleftrightarrow> hm_inv hasher m \<and> (\<forall>k. f \<noteq> Prefetched k [])"

fun lookup_mu :: "('k \<Rightarrow> size_t) \<Rightarrow> ('k, 'v) hmap \<Rightarrow> ('k, 'v) lookup_frame \<Rightarrow> nat" where
  "lookup_mu hasher m (Created k) = Suc (length (chain_of hasher m (Created k)))"
| "lookup_mu hasher m (Prefetched k es) = length es"

interpretation map_engine: engine static_queue_inv pending queue_room schedule remove_next_task
  try_remove_next_task "lookup_task hasher m" "lookup_good hasher m" "lookup_fin hasher m"
  "lookup_mu hasher m" for hasher :: "'k \<Rightarrow> size_t" and m :: "('k, 'v) hmap"
proof (unfold_locales, goal_cases)
  case (1 f)
  then have inv: "hm_inv hasher m" by (simp add: lookup_good_def)
  show ?case
  proof (cases f)
    case (Created k)
    note b = bucket_for_inv [OF inv, of k] b_items_zero_iff [OF inv bucket_for_inv(1) [OF inv, of k]]
    show ?thesis
      using inv b Created by (auto simp: lookup_fin_def lookup_good_def)
  next
    case (Prefetched k es)
    with 1 obtain e es' where "es = e # es'" by (cases es) (auto simp: lookup_good_def)
    with Prefetched inv show ?thesis by (auto simp: lookup_fin_def lookup_good_def)
  qed
qed

lemma sequential_multilookup_eq:
  assumes "hm_inv hasher m"
  shows "sequential_multilookup hasher m ks =
    Inr (map (\<lambda>k. lookup_fin hasher m (Created k)) ks)"
  by (induction ks) (simp_all add: lookup_kv_eq [OF assms] lookup_fin_def)

lemma fin_created: "map (lookup_fin hasher m) (map Created ks) =
    map (\<lambda>k. lookup_fin hasher m (Created k)) ks"
  by simp

lemma created_good: "hm_inv hasher m \<Longrightarrow> \<forall>f \<in> set (map Created ks). lookup_good hasher m f"
  by (auto simp: lookup_good_def)

subsection \<open>Properties\<close>

text \<open>
  C3. On a map within its invariant and an idle scheduler that has room for the streams, of which
  there is at least one, the interleaved multi-lookup returns, without failure, exactly the results of the
  sequential one, in some order; it leaves no coroutine behind, the scheduler idle
  and the throttler's limit where it was.
\<close>

theorem interleaved_is_sequential:
  assumes "hm_inv hasher m" and "static_queue_inv q" and "pending q = []"
    and "1 \<le> n" and "unat n \<le> queue_room q"
  shows "\<exists>w rs. interleaved_multilookup hasher m q n ks = Some (Inr w) \<and>
    sequential_multilookup hasher m ks = Inr rs \<and> mset (results w) = mset rs \<and>
    frames w = Map.empty \<and> pending (queue w) = [] \<and> limit w = n"
  using map_engine.throttle_ok [OF assms(2-5) created_good [OF assms(1), of ks]]
    sequential_multilookup_eq [OF assms(1), of ks] fin_created [of hasher m ks]
  by (auto simp: interleaved_multilookup_def comp_def)

theorem interleaved_is_sequential_witness:
  "\<exists>w. interleaved_multilookup id two_keys (static_queue_init 3) 2 [8, 0, 3] = Some (Inr w) \<and>
     mset (results w) = {#Some \<lparr>key = 8, val = 20\<rparr>, Some \<lparr>key = 0, val = 10\<rparr>, None#}"
proof -
  have "(1 :: size_t) \<le> 2" "unat (2 :: size_t) \<le> queue_room (static_queue_init 3)"
    by (simp_all add: ring_simps)
  moreover have "static_queue_inv (static_queue_init 3)" "pending (static_queue_init 3) = []"
    by (simp_all add: ring_simps)
  moreover have "sequential_multilookup id two_keys [8, 0, 3] =
      Inr [Some \<lparr>key = 8, val = 20\<rparr>, Some \<lparr>key = 0, val = 10\<rparr>, None]"
    by code_simp
  ultimately show ?thesis
    using interleaved_is_sequential [OF two_keys_inv, of "static_queue_init 3" 2 "[8, 0, 3]"]
    by auto
qed

text \<open>
  The order is not that of the keys: with two streams the key that is found at the head of its
  chain overtakes the one behind it, so a caller cannot match results to keys by position.
\<close>

lemma interleaved_reorders:
  "sequential_multilookup id two_keys [8, 0] =
     Inr [Some \<lparr>key = 8, val = 20\<rparr>, Some \<lparr>key = 0, val = 10\<rparr>] \<and>
   map_option (map_sum id results)
     (interleaved_multilookup id two_keys (static_queue_init 3) 2 [8, 0]) =
     Some (Inr [Some \<lparr>key = 0, val = 10\<rparr>, Some \<lparr>key = 8, val = 20\<rparr>])"
  by code_simp

text \<open>
  With one stream the interleaved multi-lookup is the sequential one, order included.
\<close>

lemma one_stream_is_sequential:
  assumes "hm_inv hasher m" and "static_queue_inv q" and "pending q = []" and "0 < queue_room q"
  shows "\<exists>w rs. interleaved_multilookup hasher m q 1 ks = Some (Inr w) \<and>
    sequential_multilookup hasher m ks = Inr rs \<and> results w = rs"
  using map_engine.throttle_alone [OF assms(2-4) created_good [OF assms(1), of ks]]
    sequential_multilookup_eq [OF assms(1), of ks] fin_created [of hasher m ks]
  by (auto simp: interleaved_multilookup_def comp_def)

text \<open>
  The number of streams is not checked against the queue. A scheduler of depth \<open>d\<close> given \<open>d\<close>
  keys and at least \<open>d\<close> streams delivers nothing at all: the multi-lookup returns without a
  result, the \<open>d\<close> coroutines stay suspended for ever.
\<close>

lemma too_many_streams_lose_all:
  assumes "length ks = depth" and "depth \<le> unat n" and "0 < depth"
  shows "\<exists>w. interleaved_multilookup hasher m (static_queue_init depth) n ks = Some (Inr w) \<and>
    results w = [] \<and> card (dom (frames w)) = depth"
proof -
  let ?w = "\<lparr>queue = static_queue_init depth, frames = Map.empty, next_handle = 0, limit = n, results = []\<rparr>
    :: (('a, 'b) lookup_frame, ('a, 'b) lookup_result, nat static_queue) world"
  let ?hs = "map Some [0 ..< depth]"
  obtain w where w: "spawn_each (lookup_task hasher m) schedule remove_next_task (map Created ks) ?w
      = Some (Inr w)" "results w = []" "dom (frames w) = {0 ..< depth}"
      "queue w = foldl (\<lambda>q h. schedule h q) (static_queue_init depth) ?hs"
    using spawn_each_within_limit [of "map Created ks" ?w "lookup_task hasher m" schedule
        remove_next_task] assms by auto
  have "head (queue w) = tail (queue w)"
    using schedule_n [of "static_queue_init depth" 0 ?hs] w(4) assms(3)
    by (simp add: static_queue_init_def)
  then have "try_remove_next_task (queue w) = (None, queue w)"
    by (simp add: try_remove_next_task_def)
  then have "run_queue (lookup_task hasher m) schedule remove_next_task try_remove_next_task w
      = Some (Inr w)"
    by (subst run_queue.simps) simp
  with w show ?thesis
    by (intro exI [of _ w]) (simp add: interleaved_multilookup_def throttle_def)
qed

text \<open>
  Zero streams: the first spawn takes a null handle off the empty scheduler and resumes it.
\<close>

lemma zero_streams_crash:
  assumes "0 < depth"
  shows "interleaved_multilookup hasher m (static_queue_init depth) 0 (k # ks) = Some (Inl NullHandle)"
  using assms
  by (simp add: interleaved_multilookup_def throttle_def new_coroutine_def spawn_def
      remove_next_task_def static_queue_init_def resume.simps Let_def)

end
