(* ===== verification/Binary_Search.thy ===== *)
theory Binary_Search
  imports Throttling
begin

text \<open>
  The three binary searches of applications/binary-search: the plain loop (vanilla.hpp), the
  hand-written state machine that interleaves several searches (state_machine.hpp) and the
  coroutine on the throttler and the scheduler queue of coro_infra.hpp (coroutine.hpp).

  Iterators and pointers into the dataset are indices, and reading through one is a read of
  the list that can be out of bounds. The keys are only ever compared, so an \<open>int\<close> of the code
  is an integer. The difference of two iterators is a signed integer, the lengths of the state
  machine are 64-bit words, as in the code.
\<close>

subsection \<open>The plain loop\<close>

function vanilla_loop :: "int list \<Rightarrow> int \<Rightarrow> nat \<Rightarrow> int \<Rightarrow> bool res" where
  "vanilla_loop xs v first len =
     (if 0 < len
      then let half = len div 2; middle = first + nat half
           in bindE (array_get xs middle) (\<lambda>middle_key.
                let (first, len) =
                      (if middle_key < v then (middle + 1, len - half - 1) else (first, half))
                in if middle_key = v then Inr True
                   else vanilla_loop xs v first len)
      else Inr False)"
  by pat_completeness auto

termination
  by (relation "measure (\<lambda>(xs, v, first, len). nat len)") (auto split: if_splits)

declare vanilla_loop.simps [simp del]

definition vanilla_binary_search :: "int list \<Rightarrow> nat \<Rightarrow> nat \<Rightarrow> int \<Rightarrow> bool res" where
  "vanilla_binary_search xs first stop v = vanilla_loop xs v first (int stop - int first)"

text \<open>One turn of the loop, for a range inside the list.\<close>

definition narrow :: "int \<Rightarrow> int \<Rightarrow> nat \<Rightarrow> int \<Rightarrow> nat \<times> int" where
  "narrow x v first len =
     (if x < v then (first + nat (len div 2) + 1, len - len div 2 - 1) else (first, len div 2))"

lemma narrow_range:
  assumes "narrow x v first len = (first', len')" "0 < len" "first + nat len \<le> n"
  shows "first' + nat len' \<le> n" "0 \<le> len'" "len' < len"
  using assms by (auto simp: narrow_def split: if_splits)

lemma vanilla_loop_turn:
  assumes "0 < len" "first + nat len \<le> length xs"
  shows "first + nat (len div 2) < length xs"
    and "vanilla_loop xs v first len =
      (let x = xs ! (first + nat (len div 2)); (first', len') = narrow x v first len
       in if x = v then Inr True else vanilla_loop xs v first' len')"
proof -
  show mid: "first + nat (len div 2) < length xs" using assms by linarith
  show "vanilla_loop xs v first len =
      (let x = xs ! (first + nat (len div 2)); (first', len') = narrow x v first len
       in if x = v then Inr True else vanilla_loop xs v first' len')"
    using assms(1) mid
    by (subst vanilla_loop.simps) (simp add: narrow_def Let_def)
qed

lemma vanilla_loop_done: "len \<le> 0 \<Longrightarrow> vanilla_loop xs v first len = Inr False"
  by (subst vanilla_loop.simps) simp

text \<open>No range inside the list makes it fail, and on a sorted list it decides membership.\<close>

lemma vanilla_loop_safe:
  "first + nat len \<le> length xs \<Longrightarrow> \<exists>b. vanilla_loop xs v first len = Inr b"
proof (induction "nat len" arbitrary: first len rule: less_induct)
  case less
  show ?case
  proof (cases "0 < len")
    case True
    obtain first' len' where n: "narrow (xs ! (first + nat (len div 2))) v first len = (first', len')"
      by fastforce
    note r = narrow_range [OF n True less.prems]
    show ?thesis
      using less.hyps [of len' first'] r True
      by (subst vanilla_loop_turn(2) [OF True less.prems]) (auto simp: n Let_def)
  qed (intro exI [of _ False], simp add: vanilla_loop_done)
qed

lemma vanilla_loop_sorted:
  assumes "sorted xs" "first + nat len \<le> length xs"
  shows "vanilla_loop xs v first len = Inr (\<exists>i. first \<le> i \<and> i < first + nat len \<and> xs ! i = v)"
  using assms(2)
proof (induction "nat len" arbitrary: first len rule: less_induct)
  case less
  show ?case
  proof (cases "0 < len")
    case True
    let ?mid = "first + nat (len div 2)"
    obtain first' len' where n: "narrow (xs ! ?mid) v first len = (first', len')" by fastforce
    note r = narrow_range [OF n True less.prems]
    note mid = vanilla_loop_turn(1) [OF True less.prems]
    have inr: "?mid < first + nat len" using True by linarith
    have step: "(\<exists>i. first' \<le> i \<and> i < first' + nat len' \<and> xs ! i = v) \<longleftrightarrow>
        (\<exists>i. first \<le> i \<and> i < first + nat len \<and> xs ! i = v)" if ne: "xs ! ?mid \<noteq> v"
    proof (cases "xs ! ?mid < v")
      case lt: True
      have "first' = ?mid + 1" "first' + nat len' = first + nat len"
        using n lt True by (auto simp: narrow_def nat_diff_distrib)
      moreover have "i \<ge> ?mid + 1" if "i < first + nat len" "xs ! i = v" for i
      proof (rule ccontr)
        assume "\<not> ?mid + 1 \<le> i"
        then have "xs ! i \<le> xs ! ?mid" using assms(1) mid by (intro sorted_nth_mono) auto
        with that lt show False by simp
      qed
      ultimately show ?thesis by (metis add_leE le_add1 order_trans)
    next
      case ge: False
      then have gt: "v < xs ! ?mid" using ne by simp
      have eq: "first' = first" "first' + nat len' = ?mid"
        using n ge True by (auto simp: narrow_def)
      moreover have "i < ?mid" if "i < first + nat len" "xs ! i = v" for i
      proof (rule ccontr)
        assume "\<not> i < ?mid"
        then have "xs ! ?mid \<le> xs ! i"
          using assms(1) that less.prems by (intro sorted_nth_mono) auto
        with that gt show False by simp
      qed
      ultimately show ?thesis using inr by (metis order_less_trans)
    qed
    have found: "\<exists>i. first \<le> i \<and> i < first + nat len \<and> xs ! i = v" if "xs ! ?mid = v"
      using that inr by (intro exI [of _ ?mid]) simp
    show ?thesis
      using less.hyps [of len' first'] r True step found
      by (subst vanilla_loop_turn(2) [OF True less.prems]) (auto simp: n Let_def)
  qed (auto simp: vanilla_loop_done)
qed

subsection \<open>The state machine\<close>

datatype frame_state = KEEP_GOING | FOUND | NOT_FOUND | EMPTY

record bs_frame =
  f_first :: nat
  f_last :: nat
  f_middle :: nat
  f_len :: size_t
  f_half :: size_t
  f_val :: int
  f_state :: frame_state

text \<open>A value-initialised frame: every field zero, the state \<open>EMPTY\<close>.\<close>

definition empty_frame :: bs_frame where
  "empty_frame = \<lparr>f_first = 0, f_last = 0, f_middle = 0, f_len = 0, f_half = 0, f_val = 0,
     f_state = EMPTY\<rparr>"

definition frame_init :: "nat \<Rightarrow> nat \<Rightarrow> int \<Rightarrow> bs_frame \<Rightarrow> bs_frame" where
  "frame_init first stop k f =
     (let f = f\<lparr>f_val := k, f_first := first, f_last := stop,
                f_len := of_nat stop - of_nat first\<rparr>
      in if f_len f = 0 then f\<lparr>f_state := NOT_FOUND\<rparr>
         else let f = f\<lparr>f_half := f_len f div 2\<rparr>
              in f\<lparr>f_middle := f_first f + unat (f_half f), f_state := KEEP_GOING\<rparr>)"

definition frame_run :: "int list \<Rightarrow> bs_frame \<Rightarrow> (bool \<times> bs_frame) res" where
  "frame_run xs f =
     bindE (array_get xs (f_middle f)) (\<lambda>x.
       let f = (if x < f_val f
                then f\<lparr>f_first := f_middle f + 1, f_len := f_len f - f_half f - 1\<rparr>
                else f\<lparr>f_len := f_half f\<rparr>)
       in if x = f_val f then Inr (True, f\<lparr>f_state := FOUND\<rparr>)
          else if 0 < f_len f
          then let f = f\<lparr>f_half := f_len f div 2\<rparr>
               in Inr (False, f\<lparr>f_middle := f_first f + unat (f_half f)\<rparr>)
          else Inr (True, f\<lparr>f_state := NOT_FOUND\<rparr>))"

partial_function (option) run_while_going :: "int list \<Rightarrow> bs_frame \<Rightarrow> bs_frame res option" where
  "run_while_going xs f =
     (if f_state f = KEEP_GOING
      then bind_run (Some (frame_run xs f)) (\<lambda>(_, f). run_while_going xs f)
      else Some (Inr f))"

declare run_while_going.simps [code]

definition state_machine_binary_search :: "int list \<Rightarrow> nat \<Rightarrow> nat \<Rightarrow> int \<Rightarrow> bool res option" where
  "state_machine_binary_search xs first stop k =
     bind_run (run_while_going xs (frame_init first stop k empty_frame))
       (\<lambda>f. Some (Inr (f_state f = FOUND)))"

text \<open>
  The multi-lookup. \<open>switch_frames\<close> is the inner loop: it runs the frame at \<open>i\<close>, and goes to
  the next lower index, round the end, until a frame is done and takes over the next key.
\<close>

definition next_index :: "size_t \<Rightarrow> size_t \<Rightarrow> size_t" where
  "next_index N i = (if i = 0 then N else i - 1)"

partial_function (option) switch_frames ::
  "int list \<Rightarrow> size_t \<Rightarrow> int \<Rightarrow> bs_frame list \<Rightarrow> size_t \<Rightarrow> size_t \<Rightarrow>
   (bs_frame list \<times> size_t \<times> size_t) res option" where
  "switch_frames xs N k frs i result =
     bind_run (Some (array_get frs (unat i))) (\<lambda>frame.
     bind_run (Some (frame_run xs frame)) (\<lambda>(done, frame).
       if done
       then let result = (if f_state frame = FOUND then result + 1 else result);
                frame = frame_init 0 (length xs) k frame
            in Some (Inr (frs[unat i := frame], next_index N i, result))
       else switch_frames xs N k (frs[unat i := frame]) (next_index N i) result))"

declare switch_frames.simps [code]

fun start_lookups ::
  "int list \<Rightarrow> size_t \<Rightarrow> int list \<Rightarrow> bs_frame list \<Rightarrow> size_t \<Rightarrow> size_t \<Rightarrow>
   (bs_frame list \<times> size_t) res option" where
  "start_lookups xs N [] frs i result = Some (Inr (frs, result))"
| "start_lookups xs N (k # ks) frs i result =
     bind_run (Some (array_get frs (unat i))) (\<lambda>frame.
       if f_state frame \<noteq> KEEP_GOING
       then start_lookups xs N ks (frs[unat i := frame_init 0 (length xs) k frame])
              (next_index N i) result
       else bind_run (switch_frames xs N k frs i result)
              (\<lambda>(frs, i, result). start_lookups xs N ks frs i result))"

text \<open>One pass over all frames of the closing loop, and the loop.\<close>

fun drain_pass :: "int list \<Rightarrow> bs_frame list \<Rightarrow> size_t \<Rightarrow> (bool \<times> bs_frame list \<times> size_t) res" where
  "drain_pass xs [] result = Inr (False, [], result)"
| "drain_pass xs (frame # frs) result =
     (if f_state frame = KEEP_GOING
      then bindE (frame_run xs frame) (\<lambda>(done, frame).
             let result = (if done \<and> f_state frame = FOUND then result + 1 else result)
             in bindE (drain_pass xs frs result) (\<lambda>(_, frs, result).
                  Inr (True, frame # frs, result)))
      else bindE (drain_pass xs frs result) (\<lambda>(more_work, frs, result).
             Inr (more_work, frame # frs, result)))"

partial_function (option) drain :: "int list \<Rightarrow> bs_frame list \<Rightarrow> size_t \<Rightarrow> size_t res option" where
  "drain xs frs result =
     bind_run (Some (drain_pass xs frs result)) (\<lambda>(more_work, frs, result).
       if more_work then drain xs frs result else Some (Inr result))"

declare drain.simps [code]

definition state_machine_multi_lookup :: "int list \<Rightarrow> int list \<Rightarrow> size_t \<Rightarrow> size_t res option" where
  "state_machine_multi_lookup xs ks n_streams =
     (let frs = replicate (unat n_streams) empty_frame; N = n_streams - 1
      in bind_run (start_lookups xs N ks frs N 0) (\<lambda>(frs, result). drain xs frs result))"

subsection \<open>The coroutine\<close>

text \<open>
  Created with its arguments; suspended in the prefetch of \<open>*middle\<close> with \<open>first\<close> and \<open>len\<close>
  live (\<open>half\<close> and \<open>middle\<close> follow from them). It returns whether \<open>on_found\<close> was called.
\<close>

datatype search_frame = Search_Created nat nat int | Search_Prefetched nat int int

definition coro_loop :: "int \<Rightarrow> nat \<Rightarrow> int \<Rightarrow> (search_frame, bool) outcome" where
  "coro_loop k first len =
     (if 0 < len then Suspend (Search_Prefetched first len k) else Return False)"

fun coro_binary_search :: "int list \<Rightarrow> (search_frame, bool) body" where
  "coro_binary_search xs (Search_Created first stop k) =
     Inr (coro_loop k first (int stop - int first))"
| "coro_binary_search xs (Search_Prefetched first len k) =
     (let half = len div 2; middle = first + nat half
      in bindE (array_get xs middle) (\<lambda>x.
           let (first, len) =
                 (if x < k then (middle + 1, len - half - 1) else (first, half))
           in if x = k then Inr (Return True) else Inr (coro_loop k first len)))"

text \<open>
  The queue is the global \<open>scheduler\<close>, which outlives the call. The two counters
  \<open>found_count\<close> and \<open>not_found_count\<close> are zero before each call and are reset at its end; what
  the assertion compares is returned with the count.
\<close>

definition coro_multi_lookup ::
  "int list \<Rightarrow> int list \<Rightarrow> size_t \<Rightarrow> nat scheduler_queue \<Rightarrow>
   (size_t \<times> bool \<times> nat scheduler_queue) res option" where
  "coro_multi_lookup dataset lookups n_streams scheduler =
     bind_run
       (throttle (coro_binary_search dataset) push_back pop_front try_pop_front scheduler n_streams
         (map (Search_Created 0 (length dataset)) lookups))
       (\<lambda>w. let found_count = of_nat (length (filter (\<lambda>r. r) (results w)));
                 not_found_count = of_nat (length (filter (\<lambda>r. \<not> r) (results w)))
             in Some (Inr (found_count, found_count + not_found_count = of_nat (length lookups),
                           queue w)))"

subsection \<open>What a frame of the state machine computes\<close>

definition going :: "bs_frame \<Rightarrow> bool" where
  "going f \<longleftrightarrow> f_state f = KEEP_GOING"

text \<open>A frame that is going has a nonempty range inside the list, and its middle.\<close>

definition frame_ok :: "int list \<Rightarrow> bs_frame \<Rightarrow> bool" where
  "frame_ok xs f \<longleftrightarrow> (going f \<longrightarrow>
     0 < unat (f_len f) \<and> f_half f = f_len f div 2 \<and>
     f_middle f = f_first f + unat (f_half f) \<and> f_first f + unat (f_len f) \<le> length xs)"

definition frame_ans :: "int list \<Rightarrow> bs_frame \<Rightarrow> bool" where
  "frame_ans xs f \<longleftrightarrow> vanilla_loop xs (f_val f) (f_first f) (int (unat (f_len f))) = Inr True"

lemma frame_run_ok:
  assumes "going f" "frame_ok xs f"
  shows "\<exists>done f'. frame_run xs f = Inr (done, f') \<and> frame_ok xs f' \<and>
    (if done then \<not> going f' \<and> (f_state f' = FOUND \<longleftrightarrow> frame_ans xs f)
     else going f' \<and> frame_ans xs f' = frame_ans xs f \<and> unat (f_len f') < unat (f_len f))"
proof -
  let ?len = "int (unat (f_len f))" and ?n = "unat (f_len f)"
  have f: "0 < ?len" "f_first f + nat ?len \<le> length xs" "f_half f = f_len f div 2"
      "f_middle f = f_first f + nat (?len div 2)" "0 < ?n"
    using assms by (simp_all add: frame_ok_def unat_half nat_div_distrib del: of_nat_unat)
  let ?x = "xs ! f_middle f"
  note mid = vanilla_loop_turn(1) [OF f(1,2)]
  have turn: "vanilla_loop xs (f_val f) (f_first f) ?len =
      (if ?x = f_val f then Inr True
       else if ?x < f_val f then vanilla_loop xs (f_val f) (f_middle f + 1) (?len - ?len div 2 - 1)
       else vanilla_loop xs (f_val f) (f_first f) (?len div 2))"
    using vanilla_loop_turn(2) [OF f(1,2), of "f_val f"] f(4)
    by (simp add: narrow_def Let_def)
  have upper: "unat (f_len f - f_len f div 2 - 1) = ?n - ?n div 2 - 1"
  proof -
    have "f_len f div 2 \<le> f_len f" by (simp add: word_le_nat_alt unat_half)
    then have u: "unat (f_len f - f_len f div 2) = ?n - ?n div 2" by (simp add: unat_sub unat_half)
    moreover have "?n - ?n div 2 \<noteq> 0" using f(5) by linarith
    ultimately have "f_len f - f_len f div 2 \<noteq> 0" by (metis unat_0)
    with u show ?thesis by (simp add: unat_pred_size)
  qed
  define g where "g = (if ?x < f_val f
      then f\<lparr>f_first := f_middle f + 1, f_len := f_len f - f_half f - 1\<rparr> else f\<lparr>f_len := f_half f\<rparr>)"
  have g_len: "unat (f_len g) = (if ?x < f_val f then ?n - ?n div 2 - 1 else ?n div 2)"
    using upper f(3) by (simp add: g_def unat_half)
  have g_val: "f_val g = f_val f" "f_state g = f_state f" by (simp_all add: g_def)
  have ilen: "int (?n - ?n div 2 - 1) = ?len - ?len div 2 - 1" "int (?n div 2) = ?len div 2"
    using f(5) by linarith+
  have g_ans: "frame_ans xs g \<longleftrightarrow> frame_ans xs f" if "?x \<noteq> f_val f"
    using that turn g_len ilen unfolding frame_ans_def by (auto simp: g_def f(3) unat_half)
  have g_range: "f_first g + unat (f_len g) \<le> length xs" and "unat (f_len g) < ?n"
    using f g_len by (auto simp: g_def nat_div_distrib)
  have run: "frame_run xs f = (if ?x = f_val f then Inr (True, g\<lparr>f_state := FOUND\<rparr>)
      else if 0 < f_len g then Inr (False, g\<lparr>f_half := f_len g div 2,
        f_middle := f_first g + unat (f_len g div 2)\<rparr>)
      else Inr (True, g\<lparr>f_state := NOT_FOUND\<rparr>))"
    using mid f(4) by (simp add: frame_run_def g_def Let_def)
  consider "?x = f_val f" | "?x \<noteq> f_val f" "0 < f_len g" | "?x \<noteq> f_val f" "f_len g = 0"
    by (auto simp: word_greater_zero_iff)
  then show ?thesis
  proof cases
    case 1
    then show ?thesis
      unfolding run using turn
      by (intro exI [of _ True] exI [of _ "g\<lparr>f_state := FOUND\<rparr>"])
        (simp add: frame_ok_def going_def frame_ans_def)
  next
    case 2
    have "0 < unat (f_len g)" using 2(2) by (simp add: word_less_nat_alt)
    with 2 show ?thesis
      unfolding run using g_ans g_range \<open>unat (f_len g) < ?n\<close> assms(1)
      by (intro exI [of _ False] exI [of _ "g\<lparr>f_half := f_len g div 2,
            f_middle := f_first g + unat (f_len g div 2)\<rparr>"])
        (simp add: frame_ok_def going_def g_val frame_ans_def)
  next
    case 3
    then have "\<not> frame_ans xs f" using g_ans by (simp add: frame_ans_def vanilla_loop_done)
    with 3 show ?thesis
      unfolding run
      by (intro exI [of _ True] exI [of _ "g\<lparr>f_state := NOT_FOUND\<rparr>"])
        (simp add: frame_ok_def going_def)
  qed
qed

lemma frame_init_ok:
  assumes "first \<le> stop" "stop \<le> length xs" "length xs < 2 ^ 64"
  shows "frame_ok xs (frame_init first stop k f)"
    and "going (frame_init first stop k f) \<longleftrightarrow> first < stop"
    and "going (frame_init first stop k f) \<Longrightarrow> frame_ans xs (frame_init first stop k f) \<longleftrightarrow>
      vanilla_binary_search xs first stop k = Inr True"
    and "\<not> going (frame_init first stop k f) \<Longrightarrow> f_state (frame_init first stop k f) = NOT_FOUND"
proof -
  have "(of_nat stop - of_nat first :: size_t) = of_nat (stop - first)" using assms(1) by simp
  then have len: "unat (of_nat stop - of_nat first :: size_t) = stop - first"
    using assms unat_of_nat_size [of "stop - first"] by simp
  then have zero: "(of_nat stop - of_nat first :: size_t) = 0 \<longleftrightarrow> first = stop"
    using assms(1) by (metis diff_is_0_eq' dual_order.antisym linorder_not_less unat_eq_zero zero_less_diff
        order_refl)
  show "frame_ok xs (frame_init first stop k f)"
    and "going (frame_init first stop k f) \<longleftrightarrow> first < stop"
    and "going (frame_init first stop k f) \<Longrightarrow> frame_ans xs (frame_init first stop k f) \<longleftrightarrow>
      vanilla_binary_search xs first stop k = Inr True"
    and "\<not> going (frame_init first stop k f) \<Longrightarrow> f_state (frame_init first stop k f) = NOT_FOUND"
    using assms zero len
    by (auto simp: frame_init_def Let_def frame_ok_def going_def frame_ans_def
        vanilla_binary_search_def of_nat_diff simp del: of_nat_unat)
qed

subsection \<open>What the multi-lookup of the state machine computes\<close>

text \<open>
  \<open>owed\<close>: the searches under way that are going to succeed; \<open>todo\<close>: the work left in them.
\<close>

definition owed :: "int list \<Rightarrow> bs_frame list \<Rightarrow> nat" where
  "owed xs frs = length (filter (\<lambda>f. going f \<and> frame_ans xs f) frs)"

definition todo :: "bs_frame list \<Rightarrow> nat" where
  "todo frs = (\<Sum>f \<leftarrow> frs. if going f then unat (f_len f) else 0)"

definition all_ok :: "int list \<Rightarrow> bs_frame list \<Rightarrow> bool" where
  "all_ok xs frs \<longleftrightarrow> (\<forall>f \<in> set frs. frame_ok xs f)"

definition hit :: "int list \<Rightarrow> int \<Rightarrow> bool" where
  "hit xs k \<longleftrightarrow> vanilla_binary_search xs 0 (length xs) k = Inr True"

lemma list_split_at: "i < length frs \<Longrightarrow> \<exists>l r. frs = l @ frs ! i # r \<and> length l = i"
  by (intro exI [of _ "take i frs"] exI [of _ "drop (Suc i) frs"]) (simp add: id_take_nth_drop)

lemma frs_update:
  assumes "i < length frs"
  shows "owed xs (frs[i := f]) + of_bool (going (frs ! i) \<and> frame_ans xs (frs ! i)) =
           owed xs frs + of_bool (going f \<and> frame_ans xs f)"
    and "todo (frs[i := f]) + (if going (frs ! i) then unat (f_len (frs ! i)) else 0) =
           todo frs + (if going f then unat (f_len f) else 0)"
    and "all_ok xs frs \<Longrightarrow> frame_ok xs f \<Longrightarrow> all_ok xs (frs[i := f])"
proof -
  obtain l r where "frs = l @ frs ! i # r" "length l = i" using list_split_at [OF assms] by blast
  then obtain g where g: "frs = l @ g # r" "frs ! i = g" "frs[i := f] = l @ f # r" by force
  show "owed xs (frs[i := f]) + of_bool (going (frs ! i) \<and> frame_ans xs (frs ! i)) =
           owed xs frs + of_bool (going f \<and> frame_ans xs f)"
    and "todo (frs[i := f]) + (if going (frs ! i) then unat (f_len (frs ! i)) else 0) =
           todo frs + (if going f then unat (f_len f) else 0)"
    and "all_ok xs frs \<Longrightarrow> frame_ok xs f \<Longrightarrow> all_ok xs (frs[i := f])"
    unfolding g(2,3) unfolding g(1) by (auto simp: owed_def todo_def all_ok_def)
qed

text \<open>
  The two phases of the outer loop: first the frames from the top down to \<open>i\<close> have not been used,
  those above are going; afterwards all are going. (On an empty list none ever is.)
\<close>

definition phase :: "int list \<Rightarrow> bs_frame list \<Rightarrow> size_t \<Rightarrow> size_t \<Rightarrow> bool" where
  "phase xs frs N i \<longleftrightarrow> length frs = Suc (unat N) \<and> i \<le> N \<and> all_ok xs frs \<and>
     (if xs = [] then \<forall>j < length frs. \<not> going (frs ! j)
      else (\<forall>j < length frs. going (frs ! j)) \<or> (\<forall>j < length frs. going (frs ! j) \<longleftrightarrow> unat i < j))"

lemma next_index_le: "i \<le> N \<Longrightarrow> next_index N i \<le> N"
  by (auto simp: next_index_def word_le_nat_alt unat_pred_size)

lemma phase_init:
  assumes ph: "phase xs frs N i" and len: "length xs < 2 ^ 64"
    and f: "f = frame_init 0 (length xs) k f0"
    and frs': "length frs' = length frs" "all_ok xs frs'" "\<forall>j < length frs. j \<noteq> unat i \<longrightarrow> going (frs' ! j) = going (frs ! j)"
  shows "phase xs (frs'[unat i := f]) N (next_index N i)"
proof -
  note fr = frame_init_ok [of 0 "length xs" xs k f0, folded f]
  have i: "unat i < length frs" using ph by (auto simp: phase_def word_le_nat_alt)
  have "all_ok xs (frs'[unat i := f])"
    using frs_update(3) [of "unat i" frs' xs f] fr(1) frs' i len by simp
  moreover have "going f \<longleftrightarrow> xs \<noteq> []" using fr(2) len by simp
  moreover have "unat (next_index N i) = (if i = 0 then unat N else unat i - 1)"
    by (simp add: next_index_def unat_pred_size)
  moreover have "unat i = 0 \<longleftrightarrow> i = 0" by (simp add: unat_eq_zero)
  ultimately show ?thesis
    using ph frs' i next_index_le [of i N] unfolding phase_def by (auto simp: nth_list_update)
qed

lemma switch_frames_ok:
  assumes "length frs = Suc (unat N)" "i \<le> N" "all_ok xs frs" "\<forall>j < length frs. going (frs ! j)"
    "length xs < 2 ^ 64"
  shows "\<exists>frs' i' result'. switch_frames xs N k frs i result = Some (Inr (frs', i', result')) \<and>
    length frs' = Suc (unat N) \<and> i' \<le> N \<and> all_ok xs frs' \<and> (\<forall>j < length frs'. going (frs' ! j)) \<and>
    result' + of_nat (owed xs frs') = result + of_nat (owed xs frs) + of_bool (hit xs k)"
  using assms
proof (induction "todo frs" arbitrary: frs i rule: less_induct)
  case less
  have i: "unat i < length frs" using less.prems by (simp add: word_le_nat_alt)
  define f where "f = frs ! unat i"
  have f: "going f" "frame_ok xs f" using less.prems i by (auto simp: f_def all_ok_def)
  have "f \<in> set frs" using i by (simp add: f_def)
  then have "xs \<noteq> []" using f by (auto simp: frame_ok_def)
  obtain d f' where run: "frame_run xs f = Inr (d, f')" and f': "frame_ok xs f'"
    "if d then \<not> going f' \<and> (f_state f' = FOUND \<longleftrightarrow> frame_ans xs f)
     else going f' \<and> frame_ans xs f' = frame_ans xs f \<and> unat (f_len f') < unat (f_len f)"
    using frame_run_ok [OF f] by blast
  show ?case
  proof (cases d)
    case True
    define g where "g = frame_init 0 (length xs) k f'"
    note fr = frame_init_ok [of 0 "length xs" xs k f', folded g_def]
    have g: "going g" "frame_ok xs g" "frame_ans xs g \<longleftrightarrow> hit xs k"
      using fr less.prems(5) \<open>xs \<noteq> []\<close> by (auto simp: hit_def)
    let ?r = "if frame_ans xs f then result + 1 else result"
    have "switch_frames xs N k frs i result =
        Some (Inr (frs[unat i := g], next_index N i, ?r))"
      using True run f' i f_def by (subst switch_frames.simps) (simp add: g_def)
    moreover have "all_ok xs (frs[unat i := g])" using frs_update(3) [OF i less.prems(3) g(2)] .
    moreover have "?r + of_nat (owed xs (frs[unat i := g])) =
        result + of_nat (owed xs frs) + of_bool (hit xs k)"
    proof -
      have "owed xs (frs[unat i := g]) + of_bool (frame_ans xs f) = owed xs frs + of_bool (hit xs k)"
        using frs_update(1) [OF i, of xs g] f g by (simp add: f_def)
      then have "(of_nat (owed xs (frs[unat i := g]) + of_bool (frame_ans xs f)) :: size_t)
          = of_nat (owed xs frs + of_bool (hit xs k))" by simp
      then show ?thesis by (auto simp: of_bool_def algebra_simps split: if_splits)
    qed
    ultimately show ?thesis
      using less.prems g(1) next_index_le [OF less.prems(2)] i
      by - (rule exI [of _ "frs[unat i := g]"], rule exI [of _ "next_index N i"],
        rule exI [of _ ?r], simp add: nth_list_update)
  next
    case False
    let ?frs = "frs[unat i := f']"
    have "switch_frames xs N k frs i result = switch_frames xs N k ?frs (next_index N i) result"
      using False run i f_def by (subst switch_frames.simps) simp
    moreover have "todo ?frs < todo frs"
      using frs_update(2) [OF i, of f'] f f' False by (simp add: f_def)
    moreover have "owed xs ?frs = owed xs frs"
      using frs_update(1) [OF i, of xs f'] f f' False by (simp add: f_def)
    moreover have "all_ok xs ?frs" using frs_update(3) [OF i less.prems(3) f'(1)] .
    ultimately show ?thesis
      using less.hyps [of ?frs "next_index N i"] less.prems f' False next_index_le [OF less.prems(2)] i
      by (simp add: nth_list_update)
  qed
qed

lemma start_lookups_ok:
  assumes "phase xs frs N i" "length xs < 2 ^ 64"
  shows "\<exists>frs' result'. start_lookups xs N ks frs i result = Some (Inr (frs', result')) \<and>
    all_ok xs frs' \<and>
    result' + of_nat (owed xs frs') =
      result + of_nat (owed xs frs) + of_nat (length (filter (hit xs) ks))"
  using assms(1)
proof (induction ks arbitrary: frs i result)
  case Nil
  then show ?case by (simp add: phase_def)
next
  case (Cons k ks)
  have i: "unat i < length frs" using Cons.prems by (auto simp: phase_def word_le_nat_alt)
  define f where "f = frs ! unat i"
  have ok: "all_ok xs frs" using Cons.prems by (simp add: phase_def)
  show ?case
  proof (cases "going f")
    case False
    define g where "g = frame_init 0 (length xs) k f"
    note fr = frame_init_ok [of 0 "length xs" xs k f, folded g_def]
    have ph: "phase xs (frs[unat i := g]) N (next_index N i)"
      using phase_init [OF Cons.prems assms(2) g_def, of frs] ok by simp
    have "vanilla_loop [] k 0 0 = Inr False" by (simp add: vanilla_loop_done)
    then have "going g \<and> frame_ans xs g \<longleftrightarrow> hit xs k"
      using fr(2,3) assms(2) by (auto simp: hit_def vanilla_binary_search_def)
    then have "owed xs (frs[unat i := g]) = owed xs frs + of_bool (hit xs k)"
      using frs_update(1) [OF i, of xs g] False by (simp add: f_def)
    with Cons.IH [OF ph, of result] i False show ?thesis
      by (auto simp: f_def going_def g_def)
  next
    case True
    then have all: "\<forall>j < length frs. going (frs ! j)"
      using Cons.prems i by (auto simp: phase_def f_def split: if_splits)
    then have "xs \<noteq> []" using Cons.prems i by (auto simp: phase_def)
    obtain frs' i' result' where sw:
        "switch_frames xs N k frs i result = Some (Inr (frs', i', result'))"
        "length frs' = Suc (unat N)" "i' \<le> N" "all_ok xs frs'" "\<forall>j < length frs'. going (frs' ! j)"
        "result' + of_nat (owed xs frs') = result + of_nat (owed xs frs) + of_bool (hit xs k)"
      using switch_frames_ok [OF _ _ ok all assms(2), of N i k result] Cons.prems
      by (auto simp: phase_def)
    then have "phase xs frs' N i'" using \<open>xs \<noteq> []\<close> by (simp add: phase_def)
    from Cons.IH [OF this, of result'] sw i True show ?thesis
      by (auto simp: f_def going_def)
  qed
qed

lemma drain_pass_ok:
  assumes "all_ok xs frs"
  shows "\<exists>more frs' result'. drain_pass xs frs result = Inr (more, frs', result') \<and>
    all_ok xs frs' \<and> result' + of_nat (owed xs frs') = result + of_nat (owed xs frs) \<and>
    (if more then todo frs' < todo frs else frs' = frs \<and> \<not> (\<exists>f \<in> set frs. going f))"
  using assms
proof (induction frs arbitrary: result)
  case Nil
  then show ?case by (intro exI [of _ False]) (simp add: owed_def)
next
  case (Cons f frs)
  then have f: "frame_ok xs f" and frs: "all_ok xs frs" by (simp_all add: all_ok_def)
  show ?case
  proof (cases "going f")
    case False
    obtain more frs' result' where "drain_pass xs frs result = Inr (more, frs', result')"
        "all_ok xs frs'" "result' + of_nat (owed xs frs') = result + of_nat (owed xs frs)"
        "if more then todo frs' < todo frs else frs' = frs \<and> \<not> (\<exists>f \<in> set frs. going f)"
      using Cons.IH [OF frs] by blast
    with False f show ?thesis
      by (auto simp: going_def all_ok_def owed_def todo_def split: if_splits)
  next
    case True
    obtain d f' where run: "frame_run xs f = Inr (d, f')" and f': "frame_ok xs f'"
      "if d then \<not> going f' \<and> (f_state f' = FOUND \<longleftrightarrow> frame_ans xs f)
       else going f' \<and> frame_ans xs f' = frame_ans xs f \<and> unat (f_len f') < unat (f_len f)"
      using frame_run_ok [OF True f] by blast
    let ?r = "if d \<and> f_state f' = FOUND then result + 1 else result"
    obtain more frs' result' where rec: "drain_pass xs frs ?r = Inr (more, frs', result')"
        "all_ok xs frs'" "result' + of_nat (owed xs frs') = ?r + of_nat (owed xs frs)"
        "if more then todo frs' < todo frs else frs' = frs \<and> \<not> (\<exists>f \<in> set frs. going f)"
      using Cons.IH [OF frs] by blast
    have "drain_pass xs (f # frs) result = Inr (True, f' # frs', result')"
      using True run rec(1) by (simp add: going_def)
    moreover have "all_ok xs (f' # frs')" using f' rec by (simp add: all_ok_def)
    moreover have "todo frs' \<le> todo frs" using rec(4) by (auto split: if_splits)
    then have "todo (f' # frs') < todo (f # frs)"
      using f' f True by (auto simp: todo_def frame_ok_def split: if_splits)
    moreover have "result' + of_nat (owed xs (f' # frs')) = result + of_nat (owed xs (f # frs))"
      using rec(3) f' True by (auto simp: owed_def algebra_simps split: if_splits)
    ultimately show ?thesis by auto
  qed
qed

lemma drain_ok:
  assumes "all_ok xs frs"
  shows "drain xs frs result = Some (Inr (result + of_nat (owed xs frs)))"
  using assms
proof (induction "todo frs" arbitrary: frs result rule: less_induct)
  case less
  obtain more frs' result' where p: "drain_pass xs frs result = Inr (more, frs', result')"
      "all_ok xs frs'" "result' + of_nat (owed xs frs') = result + of_nat (owed xs frs)"
      "if more then todo frs' < todo frs else frs' = frs \<and> \<not> (\<exists>f \<in> set frs. going f)"
    using drain_pass_ok [OF less.prems] by blast
  show ?case
  proof (cases more)
    case True
    with p less.hyps [of frs' result'] show ?thesis by (subst drain.simps) simp
  next
    case False
    then have "owed xs frs = 0" "frs' = frs" using p(4) by (auto simp: owed_def filter_empty_conv)
    with False p show ?thesis by (subst drain.simps) simp
  qed
qed

lemma multi_lookup_ok:
  assumes "1 \<le> n" "length xs < 2 ^ 64"
  shows "state_machine_multi_lookup xs ks n = Some (Inr (of_nat (length (filter (hit xs) ks))))"
proof -
  let ?frs = "replicate (unat n) empty_frame"
  have "n \<noteq> 0" using assms(1) by auto
  then have "Suc (unat (n - 1)) = unat n" by (simp add: unat_pred_size unat_gt_0)
  then have ph: "phase xs ?frs (n - 1) (n - 1)"
    by (auto simp: phase_def all_ok_def frame_ok_def going_def empty_frame_def)
  have "owed xs ?frs = 0" by (simp add: owed_def going_def empty_frame_def)
  with start_lookups_ok [OF ph assms(2), of ks 0] obtain frs' result'
    where "start_lookups xs (n - 1) ks ?frs (n - 1) 0 = Some (Inr (frs', result'))"
      "all_ok xs frs'" "result' + of_nat (owed xs frs') = of_nat (length (filter (hit xs) ks))"
    by auto
  with drain_ok [of xs frs' result'] show ?thesis
    by (simp add: state_machine_multi_lookup_def Let_def)
qed

lemma run_while_going_ok:
  assumes "frame_ok xs f"
  shows "\<exists>f'. run_while_going xs f = Some (Inr f') \<and>
    (f_state f' = FOUND \<longleftrightarrow> (if going f then frame_ans xs f else f_state f = FOUND))"
  using assms
proof (induction "unat (f_len f)" arbitrary: f rule: less_induct)
  case less
  show ?case
  proof (cases "going f")
    case True
    from frame_run_ok [OF True less.prems] obtain d f' where "frame_run xs f = Inr (d, f')"
        "frame_ok xs f'" "if d then \<not> going f' \<and> (f_state f' = FOUND \<longleftrightarrow> frame_ans xs f)
         else going f' \<and> frame_ans xs f' = frame_ans xs f \<and> unat (f_len f') < unat (f_len f)"
      by blast
    moreover from this have "run_while_going xs f = run_while_going xs f'"
      using True by (subst run_while_going.simps) (simp add: going_def)
    ultimately show ?thesis
      using less.hyps [of f'] True run_while_going.simps [of xs f']
      by (cases d) (auto simp: going_def)
  next
    case False
    then show ?thesis by (subst run_while_going.simps) (simp add: going_def)
  qed
qed

lemma state_machine_search_ok:
  assumes "first \<le> stop" "stop \<le> length xs" "length xs < 2 ^ 64"
  shows "state_machine_binary_search xs first stop k =
    Some (vanilla_binary_search xs first stop k)"
proof -
  let ?f = "frame_init first stop k empty_frame"
  note fr = frame_init_ok [OF assms, of k empty_frame]
  obtain f' where f': "run_while_going xs ?f = Some (Inr f')"
      "f_state f' = FOUND \<longleftrightarrow> (if going ?f then frame_ans xs ?f else f_state ?f = FOUND)"
    using run_while_going_ok [OF fr(1)] by blast
  have "first + nat (int stop - int first) \<le> length xs" using assms by linarith
  then obtain b where b: "vanilla_binary_search xs first stop k = Inr b"
    using vanilla_loop_safe [of first "int stop - int first" xs k] assms
    by (auto simp: vanilla_binary_search_def)
  have "\<not> b" if "\<not> first < stop"
    using b that assms(1) by (simp add: vanilla_binary_search_def vanilla_loop_done)
  then have "f_state f' = FOUND \<longleftrightarrow> b"
    using f'(2) fr(2-4) b by (cases "going ?f") auto
  with f'(1) b show ?thesis by (simp add: state_machine_binary_search_def)
qed

subsection \<open>The coroutine on the engine\<close>

fun search_good :: "int list \<Rightarrow> search_frame \<Rightarrow> bool" where
  "search_good xs (Search_Created first stop k) \<longleftrightarrow> first \<le> stop \<and> stop \<le> length xs"
| "search_good xs (Search_Prefetched first len k) \<longleftrightarrow> 0 < len \<and> first + nat len \<le> length xs"

fun search_fin :: "int list \<Rightarrow> search_frame \<Rightarrow> bool" where
  "search_fin xs (Search_Created first stop k) \<longleftrightarrow> vanilla_binary_search xs first stop k = Inr True"
| "search_fin xs (Search_Prefetched first len k) \<longleftrightarrow> vanilla_loop xs k first len = Inr True"

fun search_mu :: "search_frame \<Rightarrow> nat" where
  "search_mu (Search_Created first stop k) = Suc (stop - first)"
| "search_mu (Search_Prefetched first len k) = nat len"

interpretation search_engine: engine scheduler_queue_inv sq_pending sq_room push_back pop_front
  try_pop_front "coro_binary_search xs" "search_good xs" "search_fin xs" search_mu
  for xs :: "int list"
proof (unfold_locales, goal_cases)
  case (1 f)
  show ?case
  proof (cases f)
    case (Search_Created first stop k)
    with 1 show ?thesis
      by (auto simp: coro_loop_def vanilla_binary_search_def vanilla_loop_done)
  next
    case (Search_Prefetched first len k)
    with 1 have r: "0 < len" "first + nat len \<le> length xs" by simp_all
    let ?x = "xs ! (first + nat (len div 2))"
    obtain first' len' where n: "narrow ?x k first len = (first', len')" by fastforce
    note rng = narrow_range [OF n r]
    have "coro_binary_search xs f =
        (if ?x = k then Inr (Return True) else Inr (coro_loop k first' len'))"
      using Search_Prefetched vanilla_loop_turn(1) [OF r] n by (auto simp: narrow_def Let_def)
    moreover have "vanilla_loop xs k first len =
        (if ?x = k then Inr True else vanilla_loop xs k first' len')"
      using vanilla_loop_turn(2) [OF r, of k] n by (simp add: Let_def)
    ultimately show ?thesis
      using Search_Prefetched rng r by (auto simp: coro_loop_def vanilla_loop_done)
  qed
qed

text \<open>What the counters are when the answers are those of \<open>hit\<close>, in any order.\<close>

lemma count_answers:
  assumes "mset rs = mset (map (hit xs) ks)"
  shows "length (filter (\<lambda>r. r) rs) = length (filter (hit xs) ks)"
    and "(of_nat (length (filter (hit xs) ks)) + of_nat (length (filter (\<lambda>r. \<not> r) rs)) :: size_t) = of_nat (length ks)"
proof -
  have cnt: "length (filter P rs) = length (filter P (map (hit xs) ks))" for P
    using assms by (metis mset_filter size_mset)
  show found: "length (filter (\<lambda>r. r) rs) = length (filter (hit xs) ks)"
    using cnt [of "\<lambda>r. r"] by (simp add: filter_map comp_def)
  have "length (filter (\<lambda>r. r) rs) + length (filter (\<lambda>r. \<not> r) rs) = length ks"
    using sum_length_filter_compl [of "\<lambda>r. r" rs] mset_eq_length [OF assms] by simp
  then show "(of_nat (length (filter (hit xs) ks)) + of_nat (length (filter (\<lambda>r. \<not> r) rs)) :: size_t) = of_nat (length ks)"
    unfolding found [symmetric] by (metis of_nat_add)
qed

lemma coro_multi_lookup_ok:
  assumes "scheduler_queue_inv q" "sq_pending q = []" "1 \<le> n" "unat n \<le> sq_room q"
  shows "\<exists>q'. coro_multi_lookup xs ks n q =
    Some (Inr (of_nat (length (filter (hit xs) ks)), True, q')) \<and>
    scheduler_queue_inv q' \<and> sq_pending q' = []"
proof -
  let ?fs = "map (Search_Created 0 (length xs)) ks"
  have good: "\<forall>f \<in> set ?fs. search_good xs f" by auto
  obtain w where w: "throttle (coro_binary_search xs) push_back pop_front try_pop_front q n ?fs =
      Some (Inr w)" "mset (results w) = mset (map (search_fin xs) ?fs)"
      "scheduler_queue_inv (queue w)" "sq_pending (queue w) = []"
    using search_engine.throttle_ok [OF assms good] by blast
  have "mset (results w) = mset (map (hit xs) ks)"
    using w(2) by (simp add: comp_def hit_def [abs_def])
  with w count_answers [OF this] show ?thesis
    by (simp add: coro_multi_lookup_def Let_def)
qed

subsection \<open>Properties\<close>

lemma hit_sorted: "sorted xs \<Longrightarrow> hit xs k \<longleftrightarrow> k \<in> set xs"
  using vanilla_loop_sorted [of xs 0 "int (length xs)" k]
  by (auto simp: hit_def vanilla_binary_search_def in_set_conv_nth)

text \<open>
  C35. The plain binary search on a sorted array returns whether the key occurs in the range it
  was given, and never reads outside the range.
\<close>

theorem vanilla_decides_membership:
  assumes "sorted xs" and "first \<le> stop" and "stop \<le> length xs"
  shows "vanilla_binary_search xs first stop k =
    Inr (\<exists>i. first \<le> i \<and> i < stop \<and> xs ! i = k)"
  using vanilla_loop_sorted [of xs first "int stop - int first" k] assms
  by (simp add: vanilla_binary_search_def nat_diff_distrib)

theorem vanilla_decides_membership_witness:
  "vanilla_binary_search [1, 3, 5, 7] 1 4 5 = Inr True \<and>
   vanilla_binary_search [1, 3, 5, 7] 1 4 1 = Inr False"
proof -
  have s: "sorted [1, 3, 5, 7 :: int]" by simp
  have "(\<exists>i. 1 \<le> i \<and> i < 4 \<and> [1, 3, 5, 7 :: int] ! i = 5)" by (rule exI [of _ 2]) simp
  moreover have "\<not> (\<exists>i. 1 \<le> i \<and> i < 4 \<and> [1, 3, 5, 7 :: int] ! i = 1)"
    by (auto simp: less_Suc_eq numeral_eq_Suc)
  ultimately show ?thesis
    using vanilla_decides_membership [OF s, of 1 4 5] vanilla_decides_membership [OF s, of 1 4 1]
    by simp
qed

text \<open>
  The state machine, run to its end on one search, returns what the plain loop returns, on
  every array, sorted or not, and every range of it.
\<close>

lemma state_machine_search_is_vanilla:
  assumes "first \<le> stop" and "stop \<le> length xs" and "length xs < 2 ^ 64"
  shows "state_machine_binary_search xs first stop k = Some (vanilla_binary_search xs first stop k)"
  using assms by (rule state_machine_search_ok)



text \<open>
  On a sorted array both multi-lookups return the number of lookups that occur in it.
\<close>

lemma multi_lookups_count_members:
  assumes "sorted xs" and "1 \<le> n" and "unat n \<le> 255" and "length xs < 2 ^ 64"
  shows "\<exists>c q'. c = of_nat (length (filter (\<lambda>k. k \<in> set xs) ks)) \<and>
    state_machine_multi_lookup xs ks n = Some (Inr c) \<and>
    coro_multi_lookup xs ks n scheduler_queue_init = Some (Inr (c, True, q'))"
proof -
  have "hit xs = (\<lambda>k. k \<in> set xs)" using hit_sorted [OF assms(1)] by blast
  then show ?thesis
    using multi_lookup_ok [OF assms(2,4), of ks]
      coro_multi_lookup_ok [of scheduler_queue_init n xs ks] assms(2,3)
    by (auto simp: ring_simps)
qed

text \<open>
  Without a stream the state machine reads its empty frame vector out of bounds, and the
  coroutine version resumes the null handle that the empty queue gives it.
\<close>

lemma no_stream_multi_lookup:
  "state_machine_multi_lookup xs (k # ks) 0 = Some (Inl OutOfBounds) \<and>
   coro_multi_lookup xs (k # ks) 0 scheduler_queue_init = Some (Inl NullHandle)"
  by (simp add: state_machine_multi_lookup_def coro_multi_lookup_def throttle_def
      new_coroutine_def spawn_def pop_front_def scheduler_queue_init_def scheduler_queue_N_def
      resume.simps Let_def)

end
