(* ===== verification/Awaiter_List.thy ===== *)
theory Awaiter_List
  imports Prelude
begin

text \<open>
  The intrusive lists in which the lock, the latch and the event of primitives/ keep their
  suspended coroutines: awaiter objects that live in the coroutine frames, linked through a
  pointer. Addresses are words and the objects are kept in an explicit store, because the code
  casts between pointers and integers and threads one list through two owners.
\<close>

record awaiter =
  next_awaiter :: uptr
  awaiting_coro :: nat

type_synonym store = "uptr \<rightharpoonup> awaiter"

text \<open>\<open>is_chain h p t xs\<close>: from \<open>p\<close> the links lead through the objects \<open>xs\<close> to the value \<open>t\<close>.\<close>

fun is_chain :: "store \<Rightarrow> uptr \<Rightarrow> uptr \<Rightarrow> uptr list \<Rightarrow> bool" where
  "is_chain h p t [] \<longleftrightarrow> p = t"
| "is_chain h p t (x # xs) \<longleftrightarrow>
     p = x \<and> x \<noteq> t \<and> (case h x of None \<Rightarrow> False | Some a \<Rightarrow> is_chain h (next_awaiter a) t xs)"

lemma is_chain_terminator [simp]: "is_chain h t t xs \<longleftrightarrow> xs = []"
  by (cases xs) auto

lemma is_chain_dom: "is_chain h p t xs \<Longrightarrow> set xs \<subseteq> dom h"
  by (induction h p t xs rule: is_chain.induct) (auto split: option.splits)

lemma is_chain_not_end: "is_chain h p t xs \<Longrightarrow> t \<notin> set xs"
  by (induction h p t xs rule: is_chain.induct) (auto split: option.splits)

text \<open>Writing to an object outside a chain leaves the chain alone.\<close>

lemma is_chain_upd: "a \<notin> set xs \<Longrightarrow> is_chain (h(a := v)) p t xs = is_chain h p t xs"
  by (induction xs arbitrary: p) (auto split: option.splits)

lemma is_chain_fun: "is_chain h p t xs \<Longrightarrow> is_chain h p t ys \<Longrightarrow> xs = ys"
proof (induction xs arbitrary: p ys)
  case Nil
  then show ?case by (cases ys) auto
next
  case (Cons x xs)
  then show ?case by (cases ys) (auto split: option.splits)
qed

text \<open>
  The loop that the latch and the event share: while the pointer is not null, read the link,
  resume the coroutine, go on with the link. The result is the coroutines in the order in
  which they are resumed.
\<close>

partial_function (option) resume_all :: "store \<Rightarrow> uptr \<Rightarrow> nat list res option" where
  "resume_all h p =
     (if p = 0 then Some (Inr [])
      else case h p of
             None \<Rightarrow> Some (Inl WildPointer)
           | Some a \<Rightarrow> bind_run (resume_all h (next_awaiter a)) (\<lambda>cs.
                         Some (Inr (awaiting_coro a # cs))))"

declare resume_all.simps [code]

lemma resume_all_chain:
  "is_chain h p 0 xs \<Longrightarrow> resume_all h p = Some (Inr (map (\<lambda>x. awaiting_coro (the (h x))) xs))"
proof (induction xs arbitrary: p)
  case Nil
  then show ?case by (subst resume_all.simps) simp
next
  case (Cons x xs)
  then obtain a where "h x = Some a" "p = x" "x \<noteq> 0" "is_chain h (next_awaiter a) 0 xs"
    by (auto split: option.splits)
  with Cons.IH [of "next_awaiter a"] show ?case by (subst resume_all.simps) simp
qed

end
