(* ===== verification/Async_Lock.thy ===== *)
theory Async_Lock
  imports Awaiter_List
begin

unbundle bit_operations_syntax

text \<open>
  The asynchronous lock of primitives/async-lock/async_lock.hpp: the lock word, the awaiter's
  \<open>await_suspend\<close> as its atomic actions, \<open>release\<close>, the guard, and every interleaving of
  coroutines that acquire and release.
\<close>

subsection \<open>The lock\<close>

record async_lock =
  lock_state :: uptr
  lock_awaiters :: uptr
  lock_store :: store

definition NOT_LOCKED :: uptr where
  "NOT_LOCKED = 0"

definition LOCKED_NO_WAITERS :: uptr where
  "LOCKED_NO_WAITERS = 1"

definition async_lock_init :: async_lock where
  "async_lock_init = \<lparr>lock_state = NOT_LOCKED, lock_awaiters = 0, lock_store = Map.empty\<rparr>"

text \<open>
  \<open>acquire\<close> builds an awaiter at the address \<open>this\<close>; \<open>await_suspend\<close> notes the coroutine and reads
  the state. Then the loop: \<open>lock_try\<close> is one turn with the state last seen, \<open>Inl\<close> the state to
  go round with, \<open>Inr\<close> whether the coroutine suspends.
\<close>

definition acquire :: "uptr \<Rightarrow> async_lock \<Rightarrow> async_lock" where
  "acquire this l =
     l\<lparr>lock_store := (lock_store l)(this \<mapsto> \<lparr>next_awaiter = 0, awaiting_coro = 0\<rparr>)\<rparr>"

definition set_coro :: "uptr \<Rightarrow> nat \<Rightarrow> async_lock \<Rightarrow> async_lock" where
  "set_coro this c l =
     l\<lparr>lock_store := (lock_store l)(this := map_option (\<lambda>a. a\<lparr>awaiting_coro := c\<rparr>) (lock_store l this))\<rparr>"

definition set_next :: "uptr \<Rightarrow> uptr \<Rightarrow> async_lock \<Rightarrow> async_lock" where
  "set_next this p l =
     l\<lparr>lock_store := (lock_store l)(this := map_option (\<lambda>a. a\<lparr>next_awaiter := p\<rparr>) (lock_store l this))\<rparr>"

definition lock_try :: "uptr \<Rightarrow> uptr \<Rightarrow> async_lock \<Rightarrow> async_lock \<times> (uptr + bool)" where
  "lock_try this prev_state l =
     (if prev_state = NOT_LOCKED
      then if lock_state l = prev_state
           then (l\<lparr>lock_state := LOCKED_NO_WAITERS\<rparr>, Inr False)
           else (l, Inl (lock_state l))
      else let l = set_next this prev_state l
           in if lock_state l = prev_state
              then (l\<lparr>lock_state := this\<rparr>, Inr True)
              else (l, Inl (lock_state l)))"

text \<open>\<open>await_suspend\<close> when nobody interferes: the first compare-exchange succeeds.\<close>

definition lock_await_suspend :: "uptr \<Rightarrow> nat \<Rightarrow> async_lock \<Rightarrow> async_lock \<times> (uptr + bool)" where
  "lock_await_suspend this c l = (let l = set_coro this c l in lock_try this (lock_state l) l)"

text \<open>
  The loop in \<open>release\<close> that turns the stack of waiters round: it tests the link it has just
  followed against the null pointer.
\<close>

partial_function (option) reverse_onto ::
  "store \<Rightarrow> uptr \<Rightarrow> uptr \<Rightarrow> (store \<times> uptr) res option" where
  "reverse_onto h current_awaiter awaiters_head =
     (case h current_awaiter of
        None \<Rightarrow> Some (Inl WildPointer)
      | Some a \<Rightarrow>
          (let tmp = next_awaiter a;
               h = h(current_awaiter \<mapsto> a\<lparr>next_awaiter := awaiters_head\<rparr>);
               awaiters_head = current_awaiter
           in if tmp \<noteq> 0 then reverse_onto h tmp awaiters_head else Some (Inr (h, awaiters_head))))"

declare reverse_onto.simps [code]

text \<open>The end of \<open>release\<close>: take the head off the queue and resume it.\<close>

definition resume_head :: "uptr \<Rightarrow> async_lock \<Rightarrow> (async_lock \<times> uptr option) res" where
  "resume_head awaiters_head l =
     (case lock_store l awaiters_head of
        None \<Rightarrow> Inl WildPointer
      | Some a \<Rightarrow> Inr (l\<lparr>lock_awaiters := next_awaiter a\<rparr>, Some awaiters_head))"

text \<open>
  The slow path after the compare-exchange has failed, which leaves the lock locked and takes
  the whole stack; and \<open>release\<close> when nobody interferes. The result is the awaiter whose
  coroutine is resumed, if any.
\<close>

definition release_contended :: "async_lock \<Rightarrow> (async_lock \<times> uptr option) res option" where
  "release_contended l =
     bind_run (reverse_onto (lock_store l) (lock_state l) (lock_awaiters l)) (\<lambda>(h, awaiters_head).
       Some (resume_head awaiters_head (l\<lparr>lock_state := LOCKED_NO_WAITERS, lock_store := h\<rparr>)))"

definition release :: "async_lock \<Rightarrow> (async_lock \<times> uptr option) res option" where
  "release l =
     (if lock_awaiters l = 0
      then if lock_state l = LOCKED_NO_WAITERS
           then Some (Inr (l\<lparr>lock_state := NOT_LOCKED\<rparr>, None))
           else release_contended l
      else Some (resume_head (lock_awaiters l) l))"

text \<open>
  The guard is the lock it owns, or null. Destroying it releases; moving from it leaves it
  null; move assignment releases what the target owned, unless it is assigned to itself.
\<close>

type_synonym lock_guard = bool

definition guard_destroy :: "lock_guard \<Rightarrow> async_lock \<Rightarrow> (async_lock \<times> uptr option) res option" where
  "guard_destroy g l = (if g then release l else Some (Inr (l, None)))"

definition guard_move :: "lock_guard \<Rightarrow> lock_guard \<times> lock_guard" where
  "guard_move other = (other, False)"

definition guard_assign ::
  "bool \<Rightarrow> lock_guard \<Rightarrow> lock_guard \<Rightarrow> async_lock \<Rightarrow>
   ((async_lock \<times> uptr option) \<times> lock_guard \<times> lock_guard) res option" where
  "guard_assign self this other l =
     (if self then Some (Inr ((l, None), this, other))
      else bind_run (guard_destroy this l) (\<lambda>r. Some (Inr (r, guard_move other))))"

subsection \<open>The reversal loop\<close>

text \<open>On a chain that ends in null the loop gives the reversed chain, so waiters leave in the
  order in which they came; on one that ends in 1 it follows the 1.\<close>

lemma reverse_onto_chain:
  assumes "is_chain h p 0 (x # xs)" "is_chain h q 0 ys" "distinct (x # xs @ ys)"
  shows "\<exists>h'. reverse_onto h p q = Some (Inr (h', last (x # xs))) \<and>
    is_chain h' (last (x # xs)) 0 (rev (x # xs) @ ys)"
  using assms
proof (induction xs arbitrary: x h p q ys)
  case Nil
  then obtain a where "h x = Some a" "p = x" "x \<noteq> 0" "next_awaiter a = 0" by (auto split: option.splits)
  with Nil.prems show ?case
    by (subst reverse_onto.simps) (simp add: is_chain_upd)
next
  case (Cons y xs)
  then obtain a where a: "h x = Some a" "p = x" "x \<noteq> 0" "is_chain h (next_awaiter a) 0 (y # xs)"
    by (auto split: option.splits)
  define h' where "h' = h(x \<mapsto> a\<lparr>next_awaiter := q\<rparr>)"
  have c1: "is_chain h' (next_awaiter a) 0 (y # xs)"
    unfolding h'_def using a Cons.prems(3) by (subst is_chain_upd) auto
  have c2: "is_chain h' x 0 (x # ys)"
    unfolding h'_def using a Cons.prems(2,3) by (simp add: is_chain_upd)
  have "distinct (y # xs @ x # ys)" using Cons.prems(3) by auto
  from Cons.IH [OF c1 c2 this] obtain h'' where
    "reverse_onto h' (next_awaiter a) x = Some (Inr (h'', last (y # xs)))"
    "is_chain h'' (last (y # xs)) 0 (rev (y # xs) @ x # ys)" by blast
  moreover have "next_awaiter a \<noteq> 0" using a(4) by (auto split: option.splits)
  then have "reverse_onto h p q = reverse_onto h' (next_awaiter a) x"
    using a by (subst reverse_onto.simps) (simp add: h'_def)
  ultimately show ?case by (intro exI [of _ h'']) simp
qed

lemma reverse_onto_wild:
  assumes "is_chain h p t xs" "h t = None" "t \<noteq> 0" "distinct xs" "0 \<notin> set xs"
  shows "reverse_onto h p q = Some (Inl WildPointer)"
  using assms
proof (induction xs arbitrary: h p q)
  case Nil
  then show ?case by (subst reverse_onto.simps) simp
next
  case (Cons x xs)
  then obtain a where a: "h x = Some a" "p = x" "x \<noteq> t" "is_chain h (next_awaiter a) t xs"
    by (auto split: option.splits)
  define h' where "h' = h(x \<mapsto> a\<lparr>next_awaiter := q\<rparr>)"
  have "is_chain h' (next_awaiter a) t xs"
    unfolding h'_def using a Cons.prems(4) by (subst is_chain_upd) auto
  moreover have "h' t = None" using Cons.prems(2) a by (simp add: h'_def)
  ultimately have rec: "reverse_onto h' (next_awaiter a) x = Some (Inl WildPointer)"
    using Cons.IH Cons.prems by simp
  show ?case
  proof (cases "next_awaiter a = 0")
    case True
    then show ?thesis using a(4) Cons.prems(3,5) by (cases xs) auto
  next
    case False
    with a rec show ?thesis by (subst reverse_onto.simps) (simp add: h'_def)
  qed
qed

subsection \<open>All interleavings\<close>

text \<open>
  Every coroutine owns one awaiter, at an address that identifies it; awaiters are aligned, so
  their addresses are neither 0 nor 1. A coroutine is idle, in the loop of \<open>await_suspend\<close> with
  the state it last saw, suspended, holding the lock, or inside \<open>release\<close> after its
  compare-exchange failed. An atomic operation of the code is one step; \<open>Inl\<close> is a crash.
\<close>

datatype lock_pc = LIdle | LTrying uptr | LSuspended | LHolding | LReleasing

record lock_world =
  lk :: async_lock
  lpc :: "uptr \<Rightarrow> lock_pc"

definition awaiter_addr :: "uptr \<Rightarrow> bool" where
  "awaiter_addr a \<longleftrightarrow> a \<noteq> 0 \<and> a AND 7 = 0"

inductive lock_step :: "lock_world \<Rightarrow> lock_world res \<Rightarrow> bool" where
  begin_await: "lpc w a = LIdle \<Longrightarrow> awaiter_addr a \<Longrightarrow> l = set_coro a c (acquire a (lk w)) \<Longrightarrow>
    lock_step w (Inr \<lparr>lk = l, lpc = (lpc w)(a := LTrying (lock_state l))\<rparr>)"
| try_again: "lpc w a = LTrying v \<Longrightarrow> lock_try a v (lk w) = (l, Inl v') \<Longrightarrow>
    lock_step w (Inr \<lparr>lk = l, lpc = (lpc w)(a := LTrying v')\<rparr>)"
| spurious: "lpc w a = LTrying v \<Longrightarrow>
    lock_step w (Inr \<lparr>lk = (if v = NOT_LOCKED then lk w else set_next a v (lk w)),
                     lpc = (lpc w)(a := LTrying (lock_state (lk w)))\<rparr>)"
| enter: "lpc w a = LTrying v \<Longrightarrow> lock_try a v (lk w) = (l, Inr False) \<Longrightarrow>
    lock_step w (Inr \<lparr>lk = l, lpc = (lpc w)(a := LHolding)\<rparr>)"
| enqueue: "lpc w a = LTrying v \<Longrightarrow> lock_try a v (lk w) = (l, Inr True) \<Longrightarrow>
    lock_step w (Inr \<lparr>lk = l, lpc = (lpc w)(a := LSuspended)\<rparr>)"
| release_free: "lpc w a = LHolding \<Longrightarrow> lock_awaiters (lk w) = 0 \<Longrightarrow>
    lock_state (lk w) = LOCKED_NO_WAITERS \<Longrightarrow>
    lock_step w (Inr \<lparr>lk = (lk w)\<lparr>lock_state := NOT_LOCKED\<rparr>, lpc = (lpc w)(a := LIdle)\<rparr>)"
| release_lost: "lpc w a = LHolding \<Longrightarrow> lock_awaiters (lk w) = 0 \<Longrightarrow>
    lock_state (lk w) \<noteq> LOCKED_NO_WAITERS \<Longrightarrow>
    lock_step w (Inr (w\<lparr>lpc := (lpc w)(a := LReleasing)\<rparr>))"
| release_slow: "lpc w a = LReleasing \<Longrightarrow> release_contended (lk w) = Some (Inr (l, Some b)) \<Longrightarrow>
    lock_step w (Inr \<lparr>lk = l, lpc = (lpc w)(a := LIdle, b := LHolding)\<rparr>)"
| release_crash: "lpc w a = LReleasing \<Longrightarrow> release_contended (lk w) = Some (Inl e) \<Longrightarrow>
    lock_step w (Inl e)"
| release_queued: "lpc w a = LHolding \<Longrightarrow> lock_awaiters (lk w) \<noteq> 0 \<Longrightarrow>
    resume_head (lock_awaiters (lk w)) (lk w) = Inr (l, Some b) \<Longrightarrow>
    lock_step w (Inr \<lparr>lk = l, lpc = (lpc w)(a := LIdle, b := LHolding)\<rparr>)"
| release_queued_crash: "lpc w a = LHolding \<Longrightarrow> lock_awaiters (lk w) \<noteq> 0 \<Longrightarrow>
    resume_head (lock_awaiters (lk w)) (lk w) = Inl e \<Longrightarrow> lock_step w (Inl e)"

inductive_cases lock_stepE: "lock_step w (Inr w')"

lemmas lock_step_cases = lock_stepE [consumes 1, case_names begin_await try_again spurious enter
  enqueue release_free release_lost release_slow release_queued]

inductive lock_reachable :: "lock_world \<Rightarrow> bool" where
  start: "lock_reachable \<lparr>lk = async_lock_init, lpc = (\<lambda>_. LIdle)\<rparr>"
| step: "lock_reachable w \<Longrightarrow> lock_step w (Inr w') \<Longrightarrow> lock_reachable w'"

definition holds :: "lock_world \<Rightarrow> uptr \<Rightarrow> bool" where
  "holds w a \<longleftrightarrow> lpc w a = LHolding \<or> lpc w a = LReleasing"

text \<open>
  The invariant: the queue is always empty; either the lock is free, nobody holds it and nobody
  waits, or one coroutine holds it and the state is the stack of all suspended ones, over 1.
\<close>

definition lock_inv :: "lock_world \<Rightarrow> bool" where
  "lock_inv w \<longleftrightarrow> lock_awaiters (lk w) = 0 \<and>
     dom (lock_store (lk w)) \<subseteq> Collect awaiter_addr \<and>
     (\<forall>a. lpc w a \<noteq> LIdle \<longrightarrow> a \<in> dom (lock_store (lk w))) \<and>
     (if lock_state (lk w) = 0 then \<forall>a. \<not> holds w a \<and> lpc w a \<noteq> LSuspended
      else \<exists>xs b. is_chain (lock_store (lk w)) (lock_state (lk w)) 1 xs \<and> distinct xs \<and>
             set xs = {a. lpc w a = LSuspended} \<and> (\<forall>a. holds w a \<longleftrightarrow> a = b) \<and>
             (lpc w b = LReleasing \<longrightarrow> xs \<noteq> []))"

lemma awaiter_addr_not_1: "\<not> awaiter_addr 1" "\<not> awaiter_addr 0"
  by (simp_all add: awaiter_addr_def)

lemma lock_try_simps:
  "lock_try a v l = (l', Inl v') \<longleftrightarrow> lock_state l \<noteq> v \<and> v' = lock_state l \<and>
     l' = (if v = 0 then l else set_next a v l)"
  "lock_try a v l = (l', Inr False) \<longleftrightarrow> v = 0 \<and> lock_state l = 0 \<and> l' = l\<lparr>lock_state := 1\<rparr>"
  "lock_try a v l = (l', Inr True) \<longleftrightarrow> v \<noteq> 0 \<and> lock_state l = v \<and>
     l' = (set_next a v l)\<lparr>lock_state := a\<rparr>"
  by (auto simp: lock_try_def NOT_LOCKED_def LOCKED_NO_WAITERS_def set_next_def Let_def)

lemma store_writes:
  "lock_state (set_next a v l) = lock_state l" "lock_awaiters (set_next a v l) = lock_awaiters l"
  "dom (lock_store (set_next a v l)) = dom (lock_store l)"
  "lock_state (set_coro a c l) = lock_state l" "lock_awaiters (set_coro a c l) = lock_awaiters l"
  "dom (lock_store (set_coro a c l)) = dom (lock_store l)"
  "lock_state (acquire a l) = lock_state l" "lock_awaiters (acquire a l) = lock_awaiters l"
  "dom (lock_store (acquire a l)) = insert a (dom (lock_store l))"
  by (auto simp: set_next_def set_coro_def acquire_def)

lemma chain_writes:
  assumes "a \<notin> set xs"
  shows "is_chain (lock_store (set_next a v l)) p t xs = is_chain (lock_store l) p t xs"
    and "is_chain (lock_store (set_coro a c l)) p t xs = is_chain (lock_store l) p t xs"
    and "is_chain (lock_store (acquire a l)) p t xs = is_chain (lock_store l) p t xs"
  using assms by (simp_all add: set_next_def set_coro_def acquire_def is_chain_upd)

lemma stack_crashes:
  assumes "is_chain (lock_store l) (lock_state l) 1 xs" "distinct xs"
    and "dom (lock_store l) \<subseteq> Collect awaiter_addr"
  shows "release_contended l = Some (Inl WildPointer)"
proof -
  have "lock_store l 1 = None" using assms(3) awaiter_addr_not_1 by auto
  moreover have "0 \<notin> set xs"
    using is_chain_dom [OF assms(1)] assms(3) awaiter_addr_not_1 by auto
  ultimately show ?thesis
    using reverse_onto_wild [OF assms(1) _ _ assms(2)] by (simp add: release_contended_def)
qed

lemma releasing_crashes:
  assumes "lock_inv w" "lpc w a = LReleasing"
  shows "release_contended (lk w) = Some (Inl WildPointer)"
proof -
  have "holds w a" using assms(2) by (simp add: holds_def)
  with assms(1) obtain xs where "is_chain (lock_store (lk w)) (lock_state (lk w)) 1 xs" "distinct xs"
    by (auto simp: lock_inv_def split: if_splits)
  with assms(1) show ?thesis by (intro stack_crashes) (auto simp: lock_inv_def)
qed

lemma lock_inv_write:
  assumes inv: "lock_inv w" and pc: "lpc w a = LIdle \<or> (\<exists>v. lpc w a = LTrying v)"
    and l: "lock_state l = lock_state (lk w)" "lock_awaiters l = lock_awaiters (lk w)"
      "dom (lock_store l) = insert a (dom (lock_store (lk w)))" "awaiter_addr a"
    and ch: "\<And>p xs. a \<notin> set xs \<Longrightarrow> is_chain (lock_store l) p 1 xs = is_chain (lock_store (lk w)) p 1 xs"
  shows "lock_inv \<lparr>lk = l, lpc = (lpc w)(a := LTrying v')\<rparr>"
proof -
  have h: "holds \<lparr>lk = l, lpc = (lpc w)(a := LTrying v')\<rparr> = holds w"
    using pc by (auto simp: holds_def fun_eq_iff)
  have s: "{b. ((lpc w)(a := LTrying v')) b = LSuspended} = {b. lpc w b = LSuspended}"
    using pc by auto
  show ?thesis
  proof (cases "lock_state (lk w) = 0")
    case True
    with inv l pc show ?thesis unfolding lock_inv_def h by (auto simp: h)
  next
    case False
    with inv obtain xs b where xs: "is_chain (lock_store (lk w)) (lock_state (lk w)) 1 xs" "distinct xs"
      "set xs = {a. lpc w a = LSuspended}" "\<forall>a. holds w a \<longleftrightarrow> a = b" "lpc w b = LReleasing \<longrightarrow> xs \<noteq> []"
      by (auto simp: lock_inv_def)
    have "a \<notin> set xs" using pc xs(3) by auto
    moreover have "holds w b" using xs(4) by simp
    then have "b \<noteq> a" using pc by (auto simp: holds_def)
    ultimately show ?thesis
      using inv l xs ch False unfolding lock_inv_def h s
      by (auto simp: h s intro!: exI [of _ xs] exI [of _ b])
  qed
qed

lemma lock_inv_addr:
  assumes "lock_inv w" "lpc w a \<noteq> LIdle"
  shows "awaiter_addr a" "a \<in> dom (lock_store (lk w))"
proof -
  show "a \<in> dom (lock_store (lk w))" using assms by (simp add: lock_inv_def)
  moreover have "dom (lock_store (lk w)) \<subseteq> Collect awaiter_addr"
    using assms(1) by (simp add: lock_inv_def)
  ultimately show "awaiter_addr a" by blast
qed

lemma lock_inv_step:
  assumes "lock_step w (Inr w')" "lock_inv w"
  shows "lock_inv w'"
  using assms(1)
proof (cases rule: lock_step_cases)
  case (begin_await a c)
  then show ?thesis
    using lock_inv_write [OF assms(2), of a "set_coro a c (acquire a (lk w))"]
    by (simp add: store_writes chain_writes)
next
  case (try_again a v l v')
  then have "awaiter_addr a" "a \<in> dom (lock_store (lk w))"
    using lock_inv_addr [OF assms(2), of a] by simp_all
  with try_again show ?thesis
    using lock_inv_write [OF assms(2), of a l v']
    by (auto simp: lock_try_simps store_writes chain_writes insert_absorb)
next
  case (spurious a v)
  then have "awaiter_addr a" "a \<in> dom (lock_store (lk w))"
    using lock_inv_addr [OF assms(2), of a] by simp_all
  with spurious show ?thesis
    using lock_inv_write [OF assms(2), of a "if v = NOT_LOCKED then lk w else set_next a v (lk w)"]
    by (auto simp: store_writes chain_writes insert_absorb)
next
  case (enter a v l)
  then have "lock_state (lk w) = 0" "l = (lk w)\<lparr>lock_state := 1\<rparr>" by (simp_all add: lock_try_simps)
  with enter assms(2) show ?thesis
    by (auto simp: lock_inv_def holds_def intro!: exI [of _ "[]"] exI [of _ a])
next
  case (enqueue a v l)
  then have v: "v \<noteq> 0" "lock_state (lk w) = v" "l = (set_next a v (lk w))\<lparr>lock_state := a\<rparr>"
    by (simp_all add: lock_try_simps)
  with assms(2) obtain xs b where xs: "is_chain (lock_store (lk w)) v 1 xs" "distinct xs"
      "set xs = {a. lpc w a = LSuspended}" "\<forall>a. holds w a \<longleftrightarrow> a = b" "lpc w b = LReleasing \<longrightarrow> xs \<noteq> []"
    by (auto simp: lock_inv_def)
  have "holds w b" using xs(4) by simp
  then have a: "a \<in> dom (lock_store (lk w))" "awaiter_addr a" "a \<notin> set xs" "b \<noteq> a"
    using enqueue xs(3) lock_inv_addr [OF assms(2), of a] by (auto simp: holds_def)
  then have "a \<noteq> 0" "a \<noteq> 1" using awaiter_addr_not_1 by auto
  have "is_chain (lock_store l) a 1 (a # xs)"
    using a xs(1) \<open>a \<noteq> 1\<close> v by (auto simp: set_next_def is_chain_upd)
  moreover have "holds w' = holds w" using enqueue by (auto simp: holds_def fun_eq_iff)
  moreover have "set (a # xs) = {a. lpc w' a = LSuspended}" using enqueue xs(3) by auto
  ultimately show ?thesis
    using enqueue v xs a assms(2) \<open>a \<noteq> 0\<close> unfolding lock_inv_def
    by (auto simp: store_writes intro!: exI [of _ "a # xs"] exI [of _ b])
next
  case (release_free a)
  then have "lock_state (lk w) = 1" by (simp add: LOCKED_NO_WAITERS_def)
  with assms(2) obtain xs b where xs: "is_chain (lock_store (lk w)) 1 1 xs"
      "set xs = {a. lpc w a = LSuspended}" "\<forall>a. holds w a \<longleftrightarrow> a = b"
    by (auto simp: lock_inv_def)
  have "holds w a" using release_free by (simp add: holds_def)
  then have only: "holds w c \<longleftrightarrow> c = a" for c using xs(3) by simp
  then have "\<not> holds w' c" for c using release_free by (auto simp: holds_def)
  moreover have "lpc w' c \<noteq> LSuspended" for c using release_free xs(1,2) by auto
  ultimately show ?thesis
    using release_free assms(2) by (simp add: lock_inv_def NOT_LOCKED_def)
next
  case (release_lost a)
  have same: "holds w' = holds w" "{a. lpc w' a = LSuspended} = {a. lpc w a = LSuspended}"
    "lk w' = lk w" "\<forall>c. lpc w' c \<noteq> LIdle \<longrightarrow> lpc w c \<noteq> LIdle"
    using release_lost by (auto simp: holds_def fun_eq_iff)
  have "holds w a" using release_lost by (simp add: holds_def)
  then have "lock_state (lk w) \<noteq> 0" using assms(2) by (auto simp: lock_inv_def)
  with assms(2) obtain xs b where xs: "is_chain (lock_store (lk w)) (lock_state (lk w)) 1 xs" "distinct xs"
      "set xs = {a. lpc w a = LSuspended}" "\<forall>a. holds w a \<longleftrightarrow> a = b"
    by (auto simp: lock_inv_def)
  have "xs \<noteq> []" using xs(1) release_lost by (auto simp: LOCKED_NO_WAITERS_def)
  with xs \<open>lock_state (lk w) \<noteq> 0\<close> assms(2) show ?thesis
    unfolding lock_inv_def same by (auto intro!: exI [of _ xs] exI [of _ b] simp: same)
next
  case (release_slow a l b)
  then show ?thesis using releasing_crashes [OF assms(2), of a] by simp
next
  case (release_queued a l b)
  with assms(2) show ?thesis by (simp add: lock_inv_def)
qed

lemma lock_reachable_inv: "lock_reachable w \<Longrightarrow> lock_inv w"
  by (induction rule: lock_reachable.induct)
    (auto simp: lock_inv_step, simp add: lock_inv_def async_lock_init_def NOT_LOCKED_def holds_def)

subsection \<open>Properties\<close>

text \<open>A run of two coroutines: 8 takes the lock, 16 queues up, 8 begins its release.\<close>

lemma contended_run:
  "\<exists>w. lock_reachable w \<and> lpc w 8 = LReleasing \<and> lpc w 16 = LSuspended"
proof -
  let ?l0 = "async_lock_init"
  let ?l1 = "set_coro 8 1 (acquire 8 ?l0)"
  let ?l2 = "?l1\<lparr>lock_state := 1\<rparr>"
  let ?l3 = "set_coro 16 2 (acquire 16 ?l2)"
  let ?l4 = "(set_next 16 1 ?l3)\<lparr>lock_state := 16\<rparr>"
  let ?idle = "(\<lambda>_. LIdle) :: uptr \<Rightarrow> lock_pc"
  have addr: "awaiter_addr 8" "awaiter_addr 16" by (simp_all add: awaiter_addr_def)
  have st: "lock_state ?l0 = 0" "lock_state ?l1 = 0" "lock_state ?l2 = 1" "lock_state ?l3 = 1"
    "lock_state ?l4 = 16" "lock_awaiters ?l4 = 0"
    by (simp_all add: async_lock_init_def NOT_LOCKED_def store_writes)
  have r0: "lock_reachable \<lparr>lk = ?l0, lpc = ?idle\<rparr>" by (rule lock_reachable.start)
  have r1: "lock_reachable \<lparr>lk = ?l1, lpc = ?idle(8 := LTrying 0)\<rparr>"
    using lock_reachable.step [OF r0 lock_step.begin_await [of _ 8 _ 1]] addr st by simp
  have r2: "lock_reachable \<lparr>lk = ?l2, lpc = ?idle(8 := LHolding)\<rparr>"
    using lock_reachable.step [OF r1 lock_step.enter [of _ 8 0 ?l2]] st
    by (simp add: lock_try_simps)
  have r3: "lock_reachable \<lparr>lk = ?l3, lpc = ?idle(8 := LHolding, 16 := LTrying 1)\<rparr>"
    using lock_reachable.step [OF r2 lock_step.begin_await [of _ 16 ?l3 2]] addr st by simp
  have r4: "lock_reachable \<lparr>lk = ?l4, lpc = ?idle(8 := LHolding, 16 := LSuspended)\<rparr>"
    using lock_reachable.step [OF r3 lock_step.enqueue [of _ 16 1 ?l4]] st
    by (simp add: lock_try_simps)
  have r5: "lock_reachable \<lparr>lk = ?l4, lpc = ?idle(8 := LReleasing, 16 := LSuspended)\<rparr>"
    using lock_reachable.step [OF r4 lock_step.release_lost [of _ 8]] st
    by (simp add: LOCKED_NO_WAITERS_def fun_upd_twist)
  then show ?thesis by (intro exI [of _ "\<lparr>lk = ?l4, lpc = ?idle(8 := LReleasing, 16 := LSuspended)\<rparr>"]) simp
qed

text \<open>
  C12. Mutual exclusion: in every interleaving of any number of coroutines, with every weak
  compare-exchange allowed to fail spuriously, at most one coroutine holds the lock.
\<close>

theorem lock_mutual_exclusion:
  assumes "lock_reachable w" and "holds w a" and "holds w b"
  shows "a = b"
  using lock_reachable_inv [OF assms(1)] assms(2,3)
  by (auto simp: lock_inv_def split: if_splits)

theorem lock_mutual_exclusion_witness:
  "\<exists>w. lock_reachable w \<and> holds w 8 \<and> \<not> holds w 16"
proof -
  obtain w where w: "lock_reachable w" "lpc w 8 = LReleasing" "lpc w 16 = LSuspended"
    using contended_run by blast
  then have "holds w 8" by (simp add: holds_def)
  moreover from lock_mutual_exclusion [OF w(1) this, of 16] have "\<not> holds w 16" by auto
  ultimately show ?thesis using w(1) by blast
qed

text \<open>
  C38. A contended release crashes. When a holder finds at its release that somebody has queued up,
  the waiters' links end in the value 1 of a locked lock and not in null, and the loop that
  turns the stack round follows the 1. Until then nobody who has suspended is ever resumed.
\<close>

theorem contended_release_crashes:
  assumes "lock_reachable w"
  shows "(\<forall>a. lpc w a = LReleasing \<longrightarrow> lock_step w (Inl WildPointer)) \<and>
    (\<forall>a w'. lpc w a = LSuspended \<longrightarrow> lock_step w (Inr w') \<longrightarrow> lpc w' a = LSuspended)"
proof (rule conjI)
  note inv = lock_reachable_inv [OF assms]
  show "\<forall>a. lpc w a = LReleasing \<longrightarrow> lock_step w (Inl WildPointer)"
    using releasing_crashes [OF inv] lock_step.release_crash by blast
  show "\<forall>a w'. lpc w a = LSuspended \<longrightarrow> lock_step w (Inr w') \<longrightarrow> lpc w' a = LSuspended"
  proof (intro allI impI)
    fix a w' assume sus: "lpc w a = LSuspended" and st: "lock_step w (Inr w')"
    have queue: "lock_awaiters (lk w) = 0" using inv by (simp add: lock_inv_def)
    from st show "lpc w' a = LSuspended"
    proof (cases rule: lock_step_cases)
      case (release_slow b l c)
      then show ?thesis using releasing_crashes [OF inv, of b] by simp
    qed (use sus queue in auto)
  qed
qed

theorem contended_release_crashes_witness:
  "\<exists>w. lock_reachable w \<and> lpc w 16 = LSuspended \<and> lock_step w (Inl WildPointer)"
proof -
  obtain w where "lock_reachable w" "lpc w 8 = LReleasing" "lpc w 16 = LSuspended"
    using contended_run by blast
  with contended_release_crashes [of w] show ?thesis by blast
qed

text \<open>
  The loop that turns the stack round is right where its ending is: on a chain that ends in null
  it returns the last awaiter as the new head, followed by the others in the order in which
  they queued up, and the old queue after them.
\<close>

lemma reversal_is_fifo:
  assumes "is_chain h p 0 (x # xs)" and "is_chain h q 0 ys" and "distinct (x # xs @ ys)"
  shows "\<exists>h' r. reverse_onto h p q = Some (Inr (h', r)) \<and> is_chain h' r 0 (rev (x # xs) @ ys)"
  using reverse_onto_chain [OF assms] by blast

end
