(* ===== verification/Reset_Event.thy ===== *)
theory Reset_Event
  imports Awaiter_List
begin

text \<open>
  The manual-reset event of primitives/manual-reset-event/manual_reset_event.hpp. Its one atomic
  pointer is null, the head of the list of waiters, or the address of the event itself when
  the event is set. The operations on their own against an abstract event, and every
  interleaving of waiters, setters and resets.
\<close>

subsection \<open>The event\<close>

record reset_event =
  ev_state :: uptr
  ev_store :: store

text \<open>The first argument \<open>this\<close> is the address of the event.\<close>

definition manual_reset_event :: "uptr \<Rightarrow> bool \<Rightarrow> reset_event" where
  "manual_reset_event this init = \<lparr>ev_state = (if init then this else 0), ev_store = Map.empty\<rparr>"

definition is_set :: "uptr \<Rightarrow> reset_event \<Rightarrow> bool" where
  "is_set this ev \<longleftrightarrow> ev_state ev = this"

text \<open>
  An awaiter at \<open>a\<close> for coroutine \<open>c\<close> (its link is not initialised, and is written before it is
  read), and one turn of the loop of \<open>await_suspend\<close> with the state last seen.
\<close>

definition new_awaiter :: "uptr \<Rightarrow> nat \<Rightarrow> reset_event \<Rightarrow> reset_event" where
  "new_awaiter a c ev =
     ev\<lparr>ev_store := (ev_store ev)(a \<mapsto> \<lparr>next_awaiter = 0, awaiting_coro = c\<rparr>)\<rparr>"

definition link :: "uptr \<Rightarrow> uptr \<Rightarrow> reset_event \<Rightarrow> reset_event" where
  "link a p ev =
     ev\<lparr>ev_store := (ev_store ev)(a := map_option (\<lambda>x. x\<lparr>next_awaiter := p\<rparr>) (ev_store ev a))\<rparr>"

definition event_try :: "uptr \<Rightarrow> uptr \<Rightarrow> uptr \<Rightarrow> reset_event \<Rightarrow> reset_event \<times> (uptr + bool)" where
  "event_try this a old_val ev =
     (if old_val = this then (ev, Inr False)
      else let ev = link a old_val ev
           in if ev_state ev = old_val then (ev\<lparr>ev_state := a\<rparr>, Inr True)
              else (ev, Inl (ev_state ev)))"

definition event_await :: "uptr \<Rightarrow> uptr \<Rightarrow> nat \<Rightarrow> reset_event \<Rightarrow> reset_event \<times> (uptr + bool)" where
  "event_await this a c ev =
     (let ev = new_awaiter a c ev
      in if is_set this ev then (ev, Inr False) else event_try this a (ev_state ev) ev)"

definition event_set :: "uptr \<Rightarrow> reset_event \<Rightarrow> (reset_event \<times> nat list) res option" where
  "event_set this ev =
     (let old_val = ev_state ev; ev = ev\<lparr>ev_state := this\<rparr>
      in if old_val \<noteq> this
         then bind_run (resume_all (ev_store ev) old_val) (\<lambda>cs. Some (Inr (ev, cs)))
         else Some (Inr (ev, [])))"

definition event_reset :: "uptr \<Rightarrow> reset_event \<Rightarrow> reset_event" where
  "event_reset this ev = (if ev_state ev = this then ev\<lparr>ev_state := 0\<rparr> else ev)"

subsection \<open>The abstract event\<close>

text \<open>
  A flag and the waiting coroutines, latest first. \<open>event_call\<close> is what one caller does:
  await as a coroutine with its awaiter's address, set, or reset.
\<close>

datatype event_call = Await uptr nat | SetEvent | Reset

fun event_step :: "uptr \<Rightarrow> event_call \<Rightarrow> reset_event \<Rightarrow> (reset_event \<times> nat list) res option" where
  "event_step this (Await a c) ev =
     (case event_await this a c ev of
        (ev, Inr suspended) \<Rightarrow> Some (Inr (ev, if suspended then [] else [c]))
      | (ev, Inl _) \<Rightarrow> None)"
| "event_step this SetEvent ev = event_set this ev"
| "event_step this Reset ev = Some (Inr (event_reset this ev, []))"

fun event_run :: "uptr \<Rightarrow> event_call list \<Rightarrow> reset_event \<Rightarrow> nat list res option" where
  "event_run this [] ev = Some (Inr [])"
| "event_run this (c # cs) ev =
     bind_run (event_step this c ev) (\<lambda>(ev, out).
       bind_run (event_run this cs ev) (\<lambda>outs. Some (Inr (out @ outs))))"

fun spec_event :: "event_call list \<Rightarrow> bool \<Rightarrow> nat list \<Rightarrow> nat list" where
  "spec_event [] set_flag ws = []"
| "spec_event (Await a c # cs) set_flag ws =
     (if set_flag then c # spec_event cs set_flag ws else spec_event cs set_flag (c # ws))"
| "spec_event (SetEvent # cs) set_flag ws = ws @ spec_event cs True []"
| "spec_event (Reset # cs) set_flag ws = spec_event cs False ws"

fun await_addrs :: "event_call list \<Rightarrow> uptr list" where
  "await_addrs [] = []"
| "await_addrs (Await a c # cs) = a # await_addrs cs"
| "await_addrs (_ # cs) = await_addrs cs"

definition event_abs :: "uptr \<Rightarrow> reset_event \<Rightarrow> bool \<Rightarrow> uptr list \<Rightarrow> bool" where
  "event_abs this ev b as \<longleftrightarrow> (b \<longleftrightarrow> ev_state ev = this) \<and>
     (if b then as = [] else is_chain (ev_store ev) (ev_state ev) 0 as)"

definition coros :: "reset_event \<Rightarrow> uptr list \<Rightarrow> nat list" where
  "coros ev as = map (\<lambda>a. awaiting_coro (the (ev_store ev a))) as"

lemma event_await_ok:
  assumes "event_abs this ev b as" "this \<noteq> 0" "a \<notin> set as" "a \<noteq> 0" "a \<noteq> this"
  shows "\<exists>ev'. event_await this a c ev = (ev', Inr (\<not> b)) \<and>
    event_abs this ev' b (if b then [] else a # as) \<and>
    coros ev' (if b then [] else a # as) = (if b then [] else c # coros ev as)"
proof (cases b)
  case True
  with assms show ?thesis
    by (simp add: event_await_def Let_def is_set_def new_awaiter_def event_abs_def coros_def)
next
  case False
  define ev' where "ev' = (link a (ev_state ev) (new_awaiter a c ev))\<lparr>ev_state := a\<rparr>"
  have st: "ev_store ev' = (ev_store ev)(a \<mapsto> \<lparr>next_awaiter = ev_state ev, awaiting_coro = c\<rparr>)"
    by (simp add: ev'_def link_def new_awaiter_def)
  have "event_await this a c ev = (ev', Inr True)"
    using False assms(1) by (simp add: event_await_def Let_def is_set_def new_awaiter_def event_abs_def
        event_try_def link_def ev'_def)
  moreover have "event_abs this ev' False (a # as)"
    using assms False by (simp add: event_abs_def st is_chain_upd) (simp add: ev'_def)
  moreover have "coros ev' (a # as) = c # coros ev as"
    using assms(3) by (auto simp: coros_def st)
  ultimately show ?thesis using False by auto
qed

lemma event_run_ok:
  assumes "event_abs this ev b as" "this \<noteq> 0" "distinct (await_addrs cs @ as)"
    "0 \<notin> set (await_addrs cs)" "this \<notin> set (await_addrs cs)"
  shows "event_run this cs ev = Some (Inr (spec_event cs b (coros ev as)))"
  using assms
proof (induction cs arbitrary: ev b as)
  case (Cons call cs)
  show ?case
  proof (cases call)
    case (Await a c)
    obtain ev' where ev': "event_await this a c ev = (ev', Inr (\<not> b))"
        "event_abs this ev' b (if b then [] else a # as)"
        "coros ev' (if b then [] else a # as) = (if b then [] else c # coros ev as)"
      using event_await_ok [of this ev b as a c] Cons.prems Await by auto
    have "event_run this cs ev' = Some (Inr (spec_event cs b (if b then [] else c # coros ev as)))"
      using Cons.IH [OF ev'(2)] Cons.prems Await ev'(3) by auto
    moreover have "b \<Longrightarrow> coros ev as = []" using Cons.prems by (simp add: event_abs_def coros_def)
    ultimately show ?thesis using Await ev'(1) by (cases b) auto
  next
    case SetEvent
    let ?ev = "ev\<lparr>ev_state := this\<rparr>"
    have abs: "event_abs this ?ev True []" by (simp add: event_abs_def)
    have "event_set this ev = Some (Inr (?ev, coros ev as))"
      using Cons.prems(1) resume_all_chain [of "ev_store ev" "ev_state ev" as]
      by (cases b) (auto simp: event_set_def event_abs_def coros_def)
    with Cons.IH [OF abs] Cons.prems SetEvent show ?thesis by (simp add: coros_def)
  next
    case Reset
    have "event_abs this (event_reset this ev) False as"
      using Cons.prems(1,2) by (cases b) (auto simp: event_abs_def event_reset_def)
    moreover have "coros (event_reset this ev) as = coros ev as"
      by (simp add: coros_def event_reset_def)
    ultimately show ?thesis using Cons.IH [of "event_reset this ev" False as] Cons.prems Reset by simp
  qed
qed simp

subsection \<open>All interleavings\<close>

text \<open>
  Waiters are identified by the address of their awaiter and are idle, in the loop of
  \<open>await_suspend\<close> with the state last seen, or suspended; a waiter that does not suspend or is
  resumed is idle again and may come back. A setter that has exchanged the state walks the list
  it took, one resumption per step. Steps are the atomic operations; \<open>Inl\<close> is a crash.
\<close>

datatype event_pc = EIdle | ETrying uptr | ESuspended

record event_world =
  ev :: reset_event
  epc :: "uptr \<Rightarrow> event_pc"
  setter :: "nat \<Rightarrow> uptr option"

inductive event_istep :: "uptr \<Rightarrow> event_world \<Rightarrow> event_world res \<Rightarrow> bool" for this :: uptr where
  begin_await: "epc w a = EIdle \<Longrightarrow> a \<noteq> 0 \<Longrightarrow> a \<noteq> this \<Longrightarrow>
    event_istep this w (Inr (w\<lparr>ev := new_awaiter a c (ev w),
      epc := (epc w)(a := ETrying (ev_state (ev w)))\<rparr>))"
| no_suspend: "epc w a = ETrying v \<Longrightarrow> event_try this a v (ev w) = (e, Inr False) \<Longrightarrow>
    event_istep this w (Inr (w\<lparr>ev := e, epc := (epc w)(a := EIdle)\<rparr>))"
| try_again: "epc w a = ETrying v \<Longrightarrow> v \<noteq> this \<Longrightarrow>
    event_istep this w (Inr (w\<lparr>ev := link a v (ev w),
      epc := (epc w)(a := ETrying (ev_state (ev w)))\<rparr>))"
| enqueue: "epc w a = ETrying v \<Longrightarrow> event_try this a v (ev w) = (e, Inr True) \<Longrightarrow>
    event_istep this w (Inr (w\<lparr>ev := e, epc := (epc w)(a := ESuspended)\<rparr>))"
| set_exchange: "setter w t = None \<Longrightarrow> ev_state (ev w) \<noteq> this \<Longrightarrow>
    event_istep this w (Inr (w\<lparr>ev := (ev w)\<lparr>ev_state := this\<rparr>,
      setter := (setter w)(t := Some (ev_state (ev w)))\<rparr>))"
| set_resume: "setter w t = Some p \<Longrightarrow> p \<noteq> 0 \<Longrightarrow> ev_store (ev w) p = Some x \<Longrightarrow>
    event_istep this w (Inr (w\<lparr>epc := (epc w)(p := EIdle),
      setter := (setter w)(t := Some (next_awaiter x))\<rparr>))"
| set_crash: "setter w t = Some p \<Longrightarrow> p \<noteq> 0 \<Longrightarrow> ev_store (ev w) p = None \<Longrightarrow>
    event_istep this w (Inl WildPointer)"
| set_done: "setter w t = Some 0 \<Longrightarrow>
    event_istep this w (Inr (w\<lparr>setter := (setter w)(t := None)\<rparr>))"
| reset: "event_istep this w (Inr (w\<lparr>ev := event_reset this (ev w)\<rparr>))"

inductive_cases event_istepE: "event_istep this w (Inr w')"
inductive_cases event_crashE: "event_istep this w (Inl e)"

lemmas event_istep_cases = event_istepE [consumes 1, case_names begin_await no_suspend try_again
  enqueue set_exchange set_resume set_done reset]

inductive event_reachable :: "uptr \<Rightarrow> event_world \<Rightarrow> bool" for this :: uptr where
  start: "event_reachable this
    \<lparr>ev = manual_reset_event this init, epc = (\<lambda>_. EIdle), setter = (\<lambda>_. None)\<rparr>"
| step: "event_reachable this w \<Longrightarrow> event_istep this w (Inr w') \<Longrightarrow> event_reachable this w'"

text \<open>
  The invariant: the suspended waiters are exactly those in the event's list and in the lists the
  setters are walking, each of which is a null-terminated chain; no two lists share a waiter.
\<close>

definition lists_ok :: "uptr \<Rightarrow> event_world \<Rightarrow> uptr list \<Rightarrow> (nat \<Rightarrow> uptr list) \<Rightarrow> bool" where
  "lists_ok this w ws f \<longleftrightarrow>
     (if ev_state (ev w) = this then ws = []
      else is_chain (ev_store (ev w)) (ev_state (ev w)) 0 ws) \<and>
     (\<forall>t. setter w t = None \<longrightarrow> f t = []) \<and>
     (\<forall>t p. setter w t = Some p \<longrightarrow> is_chain (ev_store (ev w)) p 0 (f t)) \<and>
     distinct ws \<and> (\<forall>t. distinct (f t) \<and> set (f t) \<inter> set ws = {}) \<and>
     (\<forall>t u. t \<noteq> u \<longrightarrow> set (f t) \<inter> set (f u) = {}) \<and>
     (\<forall>a. epc w a = ESuspended \<longleftrightarrow> a \<in> set ws \<or> (\<exists>t. a \<in> set (f t)))"

definition event_inv :: "uptr \<Rightarrow> event_world \<Rightarrow> bool" where
  "event_inv this w \<longleftrightarrow> this \<noteq> 0 \<and> dom (ev_store (ev w)) \<subseteq> - {0, this} \<and>
     (\<forall>a. epc w a \<noteq> EIdle \<longrightarrow> a \<in> dom (ev_store (ev w))) \<and> (\<exists>ws f. lists_ok this w ws f)"

lemma event_try_simps:
  "event_try this a v e = (e', Inr False) \<longleftrightarrow> v = this \<and> e' = e"
  "event_try this a v e = (e', Inr True) \<longleftrightarrow> v \<noteq> this \<and> ev_state e = v \<and>
     e' = (link a v e)\<lparr>ev_state := a\<rparr>"
  by (auto simp: event_try_def link_def Let_def)

lemma event_writes:
  "ev_state (link a v e) = ev_state e" "dom (ev_store (link a v e)) = dom (ev_store e)"
  "ev_state (new_awaiter a c e) = ev_state e"
  "dom (ev_store (new_awaiter a c e)) = insert a (dom (ev_store e))"
  by (auto simp: link_def new_awaiter_def)

lemma event_chain_writes:
  assumes "a \<notin> set xs"
  shows "is_chain (ev_store (link a v e)) p t xs = is_chain (ev_store e) p t xs"
    and "is_chain (ev_store (new_awaiter a c e)) p t xs = is_chain (ev_store e) p t xs"
  using assms by (simp_all add: link_def new_awaiter_def is_chain_upd)

text \<open>A write to the awaiter of a waiter that is not suspended touches no list.\<close>

lemma lists_ok_write:
  assumes ok: "lists_ok this w ws f" and a: "epc w a \<noteq> ESuspended"
    and e: "e = link a v (ev w) \<or> e = new_awaiter a c (ev w)" and pc: "pc' \<noteq> ESuspended"
  shows "lists_ok this (w\<lparr>ev := e, epc := (epc w)(a := pc')\<rparr>) ws f"
proof -
  have out: "a \<notin> set ws" "a \<notin> set (f t)" for t using ok a by (auto simp: lists_ok_def)
  have st: "ev_state e = ev_state (ev w)" using e by (auto simp: event_writes)
  have ch: "is_chain (ev_store e) p 0 ws = is_chain (ev_store (ev w)) p 0 ws"
    "is_chain (ev_store e) p 0 (f t) = is_chain (ev_store (ev w)) p 0 (f t)" for p t
    using e event_chain_writes out by auto
  show ?thesis using ok out a pc unfolding lists_ok_def by (simp add: st ch)
qed

lemma lists_ok_out:
  assumes "lists_ok this w ws f" "epc w a \<noteq> ESuspended"
  shows "a \<notin> set ws" "a \<notin> set (f t)"
proof -
  have "epc w a = ESuspended \<longleftrightarrow> a \<in> set ws \<or> (\<exists>t. a \<in> set (f t))"
    using assms(1) by (simp add: lists_ok_def)
  with assms(2) show "a \<notin> set ws" "a \<notin> set (f t)" by blast+
qed

lemma lists_ok_idle:
  assumes "lists_ok this w ws f" "epc w a \<noteq> ESuspended" "pc' \<noteq> ESuspended"
  shows "lists_ok this (w\<lparr>epc := (epc w)(a := pc')\<rparr>) ws f"
  using assms unfolding lists_ok_def by simp

lemma event_inv_step:
  assumes "event_istep this w (Inr w')" "event_inv this w"
  shows "event_inv this w'"
proof -
  obtain ws f where ok: "lists_ok this w ws f" using assms(2) by (auto simp: event_inv_def)
  have ne: "this \<noteq> 0" and doms: "dom (ev_store (ev w)) \<subseteq> - {0, this}"
    and pcs: "\<forall>a. epc w a \<noteq> EIdle \<longrightarrow> a \<in> dom (ev_store (ev w))"
    using assms(2) by (simp_all add: event_inv_def)
  from assms(1) show ?thesis
  proof (cases rule: event_istep_cases)
    case (begin_await a c)
    have "lists_ok this w' ws f"
      using lists_ok_write [OF ok, of a "new_awaiter a c (ev w)" _ c] begin_await by auto
    then show ?thesis
      using begin_await ne doms pcs unfolding event_inv_def by (auto simp: event_writes)
  next
    case (no_suspend a v e)
    then have "lists_ok this w' ws f"
      using lists_ok_idle [OF ok, of a EIdle] by (simp add: event_try_simps)
    then show ?thesis
      using no_suspend ne doms pcs unfolding event_inv_def by (auto simp: event_try_simps)
  next
    case (try_again a v)
    then have "lists_ok this w' ws f"
      using lists_ok_write [OF ok, of a "link a v (ev w)" v] by auto
    then show ?thesis
      using try_again ne doms pcs unfolding event_inv_def by (auto simp: event_writes)
  next
    case (enqueue a v e)
    then have v: "v \<noteq> this" "ev_state (ev w) = v" "e = (link a v (ev w))\<lparr>ev_state := a\<rparr>"
      by (simp_all add: event_try_simps)
    have dom: "a \<in> dom (ev_store (ev w))" using pcs enqueue by simp
    then have a: "a \<noteq> this" "a \<noteq> 0" using doms by auto
    have out: "a \<notin> set ws" "a \<notin> set (f t)" for t
      using lists_ok_out [OF ok, of a] enqueue by simp_all
    have "is_chain (ev_store e) a 0 (a # ws)"
      using ok v a dom out by (auto simp: lists_ok_def link_def is_chain_upd)
    moreover have "is_chain (ev_store e) p 0 (f t) = is_chain (ev_store (ev w)) p 0 (f t)" for p t
      using event_chain_writes(1) [OF out(2)] v(3) by simp
    ultimately have "lists_ok this w' (a # ws) f"
      using ok out a v(3) enqueue unfolding lists_ok_def by auto
    then show ?thesis
      using enqueue v ne doms pcs dom unfolding event_inv_def by (auto simp: event_writes)
  next
    case (set_exchange t)
    then have "f t = []" using ok by (auto simp: lists_ok_def)
    then have "lists_ok this w' [] (f(t := ws))"
      using ok set_exchange unfolding lists_ok_def by auto (metis empty_iff list.set(1))
    then show ?thesis using set_exchange ne doms pcs unfolding event_inv_def by auto
  next
    case (set_resume t p x)
    have "is_chain (ev_store (ev w)) p 0 (f t)"
      using ok set_resume by (simp add: lists_ok_def)
    then obtain ps where ps: "f t = p # ps" "is_chain (ev_store (ev w)) (next_awaiter x) 0 ps"
      using set_resume by (cases "f t") auto
    define g where "g = f(t := ps)"
    have sep: "distinct (f t)" "set (f t) \<inter> set ws = {}" "u \<noteq> t \<Longrightarrow> set (f t) \<inter> set (f u) = {}" for u
      using ok unfolding lists_ok_def by (blast, blast, metis)
    then have p: "p \<notin> set ps" "p \<notin> set ws" "u \<noteq> t \<Longrightarrow> p \<notin> set (f u)" for u using ps by auto
    have "a \<noteq> p \<Longrightarrow> a \<in> set (g u) \<longleftrightarrow> a \<in> set (f u)" and "p \<notin> set (g u)" for a u
      using ps p by (cases "u = t"; simp add: g_def)+
    then have sus: "epc w' a = ESuspended \<longleftrightarrow> a \<in> set ws \<or> (\<exists>u. a \<in> set (g u))" for a
      using ok p(2) set_resume by (cases "a = p") (simp_all add: lists_ok_def)
    have sub: "set (g u) \<subseteq> set (f u)" "distinct (g u)" for u
      using ps sep ok by (cases "u = t"; auto simp: g_def lists_ok_def)+
    have "\<forall>u v. u \<noteq> v \<longrightarrow> set (f u) \<inter> set (f v) = {}" "\<forall>u. set (f u) \<inter> set ws = {}"
      using ok by (auto simp: lists_ok_def)
    then have dis: "\<forall>u v. u \<noteq> v \<longrightarrow> set (g u) \<inter> set (g v) = {}" "\<forall>u. set (g u) \<inter> set ws = {}"
      using sub(1) by (meson disjoint_iff subsetD)+
    have "lists_ok this w' ws g"
      unfolding lists_ok_def using ok sus sub(2) dis ps(2) set_resume
      by (simp add: lists_ok_def g_def)
    then show ?thesis using set_resume ne doms pcs unfolding event_inv_def by auto
  next
    case (set_done t)
    have "\<forall>p. setter w t = Some p \<longrightarrow> is_chain (ev_store (ev w)) p 0 (f t)"
      using ok by (simp add: lists_ok_def)
    then have "f t = []" using set_done by fastforce
    then have "lists_ok this w' ws f"
      using ok set_done unfolding lists_ok_def by (auto split: option.splits)
    then show ?thesis using set_done ne doms pcs unfolding event_inv_def by auto
  next
    case reset
    have "lists_ok this w' ws f"
      using ok reset ne unfolding lists_ok_def by (auto simp: event_reset_def)
    then show ?thesis
      using reset ne doms pcs unfolding event_inv_def by (auto simp: event_reset_def)
  qed
qed

lemma event_reachable_inv:
  assumes "event_reachable this w" "this \<noteq> 0"
  shows "event_inv this w"
  using assms(1)
proof (induction rule: event_reachable.induct)
  case (start init)
  have "lists_ok this \<lparr>ev = manual_reset_event this init, epc = \<lambda>_. EIdle, setter = \<lambda>_. None\<rparr> [] (\<lambda>_. [])"
    by (auto simp: lists_ok_def manual_reset_event_def)
  then have "\<exists>ws f. lists_ok this \<lparr>ev = manual_reset_event this init, epc = \<lambda>_. EIdle, setter = \<lambda>_. None\<rparr> ws f"
    by blast
  with assms(2) show ?case unfolding event_inv_def by (simp add: manual_reset_event_def)
next
  case (step w w')
  then show ?case using event_inv_step by blast
qed

subsection \<open>Properties\<close>

text \<open>
  C14. Called from one thread, the event is the abstract event: on every sequence of awaits (each with
  an awaiter of its own), sets and resets it resumes the same coroutines in the same order;
  an await on a set event does not suspend, a set resumes all waiters, latest first.
\<close>

theorem event_refines_spec:
  assumes "this \<noteq> 0" and "distinct (await_addrs cs)" and "0 \<notin> set (await_addrs cs)"
    and "this \<notin> set (await_addrs cs)"
  shows "event_run this cs (manual_reset_event this init) = Some (Inr (spec_event cs init []))"
proof -
  have "event_abs this (manual_reset_event this init) init []"
    using assms(1) by (auto simp: event_abs_def manual_reset_event_def)
  from event_run_ok [OF this] assms show ?thesis by (simp add: coros_def)
qed

theorem event_refines_spec_witness:
  "event_run 64 [Await 8 1, Await 16 2, SetEvent, Await 24 3, Reset, Await 32 4, SetEvent]
     (manual_reset_event 64 False) = Some (Inr [2, 1, 3, 4])"
  using event_refines_spec [of 64 "[Await 8 1, Await 16 2, SetEvent, Await 24 3, Reset, Await 32 4,
    SetEvent]" False] by simp

text \<open>
  C13. No wake-up is lost, in any interleaving of any number of waiters, setters and resets: when the
  event is set and no setter is still walking its list, nobody is suspended. And no setter ever
  follows a link to anything that is not a waiter.
\<close>

theorem event_no_lost_wakeup:
  assumes "event_reachable this w" and "this \<noteq> 0"
  shows "(is_set this (ev w) \<and> (\<forall>t. setter w t = None) \<longrightarrow> (\<forall>a. epc w a \<noteq> ESuspended)) \<and>
    \<not> event_istep this w (Inl e)"
proof (rule conjI)
  obtain ws f where ok: "lists_ok this w ws f"
    using event_reachable_inv [OF assms] by (auto simp: event_inv_def)
  show "is_set this (ev w) \<and> (\<forall>t. setter w t = None) \<longrightarrow> (\<forall>a. epc w a \<noteq> ESuspended)"
    using ok by (simp add: lists_ok_def is_set_def)
  show "\<not> event_istep this w (Inl e)"
  proof
    assume "event_istep this w (Inl e)"
    then obtain t p where t: "setter w t = Some p" "p \<noteq> 0" "ev_store (ev w) p = None"
      by (rule event_crashE)
    then have "is_chain (ev_store (ev w)) p 0 (f t)" using ok by (simp add: lists_ok_def)
    with t show False by (cases "f t") auto
  qed
qed

theorem event_no_lost_wakeup_witness:
  "\<exists>w. event_reachable 64 w \<and> is_set 64 (ev w) \<and> ev_store (ev w) 8 \<noteq> None \<and> epc w 8 \<noteq> ESuspended"
proof -
  let ?e0 = "manual_reset_event 64 False"
  let ?e1 = "new_awaiter 8 1 ?e0"
  let ?e2 = "(link 8 0 ?e1)\<lparr>ev_state := 8\<rparr>"
  let ?e3 = "?e2\<lparr>ev_state := 64\<rparr>"
  let ?x = "\<lparr>next_awaiter = 0, awaiting_coro = 1\<rparr>"
  let ?idle = "(\<lambda>_. EIdle) :: uptr \<Rightarrow> event_pc" and ?none = "(\<lambda>_. None) :: nat \<Rightarrow> uptr option"
  have st: "ev_state ?e0 = 0" "ev_state ?e1 = 0" "ev_store ?e3 8 = Some ?x"
    by (simp_all add: manual_reset_event_def new_awaiter_def link_def)
  have r0: "event_reachable 64 \<lparr>ev = ?e0, epc = ?idle, setter = ?none\<rparr>"
    by (rule event_reachable.start)
  have r1: "event_reachable 64 \<lparr>ev = ?e1, epc = ?idle(8 := ETrying 0), setter = ?none\<rparr>"
    using event_reachable.step [OF r0 event_istep.begin_await [of _ 8 _ 1]] st by simp
  have r2: "event_reachable 64 \<lparr>ev = ?e2, epc = ?idle(8 := ESuspended), setter = ?none\<rparr>"
    using event_reachable.step [OF r1 event_istep.enqueue [of _ 8 0 64 ?e2]] st
    by (simp add: event_try_simps)
  have r3: "event_reachable 64 \<lparr>ev = ?e3, epc = ?idle(8 := ESuspended), setter = ?none(0 := Some 8)\<rparr>"
    using event_reachable.step [OF r2 event_istep.set_exchange [of _ 0]] by simp
  have r4: "event_reachable 64 \<lparr>ev = ?e3, epc = ?idle(8 := EIdle), setter = ?none(0 := Some 0)\<rparr>"
    using event_reachable.step [OF r3 event_istep.set_resume [of _ 0 8 ?x]] st by simp
  have r5: "event_reachable 64 \<lparr>ev = ?e3, epc = ?idle(8 := EIdle), setter = ?none(0 := None)\<rparr>"
    using event_reachable.step [OF r4 event_istep.set_done [of _ 0]] by simp
  from event_no_lost_wakeup [OF r5] r5 st show ?thesis
    by (intro exI [of _ "\<lparr>ev = ?e3, epc = ?idle(8 := EIdle), setter = ?none(0 := None)\<rparr>"])
      (simp add: is_set_def)
qed

end
