(* ===== verification/Async_Latch.thy ===== *)
theory Async_Latch
  imports Awaiter_List
begin

text \<open>
  The latch of primitives/async-latch/async_latch.hpp: a counter, and the list of the coroutines
  that wait for it to reach zero. The operations on their own against an abstract latch, and
  the interleavings of awaits with count-downs, in which a waiter can be lost.
\<close>

subsection \<open>The latch\<close>

record async_latch =
  latch_count :: size_t
  latch_awaiters :: uptr
  latch_store :: store

definition async_latch_new :: "size_t \<Rightarrow> async_latch" where
  "async_latch_new n = \<lparr>latch_count = n, latch_awaiters = 0, latch_store = Map.empty\<rparr>"

definition expired :: "async_latch \<Rightarrow> bool" where
  "expired l \<longleftrightarrow> latch_count l = 0"

text \<open>
  \<open>co_await\<close> builds an awaiter at \<open>a\<close>. One turn of the loop of \<open>await_suspend\<close> is the test, the write
  of the link (\<open>latch_link\<close>) and the compare-exchange.
\<close>

definition latch_awaiter :: "uptr \<Rightarrow> nat \<Rightarrow> async_latch \<Rightarrow> async_latch" where
  "latch_awaiter a c l =
     l\<lparr>latch_store := (latch_store l)(a \<mapsto> \<lparr>next_awaiter = 0, awaiting_coro = c\<rparr>)\<rparr>"

definition latch_link :: "uptr \<Rightarrow> uptr \<Rightarrow> async_latch \<Rightarrow> async_latch" where
  "latch_link a p l =
     l\<lparr>latch_store := (latch_store l)(a := map_option (\<lambda>x. x\<lparr>next_awaiter := p\<rparr>) (latch_store l a))\<rparr>"

definition latch_try :: "uptr \<Rightarrow> uptr \<Rightarrow> async_latch \<Rightarrow> async_latch \<times> (uptr + bool)" where
  "latch_try a old_head l =
     (if expired l then (l, Inr False)
      else let l = latch_link a old_head l
           in if latch_awaiters l = old_head then (l\<lparr>latch_awaiters := a\<rparr>, Inr True)
              else (l, Inl (latch_awaiters l)))"

definition latch_await :: "uptr \<Rightarrow> nat \<Rightarrow> async_latch \<Rightarrow> async_latch \<times> (uptr + bool)" where
  "latch_await a c l =
     (let l = latch_awaiter a c l
      in if expired l then (l, Inr False) else latch_try a (latch_awaiters l) l)"

definition count_down :: "size_t \<Rightarrow> async_latch \<Rightarrow> (async_latch \<times> nat list) res option" where
  "count_down n l =
     (let old_count = latch_count l
      in if n > old_count then Some (Inr (l, []))
         else let new_count = old_count - n; l = l\<lparr>latch_count := new_count\<rparr>
              in if new_count = 0
                 then bind_run (resume_all (latch_store l) (latch_awaiters l))
                        (\<lambda>cs. Some (Inr (l, cs)))
                 else Some (Inr (l, [])))"

subsection \<open>The abstract latch\<close>

datatype latch_call = LAwait uptr nat | CountDown size_t

fun latch_step :: "latch_call \<Rightarrow> async_latch \<Rightarrow> (async_latch \<times> nat list) res option" where
  "latch_step (LAwait a c) l =
     (case latch_await a c l of
        (l, Inr suspended) \<Rightarrow> Some (Inr (l, if suspended then [] else [c]))
      | (l, Inl _) \<Rightarrow> None)"
| "latch_step (CountDown n) l = count_down n l"

fun latch_run :: "latch_call list \<Rightarrow> async_latch \<Rightarrow> nat list res option" where
  "latch_run [] l = Some (Inr [])"
| "latch_run (c # cs) l =
     bind_run (latch_step c l) (\<lambda>(l, out).
       bind_run (latch_run cs l) (\<lambda>outs. Some (Inr (out @ outs))))"

text \<open>A natural number and the waiting coroutines, latest first; too large a step is ignored.\<close>

fun spec_latch :: "latch_call list \<Rightarrow> nat \<Rightarrow> nat list \<Rightarrow> nat list" where
  "spec_latch [] k ws = []"
| "spec_latch (LAwait a c # cs) k ws =
     (if k = 0 then c # spec_latch cs k ws else spec_latch cs k (c # ws))"
| "spec_latch (CountDown n # cs) k ws =
     (if unat n > k then spec_latch cs k ws
      else if unat n = k then ws @ spec_latch cs 0 []
      else spec_latch cs (k - unat n) ws)"

fun latch_addrs :: "latch_call list \<Rightarrow> uptr list" where
  "latch_addrs [] = []"
| "latch_addrs (LAwait a c # cs) = a # latch_addrs cs"
| "latch_addrs (_ # cs) = latch_addrs cs"

definition waiting :: "async_latch \<Rightarrow> uptr list \<Rightarrow> nat list" where
  "waiting l as = map (\<lambda>a. awaiting_coro (the (latch_store l a))) as"

lemma latch_await_ok:
  assumes "is_chain (latch_store l) (latch_awaiters l) 0 as" "a \<notin> set as" "a \<noteq> 0" "\<not> expired l"
  shows "\<exists>l'. latch_await a c l = (l', Inr True) \<and> latch_count l' = latch_count l \<and>
    is_chain (latch_store l') (latch_awaiters l') 0 (a # as) \<and>
    waiting l' (a # as) = c # waiting l as"
proof -
  define l' where "l' = (latch_link a (latch_awaiters l) (latch_awaiter a c l))\<lparr>latch_awaiters := a\<rparr>"
  have st: "latch_store l' = (latch_store l)(a \<mapsto> \<lparr>next_awaiter = latch_awaiters l, awaiting_coro = c\<rparr>)"
    and rest: "latch_awaiters l' = a" "latch_count l' = latch_count l"
    by (simp_all add: l'_def latch_link_def latch_awaiter_def)
  have "latch_await a c l = (l', Inr True)"
    using assms(4)
    by (simp add: latch_await_def Let_def expired_def latch_awaiter_def latch_try_def latch_link_def l'_def)
  moreover have "is_chain (latch_store l') a 0 (a # as)"
    using assms(1-3) by (simp add: st is_chain_upd)
  moreover have "waiting l' (a # as) = c # waiting l as"
    using assms(2) by (auto simp: waiting_def st)
  ultimately show ?thesis using rest by auto
qed

lemma latch_run_expired:
  assumes "latch_count l = 0" "CountDown 0 \<notin> set cs"
  shows "latch_run cs l = Some (Inr (spec_latch cs 0 []))"
  using assms
proof (induction cs arbitrary: l)
  case (Cons call cs)
  show ?case
  proof (cases call)
    case (LAwait a c)
    have "latch_await a c l = (latch_awaiter a c l, Inr False)"
      using Cons.prems(1) by (simp add: latch_await_def Let_def expired_def latch_awaiter_def)
    with Cons.IH [of "latch_awaiter a c l"] Cons.prems LAwait show ?thesis
      by (simp add: latch_awaiter_def)
  next
    case (CountDown n)
    then have "n \<noteq> 0" using Cons.prems by auto
    then have "n > 0" "unat n > 0" by (simp_all add: word_gt_0 unat_gt_0)
    then show ?thesis using CountDown Cons by (simp add: count_down_def)
  qed
qed simp

lemma latch_run_ok:
  assumes "is_chain (latch_store l) (latch_awaiters l) 0 as" "latch_count l \<noteq> 0"
    "distinct (latch_addrs cs @ as)" "0 \<notin> set (latch_addrs cs)" "CountDown 0 \<notin> set cs"
  shows "latch_run cs l = Some (Inr (spec_latch cs (unat (latch_count l)) (waiting l as)))"
  using assms
proof (induction cs arbitrary: l as)
  case (Cons call cs)
  have pos: "unat (latch_count l) \<noteq> 0" using Cons.prems(2) by (simp add: unat_eq_zero)
  show ?case
  proof (cases call)
    case (LAwait a c)
    obtain l' where l': "latch_await a c l = (l', Inr True)" "latch_count l' = latch_count l"
        "is_chain (latch_store l') (latch_awaiters l') 0 (a # as)"
        "waiting l' (a # as) = c # waiting l as"
      using latch_await_ok [of l as a c] Cons.prems LAwait by (auto simp: expired_def)
    have "distinct (latch_addrs cs @ a # as)" using Cons.prems(3) LAwait by auto
    from Cons.IH [OF l'(3) _ this] l' Cons.prems LAwait pos show ?thesis by simp
  next
    case (CountDown n)
    let ?l = "l\<lparr>latch_count := latch_count l - n\<rparr>"
    consider "n > latch_count l" | "n = latch_count l" | "n < latch_count l"
      using linorder_less_linear by blast
    then show ?thesis
    proof cases
      case 1
      then have "unat n > unat (latch_count l)" by (simp add: word_less_nat_alt)
      with 1 CountDown Cons show ?thesis by (simp add: count_down_def)
    next
      case 2
      have "count_down n l = Some (Inr (?l, waiting l as))"
        using 2 resume_all_chain [OF Cons.prems(1)] by (simp add: count_down_def waiting_def)
      moreover have "latch_run cs ?l = Some (Inr (spec_latch cs 0 []))"
        using 2 Cons.prems(5) by (intro latch_run_expired) simp_all
      ultimately show ?thesis using 2 CountDown by simp
    next
      case 3
      then have lt: "unat n < unat (latch_count l)" "\<not> n > latch_count l"
        by (simp_all add: word_less_nat_alt)
      then have sub: "unat (latch_count l - n) = unat (latch_count l) - unat n"
        by (simp add: unat_sub word_le_nat_alt)
      then have "latch_count l - n \<noteq> 0" using lt(1) by (metis unat_0 zero_less_diff less_irrefl)
      then have "latch_run cs ?l = Some (Inr (spec_latch cs (unat (latch_count l) - unat n) (waiting l as)))"
        using Cons.IH [of ?l as] Cons.prems CountDown sub by (simp add: waiting_def)
      with lt \<open>latch_count l - n \<noteq> 0\<close> CountDown show ?thesis by (simp add: count_down_def)
    qed
  qed
qed simp

subsection \<open>Interleavings\<close>

text \<open>
  A waiter is idle, past \<open>await_ready\<close>, about to test the counter with the head it loaded, about
  to exchange, or suspended. A counting thread is idle, in its loop with the count it last saw,
  about to load the list, or walking it. Nobody counts down by zero here. \<open>Inl\<close> is a crash.
\<close>

datatype latch_pc = AIdle | AReady | ACheck uptr | AExchange uptr | ASuspended
datatype count_pc = CIdle | CTrying size_t size_t | CRelease | CWalking uptr

record latch_world =
  la :: async_latch
  apc :: "uptr \<Rightarrow> latch_pc"
  cpc :: "nat \<Rightarrow> count_pc"

inductive latch_istep :: "latch_world \<Rightarrow> latch_world res \<Rightarrow> bool" where
  not_ready: "apc w a = AIdle \<Longrightarrow> a \<noteq> 0 \<Longrightarrow> \<not> expired (la w) \<Longrightarrow>
    latch_istep w (Inr (w\<lparr>la := latch_awaiter a c (la w), apc := (apc w)(a := AReady)\<rparr>))"
| load_head: "apc w a = AReady \<Longrightarrow>
    latch_istep w (Inr (w\<lparr>apc := (apc w)(a := ACheck (latch_awaiters (la w)))\<rparr>))"
| check_expired: "apc w a = ACheck v \<Longrightarrow> expired (la w) \<Longrightarrow>
    latch_istep w (Inr (w\<lparr>apc := (apc w)(a := AIdle)\<rparr>))"
| check_waits: "apc w a = ACheck v \<Longrightarrow> \<not> expired (la w) \<Longrightarrow>
    latch_istep w (Inr (w\<lparr>la := latch_link a v (la w), apc := (apc w)(a := AExchange v)\<rparr>))"
| exchange: "apc w a = AExchange v \<Longrightarrow> latch_awaiters (la w) = v \<Longrightarrow>
    latch_istep w (Inr (w\<lparr>la := (la w)\<lparr>latch_awaiters := a\<rparr>, apc := (apc w)(a := ASuspended)\<rparr>))"
| exchange_fails: "apc w a = AExchange v \<Longrightarrow>
    latch_istep w (Inr (w\<lparr>apc := (apc w)(a := ACheck (latch_awaiters (la w)))\<rparr>))"
| load_count: "cpc w t = CIdle \<Longrightarrow> n \<noteq> 0 \<Longrightarrow>
    latch_istep w (Inr (w\<lparr>cpc := (cpc w)(t := CTrying n (latch_count (la w)))\<rparr>))"
| too_many: "cpc w t = CTrying n old_count \<Longrightarrow> n > old_count \<Longrightarrow>
    latch_istep w (Inr (w\<lparr>cpc := (cpc w)(t := CIdle)\<rparr>))"
| count: "cpc w t = CTrying n old_count \<Longrightarrow> n \<le> old_count \<Longrightarrow> latch_count (la w) = old_count \<Longrightarrow>
    latch_istep w (Inr (w\<lparr>la := (la w)\<lparr>latch_count := old_count - n\<rparr>,
      cpc := (cpc w)(t := if old_count - n = 0 then CRelease else CIdle)\<rparr>))"
| count_fails: "cpc w t = CTrying n old_count \<Longrightarrow> n \<le> old_count \<Longrightarrow>
    latch_istep w (Inr (w\<lparr>cpc := (cpc w)(t := CTrying n (latch_count (la w)))\<rparr>))"
| load_list: "cpc w t = CRelease \<Longrightarrow>
    latch_istep w (Inr (w\<lparr>cpc := (cpc w)(t := CWalking (latch_awaiters (la w)))\<rparr>))"
| resume_one: "cpc w t = CWalking p \<Longrightarrow> p \<noteq> 0 \<Longrightarrow> latch_store (la w) p = Some x \<Longrightarrow>
    latch_istep w (Inr (w\<lparr>apc := (apc w)(p := AIdle), cpc := (cpc w)(t := CWalking (next_awaiter x))\<rparr>))"
| resume_wild: "cpc w t = CWalking p \<Longrightarrow> p \<noteq> 0 \<Longrightarrow> latch_store (la w) p = None \<Longrightarrow>
    latch_istep w (Inl WildPointer)"
| walked: "cpc w t = CWalking 0 \<Longrightarrow>
    latch_istep w (Inr (w\<lparr>cpc := (cpc w)(t := CIdle)\<rparr>))"

inductive_cases latch_istepE: "latch_istep w (Inr w')"

inductive latch_reach :: "latch_world \<Rightarrow> latch_world \<Rightarrow> bool" for w0 :: latch_world where
  here: "latch_reach w0 w0"
| further: "latch_reach w0 w \<Longrightarrow> latch_istep w (Inr w') \<Longrightarrow> latch_reach w0 w'"

definition latch_start :: "size_t \<Rightarrow> latch_world" where
  "latch_start n = \<lparr>la = async_latch_new n, apc = (\<lambda>_. AIdle), cpc = (\<lambda>_. CIdle)\<rparr>"

text \<open>An expired latch whose counting threads have all gone home, or are about to.\<close>

definition over :: "latch_world \<Rightarrow> bool" where
  "over w \<longleftrightarrow> expired (la w) \<and> (\<forall>t. cpc w t = CIdle \<or> (\<exists>n. n \<noteq> 0 \<and> cpc w t = CTrying n 0))"

lemma overD:
  assumes "over w"
  shows "cpc w t \<noteq> CRelease" "cpc w t \<noteq> CWalking p" "cpc w t = CTrying n m \<Longrightarrow> n \<noteq> 0 \<and> m = 0"
proof -
  have "cpc w t = CIdle \<or> (\<exists>n. n \<noteq> 0 \<and> cpc w t = CTrying n 0)"
    using assms by (simp add: over_def)
  then show "cpc w t \<noteq> CRelease" "cpc w t \<noteq> CWalking p" "cpc w t = CTrying n m \<Longrightarrow> n \<noteq> 0 \<and> m = 0"
    by auto
qed

lemma over_step:
  assumes "latch_istep w (Inr w')" "over w" "apc w a = ASuspended"
  shows "over w' \<and> apc w' a = ASuspended"
  by (cases rule: latch_istepE [OF assms(1)])
    (use assms(2,3) overD(1,2) [OF assms(2)] in \<open>auto simp: over_def expired_def latch_link_def
      latch_awaiter_def word_gt_0 dest!: overD(3) [OF assms(2)]\<close>)

lemma over_forever:
  assumes "latch_reach w w'" "over w" "apc w a = ASuspended"
  shows "over w' \<and> apc w' a = ASuspended"
  using assms by (induction rule: latch_reach.induct) (auto dest: over_step)

text \<open>The run that loses a waiter: the count reaches zero between its test and its exchange.\<close>

lemma latch_race:
  "\<exists>w. latch_reach (latch_start 1) w \<and> over w \<and> apc w 8 = ASuspended"
proof -
  let ?l0 = "async_latch_new 1"
  let ?l1 = "latch_awaiter 8 1 ?l0"
  let ?l2 = "latch_link 8 0 ?l1"
  let ?l3 = "?l2\<lparr>latch_count := 0\<rparr>"
  let ?l4 = "?l3\<lparr>latch_awaiters := 8\<rparr>"
  let ?a = "(\<lambda>_. AIdle) :: uptr \<Rightarrow> latch_pc" and ?c = "(\<lambda>_. CIdle) :: nat \<Rightarrow> count_pc"
  let ?s = "latch_start 1"
  have st: "latch_count ?l0 = 1" "latch_count ?l1 = 1" "latch_count ?l2 = 1" "latch_awaiters ?l1 = 0"
    "latch_awaiters ?l3 = 0"
    by (simp_all add: async_latch_new_def latch_awaiter_def latch_link_def)
  have r0: "latch_reach ?s \<lparr>la = ?l0, apc = ?a, cpc = ?c\<rparr>"
    using latch_reach.here [of ?s] by (simp add: latch_start_def)
  have r1: "latch_reach ?s \<lparr>la = ?l1, apc = ?a(8 := AReady), cpc = ?c\<rparr>"
    using latch_reach.further [OF r0 latch_istep.not_ready [of _ 8 1]] st by (simp add: expired_def)
  have r2: "latch_reach ?s \<lparr>la = ?l1, apc = ?a(8 := ACheck 0), cpc = ?c\<rparr>"
    using latch_reach.further [OF r1 latch_istep.load_head [of _ 8]] st by simp
  have r3: "latch_reach ?s \<lparr>la = ?l2, apc = ?a(8 := AExchange 0), cpc = ?c\<rparr>"
    using latch_reach.further [OF r2 latch_istep.check_waits [of _ 8 0]] st by (simp add: expired_def)
  have r4: "latch_reach ?s \<lparr>la = ?l2, apc = ?a(8 := AExchange 0), cpc = ?c(0 := CTrying 1 1)\<rparr>"
    using latch_reach.further [OF r3 latch_istep.load_count [of _ 0 1]] st by simp
  have r5: "latch_reach ?s \<lparr>la = ?l3, apc = ?a(8 := AExchange 0), cpc = ?c(0 := CRelease)\<rparr>"
    using latch_reach.further [OF r4 latch_istep.count [of _ 0 1 1]] st by simp
  have r6: "latch_reach ?s \<lparr>la = ?l3, apc = ?a(8 := AExchange 0), cpc = ?c(0 := CWalking 0)\<rparr>"
    using latch_reach.further [OF r5 latch_istep.load_list [of _ 0]] st by simp
  have r7: "latch_reach ?s \<lparr>la = ?l4, apc = ?a(8 := ASuspended), cpc = ?c(0 := CWalking 0)\<rparr>"
    using latch_reach.further [OF r6 latch_istep.exchange [of _ 8 0]] st by simp
  have r8: "latch_reach ?s \<lparr>la = ?l4, apc = ?a(8 := ASuspended), cpc = ?c(0 := CIdle)\<rparr>"
    using latch_reach.further [OF r7 latch_istep.walked [of _ 0]] by simp
  then show ?thesis
    by (intro exI [of _ "\<lparr>la = ?l4, apc = ?a(8 := ASuspended), cpc = ?c(0 := CIdle)\<rparr>"])
      (simp add: over_def expired_def)
qed

subsection \<open>Properties\<close>



text \<open>
  An expired latch keeps its list: a count-down by zero then resumes every coroutine that ever
  waited a second time.
\<close>

lemma count_down_zero_resumes_again:
  assumes "is_chain (latch_store l) (latch_awaiters l) 0 as" and "latch_count l = n" and "n \<noteq> 0"
  shows "\<exists>l'. count_down n l = Some (Inr (l', waiting l as)) \<and> expired l' \<and>
    count_down 0 l' = Some (Inr (l', waiting l as))"
proof -
  let ?l = "l\<lparr>latch_count := 0\<rparr>"
  have "count_down n l = Some (Inr (?l, waiting l as))" "count_down 0 ?l = Some (Inr (?l, waiting l as))"
    using resume_all_chain [OF assms(1)] assms(2) by (simp_all add: count_down_def waiting_def)
  then show ?thesis by (intro exI [of _ ?l]) (simp add: expired_def)
qed

text \<open>
  A waiter can be lost: the test of the count and the exchange that queues the waiter are
  separate. There is a run on a latch of count 1, with one waiter and one count-down by 1, after
  which the latch is expired, the count-down has returned and the waiter is suspended; and in
  whatever happens afterwards (short of a count-down by zero) it stays suspended for ever.
\<close>

lemma latch_loses_wakeup:
  "\<exists>w a. latch_reach (latch_start 1) w \<and> expired (la w) \<and> apc w a = ASuspended \<and>
     (\<forall>w'. latch_reach w w' \<longrightarrow> apc w' a = ASuspended)"
proof -
  obtain w where "latch_reach (latch_start 1) w" "over w" "apc w 8 = ASuspended"
    using latch_race by blast
  then show ?thesis using over_forever by (fastforce simp: over_def)
qed

end
