(* ===== verification/Generator.thy ===== *)
theory Generator
  imports Prelude
begin

text \<open>
  \<open>coro::generator<T>\<close> of libcoro/include/libcoro/generator.hpp with its promise and iterator, and
  the loops and the \<open>make_range\<close> generator that primitives/generator runs on it.

  A generator body is cut at its \<open>co_yield\<close>s: from a state it yields a value and a next state,
  finishes, or throws. A generator owns the handle of its coroutine or is empty; the frames
  are in a store from which \<open>destroy\<close> removes them.
\<close>

subsection \<open>The coroutine and its promise\<close>

datatype ('s, 'v) progress = Yield 'v 's | Finish | Throw string

text \<open>
  \<open>m_value\<close> points to the yielded object, which stays alive while the coroutine is suspended;
  \<open>None\<close> is the pointer before the first yield.
\<close>

record ('s, 'v) gen_frame =
  g_state :: 's
  m_value :: "'v option"
  m_exception :: "string option"
  g_done :: bool

type_synonym ('s, 'v) gen_store = "nat \<rightharpoonup> ('s, 'v) gen_frame"
type_synonym ('s, 'v) gen_body = "'s \<Rightarrow> ('s, 'v) progress"

text \<open>A new generator is suspended before its body (\<open>initial_suspend\<close> is \<open>suspend_always\<close>).\<close>

definition new_gen_frame :: "'s \<Rightarrow> ('s, 'v) gen_frame" where
  "new_gen_frame s = \<lparr>g_state = s, m_value = None, m_exception = None, g_done = False\<rparr>"

text \<open>
  Resumption runs to the next yield, whose value \<open>yield_value\<close> notes, or to the final
  suspension; an exception of the body is kept by \<open>unhandled_exception\<close>.
\<close>

definition run_frame :: "('s, 'v) gen_body \<Rightarrow> ('s, 'v) gen_frame \<Rightarrow> ('s, 'v) gen_frame" where
  "run_frame body g =
     (case body (g_state g) of
        Yield v s \<Rightarrow> g\<lparr>g_state := s, m_value := Some v\<rparr>
      | Finish \<Rightarrow> g\<lparr>g_done := True\<rparr>
      | Throw e \<Rightarrow> g\<lparr>g_done := True, m_exception := Some e\<rparr>)"

definition gen_resume :: "('s, 'v) gen_body \<Rightarrow> nat \<Rightarrow> ('s, 'v) gen_store \<Rightarrow> ('s, 'v) gen_store res" where
  "gen_resume body h st =
     (case st h of
        None \<Rightarrow> Inl DeadHandle
      | Some g \<Rightarrow> if g_done g then Inl DeadHandle else Inr (st(h \<mapsto> run_frame body g)))"

definition rethrow_if_exception :: "nat \<Rightarrow> ('s, 'v) gen_store \<Rightarrow> ('s, 'v) gen_store res" where
  "rethrow_if_exception h st =
     (case st h of
        None \<Rightarrow> Inl DeadHandle
      | Some g \<Rightarrow>
          (case m_exception g of
             Some e \<Rightarrow> if g_done g then Inl (RuntimeError e) else Inr st
           | None \<Rightarrow> Inr st))"

subsection \<open>The iterator\<close>

text \<open>An iterator is a handle or null; it equals the sentinel when null or when its coroutine is done.\<close>

type_synonym gen_iterator = "nat option"

definition at_end :: "gen_iterator \<Rightarrow> ('s, 'v) gen_store \<Rightarrow> bool res" where
  "at_end it st =
     (case it of
        None \<Rightarrow> Inr True
      | Some h \<Rightarrow> (case st h of None \<Rightarrow> Inl DeadHandle | Some g \<Rightarrow> Inr (g_done g)))"

definition advance :: "('s, 'v) gen_body \<Rightarrow> gen_iterator \<Rightarrow> ('s, 'v) gen_store \<Rightarrow> ('s, 'v) gen_store res" where
  "advance body it st =
     (case it of
        None \<Rightarrow> Inl NullHandle
      | Some h \<Rightarrow> bindE (gen_resume body h st) (rethrow_if_exception h))"

definition gen_deref :: "gen_iterator \<Rightarrow> ('s, 'v) gen_store \<Rightarrow> 'v res" where
  "gen_deref it st =
     (case it of
        None \<Rightarrow> Inl NullHandle
      | Some h \<Rightarrow>
          (case st h of
             None \<Rightarrow> Inl DeadHandle
           | Some g \<Rightarrow> (case m_value g of None \<Rightarrow> Inl NullDeref | Some v \<Rightarrow> Inr v)))"

subsection \<open>The generator object\<close>

type_synonym generator = "nat option"

definition generator_empty :: generator where
  "generator_empty = None"

definition generator_new ::
  "nat \<Rightarrow> 's \<Rightarrow> ('s, 'v) gen_store \<Rightarrow> generator \<times> ('s, 'v) gen_store" where
  "generator_new h s st = (Some h, st(h \<mapsto> new_gen_frame s))"

definition generator_destroy :: "generator \<Rightarrow> ('s, 'v) gen_store \<Rightarrow> ('s, 'v) gen_store res" where
  "generator_destroy g st =
     (case g of
        None \<Rightarrow> Inr st
      | Some h \<Rightarrow> if st h = None then Inl DeadHandle else Inr (st(h := None)))"

text \<open>Move construction (the new object, the old one), and \<open>swap\<close>.\<close>

definition generator_move :: "generator \<Rightarrow> generator \<times> generator" where
  "generator_move other = (other, None)"

definition generator_swap :: "generator \<Rightarrow> generator \<Rightarrow> generator \<times> generator" where
  "generator_swap a b = (b, a)"

definition gen_begin ::
  "('s, 'v) gen_body \<Rightarrow> generator \<Rightarrow> ('s, 'v) gen_store \<Rightarrow> (gen_iterator \<times> ('s, 'v) gen_store) res" where
  "gen_begin body g st =
     (case g of
        None \<Rightarrow> Inr (None, st)
      | Some h \<Rightarrow> bindE (gen_resume body h st) (\<lambda>st.
                    bindE (rethrow_if_exception h st) (\<lambda>st. Inr (Some h, st))))"

subsection \<open>Loops over a generator\<close>

text \<open>
  \<open>for (auto iter = begin; iter != end; ++iter) acc = f(acc, *iter)\<close>, the loop of
  \<open>accumulate_iter\<close> and of the range-based \<open>for\<close>; a generator may never end.
\<close>

partial_function (option) iterate ::
  "('s, 'v) gen_body \<Rightarrow> ('a \<Rightarrow> 'v \<Rightarrow> 'a) \<Rightarrow> gen_iterator \<Rightarrow> 'a \<Rightarrow> ('s, 'v) gen_store \<Rightarrow>
   ('a \<times> ('s, 'v) gen_store) res option" where
  "iterate body f it acc st =
     bind_run (Some (at_end it st)) (\<lambda>fin.
       if fin then Some (Inr (acc, st))
       else bind_run (Some (gen_deref it st)) (\<lambda>v.
              bind_run (Some (advance body it st)) (iterate body f it (f acc v))))"

declare iterate.simps [code]

definition accumulate_range ::
  "('s, 'v) gen_body \<Rightarrow> ('a \<Rightarrow> 'v \<Rightarrow> 'a) \<Rightarrow> generator \<Rightarrow> 'a \<Rightarrow> ('s, 'v) gen_store \<Rightarrow>
   ('a \<times> ('s, 'v) gen_store) res option" where
  "accumulate_range body f g init st =
     bind_run (Some (gen_begin body g st)) (\<lambda>(it, st). iterate body f it init st)"

text \<open>\<open>make_range(begin, end)\<close>: the state is the loop variable.\<close>

definition make_range :: "int \<Rightarrow> (int, int) gen_body" where
  "make_range stop i = (if i < stop then Yield i (i + 1) else Finish)"

subsection \<open>What a loop over a generator sees\<close>

text \<open>\<open>produces body s vs r\<close>: from \<open>s\<close> the body yields \<open>vs\<close> and then finishes or throws.\<close>

inductive produces :: "('s, 'v) gen_body \<Rightarrow> 's \<Rightarrow> 'v list \<Rightarrow> string option \<Rightarrow> bool" for body where
  finish: "body s = Finish \<Longrightarrow> produces body s [] None"
| throw: "body s = Throw e \<Longrightarrow> produces body s [] (Some e)"
| yield: "body s = Yield v s' \<Longrightarrow> produces body s' vs r \<Longrightarrow> produces body s (v # vs) r"

inductive_cases produces_ConsE: "produces body s (v # vs) r"
inductive_cases produces_NilE: "produces body s [] r"

lemma advance_produces:
  assumes "st h = Some g" "\<not> g_done g" "m_exception g = None" "produces body (g_state g) vs r"
  shows "advance body (Some h) st =
    (case vs of [] \<Rightarrow> (case r of None \<Rightarrow> Inr (st(h \<mapsto> g\<lparr>g_done := True\<rparr>)) | Some e \<Rightarrow> Inl (RuntimeError e))
     | v # vs' \<Rightarrow> Inr (st(h \<mapsto> run_frame body g)))"
  using assms(4,1-3)
  by (cases rule: produces.cases)
    (auto simp: advance_def gen_resume_def rethrow_if_exception_def run_frame_def)

lemma iterate_produces:
  assumes "st h = Some g" "\<not> g_done g" "m_exception g = None" "m_value g = Some v"
    "produces body (g_state g) vs r"
  shows "\<exists>g'. iterate body f (Some h) acc st =
    (case r of None \<Rightarrow> Some (Inr (foldl f acc (v # vs), st(h \<mapsto> g'))) | Some e \<Rightarrow> Some (Inl (RuntimeError e))) \<and>
    g_done g'"
  using assms
proof (induction vs arbitrary: g v acc st)
  case Nil
  show ?case
    using Nil.prems advance_produces [of st h g body "[]" r]
    by (subst iterate.simps, cases r)
      (auto simp: at_end_def gen_deref_def iterate.simps [of body f "Some h" _ "st(h \<mapsto> g\<lparr>g_done := True\<rparr>)"]
        intro: exI [of _ "g\<lparr>g_done := True\<rparr>"])
next
  case (Cons v' vs)
  from Cons.prems(5) obtain s' where s': "body (g_state g) = Yield v' s'" "produces body s' vs r"
    by (rule produces_ConsE)
  let ?g = "run_frame body g" and ?st = "st(h \<mapsto> run_frame body g)"
  have g: "?st h = Some ?g" "\<not> g_done ?g" "m_exception ?g = None" "m_value ?g = Some v'"
    "produces body (g_state ?g) vs r"
    using s' Cons.prems by (simp_all add: run_frame_def)
  have "iterate body f (Some h) acc st = iterate body f (Some h) (f acc v) ?st"
    using Cons.prems advance_produces [of st h g body "v' # vs" r]
    by (subst iterate.simps) (simp add: at_end_def gen_deref_def)
  with Cons.IH [where st = ?st and g = ?g and v = v', OF g, of "f acc v"] show ?case
    by (cases r) (auto simp del: fun_upd_apply)
qed

lemma accumulate_produces:
  assumes "produces body s vs r" "(g, st) = generator_new h s st0"
  shows "\<exists>g'. accumulate_range body f g init st =
    (case r of None \<Rightarrow> Some (Inr (foldl f init vs, st(h \<mapsto> g'))) | Some e \<Rightarrow> Some (Inl (RuntimeError e))) \<and>
    g_done g'"
proof -
  let ?g = "new_gen_frame s :: ('a, 'b) gen_frame"
  have st: "st h = Some ?g" "g = Some h" using assms(2) by (simp_all add: generator_new_def)
  have "advance body (Some h) st = bindE (gen_begin body g st) (\<lambda>(it, st). Inr st)"
    by (simp add: st(2) gen_begin_def advance_def gen_resume_def bindE_def split: sum.split option.split)
  have fresh: "\<not> g_done ?g" "m_exception ?g = None" "produces body (g_state ?g) vs r"
    using assms(1) by (simp_all add: new_gen_frame_def)
  note adv = advance_produces [of st h ?g body vs r, OF st(1) fresh]
  have bg: "gen_begin body g st = bindE (advance body (Some h) st) (\<lambda>st. Inr (Some h, st))"
    unfolding st(2) gen_begin_def advance_def by (simp add: bindE_def split: sum.split)
  show ?thesis
  proof (cases vs)
    case Nil
    then show ?thesis
      using adv by (cases r)
        (auto simp: accumulate_range_def bg iterate.simps [of body f "Some h"] at_end_def
          intro: exI [of _ "?g\<lparr>g_done := True\<rparr>"])
  next
    case (Cons v vs')
    with assms(1) obtain s' where s': "body s = Yield v s'" "produces body s' vs' r"
      by (auto elim: produces_ConsE)
    let ?g1 = "run_frame body ?g"
    have g1: "(st(h \<mapsto> ?g1)) h = Some ?g1" "\<not> g_done ?g1" "m_exception ?g1 = None" "m_value ?g1 = Some v"
      "produces body (g_state ?g1) vs' r"
      using s' by (simp_all add: run_frame_def new_gen_frame_def)
    have "accumulate_range body f g init st = iterate body f (Some h) init (st(h \<mapsto> ?g1))"
      using adv Cons by (simp add: accumulate_range_def bg)
    with iterate_produces [of "st(h \<mapsto> ?g1)" h ?g1 v body vs' r, OF g1, of f init] Cons show ?thesis
      by (cases r) (auto simp del: fun_upd_apply)
  qed
qed

lemma make_range_produces: "produces (make_range stop) i [i .. stop - 1] None"
proof (induction "nat (stop - i)" arbitrary: i rule: less_induct)
  case less
  show ?case
  proof (cases "i < stop")
    case True
    then have "[i .. stop - 1] = i # [i + 1 .. stop - 1]" by (simp add: upto_rec1)
    moreover have "produces (make_range stop) (i + 1) [i + 1 .. stop - 1] None"
      using True by (intro less) simp
    ultimately show ?thesis
      using True by (auto simp: make_range_def intro: produces.yield)
  next
    case False
    then show ?thesis by (auto simp: make_range_def intro: produces.finish)
  qed
qed

subsection \<open>Properties\<close>

text \<open>
  C30. A loop over a new generator sees exactly what the body yields, in order: when the body then
  finishes the loop returns with every value consumed and the coroutine done; when the body
  throws, the exception comes out of the loop.
\<close>

theorem loop_consumes_generator:
  assumes "produces body s vs r" and "(g, st) = generator_new h s st0"
  shows "\<exists>g'. accumulate_range body f g init st =
    (case r of None \<Rightarrow> Some (Inr (foldl f init vs, st(h \<mapsto> g'))) | Some e \<Rightarrow> Some (Inl (RuntimeError e))) \<and>
    g_done g'"
  using assms by (rule accumulate_produces)

theorem loop_consumes_generator_witness:
  "\<exists>st. accumulate_range (make_range 5) (+) (Some 2) 0 [2 \<mapsto> new_gen_frame 0] = Some (Inr (10, st))"
proof -
  have new: "(Some 2, [2 \<mapsto> new_gen_frame (0 :: int)]) = generator_new 2 0 Map.empty"
    by (simp add: generator_new_def)
  have "foldl (+) 0 [0 .. (5 :: int) - 1] = 10" by code_simp
  with loop_consumes_generator [OF make_range_produces [of 5 0] new, of "(+)" 0]
  show ?thesis by auto
qed

text \<open>
  Accumulating \<open>make_range(b, e)\<close> returns the initial value plus the sum of the integers from
  \<open>b\<close> up to \<open>e - 1\<close>, for any \<open>b\<close> and \<open>e\<close>; the call terminates.
\<close>

lemma make_range_sum:
  "map_option (map_sum id fst)
     (accumulate_range (make_range e) (+) (Some h) init (st0(h \<mapsto> new_gen_frame b))) =
   Some (Inr (init + (\<Sum>i \<in> {b ..< e}. i)))"
proof -
  have fold: "foldl (+) a xs = a + sum_list xs" for a :: int and xs
    by (induction xs arbitrary: a) (simp_all add: algebra_simps)
  have range: "{b .. e - 1} = {b ..< e}" by auto
  have "sum_list [b .. e - 1] = (\<Sum>i \<in> {b ..< e}. i)"
    using sum_list_distinct_conv_sum_set [of "[b .. e - 1]" "\<lambda>i. i"] by (simp add: range)
  moreover obtain g' where "accumulate_range (make_range e) (+) (Some h) init (st0(h \<mapsto> new_gen_frame b))
      = Some (Inr (foldl (+) init [b .. e - 1], st0(h \<mapsto> g')))"
    using accumulate_produces [OF make_range_produces [of e b], of "Some h" "st0(h \<mapsto> new_gen_frame b)" h st0 "(+)" init]
    by (auto simp: generator_new_def)
  ultimately show ?thesis by (simp add: fold)
qed

text \<open>
  Stepping past the end is not caught: incrementing an iterator that equals the sentinel resumes
  a finished coroutine, or a null handle.
\<close>

lemma increment_at_end_fails:
  assumes "at_end it st = Inr True"
  shows "\<exists>e \<in> {DeadHandle, NullHandle}. advance body it st = Inl e"
  using assms
  by (auto simp: at_end_def advance_def gen_resume_def split: option.splits)

text \<open>
  Ownership: moving a generator transfers its one handle, so that destroying both objects frees the
  frame once; without the reset of the source the second destructor would free it again.
\<close>

lemma generator_moved_frees_once:
  assumes "st h \<noteq> None" and "(target, source) = generator_move (Some h)"
  shows "bindE (generator_destroy target st) (generator_destroy source) = Inr (st(h := None)) \<and>
    bindE (generator_destroy target st) (generator_destroy (Some h)) = Inl DeadHandle"
  using assms by (simp add: generator_move_def generator_destroy_def)

end
