(* ===== verification/Task.thy ===== *)
theory Task
  imports Prelude
begin

text \<open>
  \<open>coro::task<T>\<close> of libcoro/include/libcoro/task.hpp: the promise with its continuation and its
  result, the awaitable and the owning task object. eager_task.hpp is the same code under
  other names: both start eagerly, since both promises' \<open>initial_suspend\<close> is \<open>suspend_never\<close>.

  A task body is cut at the points where it suspends on something outside the task. Frames are
  in a store; a handle is its key.
\<close>

subsection \<open>The promise\<close>

datatype 'v task_result = Empty | Value 'v | Exception string

record 'v task_promise =
  continuation :: "nat option"
  p_state :: bool
  p_result :: "'v task_result"

definition new_promise :: "'v task_promise" where
  "new_promise = \<lparr>continuation = None, p_state = False, p_result = Empty\<rparr>"

definition return_value :: "'v \<Rightarrow> 'v task_promise \<Rightarrow> 'v task_promise" where
  "return_value v p = p\<lparr>p_result := Value v\<rparr>"

definition unhandled_exception :: "string \<Rightarrow> 'v task_promise \<Rightarrow> 'v task_promise" where
  "unhandled_exception e p = p\<lparr>p_result := Exception e\<rparr>"

definition get_result :: "'v task_promise \<Rightarrow> 'v res" where
  "get_result p =
     (case p_result p of
        Exception e \<Rightarrow> Inl (RuntimeError e)
      | Value v \<Rightarrow> Inr v
      | Empty \<Rightarrow> Inl AssertFailed)"

text \<open>The result of a \<open>task<void>\<close>: its promise has only the exception.\<close>

definition get_result_void :: "'v task_promise \<Rightarrow> unit res" where
  "get_result_void p = (case p_result p of Exception e \<Rightarrow> Inl (RuntimeError e) | _ \<Rightarrow> Inr ())"

text \<open>
  Storing the continuation and the exchange of the flag are two actions; \<open>True\<close> from the exchange
  is "no continuation before". The final suspension exchanges the flag too and, if it was set,
  resumes the continuation.
\<close>

definition set_handle :: "nat \<Rightarrow> 'v task_promise \<Rightarrow> 'v task_promise" where
  "set_handle c p = p\<lparr>continuation := Some c\<rparr>"

definition exchange_state :: "'v task_promise \<Rightarrow> 'v task_promise \<times> bool" where
  "exchange_state p = (p\<lparr>p_state := True\<rparr>, \<not> p_state p)"

definition try_set_continuation :: "nat \<Rightarrow> 'v task_promise \<Rightarrow> 'v task_promise \<times> bool" where
  "try_set_continuation c p = exchange_state (set_handle c p)"

definition final_await_suspend :: "'v task_promise \<Rightarrow> ('v task_promise \<times> nat option) res" where
  "final_await_suspend p =
     (let (p', first) = exchange_state p
      in if \<not> first
         then (case continuation p' of None \<Rightarrow> Inl NullHandle | Some c \<Rightarrow> Inr (p', Some c))
         else Inr (p', None))"

subsection \<open>The coroutine\<close>

datatype ('s, 'v) task_progress = TSuspend 's | TReturn 'v | TThrow string

type_synonym ('s, 'v) task_body = "'s \<Rightarrow> ('s, 'v) task_progress"

record ('s, 'v) task_frame =
  t_state :: 's
  t_promise :: "'v task_promise"
  t_done :: bool

type_synonym ('s, 'v) task_store = "nat \<rightharpoonup> ('s, 'v) task_frame"

text \<open>
  Running a frame to its next suspension. At the end the result is stored, the coroutine is at
  its final suspension, and the continuation that this resumes, if any, is returned.
\<close>

definition finish_task ::
  "('v task_promise \<Rightarrow> 'v task_promise) \<Rightarrow> ('s, 'v) task_frame \<Rightarrow> (('s, 'v) task_frame \<times> nat option) res" where
  "finish_task put f =
     bindE (final_await_suspend (put (t_promise f))) (\<lambda>(p, c). Inr (f\<lparr>t_promise := p, t_done := True\<rparr>, c))"

definition run_task_frame ::
  "('s, 'v) task_body \<Rightarrow> ('s, 'v) task_frame \<Rightarrow> (('s, 'v) task_frame \<times> nat option) res" where
  "run_task_frame body f =
     (case body (t_state f) of
        TSuspend s \<Rightarrow> Inr (f\<lparr>t_state := s\<rparr>, None)
      | TReturn v \<Rightarrow> finish_task (return_value v) f
      | TThrow e \<Rightarrow> finish_task (unhandled_exception e) f)"

definition resume_handle ::
  "('s, 'v) task_body \<Rightarrow> nat \<Rightarrow> ('s, 'v) task_store \<Rightarrow> (('s, 'v) task_store \<times> nat option) res" where
  "resume_handle body h st =
     (case st h of
        None \<Rightarrow> Inl DeadHandle
      | Some f \<Rightarrow>
          if t_done f then Inl DeadHandle
          else bindE (run_task_frame body f) (\<lambda>(f, c). Inr (st(h \<mapsto> f), c)))"

text \<open>Calling the coroutine: the frame is made and the body starts at once.\<close>

definition create_task ::
  "('s, 'v) task_body \<Rightarrow> nat \<Rightarrow> 's \<Rightarrow> ('s, 'v) task_store \<Rightarrow> (('s, 'v) task_store \<times> nat option) res" where
  "create_task body h s st =
     resume_handle body h (st(h \<mapsto> \<lparr>t_state = s, t_promise = new_promise, t_done = False\<rparr>))"

subsection \<open>The awaitable and the task object\<close>

type_synonym task = "nat option"

definition task_is_ready :: "task \<Rightarrow> ('s, 'v) task_store \<Rightarrow> bool res" where
  "task_is_ready t st =
     (case t of
        None \<Rightarrow> Inr True
      | Some h \<Rightarrow> (case st h of None \<Rightarrow> Inl DeadHandle | Some f \<Rightarrow> Inr (t_done f)))"

text \<open>
  \<open>await_suspend\<close>: resume the awaited coroutine, then offer the continuation. The result is the
  store, whom the awaited coroutine resumed at its end, and whether the awaiter suspends.
\<close>

definition task_await_suspend ::
  "('s, 'v) task_body \<Rightarrow> nat \<Rightarrow> nat \<Rightarrow> ('s, 'v) task_store \<Rightarrow>
   (('s, 'v) task_store \<times> nat option \<times> bool) res" where
  "task_await_suspend body h awaiting st =
     bindE (resume_handle body h st) (\<lambda>(st, c).
       case st h of
         None \<Rightarrow> Inl DeadHandle
       | Some f \<Rightarrow>
           (let (p, suspend) = try_set_continuation awaiting (t_promise f)
            in Inr (st(h \<mapsto> f\<lparr>t_promise := p\<rparr>), c, suspend)))"

definition task_await_resume :: "task \<Rightarrow> ('s, 'v) task_store \<Rightarrow> 'v res" where
  "task_await_resume t st =
     (case t of
        None \<Rightarrow> Inl (RuntimeError ''broken promise'')
      | Some h \<Rightarrow> (case st h of None \<Rightarrow> Inl DeadHandle | Some f \<Rightarrow> get_result (t_promise f)))"

text \<open>\<open>co_await t\<close> up to the point where the awaiter suspends or goes on.\<close>

definition co_await_task ::
  "('s, 'v) task_body \<Rightarrow> task \<Rightarrow> nat \<Rightarrow> ('s, 'v) task_store \<Rightarrow>
   (('s, 'v) task_store \<times> nat option \<times> bool) res" where
  "co_await_task body t awaiting st =
     bindE (task_is_ready t st) (\<lambda>ready.
       case t of
         Some h \<Rightarrow> if ready then Inr (st, None, False) else task_await_suspend body h awaiting st
       | None \<Rightarrow> Inr (st, None, False))"

definition task_resume ::
  "('s, 'v) task_body \<Rightarrow> task \<Rightarrow> ('s, 'v) task_store \<Rightarrow> (('s, 'v) task_store \<times> nat option \<times> bool) res" where
  "task_resume body t st =
     (case t of
        None \<Rightarrow> Inl NullHandle
      | Some h \<Rightarrow>
          (case st h of
             None \<Rightarrow> Inl DeadHandle
           | Some f \<Rightarrow>
               bindE (if t_done f then Inr (st, None) else resume_handle body h st) (\<lambda>(st, c).
                 case st h of None \<Rightarrow> Inl DeadHandle | Some f \<Rightarrow> Inr (st, c, \<not> t_done f))))"

definition task_destroy :: "task \<Rightarrow> ('s, 'v) task_store \<Rightarrow> ('s, 'v) task_store res" where
  "task_destroy t st =
     (case t of None \<Rightarrow> Inr st | Some h \<Rightarrow> if st h = None then Inl DeadHandle else Inr (st(h := None)))"

text \<open>Move construction, and move assignment (\<open>self\<close> when source and target are one object).\<close>

definition task_move :: "task \<Rightarrow> task \<times> task" where
  "task_move other = (other, None)"

definition task_assign ::
  "bool \<Rightarrow> task \<Rightarrow> task \<Rightarrow> ('s, 'v) task_store \<Rightarrow> (task \<times> task \<times> ('s, 'v) task_store) res" where
  "task_assign self this other st =
     (if self then Inr (this, other, st)
      else bindE (task_destroy this st) (\<lambda>st. Inr (other, None, st)))"

subsection \<open>The handshake between an awaiter and the end of the task\<close>

text \<open>
  The atomic actions of the two sides, and what has come of them: whether the awaiter suspended,
  and whom the final suspension resumed.
\<close>

datatype handshake = StoreHandle nat | AwaiterExchange | FinalExchange

record outcome_log =
  awaiter_suspends :: "bool option"
  final_resumed :: "nat option res option"

fun shake ::
  "handshake list \<Rightarrow> 'v task_promise \<Rightarrow> outcome_log \<Rightarrow> outcome_log" where
  "shake [] p l = l"
| "shake (StoreHandle c # as) p l = shake as (set_handle c p) l"
| "shake (AwaiterExchange # as) p l =
     (let (p, first) = exchange_state p in shake as p (l\<lparr>awaiter_suspends := Some first\<rparr>))"
| "shake (FinalExchange # as) p l =
     (case final_await_suspend p of
        Inl e \<Rightarrow> l\<lparr>final_resumed := Some (Inl e)\<rparr>
      | Inr (p, c) \<Rightarrow> shake as p (l\<lparr>final_resumed := Some (Inr c)\<rparr>))"

definition no_log :: outcome_log where
  "no_log = \<lparr>awaiter_suspends = None, final_resumed = None\<rparr>"

lemmas promise_defs = set_handle_def exchange_state_def try_set_continuation_def
  final_await_suspend_def new_promise_def return_value_def unhandled_exception_def

subsection \<open>Properties\<close>



text \<open>
  One awaiter only: a second \<open>try_set_continuation\<close> before the end of the task takes the place of
  the first awaiter's handle and tells the second awaiter to go on, although there is
  no result yet; at its end the task resumes the second handle, and nobody resumes the first.
\<close>

lemma second_awaiter_steals:
  assumes "(p1, s1) = try_set_continuation c1 new_promise" and "(p2, s2) = try_set_continuation c2 p1"
  shows "s1 \<and> \<not> s2 \<and> get_result p2 = Inl AssertFailed \<and>
    (\<exists>p3. final_await_suspend (return_value v p2) = Inr (p3, Some c2))"
  using assms by (simp add: promise_defs get_result_def)

text \<open>
  The awaitable resumes whatever it awaits. A task that is suspended on something else, one step
  before its end, is driven to its end by the \<open>co_await\<close>: the awaiter does not suspend, the
  result is there, and the resumption that the task was really waiting for then finds a
  finished coroutine.
\<close>

lemma await_resumes_suspended_task:
  assumes "st h = Some f" and "\<not> t_done f" and "t_promise f = new_promise"
    and "body (t_state f) = TReturn v"
  shows "\<exists>st'. co_await_task body (Some h) c st = Inr (st', None, False) \<and>
    task_await_resume (Some h) st' = Inr v \<and> resume_handle body h st' = Inl DeadHandle"
  using assms
  by (simp add: co_await_task_def task_is_ready_def task_await_suspend_def resume_handle_def
      run_task_frame_def finish_task_def promise_defs task_await_resume_def get_result_def)

text \<open>
  An awaiter that finds the task with more to do suspends, and is resumed, once, by the step that
  ends the task; it then reads the value the body returned or gets the exception it threw.
\<close>

lemma await_then_finish:
  assumes "st h = Some f" and "\<not> t_done f" and "t_promise f = new_promise"
    and "body (t_state f) = TSuspend s" and "body s = TReturn v \<or> body s = TThrow e"
  shows "\<exists>st1 st2. co_await_task body (Some h) c st = Inr (st1, None, True) \<and>
    resume_handle body h st1 = Inr (st2, Some c) \<and> task_is_ready (Some h) st2 = Inr True \<and>
    task_await_resume (Some h) st2 =
      (if body s = TReturn v then Inr v else Inl (RuntimeError e))"
  using assms
  by (auto simp: co_await_task_def task_is_ready_def task_await_suspend_def resume_handle_def
      run_task_frame_def finish_task_def promise_defs task_await_resume_def get_result_def)

end
