(* ===== verification/When_All.thy ===== *)
theory When_All
  imports Task
begin

text \<open>
  algorithms/when-all: the counter through which the subtasks of \<open>when_all\<close> and its awaiter agree on
  who goes on (when_all.hpp), the task scheduler (task_scheduler.hpp), and the example
  program that combines the two with \<open>coro::task\<close> (example.cpp).
\<close>

subsection \<open>The counter\<close>

record counter =
  remaining :: size_t
  waiting_coro :: "nat option"

definition counter_new :: "nat \<Rightarrow> counter" where
  "counter_new n = \<lparr>remaining = of_nat n + 1, waiting_coro = None\<rparr>"

text \<open>\<open>fetch_sub\<close> returns the value before; \<open>True\<close> from \<open>try_await\<close> is "suspend".\<close>

definition try_await :: "nat \<Rightarrow> counter \<Rightarrow> counter \<times> bool" where
  "try_await c k =
     (let k = k\<lparr>waiting_coro := Some c\<rparr> in (k\<lparr>remaining := remaining k - 1\<rparr>, remaining k > 1))"

definition notify_task_completion :: "counter \<Rightarrow> counter \<times> nat option res" where
  "notify_task_completion k =
     (k\<lparr>remaining := remaining k - 1\<rparr>,
      if remaining k = 1
      then (case waiting_coro k of None \<Rightarrow> Inl NullHandle | Some c \<Rightarrow> Inr (Some c))
      else Inr None)"

text \<open>
  A history of the counter: the completions, and the one \<open>try_await\<close> of the awaiter. The result is
  what \<open>try_await\<close> said, and whom each completion resumed.
\<close>

datatype counter_event = TryAwait nat | Notify

fun counter_run :: "counter_event list \<Rightarrow> counter \<Rightarrow> bool option \<times> nat option res list" where
  "counter_run [] k = (None, [])"
| "counter_run (TryAwait c # es) k =
     (let (k, s) = try_await c k; (_, rs) = counter_run es k in (Some s, rs))"
| "counter_run (Notify # es) k =
     (let (k, r) = notify_task_completion k; (s, rs) = counter_run es k in (s, r # rs))"

lemma counter_notify_before:
  assumes "unat (remaining k) > i"
  shows "counter_run (replicate i Notify @ es) k =
    (let (s, rs) = counter_run es (k\<lparr>remaining := remaining k - of_nat i\<rparr>)
     in (s, replicate i (Inr None) @ rs))"
  using assms
proof (induction i arbitrary: k)
  case (Suc i)
  have ne: "remaining k \<noteq> 0" "remaining k \<noteq> 1" using Suc.prems by (auto simp: unat_eq_zero)
  let ?k = "k\<lparr>remaining := remaining k - 1\<rparr>"
  have "unat (remaining ?k) > i" using Suc.prems ne by (simp add: unat_pred_size)
  from Suc.IH [OF this] ne show ?case
    by (simp add: notify_task_completion_def Let_def split_beta algebra_simps)
qed (simp add: split_beta)

lemma counter_notify_after:
  assumes "unat (remaining k) = j" "waiting_coro k = Some c" "0 < j"
  shows "counter_run (replicate j Notify) k = (None, replicate (j - 1) (Inr None) @ [Inr (Some c)])"
proof -
  obtain i where i: "j = Suc i" using assms(3) by (cases j) auto
  let ?k = "k\<lparr>remaining := remaining k - of_nat i\<rparr>"
  have "remaining k = of_nat (unat (remaining k))" by simp
  then have "remaining k = of_nat j" unfolding assms(1) .
  then have "remaining ?k = 1" using i by simp
  moreover have "replicate j Notify = replicate i Notify @ [Notify]"
    unfolding i by (simp add: replicate_append_same)
  ultimately show ?thesis
    using counter_notify_before [of i k "[Notify]"] assms(1,2) i
    by (simp add: notify_task_completion_def)
qed

subsection \<open>The task scheduler\<close>

text \<open>
  \<open>run\<close> resumes the front of the queue and pops it afterwards; what the resumed coroutine does to
  the queue is an argument, \<open>resume_one\<close>.
\<close>

partial_function (option) scheduler_run ::
  "(nat \<Rightarrow> 'w \<times> nat list \<Rightarrow> ('w \<times> nat list) res) \<Rightarrow> 'w \<times> nat list \<Rightarrow> ('w \<times> nat list) res option" where
  "scheduler_run resume_one wq =
     (case snd wq of
        [] \<Rightarrow> Some (Inr wq)
      | h # q \<Rightarrow>
          bind_run (Some (resume_one h wq)) (\<lambda>(w, q). scheduler_run resume_one (w, tl q)))"

declare scheduler_run.simps [code]

text \<open>
  Tasks that suspend on \<open>defer_on(scheduler)\<close> a number of times, then return: the state is the
  number of suspensions to come, and a suspension puts the handle at the end of the queue.
\<close>

definition deferring :: "(nat, unit) task_body" where
  "deferring n = (if n = 0 then TReturn () else TSuspend (n - 1))"

type_synonym deferred_store = "(nat, unit) task_store"

definition enqueue_suspended :: "nat \<Rightarrow> deferred_store \<times> nat list \<Rightarrow> deferred_store \<times> nat list" where
  "enqueue_suspended h wq =
     (case fst wq h of
        Some f \<Rightarrow> if t_done f then wq else (fst wq, snd wq @ [h])
      | None \<Rightarrow> wq)"

definition resume_deferring ::
  "nat \<Rightarrow> deferred_store \<times> nat list \<Rightarrow> (deferred_store \<times> nat list) res" where
  "resume_deferring h wq =
     bindE (resume_handle deferring h (fst wq)) (\<lambda>(st, _). Inr (enqueue_suspended h (st, snd wq)))"

fun create_deferring ::
  "(nat \<times> nat) list \<Rightarrow> deferred_store \<times> nat list \<Rightarrow> (deferred_store \<times> nat list) res" where
  "create_deferring [] wq = Inr wq"
| "create_deferring ((h, n) # ts) wq =
     bindE (create_task deferring h n (fst wq)) (\<lambda>(st, _).
       create_deferring ts (enqueue_suspended h (st, snd wq)))"

subsection \<open>The example\<close>

text \<open>
  \<open>start\<close> on every subtask: the intermediate coroutine of \<open>make_when_all_task\<close> awaits its task, and,
  unless that suspends it, runs to its end and notifies the counter. A task that suspends
  again when it is resumed by the await queues itself once more.
\<close>

fun start_subtasks ::
  "nat list \<Rightarrow> counter \<Rightarrow> deferred_store \<times> nat list \<Rightarrow> (counter \<times> deferred_store \<times> nat list) res" where
  "start_subtasks [] k wq = Inr (k, wq)"
| "start_subtasks (h # hs) k wq =
     bindE (co_await_task deferring (Some h) (Suc h) (fst wq)) (\<lambda>(st, _, suspends).
       let wq = (if suspends then enqueue_suspended h (st, snd wq) else (st, snd wq))
       in if suspends then start_subtasks hs k wq
          else (let (k, r) = notify_task_completion k
                in bindE r (\<lambda>_. start_subtasks hs k wq)))"

fun destroy_tasks :: "nat list \<Rightarrow> deferred_store \<Rightarrow> deferred_store res" where
  "destroy_tasks [] st = Inr st"
| "destroy_tasks (h # hs) st = bindE (task_destroy (Some h) st) (destroy_tasks hs)"

text \<open>
  \<open>foo\<close> creates its subtasks, which defer once each, and awaits \<open>when_all\<close> of them. Should that
  suspend it, \<open>main\<close>'s \<open>t.resume()\<close> resumes it; either way it goes on past the await, which destroys
  the awaiter with the subtasks, and returns. \<open>main\<close> then runs the scheduler.
\<close>

definition foo :: "nat list \<Rightarrow> (deferred_store \<times> nat list) res" where
  "foo hs =
     bindE (create_deferring (map (\<lambda>h. (h, 1)) hs) (Map.empty, [])) (\<lambda>wq.
     bindE (start_subtasks hs (counter_new (length hs)) wq) (\<lambda>(k, st, q).
       let (k, suspends) = try_await 0 k
       in bindE (destroy_tasks hs st) (\<lambda>st. Inr (st, q))))"

definition main_program :: "nat list \<Rightarrow> (deferred_store \<times> nat list) res option" where
  "main_program hs = bind_run (Some (foo hs)) (scheduler_run resume_deferring)"

subsection \<open>The scheduler runs deferring tasks to their end\<close>

definition owing :: "nat \<Rightarrow> (nat, unit) task_frame" where
  "owing n = \<lparr>t_state = n, t_promise = new_promise, t_done = False\<rparr>"

definition ended :: "(nat, unit) task_frame" where
  "ended = \<lparr>t_state = 0, t_promise = new_promise\<lparr>p_result := Value (), p_state := True\<rparr>, t_done = True\<rparr>"

lemma run_owing:
  "run_task_frame deferring (owing n) = Inr (if n = 0 then ended else owing (n - 1), None)"
  by (simp add: run_task_frame_def deferring_def owing_def finish_task_def promise_defs ended_def)

lemma resume_owing:
  assumes "st h = Some (owing n)"
  shows "resume_deferring h (st, q) =
    Inr (if n = 0 then (st(h \<mapsto> ended), q) else (st(h \<mapsto> owing (n - 1)), q @ [h]))"
  using assms
  by (simp add: resume_deferring_def resume_handle_def run_owing enqueue_suspended_def)
    (simp add: owing_def ended_def)

lemma scheduler_run_ends:
  assumes "distinct q" "\<forall>h \<in> set q. st h = Some (owing (n h))"
  shows "\<exists>st'. scheduler_run resume_deferring (st, q) = Some (Inr (st', [])) \<and>
    (\<forall>h. st' h = (if h \<in> set q then Some ended else st h))"
  using assms
proof (induction "(\<Sum>h \<leftarrow> q. Suc (n h))" arbitrary: q st n rule: less_induct)
  case less
  show ?case
  proof (cases q)
    case Nil
    then show ?thesis by (subst scheduler_run.simps) simp
  next
    case (Cons h hs)
    then have h: "st h = Some (owing (n h))" "h \<notin> set hs" using less.prems by auto
    let ?n = "n(h := n h - 1)"
    have same: "map (\<lambda>x. Suc (?n x)) hs = map (\<lambda>x. Suc (n x)) hs"
      using h(2) by (intro map_cong) auto
    show ?thesis
    proof (cases "n h = 0")
      case True
      let ?st = "st(h \<mapsto> ended)"
      have "scheduler_run resume_deferring (st, q) = scheduler_run resume_deferring (?st, hs)"
        using Cons True resume_owing [of st h 0 q] h by (subst scheduler_run.simps) simp
      moreover have "\<exists>st'. scheduler_run resume_deferring (?st, hs) = Some (Inr (st', [])) \<and>
          (\<forall>x. st' x = (if x \<in> set hs then Some ended else ?st x))"
        using less.prems Cons h(2) by (intro less.hyps [of n hs]) auto
      ultimately show ?thesis using Cons by auto
    next
      case False
      let ?st = "st(h \<mapsto> owing (n h - 1))"
      have "scheduler_run resume_deferring (st, q) = scheduler_run resume_deferring (?st, hs @ [h])"
        using Cons False resume_owing [of st h "n h" q] h by (subst scheduler_run.simps) simp
      moreover have "(\<Sum>x \<leftarrow> hs @ [h]. Suc (?n x)) = (\<Sum>x \<leftarrow> hs. Suc (n x)) + Suc (n h - 1)"
        by (simp only: map_append sum_list_append same) simp
      then have "(\<Sum>x \<leftarrow> hs @ [h]. Suc (?n x)) < (\<Sum>x \<leftarrow> q. Suc (n x))"
        using False Cons by simp
      moreover have "\<forall>x \<in> set (hs @ [h]). ?st x = Some (owing (?n x))"
        using less.prems Cons h(2) by auto
      moreover have "distinct (hs @ [h])" using less.prems Cons by auto
      ultimately show ?thesis
        using less.hyps [of ?n "hs @ [h]" ?st] Cons by auto
    qed
  qed
qed

lemma create_deferring_ok:
  assumes "distinct (map fst ts @ q)" "\<forall>(h, n) \<in> set ts. 0 < n"
  shows "\<exists>st'. create_deferring ts (st, q) = Inr (st', q @ map fst ts) \<and>
    (\<forall>(h, n) \<in> set ts. st' h = Some (owing (n - 1))) \<and> (\<forall>h. h \<notin> fst ` set ts \<longrightarrow> st' h = st h)"
  using assms
proof (induction ts arbitrary: st q)
  case (Cons t ts)
  obtain h n where t: "t = (h, n)" by fastforce
  then have n: "0 < n" using Cons.prems by auto
  let ?st = "st(h \<mapsto> owing (n - 1))"
  have "create_task deferring h n st = Inr (?st, None)"
    using n by (simp add: create_task_def resume_handle_def run_owing [of n, unfolded owing_def] owing_def)
  then have "create_deferring (t # ts) (st, q) = create_deferring ts (?st, q @ [h])"
    by (simp add: t enqueue_suspended_def) (simp add: owing_def)
  moreover have "distinct (map fst ts @ q @ [h])" "\<forall>(h, n) \<in> set ts. 0 < n"
    using Cons.prems t by auto
  from Cons.IH [OF this, of ?st] obtain st' where st': "create_deferring ts (?st, q @ [h]) =
      Inr (st', (q @ [h]) @ map fst ts)" "\<forall>(h, n) \<in> set ts. st' h = Some (owing (n - 1))"
      "\<forall>x. x \<notin> fst ` set ts \<longrightarrow> st' x = ?st x" by blast
  moreover have "h \<notin> fst ` set ts" using Cons.prems t by auto
  ultimately show ?case
    using t n by (intro exI [of _ st']) auto
qed simp

definition ended_for :: "nat \<Rightarrow> (nat, unit) task_frame" where
  "ended_for c = ended\<lparr>t_promise := (t_promise ended)\<lparr>continuation := Some c\<rparr>\<rparr>"

lemma await_owing_0:
  assumes "st h = Some (owing 0)"
  shows "co_await_task deferring (Some h) c st = Inr (st(h \<mapsto> ended_for c), None, False)"
  using assms
  by (simp add: co_await_task_def task_is_ready_def task_await_suspend_def resume_handle_def run_owing)
    (simp add: owing_def ended_def promise_defs ended_for_def)

lemma start_subtasks_ok:
  assumes "distinct hs" "\<forall>h \<in> set hs. st h = Some (owing 0)" "unat (remaining k) > length hs"
  shows "\<exists>st' k'. start_subtasks hs k (st, q) = Inr (k', st', q) \<and>
    remaining k' = remaining k - of_nat (length hs) \<and>
    (\<forall>h. st' h = (if h \<in> set hs then Some (ended_for (Suc h)) else st h))"
  using assms
proof (induction hs arbitrary: st k)
  case (Cons h hs)
  let ?st = "st(h \<mapsto> ended_for (Suc h))" and ?k = "k\<lparr>remaining := remaining k - 1\<rparr>"
  have ne: "remaining k \<noteq> 1" "remaining k \<noteq> 0" using Cons.prems(3) by auto
  then have step: "start_subtasks (h # hs) k (st, q) = start_subtasks hs ?k (?st, q)"
    using Cons.prems(2) by (simp add: await_owing_0 notify_task_completion_def)
  have "unat (remaining ?k) > length hs" using Cons.prems(3) ne by (simp add: unat_pred_size)
  moreover have "\<forall>x \<in> set hs. ?st x = Some (owing 0)" using Cons.prems(1,2) by auto
  moreover have "distinct hs" using Cons.prems(1) by simp
  ultimately obtain st' k' where rec: "start_subtasks hs ?k (?st, q) = Inr (k', st', q)"
      "remaining k' = remaining ?k - of_nat (length hs)"
      "\<forall>x. st' x = (if x \<in> set hs then Some (ended_for (Suc x)) else ?st x)"
    using Cons.IH [of ?st ?k] by blast
  have "\<forall>x. st' x = (if x \<in> set (h # hs) then Some (ended_for (Suc x)) else st x)"
    using rec(3) by auto
  moreover have "remaining k' = remaining k - of_nat (length (h # hs))"
    using rec(2) by (simp add: algebra_simps)
  ultimately show ?case unfolding step using rec(1) by blast
qed auto

lemma destroy_tasks_ok:
  assumes "distinct hs" "\<forall>h \<in> set hs. st h \<noteq> None"
  shows "\<exists>st'. destroy_tasks hs st = Inr st' \<and> (\<forall>h \<in> set hs. st' h = None) \<and> (\<forall>h. st h = None \<longrightarrow> st' h = None)"
  using assms
proof (induction hs arbitrary: st)
  case (Cons h hs)
  let ?st = "st(h := None)"
  have "distinct hs" "\<forall>x \<in> set hs. ?st x \<noteq> None" using Cons.prems by auto
  from Cons.IH [OF this] obtain st' where "destroy_tasks hs ?st = Inr st'" "\<forall>x \<in> set hs. st' x = None"
    "\<forall>x. ?st x = None \<longrightarrow> st' x = None" by blast
  moreover from this have "st' h = None" by simp
  ultimately show ?case
    using Cons.prems by (intro exI [of _ st']) (auto simp: task_destroy_def)
qed simp

subsection \<open>Properties\<close>

text \<open>
  Whatever the order in which \<open>i + j\<close> subtasks complete and the awaiter calls \<open>try_await\<close> (after \<open>i\<close>
  of them), exactly one party goes on: when all have completed before, \<open>try_await\<close> says not to
  suspend and nobody is resumed; otherwise it says to suspend, the last completion, and no
  other, resumes the awaiter, and finds its handle stored.
\<close>

lemma counter_resumes_once:
  assumes "i + j < 2 ^ 64 - 1"
  shows "counter_run (replicate i Notify @ TryAwait c # replicate j Notify) (counter_new (i + j)) =
    (Some (0 < j),
     if j = 0 then replicate i (Inr None) else replicate (i + j - 1) (Inr None) @ [Inr (Some c)])"
proof -
  let ?k = "counter_new (i + j)" and ?es = "TryAwait c # replicate j Notify"
  have "remaining ?k = of_nat (i + j + 1)" by (simp add: counter_new_def)
  moreover have "unat (of_nat (i + j + 1) :: size_t) = i + j + 1"
    using assms by (intro unat_of_nat_size) simp
  ultimately have u: "unat (remaining ?k) = i + j + 1" by simp
  have r: "remaining ?k - of_nat i = of_nat (j + 1)" by (simp add: counter_new_def)
  have uj: "unat (of_nat (j + 1) :: size_t) = j + 1" using assms by (intro unat_of_nat_size) simp
  let ?m = "\<lparr>remaining = of_nat j, waiting_coro = Some c\<rparr>"
  have m: "unat (remaining ?m) = j" using assms by (simp add: unat_of_nat_size)
  have "(of_nat (j + 1) :: size_t) > 1 \<longleftrightarrow> 0 < j" using uj by (simp add: word_less_nat_alt)
  then have tr: "try_await c (?k\<lparr>remaining := of_nat (j + 1)\<rparr>) = (?m, 0 < j)"
    by (simp add: try_await_def Let_def counter_new_def)
  have "counter_run (replicate i Notify @ ?es) ?k =
      (let (s, rs) = counter_run ?es (?k\<lparr>remaining := of_nat (j + 1)\<rparr>) in (s, replicate i (Inr None) @ rs))"
    using counter_notify_before [of i ?k ?es] u unfolding r by simp
  moreover have "counter_run ?es (?k\<lparr>remaining := of_nat (j + 1)\<rparr>) =
      (Some (0 < j), snd (counter_run (replicate j Notify) ?m))"
    using tr by (simp add: split_beta)
  moreover have "counter_run (replicate j Notify) ?m =
      (None, if j = 0 then [] else replicate (j - 1) (Inr None) @ [Inr (Some c)])"
    using counter_notify_after [of ?m j c] m by auto
  moreover have "replicate i (Inr None) @ replicate (j - 1) (Inr None) = replicate (i + j - 1) (Inr None)"
    if "0 < j" using that by (simp add: replicate_add [symmetric])
  ultimately show ?thesis by (auto simp: append_assoc [symmetric] simp del: append_assoc)
qed

text \<open>
  On its own the task scheduler is sound and fair: tasks that each defer any positive number of
  times, created and then run, all end, and the queue is empty when \<open>run\<close> returns.
\<close>

lemma scheduler_completes_tasks:
  assumes "distinct (map fst ts)" and "\<forall>(h, n) \<in> set ts. 0 < n"
  shows "\<exists>wq st. create_deferring ts (Map.empty, []) = Inr wq \<and>
    scheduler_run resume_deferring wq = Some (Inr (st, [])) \<and>
    (\<forall>(h, n) \<in> set ts. \<exists>f. st h = Some f \<and> t_done f \<and> get_result (t_promise f) = Inr ())"
proof -
  obtain st where st: "create_deferring ts (Map.empty, []) = Inr (st, map fst ts)"
      "\<forall>(h, n) \<in> set ts. st h = Some (owing (n - 1))"
    using create_deferring_ok [of ts "[]" Map.empty] assms by auto
  let ?n = "\<lambda>h. the (map_of ts h) - 1"
  have "\<forall>h \<in> set (map fst ts). st h = Some (owing (?n h))"
    using st(2) assms(1) by (auto simp: map_of_is_SomeI)
  then obtain st' where "scheduler_run resume_deferring (st, map fst ts) = Some (Inr (st', []))"
      "\<forall>h. st' h = (if h \<in> set (map fst ts) then Some ended else st h)"
    using scheduler_run_ends [of "map fst ts" st ?n] assms(1) by auto
  moreover from this have "\<forall>(h, n) \<in> set ts. st' h = Some ended" by force
  ultimately show ?thesis
    using st(1) by (intro exI [of _ "(st, map fst ts)"] exI [of _ st'])
      (auto simp: ended_def get_result_def)
qed

text \<open>
  The example program resumes a destroyed coroutine, for any number of subtasks from one on:
  awaiting a subtask drives it to its end although it is still in the scheduler's queue, so that
  \<open>when_all\<close> is over before the scheduler runs, and the scheduler is left with the
  handles of subtasks that have been destroyed.
\<close>

lemma when_all_example_crashes:
  assumes "distinct hs" and "hs \<noteq> []" and "length hs < 2 ^ 64 - 1"
  shows "main_program hs = Some (Inl DeadHandle)"
proof -
  let ?ts = "map (\<lambda>h. (h, 1 :: nat)) hs"
  have fst: "map fst ?ts = hs" by (simp add: comp_def)
  obtain st where st: "create_deferring ?ts (Map.empty, []) = Inr (st, hs)"
      "\<forall>h \<in> set hs. st h = Some (owing 0)"
    using create_deferring_ok [of ?ts "[]" Map.empty, unfolded fst] assms(1) by auto
  have "unat (remaining (counter_new (length hs))) = length hs + 1"
    using unat_of_nat_size [of "length hs + 1"] assms(3) by (simp add: counter_new_def add.commute)
  then obtain st' k' where st': "start_subtasks hs (counter_new (length hs)) (st, hs) = Inr (k', st', hs)"
      "\<forall>h. st' h = (if h \<in> set hs then Some (ended_for (Suc h)) else st h)"
    using start_subtasks_ok [OF assms(1) st(2), of "counter_new (length hs)" hs] by auto
  obtain st'' where st'': "destroy_tasks hs st' = Inr st''" "\<forall>h \<in> set hs. st'' h = None"
    using destroy_tasks_ok [OF assms(1), of st'] st'(2) by auto
  have foo: "foo hs = Inr (st'', hs)"
    using st st' st'' by (simp add: foo_def split_beta)
  obtain h q where "hs = h # q" using assms(2) by (cases hs) auto
  with st''(2) foo show ?thesis
    by (simp add: main_program_def scheduler_run.simps resume_deferring_def resume_handle_def)
qed

end
