(* ===== verification/Thread_Pool.thy ===== *)
theory Thread_Pool
  imports Prelude
begin

unbundle bit_operations_syntax

text \<open>
  The coroutine thread pool of applications/threadpool: the synchronised queue of queue.hpp, and
  from thread_pool.hpp the state word, the work loop, \<open>await_suspend\<close>, \<open>shutdown\<close> and the
  destructor, cut at their atomic actions and interleaved over any number of worker threads, of
  threads that call coroutines and of threads that close the pool.
\<close>

subsection \<open>The queue\<close>

type_synonym pool_queue = "uptr list"

definition pool_push :: "pool_queue \<Rightarrow> uptr \<Rightarrow> pool_queue" where
  "pool_push q v = q @ [v]"

definition pool_push_batch :: "pool_queue \<Rightarrow> uptr list \<Rightarrow> pool_queue" where
  "pool_push_batch q vs = foldl pool_push q vs"

text \<open>\<open>pop\<close> waits for the queue to be non-empty: \<open>None\<close> is a caller that stays blocked.\<close>

definition pool_pop :: "pool_queue \<Rightarrow> (uptr \<times> pool_queue) option" where
  "pool_pop q = (case q of [] \<Rightarrow> None | v # q' \<Rightarrow> Some (v, q'))"

lemma pool_push_batch_append: "pool_push_batch q vs = q @ vs"
  by (induction vs arbitrary: q) (simp_all add: pool_push_batch_def pool_push_def)

subsection \<open>The pool\<close>

record thread_pool =
  pool_state :: u32
  n_threads :: u32
  awaiters :: pool_queue
  joined :: bool
  joinable :: "bool list"

definition SENTINEL_AWAITER :: uptr where
  "SENTINEL_AWAITER = 0"

definition CLOSED_FLAG :: u32 where
  "CLOSED_FLAG = 1"

definition NEW_AWAITER_INCREMENT :: u32 where
  "NEW_AWAITER_INCREMENT = 2"

lemmas pool_consts = SENTINEL_AWAITER_def CLOSED_FLAG_def NEW_AWAITER_INCREMENT_def

definition thread_pool_new :: "u32 \<Rightarrow> thread_pool" where
  "thread_pool_new n = \<lparr>pool_state = 0, n_threads = n, awaiters = [], joined = False,
     joinable = replicate (unat n) True\<rparr>"

definition pool_closed :: "thread_pool \<Rightarrow> bool" where
  "pool_closed p \<longleftrightarrow> pool_state p AND CLOSED_FLAG \<noteq> 0"

text \<open>
  One turn of the loop of \<open>try_awaiter_enter\<close>, with the state it last saw: \<open>Inl\<close> the state to go
  round with, \<open>Inr\<close> the result.
\<close>

definition try_awaiter_enter :: "u32 \<Rightarrow> thread_pool \<Rightarrow> thread_pool \<times> (u32 + bool)" where
  "try_awaiter_enter state p =
     (if state AND CLOSED_FLAG \<noteq> 0 then (p, Inr False)
      else if pool_state p = state
      then (p\<lparr>pool_state := state + NEW_AWAITER_INCREMENT\<rparr>, Inr True)
      else (p, Inl (pool_state p)))"

definition notify_awaiter_leave :: "thread_pool \<Rightarrow> thread_pool" where
  "notify_awaiter_leave p = p\<lparr>pool_state := pool_state p - NEW_AWAITER_INCREMENT\<rparr>"

text \<open>The two actions of \<open>shutdown\<close> before it joins: it closes the pool, then posts the sentinels.\<close>

definition close_pool :: "thread_pool \<Rightarrow> thread_pool \<times> bool" where
  "close_pool p =
     (let old_state = pool_state p
      in (p\<lparr>pool_state := old_state OR CLOSED_FLAG\<rparr>, old_state AND CLOSED_FLAG = 0))"

definition post_sentinels :: "thread_pool \<Rightarrow> thread_pool" where
  "post_sentinels p =
     (let sentinels = replicate (unat (n_threads p)) SENTINEL_AWAITER
      in p\<lparr>awaiters := pool_push_batch (awaiters p) sentinels\<rparr>)"

text \<open>Joining a thread that has ended; \<open>std::thread::join\<close> throws when it was joined before.\<close>

definition join_thread :: "nat \<Rightarrow> thread_pool \<Rightarrow> thread_pool res" where
  "join_thread i p =
     (if joinable p ! i then Inr (p\<lparr>joinable := (joinable p)[i := False]\<rparr>)
      else Inl (RuntimeError ''Invalid argument''))"

subsection \<open>Threads\<close>

text \<open>
  Where a thread is. A worker starts at \<open>Popping\<close>; any thread may run a coroutine, whose code
  either ends or awaits \<open>schedule\<close>; \<open>Back\<close> is the return of the \<open>resume\<close>, or of the call that ran
  the coroutine.
\<close>

datatype thread_pc =
    Popping
  | Running uptr
  | Comparing uptr u32
  | Pushing uptr
  | Back
  | Exited

datatype closer_pc =
    CallShutdown
  | CallDestructor
  | PostSentinels
  | Joining nat
  | Done
  | Threw cpp_error

record pool_world =
  pool :: thread_pool
  pcs :: "thread_pc list"
  closers :: "closer_pc list"

datatype pool_event = Resumed uptr | Quiet

fun carried :: "thread_pc \<Rightarrow> uptr multiset" where
  "carried (Running h) = {#h#}"
| "carried (Comparing h s) = {#h#}"
| "carried (Pushing h) = {#h#}"
| "carried _ = {#}"

definition work_pop :: "thread_pool \<Rightarrow> (thread_pool \<times> thread_pc) option" where
  "work_pop p =
     (case pool_pop (awaiters p) of
        None \<Rightarrow> None
      | Some (raw_awaiter, q) \<Rightarrow>
          Some (p\<lparr>awaiters := q\<rparr>, if raw_awaiter = SENTINEL_AWAITER then Exited else Running raw_awaiter))"

text \<open>The live coroutine handles: each queued item and each coroutine a thread is running.\<close>

definition handles :: "pool_world \<Rightarrow> uptr multiset" where
  "handles w = filter_mset (\<lambda>h. h \<noteq> SENTINEL_AWAITER) (mset (awaiters (pool w))) +
     (\<Sum>i<length (pcs w). carried (pcs w ! i))"

abbreviation workers :: "pool_world \<Rightarrow> nat" where
  "workers w \<equiv> unat (n_threads (pool w))"

inductive pool_step :: "pool_world \<Rightarrow> pool_event \<Rightarrow> pool_world \<Rightarrow> bool" where
  pop: "i < workers w \<Longrightarrow> i < length (pcs w) \<Longrightarrow> pcs w ! i = Popping \<Longrightarrow> work_pop (pool w) = Some (p, pc) \<Longrightarrow>
    ev = (case pc of Running h \<Rightarrow> Resumed h | _ \<Rightarrow> Quiet) \<Longrightarrow>
    pool_step w ev (w\<lparr>pool := p, pcs := (pcs w)[i := pc]\<rparr>)"
| call: "workers w \<le> i \<Longrightarrow> i < length (pcs w) \<Longrightarrow> pcs w ! i = Back \<Longrightarrow> h \<noteq> SENTINEL_AWAITER \<Longrightarrow>
    h \<notin># handles w \<Longrightarrow> pool_step w Quiet (w\<lparr>pcs := (pcs w)[i := Running h]\<rparr>)"
| ends: "i < length (pcs w) \<Longrightarrow> pcs w ! i = Running h \<Longrightarrow>
    pool_step w Quiet (w\<lparr>pcs := (pcs w)[i := Back]\<rparr>)"
| await: "i < length (pcs w) \<Longrightarrow> pcs w ! i = Running h \<Longrightarrow>
    pool_step w Quiet (w\<lparr>pcs := (pcs w)[i := Comparing h (pool_state (pool w))]\<rparr>)"
| again: "i < length (pcs w) \<Longrightarrow> pcs w ! i = Comparing h s \<Longrightarrow> try_awaiter_enter s (pool w) = (p, Inl s') \<Longrightarrow>
    pool_step w Quiet (w\<lparr>pool := p, pcs := (pcs w)[i := Comparing h s']\<rparr>)"
| spurious: "i < length (pcs w) \<Longrightarrow> pcs w ! i = Comparing h s \<Longrightarrow> s AND CLOSED_FLAG = 0 \<Longrightarrow>
    pool_step w Quiet (w\<lparr>pcs := (pcs w)[i := Comparing h (pool_state (pool w))]\<rparr>)"
| refused: "i < length (pcs w) \<Longrightarrow> pcs w ! i = Comparing h s \<Longrightarrow>
    try_awaiter_enter s (pool w) = (p, Inr False) \<Longrightarrow>
    pool_step w Quiet (w\<lparr>pool := p, pcs := (pcs w)[i := Running h]\<rparr>)"
| enters: "i < length (pcs w) \<Longrightarrow> pcs w ! i = Comparing h s \<Longrightarrow>
    try_awaiter_enter s (pool w) = (p, Inr True) \<Longrightarrow>
    pool_step w Quiet (w\<lparr>pool := p, pcs := (pcs w)[i := Pushing h]\<rparr>)"
| push: "i < length (pcs w) \<Longrightarrow> pcs w ! i = Pushing h \<Longrightarrow>
    pool_step w Quiet (w\<lparr>pool := (pool w)\<lparr>awaiters := pool_push (awaiters (pool w)) h\<rparr>,
                         pcs := (pcs w)[i := Back]\<rparr>)"
| leave: "i < workers w \<Longrightarrow> i < length (pcs w) \<Longrightarrow> pcs w ! i = Back \<Longrightarrow>
    pool_step w Quiet (w\<lparr>pool := notify_awaiter_leave (pool w), pcs := (pcs w)[i := Popping]\<rparr>)"
| close: "k < length (closers w) \<Longrightarrow> closers w ! k = CallShutdown \<Longrightarrow> close_pool (pool w) = (p, first_call) \<Longrightarrow>
    pool_step w Quiet (w\<lparr>pool := p,
      closers := (closers w)[k := if first_call then PostSentinels else Joining 0]\<rparr>)"
| post: "k < length (closers w) \<Longrightarrow> closers w ! k = PostSentinels \<Longrightarrow>
    pool_step w Quiet (w\<lparr>pool := post_sentinels (pool w), closers := (closers w)[k := Joining 0]\<rparr>)"
| destroy: "k < length (closers w) \<Longrightarrow> closers w ! k = CallDestructor \<Longrightarrow>
    pool_step w Quiet (w\<lparr>closers := (closers w)[k := if joined (pool w) then Done else Joining 0]\<rparr>)"
| join: "k < length (closers w) \<Longrightarrow> closers w ! k = Joining i \<Longrightarrow> i < workers w \<Longrightarrow> pcs w ! i = Exited \<Longrightarrow>
    join_thread i (pool w) = Inr p \<Longrightarrow>
    pool_step w Quiet (w\<lparr>pool := p, closers := (closers w)[k := Joining (Suc i)]\<rparr>)"
| throws: "k < length (closers w) \<Longrightarrow> closers w ! k = Joining i \<Longrightarrow> i < workers w \<Longrightarrow>
    join_thread i (pool w) = Inl e \<Longrightarrow>
    pool_step w Quiet (w\<lparr>closers := (closers w)[k := Threw e]\<rparr>)"
| all_joined: "k < length (closers w) \<Longrightarrow> closers w ! k = Joining i \<Longrightarrow> workers w \<le> i \<Longrightarrow>
    pool_step w Quiet (w\<lparr>pool := (pool w)\<lparr>joined := True\<rparr>, closers := (closers w)[k := Done]\<rparr>)"

inductive_cases pool_stepE: "pool_step w ev w'"

lemmas pool_step_cases = pool_stepE [consumes 1, case_names pop call ends await again spurious
  refused enters push leave close post destroy join throws all_joined]

text \<open>
  A pool of \<open>n\<close> threads just constructed, \<open>m\<close> threads outside it and \<open>cs\<close> that will close it.
\<close>

definition pool_start :: "u32 \<Rightarrow> nat \<Rightarrow> closer_pc list \<Rightarrow> pool_world" where
  "pool_start n m cs = \<lparr>pool = thread_pool_new n,
     pcs = replicate (unat n) Popping @ replicate m Back, closers = cs\<rparr>"

definition calls :: "closer_pc list \<Rightarrow> bool" where
  "calls cs \<longleftrightarrow> set cs \<subseteq> {CallShutdown, CallDestructor}"

inductive pool_run :: "pool_world \<Rightarrow> pool_event list \<Rightarrow> pool_world \<Rightarrow> bool" where
  none: "pool_run w [] w"
| more: "pool_run w evs w' \<Longrightarrow> pool_step w' ev w'' \<Longrightarrow> pool_run w (evs @ [ev]) w''"


subsection \<open>What every step keeps\<close>

definition pool_shape :: "pool_world \<Rightarrow> bool" where
  "pool_shape w \<longleftrightarrow> workers w \<le> length (pcs w) \<and> length (joinable (pool w)) = workers w \<and>
     (\<forall>i<length (pcs w). pcs w ! i = Popping \<or> pcs w ! i = Exited \<longrightarrow> i < workers w)"

lemma work_pop_Some:
  "work_pop p = Some (p', pc) \<longleftrightarrow>
     (\<exists>v q. awaiters p = v # q \<and> p' = p\<lparr>awaiters := q\<rparr> \<and>
       pc = (if v = SENTINEL_AWAITER then Exited else Running v))"
  by (auto simp: work_pop_def pool_pop_def split: list.splits)

lemma try_awaiter_enter_simps:
  "try_awaiter_enter s p = (p', Inl s') \<longleftrightarrow> s AND 1 = 0 \<and> pool_state p \<noteq> s \<and> p' = p \<and> s' = pool_state p"
  "try_awaiter_enter s p = (p', Inr False) \<longleftrightarrow> s AND 1 \<noteq> 0 \<and> p' = p"
  "try_awaiter_enter s p = (p', Inr True) \<longleftrightarrow>
     s AND 1 = 0 \<and> pool_state p = s \<and> p' = p\<lparr>pool_state := s + 2\<rparr>"
  by (auto simp: try_awaiter_enter_def pool_consts)

lemma join_thread_simps:
  "join_thread i p = Inr p' \<longleftrightarrow> joinable p ! i \<and> p' = p\<lparr>joinable := (joinable p)[i := False]\<rparr>"
  "join_thread i p = Inl e \<longleftrightarrow> \<not> joinable p ! i \<and> e = RuntimeError ''Invalid argument''"
  by (auto simp: join_thread_def)

lemma close_pool_simp:
  "close_pool p = (p', b) \<longleftrightarrow> p' = p\<lparr>pool_state := pool_state p OR 1\<rparr> \<and> (b \<longleftrightarrow> pool_state p AND 1 = 0)"
  by (auto simp: close_pool_def pool_consts Let_def)

lemma post_sentinels_simp:
  "post_sentinels p = p\<lparr>awaiters := awaiters p @ replicate (unat (n_threads p)) 0\<rparr>"
  by (simp add: post_sentinels_def pool_push_batch_append pool_consts)

lemmas pool_ops = try_awaiter_enter_simps join_thread_simps close_pool_simp post_sentinels_simp
  work_pop_Some notify_awaiter_leave_def pool_push_def

lemma step_workers: "pool_step w ev w' \<Longrightarrow> workers w' = workers w"
  by (erule pool_step_cases) (auto simp: pool_ops pool_consts)

lemma step_lengths:
  "pool_step w ev w' \<Longrightarrow> length (pcs w') = length (pcs w) \<and> length (closers w') = length (closers w)"
  by (erule pool_step_cases) auto

lemma pool_shape_step: "pool_step w ev w' \<Longrightarrow> pool_shape w \<Longrightarrow> pool_shape w'"
  by (erule pool_step_cases) (auto simp: pool_shape_def pool_ops pool_consts nth_list_update split: if_splits)

lemma pool_shape_start: "pool_shape (pool_start n m cs)"
  by (auto simp: pool_shape_def pool_start_def thread_pool_new_def nth_append split: if_splits)

subsection \<open>A handle has one holder\<close>

definition handles_inv :: "pool_world \<Rightarrow> bool" where
  "handles_inv w \<longleftrightarrow> (\<forall>h. count (handles w) h \<le> 1) \<and> SENTINEL_AWAITER \<notin># handles w"

lemma handles_move:
  assumes "i < length (pcs w)" "pcs w' = (pcs w)[i := pc]"
  shows "handles w' + filter_mset (\<lambda>h. h \<noteq> SENTINEL_AWAITER) (mset (awaiters (pool w))) + carried (pcs w ! i) =
    handles w + filter_mset (\<lambda>h. h \<noteq> SENTINEL_AWAITER) (mset (awaiters (pool w'))) + carried pc"
  using sum_nth_update [OF assms(1), of "\<lambda>_. carried" pc] assms(2)
  by (simp add: handles_def add_ac)

lemma handles_keep:
  assumes "i < length (pcs w)" "pcs w' = (pcs w)[i := pc]" "awaiters (pool w') = awaiters (pool w)"
  shows "handles w' + carried (pcs w ! i) = handles w + carried pc"
proof -
  have "handles w' + carried (pcs w ! i) + filter_mset (\<lambda>h. h \<noteq> SENTINEL_AWAITER) (mset (awaiters (pool w))) =
     handles w + carried pc + filter_mset (\<lambda>h. h \<noteq> SENTINEL_AWAITER) (mset (awaiters (pool w)))"
    using handles_move [OF assms(1,2)] assms(3) by (simp add: add_ac)
  then show ?thesis by (rule add_right_imp_eq)
qed

text \<open>Every step keeps the handles, starts a coroutine at a fresh address, or drops one that ended.\<close>

lemma handles_step:
  assumes "pool_step w ev w'" "pool_shape w"
  shows "handles w' = handles w \<or>
    (\<exists>h. h \<noteq> SENTINEL_AWAITER \<and> h \<notin># handles w \<and> handles w' = add_mset h (handles w)) \<or>
    (\<exists>h. handles w = add_mset h (handles w'))"
  using assms(1)
proof (cases rule: pool_step_cases)
  case (pop i p pc)
  then obtain v q where "awaiters (pool w) = v # q" "p = (pool w)\<lparr>awaiters := q\<rparr>"
    "pc = (if v = SENTINEL_AWAITER then Exited else Running v)" by (auto simp: work_pop_Some)
  with pop handles_move [of i w w' pc] have "handles w' = handles w" by (auto split: if_splits)
  then show ?thesis by simp
next
  case (call i h)
  with handles_keep [of i w w' "Running h"] show ?thesis by auto
next
  case (ends i h)
  with handles_keep [of i w w' Back] have "handles w = add_mset h (handles w')" by simp
  then show ?thesis by blast
next
  case (push i h)
  with handles_move [of i w w' Back] have
    "handles w' = handles w \<or> handles w = add_mset h (handles w')"
    by (cases "h = SENTINEL_AWAITER") (simp_all add: pool_push_def)
  then show ?thesis by blast
next
  case (await i h)
  with handles_keep [of i w w' "Comparing h (pool_state (pool w))"] show ?thesis by (simp add: pool_ops)
next
  case (again i h s p s')
  with handles_keep [of i w w' "Comparing h s'"] show ?thesis by (simp add: pool_ops)
next
  case (spurious i h s)
  with handles_keep [of i w w' "Comparing h (pool_state (pool w))"] show ?thesis by (simp add: pool_ops)
next
  case (refused i h s p)
  with handles_keep [of i w w' "Running h"] show ?thesis by (simp add: pool_ops)
next
  case (enters i h s p)
  with handles_keep [of i w w' "Pushing h"] show ?thesis by (simp add: pool_ops)
next
  case (leave i)
  with handles_keep [of i w w' "Popping"] show ?thesis by (simp add: pool_ops)
next
  case close
  then show ?thesis by (auto simp: handles_def pool_ops pool_consts)
next
  case post
  then show ?thesis by (auto simp: handles_def pool_ops pool_consts)
next
  case destroy
  then show ?thesis by (auto simp: handles_def pool_ops pool_consts)
next
  case join
  then show ?thesis by (auto simp: handles_def pool_ops pool_consts)
next
  case throws
  then show ?thesis by (auto simp: handles_def pool_ops pool_consts)
next
  case all_joined
  then show ?thesis by (auto simp: handles_def pool_ops pool_consts)
qed

lemma handles_inv_step:
  assumes "pool_step w ev w'" "pool_shape w" "handles_inv w"
  shows "handles_inv w'"
  using handles_step [OF assms(1,2)]
proof (elim disjE exE conjE)
  assume "handles w' = handles w"
  with assms(3) show ?thesis by (simp add: handles_inv_def)
next
  fix h
  assume "h \<noteq> SENTINEL_AWAITER" "h \<notin># handles w" "handles w' = add_mset h (handles w)"
  with assms(3) show ?thesis by (auto simp: handles_inv_def not_in_iff)
next
  fix h
  assume *: "handles w = add_mset h (handles w')"
  have "count (handles w') x \<le> count (handles w) x" for x by (simp add: *)
  with assms(3) * show ?thesis by (auto simp: handles_inv_def intro: order_trans)
qed

lemma start_pcs: "i < unat n + m \<Longrightarrow> pcs (pool_start n m cs) ! i = (if i < unat n then Popping else Back)"
  by (auto simp: pool_start_def nth_append)

lemma start_length [simp]: "length (pcs (pool_start n m cs)) = unat n + m"
  by (simp add: pool_start_def)

lemma start_pool [simp]: "pool (pool_start n m cs) = thread_pool_new n"
  "closers (pool_start n m cs) = cs"
  by (simp_all add: pool_start_def)

lemma handles_inv_start: "handles_inv (pool_start n m cs)"
proof -
  have "(\<Sum>i<unat n + m. carried (pcs (pool_start n m cs) ! i)) = {#}"
    by (rule sum.neutral) (auto simp: start_pcs)
  then show ?thesis by (simp add: handles_inv_def handles_def thread_pool_new_def)
qed

lemma run_inv:
  assumes "pool_run w evs w'"
    and "\<And>w ev w'. pool_step w ev w' \<Longrightarrow> I w \<Longrightarrow> I w'" "I w"
  shows "I w'"
  using assms(1,3) by (induction) (auto intro: assms(2))

lemma run_handles_inv: "pool_run (pool_start n m cs) evs w \<Longrightarrow> pool_shape w \<and> handles_inv w"
  by (erule run_inv [where I = "\<lambda>w. pool_shape w \<and> handles_inv w"])
    (auto intro: pool_shape_step handles_inv_step pool_shape_start handles_inv_start)

lemma carried_in_handles: "i < length (pcs w) \<Longrightarrow> carried (pcs w ! i) \<subseteq># handles w"
proof -
  assume "i < length (pcs w)"
  then have "handles w = carried (pcs w ! i) + (filter_mset (\<lambda>h. h \<noteq> SENTINEL_AWAITER) (mset (awaiters (pool w))) +
     (\<Sum>j\<in>{..<length (pcs w)} - {i}. carried (pcs w ! j)))"
    by (simp add: handles_def sum.remove [of "{..<length (pcs w)}" i] add_ac)
  then show ?thesis by (metis mset_subset_eq_add_left)
qed

text \<open>
  C11. However the threads interleave, a coroutine is never run by two threads at once, nor run
  while it is still queued, and is queued at most once; a null handle is never resumed.
\<close>
theorem pool_runs_coroutine_once:
  assumes "pool_run (pool_start n m cs) evs w" "i < length (pcs w)" "h \<in># carried (pcs w ! i)"
  shows "h \<noteq> SENTINEL_AWAITER \<and> h \<notin> set (awaiters (pool w)) \<and>
    (\<forall>j<length (pcs w). j \<noteq> i \<longrightarrow> h \<notin># carried (pcs w ! j)) \<and> distinct (filter (\<lambda>h. h \<noteq> SENTINEL_AWAITER) (awaiters (pool w)))"
proof -
  let ?q = "filter_mset (\<lambda>h. h \<noteq> SENTINEL_AWAITER) (mset (awaiters (pool w)))"
  let ?r = "(\<Sum>j\<in>{..<length (pcs w)} - {i}. carried (pcs w ! j))"
  have inv: "\<And>h. count (handles w) h \<le> 1" "SENTINEL_AWAITER \<notin># handles w"
    using run_handles_inv [OF assms(1)] by (simp_all add: handles_inv_def)
  have eq: "handles w = carried (pcs w ! i) + ?q + ?r"
    using assms(2) by (simp add: handles_def sum.remove [of "{..<length (pcs w)}" i] add_ac)
  have "count (carried (pcs w ! i)) h > 0" using assms(3) by simp
  moreover have "count (carried (pcs w ! i)) h + count ?q h + count ?r h \<le> 1"
    using inv(1) [of h] unfolding eq count_union .
  ultimately have zero: "count ?q h = 0" "count ?r h = 0" by linarith+
  have h: "h \<noteq> SENTINEL_AWAITER" using inv(2) assms(3) eq by auto
  have "h \<notin> set (awaiters (pool w))" using zero(1) h by (auto simp: count_eq_zero_iff)
  moreover have "h \<notin># carried (pcs w ! j)" if "j < length (pcs w)" "j \<noteq> i" for j
    using zero(2) that by (simp add: count_sum count_eq_zero_iff)
  moreover have "distinct (filter (\<lambda>h. h \<noteq> SENTINEL_AWAITER) (awaiters (pool w)))"
  proof (rule mset_distinct)
    fix a
    have "count (carried (pcs w ! i)) a + count ?q a + count ?r a \<le> 1"
      using inv(1) [of a] unfolding eq count_union .
    then have "count ?q a \<le> 1" by linarith
    then show "count (mset (filter (\<lambda>h. h \<noteq> SENTINEL_AWAITER) (awaiters (pool w)))) a \<le> 1" by simp
  qed
  ultimately show ?thesis using h by blast
qed


subsection \<open>The state word\<close>

text \<open>
  What the word counts: the queued coroutines, the coroutine each worker popped and has not
  finished with, and the coroutines that entered and are about to be queued.
\<close>

fun pc_weight :: "nat \<Rightarrow> nat \<Rightarrow> thread_pc \<Rightarrow> nat" where
  "pc_weight n i (Pushing h) = (if i < n then 2 else 1)"
| "pc_weight n i Popping = 0"
| "pc_weight n i Exited = 0"
| "pc_weight n i _ = (if i < n then 1 else 0)"

definition outstanding :: "pool_world \<Rightarrow> nat" where
  "outstanding w = length (filter (\<lambda>h. h \<noteq> SENTINEL_AWAITER) (awaiters (pool w))) +
     (\<Sum>i<length (pcs w). pc_weight (workers w) i (pcs w ! i))"

definition word_inv :: "pool_world \<Rightarrow> bool" where
  "word_inv w \<longleftrightarrow>
     pool_state (pool w) = (pool_state (pool w) AND 1) + 2 * of_nat (outstanding w)"

lemma flag_bit [simp]:
  "(s + 2) AND 1 = (s AND 1 :: u32)" "(2 + s) AND 1 = (s AND 1 :: u32)" "(s - 2) AND 1 = (s AND 1 :: u32)"
  "(s OR 1) AND 1 = (1 :: u32)"
  by (simp_all add: and_one_eq mod2_eq_if or_one_eq even_diff)

lemma flag_or: "s OR 1 = (s - (s AND 1)) + (1 :: u32)"
  by (simp add: and_one_eq mod2_eq_if or_one_eq)

lemma outstanding_move:
  assumes "i < length (pcs w)" "pcs w' = (pcs w)[i := pc]" "workers w' = workers w"
  shows "outstanding w' + length (filter (\<lambda>h. h \<noteq> SENTINEL_AWAITER) (awaiters (pool w))) +
      pc_weight (workers w) i (pcs w ! i) =
    outstanding w + length (filter (\<lambda>h. h \<noteq> SENTINEL_AWAITER) (awaiters (pool w'))) +
      pc_weight (workers w) i pc"
  using sum_nth_update [OF assms(1), of "pc_weight (workers w)" pc] assms(2,3)
  by (simp add: outstanding_def add_ac)

lemma word_inv_start: "word_inv (pool_start n m cs)"
proof -
  have "(\<Sum>i<unat n + m. pc_weight (unat n) i (pcs (pool_start n m cs) ! i)) = 0"
    by (rule sum.neutral) (auto simp: start_pcs)
  then show ?thesis by (simp add: word_inv_def outstanding_def thread_pool_new_def)
qed


lemma word_inv_same:
  assumes "word_inv w" "outstanding w' = outstanding w" "pool_state (pool w') = pool_state (pool w)"
  shows "word_inv w'"
  using assms by (simp add: word_inv_def)

lemma word_inv_or:
  assumes "word_inv w" "outstanding w' = outstanding w" "pool_state (pool w') = pool_state (pool w) OR 1"
  shows "word_inv w'"
proof -
  have "pool_state (pool w) - (pool_state (pool w) AND 1) = 2 * of_nat (outstanding w)"
    using assms(1) unfolding word_inv_def by (metis add_diff_cancel_left')
  then show ?thesis unfolding word_inv_def assms(2,3) flag_bit(4) by (simp add: flag_or)
qed

lemma not_sentinel:
  "handles_inv w \<Longrightarrow> i < length (pcs w) \<Longrightarrow> h \<in># carried (pcs w ! i) \<Longrightarrow> h \<noteq> SENTINEL_AWAITER"
  using carried_in_handles [of i w] by (auto simp: handles_inv_def dest: mset_subset_eqD)

lemma word_inv_step:
  assumes "pool_step w ev w'" "handles_inv w" "word_inv w"
  shows "word_inv w'"
  using assms(1)
proof (cases rule: pool_step_cases)
  case (pop i p pc)
  with outstanding_move [of i w w' pc] step_workers [OF assms(1)] show ?thesis
    by (intro word_inv_same [OF assms(3)]) (auto simp: work_pop_Some split: if_splits)
next
  case (call i h)
  with outstanding_move [of i w w' "Running h"] show ?thesis by (intro word_inv_same [OF assms(3)]) auto
next
  case (ends i h)
  with outstanding_move [of i w w' Back] show ?thesis by (intro word_inv_same [OF assms(3)]) auto
next
  case (await i h)
  with outstanding_move [of i w w' "Comparing h (pool_state (pool w))"] show ?thesis
    by (intro word_inv_same [OF assms(3)]) auto
next
  case (again i h s p s')
  with outstanding_move [of i w w' "Comparing h s'"] show ?thesis
    by (intro word_inv_same [OF assms(3)]) (auto simp: pool_ops)
next
  case (spurious i h s)
  with outstanding_move [of i w w' "Comparing h (pool_state (pool w))"] show ?thesis
    by (intro word_inv_same [OF assms(3)]) auto
next
  case (refused i h s p)
  with outstanding_move [of i w w' "Running h"] show ?thesis
    by (intro word_inv_same [OF assms(3)]) (auto simp: pool_ops)
next
  case (enters i h s p)
  then have "outstanding w' = outstanding w + 1" "pool_state (pool w') = pool_state (pool w) + 2"
    using outstanding_move [of i w w' "Pushing h"] by (auto simp: pool_ops split: if_splits)
  with assms(3) show ?thesis by (simp add: word_inv_def algebra_simps)
next
  case (push i h)
  then have "h \<noteq> SENTINEL_AWAITER" using not_sentinel [OF assms(2), of i h] by simp
  with push outstanding_move [of i w w' Back] show ?thesis
    by (intro word_inv_same [OF assms(3)]) (auto simp: pool_ops split: if_splits)
next
  case (leave i)
  then have s: "outstanding w = outstanding w' + 1" "pool_state (pool w') = pool_state (pool w) - 2"
    using outstanding_move [of i w w' Popping] by (auto simp: pool_ops pool_consts)
  from this assms(3)
  have "pool_state (pool w) = (pool_state (pool w) AND 1) + 2 * of_nat (outstanding w') + 2"
    by (simp add: word_inv_def algebra_simps)
  then have "pool_state (pool w) - 2 = (pool_state (pool w) AND 1) + 2 * of_nat (outstanding w')"
    by (metis add_diff_cancel_right')
  then show ?thesis unfolding word_inv_def s(2) flag_bit(3) .
next
  case (close k p first_call)
  then show ?thesis by (intro word_inv_or [OF assms(3)]) (simp_all add: outstanding_def pool_ops)
next
  case post
  then show ?thesis
    by (intro word_inv_same [OF assms(3)]) (simp_all add: outstanding_def pool_ops pool_consts)
next
  case destroy
  then show ?thesis by (intro word_inv_same [OF assms(3)]) (simp_all add: outstanding_def)
next
  case join
  then show ?thesis by (intro word_inv_same [OF assms(3)]) (simp_all add: outstanding_def pool_ops)
next
  case throws
  then show ?thesis by (intro word_inv_same [OF assms(3)]) (simp_all add: outstanding_def)
next
  case all_joined
  then show ?thesis by (intro word_inv_same [OF assms(3)]) (simp_all add: outstanding_def)
qed

text \<open>
  At any moment the state word is the closed flag plus twice the number of coroutines that
  have entered the pool and not left it, modulo the word's width.
\<close>
lemma pool_state_counts:
  assumes "pool_run (pool_start n m cs) evs w"
  shows "pool_state (pool w) = (pool_state (pool w) AND CLOSED_FLAG) +
    NEW_AWAITER_INCREMENT * of_nat (outstanding w)"
proof -
  have "pool_shape w \<and> handles_inv w \<and> word_inv w"
    using assms by (rule run_inv [where I = "\<lambda>w. pool_shape w \<and> handles_inv w \<and> word_inv w"])
      (auto intro: pool_shape_step handles_inv_step word_inv_step pool_shape_start handles_inv_start
        word_inv_start)
  then show ?thesis unfolding word_inv_def pool_consts by blast
qed


subsection \<open>Shutdown\<close>

definition exited :: "pool_world \<Rightarrow> nat" where
  "exited w = (\<Sum>i<length (pcs w). if pcs w ! i = Exited then 1 else 0)"

definition posting :: "pool_world \<Rightarrow> nat" where
  "posting w = (\<Sum>k<length (closers w). if closers w ! k = PostSentinels then 1 else 0)"

text \<open>One sentinel per worker: still to be posted, in the queue, or the end of the worker.\<close>

definition sentinel_inv :: "pool_world \<Rightarrow> bool" where
  "sentinel_inv w \<longleftrightarrow>
     count_list (awaiters (pool w)) SENTINEL_AWAITER + exited w + workers w * posting w =
     (if pool_closed (pool w) then workers w else 0)"

lemma exited_move:
  assumes "i < length (pcs w)" "pcs w' = (pcs w)[i := pc]"
  shows "exited w' + (if pcs w ! i = Exited then 1 else 0) = exited w + (if pc = Exited then 1 else 0)"
  using sum_nth_update [OF assms(1), of "\<lambda>_ pc. if pc = Exited then 1 else 0 :: nat" pc] assms(2)
  by (simp add: exited_def)

lemma posting_move:
  assumes "k < length (closers w)" "closers w' = (closers w)[k := c]"
  shows "posting w' + (if closers w ! k = PostSentinels then 1 else 0) =
    posting w + (if c = PostSentinels then 1 else 0)"
  using sum_nth_update [OF assms(1), of "\<lambda>_ c. if c = PostSentinels then 1 else 0 :: nat" c] assms(2)
  by (simp add: posting_def)

lemma exited_same: "pcs w' = pcs w \<Longrightarrow> exited w' = exited w"
  by (simp add: exited_def)

lemma posting_same: "closers w' = closers w \<Longrightarrow> posting w' = posting w"
  by (simp add: posting_def)

lemma sentinel_inv_same:
  assumes "sentinel_inv w" "workers w' = workers w" "pool_closed (pool w') = pool_closed (pool w)"
    "count_list (awaiters (pool w')) SENTINEL_AWAITER + exited w' =
      count_list (awaiters (pool w)) SENTINEL_AWAITER + exited w"
    "posting w' = posting w"
  shows "sentinel_inv w'"
  using assms by (simp add: sentinel_inv_def)

lemma count_list_replicate_0: "count_list (replicate n x) x = n"
  by (induction n) simp_all

lemma sentinel_inv_step:
  assumes "pool_step w ev w'" "handles_inv w" "sentinel_inv w"
  shows "sentinel_inv w'"
proof -
  note same = sentinel_inv_same [OF assms(3) step_workers [OF assms(1)]]
  from assms(1) show ?thesis
  proof (cases rule: pool_step_cases)
    case (pop i p pc)
    with exited_move [of i w w' pc] posting_same [of w' w] show ?thesis
      by (intro same) (auto simp: work_pop_Some pool_closed_def split: if_splits)
  next
    case (call i h)
    with exited_move [of i w w' "Running h"] posting_same [of w' w] show ?thesis by (intro same) auto
  next
    case (ends i h)
    with exited_move [of i w w' Back] posting_same [of w' w] show ?thesis by (intro same) auto
  next
    case (await i h)
    with exited_move [of i w w' "Comparing h (pool_state (pool w))"] posting_same [of w' w]
    show ?thesis by (intro same) auto
  next
    case (again i h s p s')
    with exited_move [of i w w' "Comparing h s'"] posting_same [of w' w] show ?thesis
      by (intro same) (auto simp: pool_ops)
  next
    case (spurious i h s)
    with exited_move [of i w w' "Comparing h (pool_state (pool w))"] posting_same [of w' w]
    show ?thesis by (intro same) auto
  next
    case (refused i h s p)
    with exited_move [of i w w' "Running h"] posting_same [of w' w] show ?thesis
      by (intro same) (auto simp: pool_ops)
  next
    case (enters i h s p)
    with exited_move [of i w w' "Pushing h"] posting_same [of w' w] show ?thesis
      by (intro same) (auto simp: pool_ops pool_closed_def pool_consts)
  next
    case (push i h)
    then have "h \<noteq> SENTINEL_AWAITER" using not_sentinel [OF assms(2), of i h] by simp
    with push exited_move [of i w w' Back] posting_same [of w' w] show ?thesis
      by (intro same) (auto simp: pool_ops pool_closed_def)
  next
    case (leave i)
    with exited_move [of i w w' Popping] posting_same [of w' w] show ?thesis
      by (intro same) (auto simp: pool_ops pool_closed_def pool_consts)
  next
    case (close k p first_call)
    have w: "pool_closed (pool w')" "awaiters (pool w') = awaiters (pool w)" "exited w' = exited w"
      "workers w' = workers w" "first_call \<longleftrightarrow> \<not> pool_closed (pool w)"
      using close exited_same [of w' w] by (auto simp: pool_ops pool_closed_def pool_consts)
    have "posting w' = posting w + (if first_call then 1 else 0)"
      using close posting_move [of k w w' "if first_call then PostSentinels else Joining 0"] by auto
    with assms(3) w show ?thesis by (auto simp: sentinel_inv_def split: if_splits)
  next
    case (post k)
    then have "posting w = Suc (posting w')"
      using posting_move [of k w w' "Joining 0"] by simp
    with post assms(3) exited_same [of w' w] show ?thesis
      by (auto simp: sentinel_inv_def pool_ops pool_closed_def pool_consts count_list_replicate_0
        split: if_splits)
  next
    case (destroy k)
    with posting_move [of k w w' "if joined (pool w) then Done else Joining 0"] exited_same [of w' w]
    show ?thesis by (intro same) (auto split: if_splits)
  next
    case (join k i p)
    with posting_move [of k w w' "Joining (Suc i)"] exited_same [of w' w] show ?thesis
      by (intro same) (auto simp: pool_ops pool_closed_def)
  next
    case (throws k i e)
    with posting_move [of k w w' "Threw e"] exited_same [of w' w] show ?thesis by (intro same) auto
  next
    case (all_joined k i)
    with posting_move [of k w w' Done] exited_same [of w' w] show ?thesis
      by (intro same) (auto simp: pool_closed_def)
  qed
qed

lemma sentinel_inv_start: "calls cs \<Longrightarrow> sentinel_inv (pool_start n m cs)"
proof -
  assume "calls cs"
  then have "\<forall>k<length cs. cs ! k \<noteq> PostSentinels"
    unfolding calls_def by (metis closer_pc.distinct(3) closer_pc.distinct(11) insertE nth_mem singletonD subsetD)
  then have "posting (pool_start n m cs) = 0" by (simp add: posting_def)
  moreover have "exited (pool_start n m cs) = 0" by (auto simp: exited_def start_pcs)
  ultimately show ?thesis
    by (simp add: sentinel_inv_def pool_closed_def thread_pool_new_def)
qed


text \<open>A thread that has exited stays so, and is joined once.\<close>

definition gone :: "pool_world \<Rightarrow> nat \<Rightarrow> bool" where
  "gone w i \<longleftrightarrow> \<not> joinable (pool w) ! i \<and> pcs w ! i = Exited"

definition join_inv :: "pool_world \<Rightarrow> bool" where
  "join_inv w \<longleftrightarrow>
     (\<forall>k<length (closers w). \<forall>j. closers w ! k = Joining j \<longrightarrow> (\<forall>i<j. i < workers w \<longrightarrow> gone w i)) \<and>
     (\<forall>k<length (closers w). closers w ! k = Done \<longrightarrow> joined (pool w)) \<and>
     (joined (pool w) \<longrightarrow> (\<forall>i<workers w. gone w i))"

lemma gone_step:
  assumes "pool_step w ev w'" "pool_shape w" "i < workers w" "gone w i"
  shows "gone w' i"
  using assms by (cases rule: pool_step_cases)
    (auto simp: gone_def pool_ops pool_consts pool_shape_def nth_list_update split: if_splits)

lemma join_inv_step:
  assumes "pool_step w ev w'" "pool_shape w" "join_inv w"
  shows "join_inv w'"
proof -
  note kept = gone_step [OF assms(1,2)] and n = step_workers [OF assms(1)]
  have all: "\<forall>i<workers w. gone w i \<longrightarrow> gone w' i" using kept by blast
  from assms(1) show ?thesis
  proof (cases rule: pool_step_cases)
    case (join k j p)
    then have j: "gone w' j" using assms(2) by (auto simp: gone_def pool_ops pool_shape_def)
    have "gone w' i" if "i < Suc j" "i < workers w" for i
      using that j all assms(3) join(3,4) unfolding join_inv_def by (cases "i = j") auto
    with join assms(3) all n show ?thesis
      unfolding join_inv_def by (auto simp: nth_list_update pool_ops split: if_splits)
  next
    case (all_joined k j)
    have "gone w' i" if "i < workers w" for i
      using that all assms(3) all_joined(3-5) unfolding join_inv_def by auto
    with all_joined assms(3) all n show ?thesis
      unfolding join_inv_def by (auto simp: nth_list_update split: if_splits)
  qed (use assms(3) all n in \<open>auto simp: join_inv_def nth_list_update pool_ops pool_consts split: if_splits\<close>)
qed

lemma join_inv_start: "calls cs \<Longrightarrow> join_inv (pool_start n m cs)"
proof -
  assume "calls cs"
  then have "cs ! k \<noteq> Joining j \<and> cs ! k \<noteq> Done" if "k < length cs" for k j
    unfolding calls_def using nth_mem [OF that] by auto
  then show ?thesis by (auto simp: join_inv_def thread_pool_new_def)
qed

definition pool_inv :: "pool_world \<Rightarrow> bool" where
  "pool_inv w \<longleftrightarrow> pool_shape w \<and> handles_inv w \<and> sentinel_inv w \<and> join_inv w"

lemma pool_inv_step: "pool_step w ev w' \<Longrightarrow> pool_inv w \<Longrightarrow> pool_inv w'"
  using pool_shape_step handles_inv_step sentinel_inv_step join_inv_step unfolding pool_inv_def by blast

lemma pool_inv_start: "calls cs \<Longrightarrow> pool_inv (pool_start n m cs)"
  using pool_shape_start handles_inv_start sentinel_inv_start join_inv_start
  unfolding pool_inv_def by blast

lemma pool_inv_run: "pool_run w evs w' \<Longrightarrow> pool_inv w \<Longrightarrow> pool_inv w'"
  by (erule run_inv) (rule pool_inv_step)

text \<open>
  While the sentinels are not posted and no worker has ended, what is queued stays behind no
  sentinel until a worker takes it.
\<close>

definition due :: "uptr \<Rightarrow> pool_world \<Rightarrow> bool" where
  "due h w \<longleftrightarrow> (\<exists>xs ys. awaiters (pool w) = xs @ h # ys \<and> SENTINEL_AWAITER \<notin> set (xs @ [h])) \<and>
     Exited \<notin> set (pcs w)"

lemma set_update_neq: "x \<notin> set xs \<Longrightarrow> x \<noteq> y \<Longrightarrow> x \<notin> set (xs[i := y])"
  using set_update_subset_insert [of xs i y] by auto

lemma due_kept:
  assumes "due h w" "\<exists>ys. awaiters (pool w') = awaiters (pool w) @ ys" "Exited \<notin> set (pcs w')"
  shows "due h w'"
  using assms unfolding due_def by force

lemma due_step:
  assumes "pool_step w ev w'" "due h w" "ev \<noteq> Resumed h"
  shows "due h w'"
  using assms(1)
proof (cases rule: pool_step_cases)
  case (pop i p pc)
  from assms(2) obtain xs ys where q: "awaiters (pool w) = xs @ h # ys" "SENTINEL_AWAITER \<notin> set (xs @ [h])"
    "Exited \<notin> set (pcs w)" by (auto simp: due_def)
  show ?thesis
  proof (cases xs)
    case Nil
    with pop q assms(3) show ?thesis by (auto simp: work_pop_Some)
  next
    case (Cons x xs')
    with pop q have "pc = Running x" "p = (pool w)\<lparr>awaiters := xs' @ h # ys\<rparr>"
      by (auto simp: work_pop_Some)
    with pop q Cons show ?thesis by (auto simp: due_def set_update_neq)
  qed
qed (rule due_kept [OF assms(2)]; use assms(2) in
  \<open>auto simp: due_def pool_ops pool_consts set_update_neq\<close>)+


lemma due_run:
  "pool_run w evs w' \<Longrightarrow> due h w \<Longrightarrow> Resumed h \<in> set evs \<or> due h w'"
  by (induction rule: pool_run.induct) (auto dest: due_step)

lemma due_initially:
  assumes "h \<in> set (awaiters (pool w))" "SENTINEL_AWAITER \<notin> set (awaiters (pool w))" "exited w = 0"
  shows "due h w"
proof -
  obtain xs ys where q: "awaiters (pool w) = xs @ h # ys" using split_list [OF assms(1)] by blast
  have "pcs w ! i \<noteq> Exited" if "i < length (pcs w)" for i
  proof
    assume "pcs w ! i = Exited"
    with that have "exited w \<ge> 1"
      using member_le_sum [of i "{..<length (pcs w)}" "\<lambda>i. if pcs w ! i = Exited then 1 else 0 :: nat"]
      by (simp add: exited_def)
    with assms(3) show False by simp
  qed
  then have "Exited \<notin> set (pcs w)" by (auto simp: in_set_conv_nth)
  with q assms(2) show ?thesis unfolding due_def by auto
qed

text \<open>
  C8. Shutdown waits for the work that was queued in time: a coroutine that is in the queue
  before the sentinels are posted has been resumed when the pool is joined, whatever the other
  threads do in between.
\<close>
theorem shutdown_runs_queued_work:
  assumes "calls cs" "0 < unat n" "pool_run (pool_start n m cs) evs w"
    and "h \<in> set (awaiters (pool w))" "SENTINEL_AWAITER \<notin> set (awaiters (pool w))" "exited w = 0"
    and "pool_run w evs' w'" "joined (pool w')"
  shows "Resumed h \<in> set evs'"
proof -
  have "pool_inv w" using pool_inv_run [OF assms(3)] pool_inv_start [OF assms(1)] by blast
  then have inv: "pool_inv w'" "workers w' = workers w"
    using pool_inv_run [OF assms(7)] run_inv [OF assms(7), of "\<lambda>v. workers v = workers w"] step_workers
    by auto
  have "workers w = unat n"
    using run_inv [OF assms(3), of "\<lambda>v. workers v = unat n"] step_workers
    by (auto simp: thread_pool_new_def)
  with inv assms(2,8) have "pcs w' ! 0 = Exited" "0 < length (pcs w')"
    by (auto simp: pool_inv_def join_inv_def gone_def pool_shape_def)
  then have "\<not> due h w'" unfolding due_def by (metis nth_mem)
  with due_run [OF assms(7)] due_initially [OF assms(4-6)] show ?thesis by blast
qed

text \<open>
  The guarantee is not given to a coroutine that has entered but is not yet queued when shutdown
  closes the pool. Here a thread outside a pool of one worker awaits \<open>schedule\<close>, and is about to
  push when shutdown posts its sentinel.
\<close>

definition late_world :: "u32 \<Rightarrow> uptr list \<Rightarrow> bool \<Rightarrow> bool list \<Rightarrow> thread_pc list \<Rightarrow> closer_pc \<Rightarrow> pool_world" where
  "late_world s q b js ts c = \<lparr>pool = \<lparr>pool_state = s, n_threads = 1, awaiters = q, joined = b,
     joinable = js\<rparr>, pcs = ts, closers = [c]\<rparr>"

lemma late_enters:
  assumes "h \<noteq> 0"
  shows "pool_run (pool_start 1 1 [CallShutdown]) [Quiet, Quiet, Quiet]
    (late_world 2 [] False [True] [Popping, Pushing h] CallShutdown)"
proof -
  let ?w = "\<lambda>pc. late_world 0 [] False [True] [Popping, pc] CallShutdown"
  have "handles (?w Back) = {#}" by (simp add: handles_def late_world_def lessThan_Suc)
  then have "pool_step (?w Back) Quiet (?w (Running h))"
    using pool_step.call [of "?w Back" 1 h] assms by (simp add: late_world_def pool_consts)
  moreover have "pool_step (?w (Running h)) Quiet (?w (Comparing h 0))"
    using pool_step.await [of 1 "?w (Running h)" h] by (simp add: late_world_def)
  moreover have "pool_step (?w (Comparing h 0)) Quiet
      (late_world 2 [] False [True] [Popping, Pushing h] CallShutdown)"
    using pool_step.enters [of 1 "?w (Comparing h 0)" h 0]
    by (simp add: late_world_def pool_ops)
  moreover have "pool_start 1 1 [CallShutdown] = ?w Back"
    by (simp add: pool_start_def thread_pool_new_def late_world_def)
  ultimately show ?thesis
    using pool_run.more [OF pool_run.more [OF pool_run.more [OF pool_run.none]]] by (metis append.simps)
qed

theorem pool_runs_coroutine_once_witness:
  "pcs (late_world 2 [] False [True] [Popping, Pushing 4096] CallShutdown) ! 1 = Pushing 4096 \<and>
   4096 \<noteq> SENTINEL_AWAITER"
  using pool_runs_coroutine_once [OF late_enters [of 4096], of 1 4096] by (simp add: late_world_def)

lemma late_shutdown:
  "pool_run (late_world 2 [] False [True] [Popping, Pushing h] CallShutdown) [Quiet, Quiet, Quiet]
    (late_world 3 [] False [True] [Exited, Pushing h] (Joining 0))"
proof -
  let ?w = "\<lambda>q pc c. late_world 3 q False [True] [pc, Pushing h] c"
  have "pool_step (late_world 2 [] False [True] [Popping, Pushing h] CallShutdown) Quiet
      (?w [] Popping PostSentinels)"
    using pool_step.close [of 0 "late_world 2 [] False [True] [Popping, Pushing h] CallShutdown"]
    by (simp add: late_world_def pool_ops)
  moreover have "pool_step (?w [] Popping PostSentinels) Quiet (?w [0] Popping (Joining 0))"
    using pool_step.post [of 0 "?w [] Popping PostSentinels"] by (simp add: late_world_def pool_ops)
  moreover have "pool_step (?w [0] Popping (Joining 0)) Quiet (?w [] Exited (Joining 0))"
    using pool_step.pop [of 0 "?w [0] Popping (Joining 0)"]
    by (simp add: late_world_def pool_ops pool_consts)
  ultimately show ?thesis
    using pool_run.more [OF pool_run.more [OF pool_run.more [OF pool_run.none]]] by (metis append.simps)
qed

lemma late_push:
  "pool_run (late_world 3 [] False [True] [Exited, Pushing h] (Joining 0)) [Quiet, Quiet, Quiet]
    (late_world 3 [h] True [False] [Exited, Back] Done)"
proof -
  let ?w = "\<lambda>js c. late_world 3 [h] False js [Exited, Back] c"
  have "pool_step (late_world 3 [] False [True] [Exited, Pushing h] (Joining 0)) Quiet (?w [True] (Joining 0))"
    using pool_step.push [of 1 "late_world 3 [] False [True] [Exited, Pushing h] (Joining 0)" h]
    by (simp add: late_world_def pool_ops)
  moreover have "pool_step (?w [True] (Joining 0)) Quiet (?w [False] (Joining 1))"
    using pool_step.join [of 0 "?w [True] (Joining 0)"] by (simp add: late_world_def pool_ops)
  moreover have "pool_step (?w [False] (Joining 1)) Quiet (late_world 3 [h] True [False] [Exited, Back] Done)"
    using pool_step.all_joined [of 0 "?w [False] (Joining 1)"] by (simp add: late_world_def)
  ultimately show ?thesis
    using pool_run.more [OF pool_run.more [OF pool_run.more [OF pool_run.none]]] by (metis append.simps)
qed

lemma pool_run_append: "pool_run w' es' w'' \<Longrightarrow> pool_run w es w' \<Longrightarrow> pool_run w (es @ es') w''"
  by (induction rule: pool_run.induct) (auto simp: pool_run.more simp flip: append_assoc)

lemma in_time_queued:
  assumes "h \<noteq> 0"
  shows "pool_run (pool_start 1 1 [CallShutdown]) [Quiet, Quiet, Quiet, Quiet]
    (late_world 2 [h] False [True] [Popping, Back] CallShutdown)"
proof -
  have "pool_step (late_world 2 [] False [True] [Popping, Pushing h] CallShutdown) Quiet
      (late_world 2 [h] False [True] [Popping, Back] CallShutdown)"
    using pool_step.push [of 1 "late_world 2 [] False [True] [Popping, Pushing h] CallShutdown" h]
    by (simp add: late_world_def pool_ops)
  from pool_run.more [OF late_enters [OF assms] this] show ?thesis by simp
qed

lemma in_time_joined:
  assumes "h \<noteq> 0"
  shows "pool_run (late_world 2 [h] False [True] [Popping, Back] CallShutdown)
    ([] @ [Resumed h] @ [Quiet] @ [Quiet] @ [Quiet] @ [Quiet] @ [Quiet] @ [Quiet] @ [Quiet])
    (late_world 1 [] True [False] [Exited, Back] Done)"
proof -
  let ?w = "\<lambda>s q pc c. late_world s q False [True] [pc, Back] c"
  have "pool_step (?w 2 [h] Popping CallShutdown) (Resumed h) (?w 2 [] (Running h) CallShutdown)"
    using pool_step.pop [of 0 "?w 2 [h] Popping CallShutdown"] assms
    by (simp add: late_world_def pool_ops pool_consts)
  moreover have "pool_step (?w 2 [] (Running h) CallShutdown) Quiet (?w 2 [] Back CallShutdown)"
    using pool_step.ends [of 0 "?w 2 [] (Running h) CallShutdown"] by (simp add: late_world_def)
  moreover have "pool_step (?w 2 [] Back CallShutdown) Quiet (?w 0 [] Popping CallShutdown)"
    using pool_step.leave [of 0 "?w 2 [] Back CallShutdown"]
    by (simp add: late_world_def pool_ops pool_consts)
  moreover have "pool_step (?w 0 [] Popping CallShutdown) Quiet (?w 1 [] Popping PostSentinels)"
    using pool_step.close [of 0 "?w 0 [] Popping CallShutdown"] by (simp add: late_world_def pool_ops)
  moreover have "pool_step (?w 1 [] Popping PostSentinels) Quiet (?w 1 [0] Popping (Joining 0))"
    using pool_step.post [of 0 "?w 1 [] Popping PostSentinels"] by (simp add: late_world_def pool_ops)
  moreover have "pool_step (?w 1 [0] Popping (Joining 0)) Quiet (?w 1 [] Exited (Joining 0))"
    using pool_step.pop [of 0 "?w 1 [0] Popping (Joining 0)"]
    by (simp add: late_world_def pool_ops pool_consts)
  moreover have "pool_step (?w 1 [] Exited (Joining 0)) Quiet
      (late_world 1 [] False [False] [Exited, Back] (Joining 1))"
    using pool_step.join [of 0 "?w 1 [] Exited (Joining 0)"] by (simp add: late_world_def pool_ops)
  moreover have "pool_step (late_world 1 [] False [False] [Exited, Back] (Joining 1)) Quiet
      (late_world 1 [] True [False] [Exited, Back] Done)"
    using pool_step.all_joined [of 0 "late_world 1 [] False [False] [Exited, Back] (Joining 1)"]
    by (simp add: late_world_def)
  ultimately show ?thesis unfolding append_assoc [symmetric] by - (assumption | rule pool_run.none | rule pool_run.more)+
qed

theorem shutdown_runs_queued_work_witness:
  "\<exists>w evs'. pool_run (late_world 2 [4096] False [True] [Popping, Back] CallShutdown) evs' w \<and>
     joined (pool w) \<and> Resumed 4096 \<in> set evs'"
proof (intro exI conjI)
  show "pool_run (late_world 2 [4096] False [True] [Popping, Back] CallShutdown)
      ([] @ [Resumed 4096] @ [Quiet] @ [Quiet] @ [Quiet] @ [Quiet] @ [Quiet] @ [Quiet] @ [Quiet])
      (late_world 1 [] True [False] [Exited, Back] Done)"
    by (rule in_time_joined) simp
  show "joined (pool (late_world 1 [] True [False] [Exited, Back] Done))" by (simp add: late_world_def)
  show "Resumed 4096 \<in> set ([] @ [Resumed 4096] @ [Quiet] @ [Quiet] @ [Quiet] @ [Quiet] @ [Quiet] @
      [Quiet] @ [Quiet])"
    by (rule shutdown_runs_queued_work [OF _ _ in_time_queued _ _ _ in_time_joined])
      (simp_all add: calls_def late_world_def exited_def pool_consts lessThan_Suc)
qed

text \<open>Once the pool is joined, no worker is left to resume anything.\<close>

lemma joined_pool_resumes_nothing:
  assumes "pool_run w evs w'" "pool_inv w" "joined (pool w)"
  shows "Resumed h \<notin> set evs \<and> pool_inv w' \<and> joined (pool w')"
  using assms
proof (induction rule: pool_run.induct)
  case (more w evs w' ev w'')
  then have w': "pool_inv w'" "joined (pool w')" "Resumed h \<notin> set evs" by blast+
  from more(2) have "joined (pool w'')" using w'(2)
    by (cases rule: pool_step_cases) (auto simp: pool_ops)
  moreover from more(2) have "ev \<noteq> Resumed h" using w'
    by (cases rule: pool_step_cases) (auto simp: pool_inv_def join_inv_def gone_def)
  ultimately show ?case using w' pool_inv_step more(2) by auto
qed simp

text \<open>
  A coroutine can be lost: it enters before the pool is closed and is queued after the
  sentinel, shutdown returns with it still in the queue and counted as outstanding, and nothing
  ever resumes it.
\<close>
lemma late_awaiter_is_lost:
  assumes "h \<noteq> SENTINEL_AWAITER"
  shows "\<exists>evs w. pool_run (pool_start 1 1 [CallShutdown]) evs w \<and> closers w = [Done] \<and>
    awaiters (pool w) = [h] \<and> outstanding w = 1 \<and>
    (\<forall>evs' w'. pool_run w evs' w' \<longrightarrow> Resumed h \<notin> set (evs @ evs'))"
proof -
  let ?w = "late_world 3 [h] True [False] [Exited, Back] Done"
  have "h \<noteq> 0" using assms by (simp add: pool_consts)
  then have run: "pool_run (pool_start 1 1 [CallShutdown]) (replicate 9 Quiet) ?w"
    using pool_run_append [OF late_push pool_run_append [OF late_shutdown late_enters]]
    by (simp add: numeral_eq_Suc)
  moreover have "pool_inv ?w"
    using pool_inv_run [OF run] pool_inv_start by (simp add: calls_def)
  then have "Resumed h \<notin> set evs'" if "pool_run ?w evs' w'" for evs' w'
    using joined_pool_resumes_nothing [OF that] by (simp add: late_world_def)
  moreover have "closers ?w = [Done] \<and> awaiters (pool ?w) = [h] \<and> outstanding ?w = 1"
    using assms by (simp add: late_world_def outstanding_def lessThan_Suc)
  ultimately show ?thesis by (intro exI [of _ "replicate 9 Quiet"] exI [of _ ?w]) auto
qed

subsection \<open>Closing the wrong number of times\<close>

lemma exited_pos: "i < length (pcs w) \<Longrightarrow> pcs w ! i = Exited \<Longrightarrow> 0 < exited w"
  using member_le_sum [of i "{..<length (pcs w)}" "\<lambda>i. if pcs w ! i = Exited then 1 else 0 :: nat"]
  by (simp add: exited_def)

lemma worker_exists: "pool_shape w \<Longrightarrow> 0 < workers w \<Longrightarrow> pcs w \<noteq> []"
  by (auto simp: pool_shape_def)

definition only_destroyed :: "pool_world \<Rightarrow> bool" where
  "only_destroyed w \<longleftrightarrow> pool_inv w \<and> 0 < workers w \<and> \<not> pool_closed (pool w) \<and> \<not> joined (pool w) \<and>
     joinable (pool w) ! 0 \<and>
     (\<forall>k<length (closers w). closers w ! k = CallDestructor \<or> closers w ! k = Joining 0)"

lemma only_destroyed_step:
  assumes "pool_step w ev w'" "only_destroyed w"
  shows "only_destroyed w'"
proof -
  have w: "pool_inv w'" "workers w' = workers w"
    using pool_inv_step step_workers assms by (auto simp: only_destroyed_def)
  have "exited w = 0"
    using assms(2) by (auto simp: only_destroyed_def pool_inv_def sentinel_inv_def)
  then have "pcs w ! 0 \<noteq> Exited"
    using exited_pos [of 0 w] worker_exists [of w] assms(2)
    by (auto simp: only_destroyed_def pool_inv_def)
  with assms w show ?thesis
    by (cases rule: pool_step_cases)
      (auto simp: only_destroyed_def pool_ops pool_closed_def pool_consts nth_list_update split: if_splits)
qed

text \<open>
  The destructor of a pool that was not shut down never returns: it joins workers to which
  nobody has posted a sentinel.
\<close>
lemma destructor_without_shutdown_blocks:
  assumes "set cs \<subseteq> {CallDestructor}" "0 < unat n" "pool_run (pool_start n m cs) evs w"
    and "k < length (closers w)"
  shows "closers w ! k = CallDestructor \<or> closers w ! k = Joining 0"
proof -
  have "calls cs" using assms(1) by (auto simp: calls_def)
  moreover have "cs ! k = CallDestructor" if "k < length cs" for k
    using assms(1) nth_mem [OF that] by auto
  ultimately have "only_destroyed (pool_start n m cs)"
    using assms(2) pool_inv_start by (auto simp: only_destroyed_def thread_pool_new_def pool_closed_def)
  then have "only_destroyed w" using run_inv [OF assms(3)] only_destroyed_step by blast
  with assms(4) show ?thesis by (simp add: only_destroyed_def)
qed

definition closed_again :: "nat \<Rightarrow> pool_world \<Rightarrow> bool" where
  "closed_again k w \<longleftrightarrow> pool_inv w \<and> 0 < workers w \<and> pool_closed (pool w) \<and> joined (pool w) \<and>
     k < length (closers w) \<and>
     closers w ! k \<in> {CallShutdown, Joining 0, Threw (RuntimeError ''Invalid argument'')}"

lemma closed_again_step:
  assumes "pool_step w ev w'" "closed_again k w"
  shows "closed_again k w'"
proof -
  have w: "pool_inv w'" "workers w' = workers w" "length (closers w') = length (closers w)"
    using pool_inv_step step_workers step_lengths assms by (auto simp: closed_again_def)
  have "gone w 0" using assms(2) by (auto simp: closed_again_def pool_inv_def join_inv_def)
  with assms w show ?thesis
    by (cases rule: pool_step_cases)
      (auto simp: closed_again_def gone_def pool_ops pool_closed_def pool_consts nth_list_update split: if_splits)
qed

text \<open>
  A second call of shutdown, after one that has returned, never returns: it joins threads
  that are joined already, and \<open>std::thread::join\<close> throws.
\<close>
lemma second_shutdown_throws:
  assumes "calls cs" "0 < unat n" "pool_run (pool_start n m cs) evs w" "joined (pool w)"
    and "k < length (closers w)" "closers w ! k = CallShutdown" "pool_run w evs' w'"
  shows "closers w' ! k \<in> {CallShutdown, Joining 0, Threw (RuntimeError ''Invalid argument'')}"
proof -
  have inv: "pool_inv w" using pool_inv_run [OF assms(3)] pool_inv_start [OF assms(1)] by blast
  have "workers w = unat n"
    using run_inv [OF assms(3), of "\<lambda>v. workers v = unat n"] step_workers
    by (auto simp: thread_pool_new_def)
  with inv assms(2,4) have "0 < exited w" "0 < workers w"
    using exited_pos [of 0 w] worker_exists [of w] by (auto simp: pool_inv_def join_inv_def gone_def)
  with inv have "pool_closed (pool w)" by (auto simp: pool_inv_def sentinel_inv_def split: if_splits)
  with inv \<open>0 < workers w\<close> assms(4-6) have "closed_again k w" by (simp add: closed_again_def)
  then have "closed_again k w'" by (rule run_inv [OF assms(7), rotated]) (rule closed_again_step)
  then show ?thesis by (simp add: closed_again_def)
qed


end
