(* ===== verification/Allocator.thy ===== *)
theory Allocator
  imports Prelude
begin

text \<open>
  The two allocators that serve coroutine frames: \<open>RecyclingAllocator\<close> of
  applications/map/recycling_allocator.hpp and \<open>tcalloc\<close> of
  applications/binary-search/coro_infra.hpp. Both keep the blocks given back on a list whose
  headers lie in the blocks themselves. What \<open>::malloc\<close> answers is an argument.
\<close>

subsection \<open>The list of free blocks\<close>

record header =
  h_next :: uptr
  h_size :: size_t

record free_list =
  fl_root :: uptr
  fl_headers :: "uptr \<Rightarrow> header option"

definition recycling_allocator_new :: free_list where
  "recycling_allocator_new = \<lparr>fl_root = 0, fl_headers = Map.empty\<rparr>"

text \<open>The first block of the list, when its size passes the test \<open>root->size <= n\<close>.\<close>

definition recycle :: "size_t \<Rightarrow> 'a free_list_scheme \<Rightarrow> (uptr option \<times> 'a free_list_scheme) res" where
  "recycle n a =
     (if fl_root a = 0 then Inr (None, a)
      else (case fl_headers a (fl_root a) of
              None \<Rightarrow> Inl WildPointer
            | Some h \<Rightarrow>
                if h_size h \<le> n then Inr (Some (fl_root a), a\<lparr>fl_root := h_next h\<rparr>)
                else Inr (None, a)))"

definition recycling_alloc :: "size_t \<Rightarrow> uptr \<Rightarrow> free_list \<Rightarrow> (uptr \<times> free_list) res" where
  "recycling_alloc n malloc_result a =
     bindE (recycle n a) (\<lambda>(block, a).
       case block of
         Some mem \<Rightarrow> Inr (mem, a)
       | None \<Rightarrow> if malloc_result = 0 then Inl BadAlloc else Inr (malloc_result, a))"

definition give_back :: "uptr \<Rightarrow> size_t \<Rightarrow> 'a free_list_scheme \<Rightarrow> 'a free_list_scheme res" where
  "give_back p n a =
     (if p = 0 then Inl NullDeref
      else Inr (a\<lparr>fl_headers := (fl_headers a)(p \<mapsto> \<lparr>h_next = fl_root a, h_size = n\<rparr>), fl_root := p\<rparr>))"

definition recycling_free :: "uptr \<Rightarrow> size_t \<Rightarrow> free_list \<Rightarrow> free_list res" where
  "recycling_free p n a = give_back p n a"

text \<open>
  The destructor follows the list and frees each block; a block it meets again is freed memory.
\<close>

partial_function (option) free_blocks ::
  "(uptr \<Rightarrow> header option) \<Rightarrow> uptr \<Rightarrow> uptr list res option" where
  "free_blocks h current =
     (if current = 0 then Some (Inr [])
      else (case h current of
              None \<Rightarrow> Some (Inl WildPointer)
            | Some hdr \<Rightarrow>
                bind_run (free_blocks (h(current := None)) (h_next hdr)) (\<lambda>freed.
                  Some (Inr (current # freed)))))"

declare free_blocks.simps [code]

definition recycling_allocator_destroy :: "'a free_list_scheme \<Rightarrow> uptr list res option" where
  "recycling_allocator_destroy a = free_blocks (fl_headers a) (fl_root a)"

record tcalloc = free_list +
  last_size_allocated :: size_t
  total :: size_t
  alloc_count :: size_t

definition tcalloc_new :: tcalloc where
  "tcalloc_new = \<lparr>fl_root = 0, fl_headers = Map.empty, last_size_allocated = 0, total = 0, alloc_count = 0\<rparr>"

definition tcalloc_alloc :: "size_t \<Rightarrow> uptr \<Rightarrow> tcalloc \<Rightarrow> (uptr \<times> tcalloc) res" where
  "tcalloc_alloc sz malloc_result a =
     bindE (recycle sz a) (\<lambda>(block, a).
       case block of
         Some mem \<Rightarrow> Inr (mem, a)
       | None \<Rightarrow> Inr (malloc_result, a\<lparr>alloc_count := alloc_count a + 1, total := total a + sz,
                                        last_size_allocated := sz\<rparr>))"

definition tcalloc_free :: "uptr \<Rightarrow> size_t \<Rightarrow> tcalloc \<Rightarrow> tcalloc res" where
  "tcalloc_free p sz a = give_back p sz a"

definition tcalloc_destroy :: "tcalloc \<Rightarrow> uptr list res option" where
  "tcalloc_destroy a = free_blocks (fl_headers a) (fl_root a)"

subsection \<open>Clients\<close>

text \<open>
  A client creates frames and destroys the \<open>k\<close>-th of those alive; it writes every byte of a frame
  it is given. Being given a block that is in use, or one that is too small, is a failure.
  The client's state is the allocator, the frames alive, and the size \<open>malloc\<close> gave each block.
\<close>

datatype frame_op = New size_t uptr | Delete nat

fun serve ::
  "(size_t \<Rightarrow> uptr \<Rightarrow> 's \<Rightarrow> (uptr \<times> 's) res) \<Rightarrow> (uptr \<Rightarrow> size_t \<Rightarrow> 's \<Rightarrow> 's res) \<Rightarrow> frame_op list \<Rightarrow>
   's \<times> (uptr \<times> size_t) list \<times> (uptr \<Rightarrow> size_t option) \<Rightarrow>
   ('s \<times> (uptr \<times> size_t) list \<times> (uptr \<Rightarrow> size_t option)) res" where
  "serve alloc release [] w = Inr w"
| "serve alloc release (New n m # ops) (s, used, given) =
     bindE (alloc n m s) (\<lambda>(p, s).
       let given = (if p = m then given(m \<mapsto> n) else given) in
       if p \<in> fst ` set used then Inl WildPointer
       else (case given p of
               None \<Rightarrow> Inl WildPointer
             | Some k \<Rightarrow> if n \<le> k then serve alloc release ops (s, (p, n) # used, given)
                        else Inl OutOfBounds))"
| "serve alloc release (Delete k # ops) (s, used, given) =
     (if k < length used
      then bindE (release (fst (used ! k)) (snd (used ! k)) s) (\<lambda>s.
             serve alloc release ops (s, take k used @ drop (Suc k) used, given))
      else serve alloc release ops (s, used, given))"

fun mallocs :: "frame_op list \<Rightarrow> uptr list" where
  "mallocs [] = []"
| "mallocs (New n m # ops) = m # mallocs ops"
| "mallocs (Delete k # ops) = mallocs ops"

fun sizes :: "frame_op list \<Rightarrow> size_t set" where
  "sizes [] = {}"
| "sizes (New n m # ops) = insert n (sizes ops)"
| "sizes (Delete k # ops) = sizes ops"

text \<open>The largest number of frames alive at once, from \<open>live\<close> now and \<open>most\<close> so far.\<close>

fun peak :: "frame_op list \<Rightarrow> nat \<Rightarrow> nat \<Rightarrow> nat" where
  "peak [] live most = most"
| "peak (New n m # ops) live most = peak ops (Suc live) (max most (Suc live))"
| "peak (Delete k # ops) live most = peak ops (if k < live then live - 1 else live) most"

subsection \<open>The contract of a recycling allocator\<close>

definition gives :: "size_t \<Rightarrow> uptr set \<Rightarrow> (uptr \<Rightarrow> size_t option) \<Rightarrow> bool" where
  "gives n A given \<longleftrightarrow> (\<forall>p. given p = (if p \<in> A then Some n else None))"

lemma gives_dom: "gives n A given \<Longrightarrow> dom given = A"
  by (simp add: gives_def dom_def)

lemma gives_in: "gives n A given \<Longrightarrow> p \<in> A \<Longrightarrow> given p = Some n"
  by (simp add: gives_def)

lemma gives_upd: "gives n A given \<Longrightarrow> gives n (insert m A) (given(m \<mapsto> n))"
  by (simp add: gives_def)

locale recycler =
  fixes alloc :: "size_t \<Rightarrow> uptr \<Rightarrow> 's \<Rightarrow> (uptr \<times> 's) res"
    and release :: "uptr \<Rightarrow> size_t \<Rightarrow> 's \<Rightarrow> 's res"
    and free :: "'s \<Rightarrow> (uptr \<times> size_t) list \<Rightarrow> bool"
  assumes recycles: "free s ((p, k) # bs) \<Longrightarrow> k \<le> n \<Longrightarrow> \<exists>s'. alloc n m s = Inr (p, s') \<and> free s' bs"
    and allocates: "free s bs \<Longrightarrow> bs = [] \<or> n < snd (hd bs) \<Longrightarrow> m \<noteq> 0 \<Longrightarrow>
      \<exists>s'. alloc n m s = Inr (m, s') \<and> free s' bs"
    and releases: "free s bs \<Longrightarrow> p \<noteq> 0 \<Longrightarrow> p \<notin> fst ` set bs \<Longrightarrow>
      \<exists>s'. release p n s = Inr s' \<and> free s' ((p, n) # bs)"
begin

lemma serve_one_size:
  assumes "free s bs" "sizes ops \<subseteq> {n}" "distinct (mallocs ops)" "0 \<notin> set (mallocs ops)"
    and "distinct (map fst (bs @ used))" "snd ` set (bs @ used) \<subseteq> {n}"
    and "gives n (fst ` set (bs @ used)) given"
    and "0 \<notin> fst ` set (bs @ used)" "set (mallocs ops) \<inter> fst ` set (bs @ used) = {}"
  shows "\<exists>s' used' given' bs'. serve alloc release ops (s, used, given) = Inr (s', used', given') \<and>
    free s' bs' \<and> distinct (map fst (bs' @ used')) \<and> 0 \<notin> fst ` set bs' \<and>
    card (dom given') = peak ops (length used) (length bs + length used)"
  using assms
proof (induction ops arbitrary: s bs used given)
  case Nil
  have "dom given = set (map fst (bs @ used))" using gives_dom [OF Nil.prems(7)] by (simp add: image_Un)
  moreover have "card (set (map fst (bs @ used))) = length bs + length used"
    using distinct_card [OF Nil.prems(5)] by simp
  ultimately have "card (dom given) = length bs + length used" by simp
  with Nil.prems(1,5,8) show ?case by (intro exI [of _ s] exI [of _ used] exI [of _ given] exI [of _ bs]) auto
next
  case (Cons opr ops)
  show ?case
  proof (cases opr)
    case (New n' m)
    with Cons.prems have n: "n' = n" "m \<noteq> 0" "m \<notin> fst ` set (bs @ used)" by auto
    show ?thesis
    proof (cases bs)
      case Nil
      then obtain s' where s': "alloc n m s = Inr (m, s')" "free s' bs"
        using allocates [OF Cons.prems(1), of n m] n by auto
      have eq: "serve alloc release (opr # ops) (s, used, given) =
          serve alloc release ops (s', (m, n) # used, given(m \<mapsto> n))"
        using s' n New Nil by simp
      have "gives n (fst ` set (bs @ (m, n) # used)) (given(m \<mapsto> n))"
        using gives_upd [OF Cons.prems(7)] Nil by simp
      then show ?thesis unfolding eq
        using Cons.IH [OF s'(2), of "(m, n) # used" "given(m \<mapsto> n)"] Cons.prems New Nil n
        by (auto simp: max_def simp del: fun_upd_apply)
    next
      case (Cons b bs')
      with Cons.prems(6) obtain p where b: "b = (p, n)" by (cases b) auto
      then obtain s' where s': "alloc n m s = Inr (p, s')" "free s' bs'"
        using recycles [of s p n bs' n m] Cons.prems(1) Cons by auto
      have p: "p \<noteq> m" "p \<notin> fst ` set used" "given p = Some n"
        using Cons.prems(5) gives_in [OF Cons.prems(7), of p] n(3) b Cons by auto
      have eq: "serve alloc release (opr # ops) (s, used, given) =
          serve alloc release ops (s', (p, n) # used, given)"
        using s' n New p by simp
      have "fst ` set (bs' @ (p, n) # used) = fst ` set (bs @ used)" using b Cons by auto
      then have g: "gives n (fst ` set (bs' @ (p, n) # used)) given" "0 \<notin> fst ` set (bs' @ (p, n) # used)"
          "set (mallocs ops) \<inter> fst ` set (bs' @ (p, n) # used) = {}"
        using Cons.prems(7-9) New by simp_all
      have d: "distinct (map fst (bs' @ (p, n) # used))" "snd ` set (bs' @ (p, n) # used) \<subseteq> {n}"
        using Cons.prems(5,6) b Cons by auto
      have "max (length bs + length used) (Suc (length used)) = length bs' + length ((p, n) # used)"
        using Cons by simp
      then have "peak (opr # ops) (length used) (length bs + length used) =
          peak ops (length ((p, n) # used)) (length bs' + length ((p, n) # used))"
        using New by simp
      with Cons.IH [OF s'(2) _ _ _ d g(1,2,3)] Cons.prems(2-4) New show ?thesis unfolding eq by simp
    qed
  next
    case (Delete k)
    show ?thesis
    proof (cases "k < length used")
      case True
      let ?u = "take k used @ drop (Suc k) used"
      have "snd (used ! k) \<in> snd ` set (bs @ used)" using nth_mem [OF True] by (intro imageI) simp
      then have "snd (used ! k) = n" using Cons.prems(6) by blast
      then obtain p where p: "used ! k = (p, n)" by (cases "used ! k") simp
      have used: "used = take k used @ (p, n) # drop (Suc k) used"
        using id_take_nth_drop [OF True] p by simp
      have prems: "distinct (map fst (bs @ take k used @ (p, n) # drop (Suc k) used))"
          "0 \<notin> fst ` set (bs @ take k used @ (p, n) # drop (Suc k) used)"
          "set (mallocs ops) \<inter> fst ` set (bs @ take k used @ (p, n) # drop (Suc k) used) = {}"
          "snd ` set (bs @ take k used @ (p, n) # drop (Suc k) used) \<subseteq> {n}"
          "gives n (fst ` set (bs @ take k used @ (p, n) # drop (Suc k) used)) given"
        using Cons.prems Delete unfolding used [symmetric] by simp_all
      obtain s' where s': "release p n s = Inr s'" "free s' ((p, n) # bs)"
        using releases [OF Cons.prems(1), of p n] prems(1,2) by auto
      have eq: "serve alloc release (opr # ops) (s, used, given) = serve alloc release ops (s', ?u, given)"
        using True s' p Delete by simp
      have len: "length ?u = length used - 1" "length ((p, n) # bs) + length ?u = length bs + length used"
        using True by simp_all
      show ?thesis unfolding eq
        using Cons.IH [OF s'(2), of ?u given] prems Cons.prems(2-4) Delete True len
        by (auto simp: image_Un)
    next
      case False
      with Cons Delete show ?thesis by simp
    qed
  qed
qed

end


subsection \<open>Both allocators meet the contract\<close>

fun is_free_list :: "(uptr \<Rightarrow> header option) \<Rightarrow> uptr \<Rightarrow> (uptr \<times> size_t) list \<Rightarrow> bool" where
  "is_free_list h p [] \<longleftrightarrow> p = 0"
| "is_free_list h p ((q, k) # bs) \<longleftrightarrow> p = q \<and> p \<noteq> 0 \<and>
     (\<exists>hdr. h p = Some hdr \<and> h_size hdr = k \<and> is_free_list h (h_next hdr) bs)"

definition free_on :: "'a free_list_scheme \<Rightarrow> (uptr \<times> size_t) list \<Rightarrow> bool" where
  "free_on a bs \<longleftrightarrow> is_free_list (fl_headers a) (fl_root a) bs"

lemma is_free_list_upd:
  "p \<notin> fst ` set bs \<Longrightarrow> is_free_list (h(p := x)) q bs = is_free_list h q bs"
  by (induction h q bs rule: is_free_list.induct) auto

lemma recycle_head:
  "free_on a ((p, k) # bs) \<Longrightarrow> k \<le> n \<Longrightarrow> \<exists>a'. recycle n a = Inr (Some p, a') \<and> free_on a' bs"
  by (auto simp: recycle_def free_on_def)

lemma recycle_none:
  "free_on a bs \<Longrightarrow> bs = [] \<or> n < snd (hd bs) \<Longrightarrow> recycle n a = Inr (None, a)"
  by (cases bs) (auto simp: recycle_def free_on_def split: prod.splits)

lemma give_back_free:
  "free_on a bs \<Longrightarrow> p \<noteq> 0 \<Longrightarrow> p \<notin> fst ` set bs \<Longrightarrow> \<exists>a'. give_back p n a = Inr a' \<and> free_on a' ((p, n) # bs)"
  by (simp add: give_back_def free_on_def is_free_list_upd)

interpretation ra: recycler recycling_alloc recycling_free free_on
proof (unfold_locales, goal_cases)
  case (1 s p k bs n m)
  with recycle_head [of s p k bs n] show ?case by (auto simp: recycling_alloc_def)
next
  case (2 s bs n m)
  with recycle_none [of s bs n] show ?case by (auto simp: recycling_alloc_def)
next
  case (3 s bs p n)
  with give_back_free [of s bs p n] show ?case by (simp add: recycling_free_def)
qed

interpretation tc: recycler tcalloc_alloc tcalloc_free free_on
proof (unfold_locales, goal_cases)
  case (1 s p k bs n m)
  with recycle_head [of s p k bs n] show ?case by (auto simp: tcalloc_alloc_def)
next
  case (2 s bs n m)
  with recycle_none [of s bs n] show ?case by (auto simp: tcalloc_alloc_def free_on_def)
next
  case (3 s bs p n)
  with give_back_free [of s bs p n] show ?case by (simp add: tcalloc_free_def)
qed

lemma free_blocks_list:
  "is_free_list h p bs \<Longrightarrow> distinct (map fst bs) \<Longrightarrow> free_blocks h p = Some (Inr (map fst bs))"
proof (induction bs arbitrary: h p)
  case (Cons b bs)
  then obtain hdr where "b = (p, h_size hdr)" "p \<noteq> 0" "h p = Some hdr" "is_free_list h (h_next hdr) bs"
    by (cases b) auto
  moreover from this Cons have "free_blocks (h(p := None)) (h_next hdr) = Some (Inr (map fst bs))"
    by (intro Cons.IH) (simp_all add: is_free_list_upd del: fun_upd_apply)
  ultimately show ?case by (simp add: free_blocks.simps [of h p])
qed (simp add: free_blocks.simps)

text \<open>
  C31. When all coroutine frames have one size, both allocators serve every history of frames
  created and destroyed: no block is given out while in use, every block is big enough, malloc is
  called no more often than the largest number of frames alive at once, and the destructor then
  frees each block given back once.
\<close>
theorem recycling_one_frame_size:
  assumes "sizes ops \<subseteq> {n}" and "distinct (mallocs ops)" and "0 \<notin> set (mallocs ops)"
  shows "(\<exists>a used given bs.
      serve recycling_alloc recycling_free ops (recycling_allocator_new, [], Map.empty) = Inr (a, used, given) \<and>
      distinct (map fst used @ bs) \<and> card (dom given) = peak ops 0 0 \<and>
      recycling_allocator_destroy a = Some (Inr bs)) \<and>
    (\<exists>a used given bs.
      serve tcalloc_alloc tcalloc_free ops (tcalloc_new, [], Map.empty) = Inr (a, used, given) \<and>
      distinct (map fst used @ bs) \<and> card (dom given) = peak ops 0 0 \<and>
      recycling_allocator_destroy a = Some (Inr bs))" (is "?A \<and> ?B")
proof -
  have init: "free_on recycling_allocator_new []" "free_on tcalloc_new []"
    by (simp_all add: free_on_def recycling_allocator_new_def tcalloc_new_def)
  have destroy: "recycling_allocator_destroy a = Some (Inr (map fst bs))"
    if "free_on a bs" "distinct (map fst (bs @ used))" for a :: "'x free_list_scheme" and bs used
    using that by (simp add: recycling_allocator_destroy_def free_on_def free_blocks_list)
  have "?A" (is "\<exists>a used given bs. ?P a used given bs")
  proof -
    obtain a used given bs where
      "serve recycling_alloc recycling_free ops (recycling_allocator_new, [], Map.empty) = Inr (a, used, given)"
      "free_on a bs" "distinct (map fst (bs @ used))" "card (dom given) = peak ops 0 0"
      using ra.serve_one_size [OF init(1) assms, of "[]" Map.empty] by (auto simp: gives_def)
    with destroy [of a bs used] have "?P a used given (map fst bs)" by auto
    then show ?thesis by blast
  qed
  moreover have "?B" (is "\<exists>a used given bs. ?P a used given bs")
  proof -
    obtain a used given bs where
      "serve tcalloc_alloc tcalloc_free ops (tcalloc_new, [], Map.empty) = Inr (a, used, given)"
      "free_on a bs" "distinct (map fst (bs @ used))" "card (dom given) = peak ops 0 0"
      using tc.serve_one_size [OF init(2) assms, of "[]" Map.empty] by (auto simp: gives_def)
    with destroy [of a bs used] have "?P a used given (map fst bs)" by auto
    then show ?thesis by blast
  qed
  ultimately show ?thesis by blast
qed

theorem recycling_one_frame_size_witness:
  "\<exists>a used given. serve recycling_alloc recycling_free [New 80 4096, New 80 8192, Delete 0, New 80 12288]
     (recycling_allocator_new, [], Map.empty) = Inr (a, used, given) \<and> card (dom given) = 2"
  using recycling_one_frame_size [of "[New 80 4096, New 80 8192, Delete 0, New 80 12288]" 80]
  by auto

text \<open>
  The size test is the wrong way round for frames of different sizes: whenever a block of a
  smaller size was given back last, a bigger frame is placed in it and overruns it, and a block
  that would have been big enough is passed over.
\<close>
lemma recycling_mixed_sizes_overruns:
  assumes "a < b" and "p \<noteq> 0" and "q \<noteq> 0" and "p \<noteq> q"
  shows "serve recycling_alloc recycling_free [New a p, Delete 0, New b q]
      (recycling_allocator_new, [], Map.empty) = Inl OutOfBounds \<and>
    serve tcalloc_alloc tcalloc_free [New a p, Delete 0, New b q]
      (tcalloc_new, [], Map.empty) = Inl OutOfBounds \<and>
    fst ` set (fst (snd (projr (serve recycling_alloc recycling_free [New b p, Delete 0, New a q]
      (recycling_allocator_new, [], Map.empty))))) = {q}"
proof -
  have "a \<le> b" "\<not> b \<le> a" using assms(1) by simp_all
  with assms(2-4) show ?thesis
    by (simp add: recycling_alloc_def recycling_free_def tcalloc_alloc_def tcalloc_free_def recycle_def
        give_back_def recycling_allocator_new_def tcalloc_new_def Let_def)
qed

end
