(* ===== verification/Handles.thy ===== *)
theory Handles
  imports Prelude
begin

text \<open>
  The owners of operating-system handles: \<open>unique_handle\<close> of libcoro/win/unique_handle.hpp, for any
  traits, and \<open>unique_fd\<close> of libcoro/nix/unique_fd.hpp. Objects are places in a list, empty when no
  object is alive there; closing a handle is recorded.
\<close>

subsection \<open>Objects and handles\<close>

record 'h raii =
  vals :: "'h option list"
  closed_handles :: "'h multiset"

definition alive :: "nat \<Rightarrow> 'h raii \<Rightarrow> bool" where
  "alive i s \<longleftrightarrow> i < length (vals s) \<and> vals s ! i \<noteq> None"

definition vacant :: "nat \<Rightarrow> 'h raii \<Rightarrow> bool" where
  "vacant i s \<longleftrightarrow> i < length (vals s) \<and> vals s ! i = None"

abbreviation value_of :: "nat \<Rightarrow> 'h raii \<Rightarrow> 'h" where
  "value_of i s \<equiv> the (vals s ! i)"

definition put_value :: "nat \<Rightarrow> 'h \<Rightarrow> 'h raii \<Rightarrow> 'h raii" where
  "put_value i v s = s\<lparr>vals := (vals s)[i := Some v]\<rparr>"

definition end_object :: "nat \<Rightarrow> 'h raii \<Rightarrow> 'h raii" where
  "end_object i s = s\<lparr>vals := (vals s)[i := None]\<rparr>"

subsection \<open>unique handle\<close>

text \<open>\<open>invalid\<close> is \<open>Traits::invalid()\<close>; the traits' \<open>close\<close> is the record of the handle.\<close>

definition is_valid :: "'h \<Rightarrow> nat \<Rightarrow> 'h raii \<Rightarrow> bool" where
  "is_valid invalid i s \<longleftrightarrow> value_of i s \<noteq> invalid"

definition handle_close :: "'h \<Rightarrow> nat \<Rightarrow> 'h raii \<Rightarrow> 'h raii" where
  "handle_close invalid i s =
     (if is_valid invalid i s then s\<lparr>closed_handles := add_mset (value_of i s) (closed_handles s)\<rparr> else s)"

definition handle_new :: "nat \<Rightarrow> 'h \<Rightarrow> 'h raii \<Rightarrow> 'h raii" where
  "handle_new i v s = put_value i v s"

definition handle_destroy :: "'h \<Rightarrow> nat \<Rightarrow> 'h raii \<Rightarrow> 'h raii" where
  "handle_destroy invalid i s = end_object i (handle_close invalid i s)"

definition handle_release :: "'h \<Rightarrow> nat \<Rightarrow> 'h raii \<Rightarrow> 'h \<times> 'h raii" where
  "handle_release invalid i s = (let v = value_of i s in (v, put_value i invalid s))"

definition handle_reset :: "'h \<Rightarrow> nat \<Rightarrow> 'h \<Rightarrow> 'h raii \<Rightarrow> bool \<times> 'h raii" where
  "handle_reset invalid i v s =
     (let s = (if value_of i s \<noteq> v then put_value i v (handle_close invalid i s) else s)
      in (is_valid invalid i s, s))"

definition handle_move_new :: "'h \<Rightarrow> nat \<Rightarrow> nat \<Rightarrow> 'h raii \<Rightarrow> 'h raii" where
  "handle_move_new invalid i other s =
     (let (v, s) = handle_release invalid other s in put_value i v s)"

definition handle_move_assign :: "'h \<Rightarrow> nat \<Rightarrow> nat \<Rightarrow> 'h raii \<Rightarrow> 'h raii" where
  "handle_move_assign invalid i rhs s =
     (let (v, s) = handle_release invalid rhs s in snd (handle_reset invalid i v s))"

text \<open>\<open>put\<close>, and \<open>operator&\<close>, close before they give out the address of the member.\<close>

definition handle_put :: "'h \<Rightarrow> nat \<Rightarrow> 'h raii \<Rightarrow> 'h raii" where
  "handle_put invalid i s = put_value i invalid (handle_close invalid i s)"

definition handle_address_of :: "'h \<Rightarrow> nat \<Rightarrow> 'h raii \<Rightarrow> 'h raii" where
  "handle_address_of invalid i s = put_value i invalid (handle_close invalid i s)"

definition handle_swap :: "nat \<Rightarrow> nat \<Rightarrow> 'h raii \<Rightarrow> 'h raii" where
  "handle_swap i j s = put_value j (value_of i s) (put_value i (value_of j s) s)"

subsection \<open>unique file descriptor\<close>

definition no_fd :: "32 word" where
  "no_fd = -1"

definition fd_close :: "nat \<Rightarrow> (32 word) raii \<Rightarrow> (32 word) raii" where
  "fd_close i s =
     (if value_of i s \<noteq> no_fd
      then s\<lparr>closed_handles := add_mset (value_of i s) (closed_handles s)\<rparr> else s)"

definition fd_destroy :: "nat \<Rightarrow> (32 word) raii \<Rightarrow> (32 word) raii" where
  "fd_destroy i s = end_object i (fd_close i s)"

definition fd_move_new :: "nat \<Rightarrow> nat \<Rightarrow> (32 word) raii \<Rightarrow> (32 word) raii" where
  "fd_move_new i ufd s = put_value ufd no_fd (put_value i (value_of ufd s) s)"

definition fd_move_assign :: "nat \<Rightarrow> nat \<Rightarrow> (32 word) raii \<Rightarrow> (32 word) raii" where
  "fd_move_assign i ufd s =
     (if ufd \<noteq> i
      then let s = fd_close i s; s = put_value i (value_of ufd s) s in put_value ufd no_fd s
      else s)"

definition fd_release :: "nat \<Rightarrow> (32 word) raii \<Rightarrow> 32 word \<times> (32 word) raii" where
  "fd_release i s = (let tmp = value_of i s in (tmp, put_value i no_fd s))"

text \<open>\<open>put\<close> gives out the address and changes nothing.\<close>

definition fd_put :: "nat \<Rightarrow> (32 word) raii \<Rightarrow> (32 word) raii" where
  "fd_put i s = s"

subsection \<open>What an object owns\<close>

definition own :: "'h \<Rightarrow> 'h option \<Rightarrow> 'h multiset" where
  "own invalid x = (case x of None \<Rightarrow> {#} | Some v \<Rightarrow> if v = invalid then {#} else {#v#})"

definition owned :: "'h \<Rightarrow> 'h raii \<Rightarrow> 'h multiset" where
  "owned invalid s = (\<Sum>i<length (vals s). own invalid (vals s ! i))"

definition balance :: "'h \<Rightarrow> 'h raii \<Rightarrow> 'h multiset" where
  "balance invalid s = owned invalid s + closed_handles s"

lemma own_simps [simp]:
  "own invalid None = {#}" "own invalid (Some invalid) = {#}"
  "v \<noteq> invalid \<Longrightarrow> own invalid (Some v) = {#v#}"
  by (simp_all add: own_def)

lemma owned_update:
  "i < length xs \<Longrightarrow> owned invalid \<lparr>vals = xs[i := x], closed_handles = c\<rparr> + own invalid (xs ! i) =
     owned invalid \<lparr>vals = xs, closed_handles = c'\<rparr> + own invalid x"
  using sum_nth_update [of i xs "\<lambda>_. own invalid" x] by (simp add: owned_def)

lemma balance_put:
  "i < length (vals s) \<Longrightarrow> balance invalid (put_value i v s) + own invalid (vals s ! i) =
     balance invalid s + own invalid (Some v)"
  using owned_update [of i "vals s" invalid "Some v"]
  by (cases s) (simp add: balance_def put_value_def add_ac)

lemma balance_end:
  "i < length (vals s) \<Longrightarrow> balance invalid (end_object i s) + own invalid (vals s ! i) = balance invalid s"
  using owned_update [of i "vals s" invalid None]
  by (cases s) (simp add: balance_def end_object_def add_ac)

lemma balance_close:
  "alive i s \<Longrightarrow> balance invalid (handle_close invalid i s) = balance invalid s + own invalid (vals s ! i)"
  by (auto simp: alive_def handle_close_def is_valid_def balance_def owned_def)

lemma vals_close [simp]: "vals (handle_close invalid i s) = vals s"
  by (simp add: handle_close_def)

lemma fd_close_handle: "fd_close = handle_close no_fd"
  by (simp add: fun_eq_iff fd_close_def handle_close_def is_valid_def)

lemma vals_put [simp]: "vals (put_value i v s) = (vals s)[i := Some v]"
  by (simp add: put_value_def)

lemma vals_end [simp]: "vals (end_object i s) = (vals s)[i := None]"
  by (simp add: end_object_def)


subsection \<open>Histories\<close>

datatype 'h owner_op =
    Adopt nat 'h
  | Destroy nat
  | MoveNew nat nat
  | MoveAssign nat nat
  | Release nat

text \<open>
  A history of constructions, destructions, moves and releases, over the operations of a class;
  the second component collects what was released to the caller. Operating on an object that is
  not alive, or constructing one where another is alive, is a wild access.
\<close>

fun owner_run ::
  "'h \<Rightarrow> (nat \<Rightarrow> 'h raii \<Rightarrow> 'h raii) \<Rightarrow> (nat \<Rightarrow> nat \<Rightarrow> 'h raii \<Rightarrow> 'h raii) \<Rightarrow>
   (nat \<Rightarrow> nat \<Rightarrow> 'h raii \<Rightarrow> 'h raii) \<Rightarrow> (nat \<Rightarrow> 'h raii \<Rightarrow> 'h \<times> 'h raii) \<Rightarrow>
   'h owner_op list \<Rightarrow> 'h raii \<Rightarrow> 'h multiset \<Rightarrow> ('h raii \<times> 'h multiset) res" where
  "owner_run invalid destroy move_new move_assign release [] s out = Inr (s, out)"
| "owner_run invalid destroy move_new move_assign release (opr # ops) s out =
     (case opr of
        Adopt i v \<Rightarrow>
          if vacant i s
          then owner_run invalid destroy move_new move_assign release ops (put_value i v s) out
          else Inl WildPointer
      | Destroy i \<Rightarrow>
          if alive i s
          then owner_run invalid destroy move_new move_assign release ops (destroy i s) out
          else Inl WildPointer
      | MoveNew i j \<Rightarrow>
          if vacant i s \<and> alive j s
          then owner_run invalid destroy move_new move_assign release ops (move_new i j s) out
          else Inl WildPointer
      | MoveAssign i j \<Rightarrow>
          if alive i s \<and> alive j s
          then owner_run invalid destroy move_new move_assign release ops (move_assign i j s) out
          else Inl WildPointer
      | Release i \<Rightarrow>
          if alive i s
          then (let (v, s) = release i s
                in owner_run invalid destroy move_new move_assign release ops s (out + own invalid (Some v)))
          else Inl WildPointer)"

fun adopted :: "'h \<Rightarrow> 'h owner_op list \<Rightarrow> 'h multiset" where
  "adopted invalid [] = {#}"
| "adopted invalid (Adopt i v # ops) = own invalid (Some v) + adopted invalid ops"
| "adopted invalid (opr # ops) = adopted invalid ops"

definition no_objects :: "nat \<Rightarrow> 'h raii" where
  "no_objects n = \<lparr>vals = replicate n None, closed_handles = {#}\<rparr>"

lemma balance_no_objects [simp]: "balance invalid (no_objects n) = {#}"
  by (simp add: balance_def owned_def no_objects_def)

locale owner =
  fixes invalid :: 'h
    and destroy :: "nat \<Rightarrow> 'h raii \<Rightarrow> 'h raii"
    and move_new :: "nat \<Rightarrow> nat \<Rightarrow> 'h raii \<Rightarrow> 'h raii"
    and move_assign :: "nat \<Rightarrow> nat \<Rightarrow> 'h raii \<Rightarrow> 'h raii"
    and release :: "nat \<Rightarrow> 'h raii \<Rightarrow> 'h \<times> 'h raii"
  assumes destroy_balance: "alive i s \<Longrightarrow> balance invalid (destroy i s) = balance invalid s"
    and move_new_balance: "vacant i s \<Longrightarrow> alive j s \<Longrightarrow> balance invalid (move_new i j s) = balance invalid s"
    and move_assign_balance: "alive i s \<Longrightarrow> alive j s \<Longrightarrow>
      (\<And>h. count (owned invalid s) h \<le> 1) \<Longrightarrow> balance invalid (move_assign i j s) = balance invalid s"
    and release_balance: "alive i s \<Longrightarrow>
      balance invalid (snd (release i s)) + own invalid (Some (fst (release i s))) = balance invalid s"
begin

lemma run_balance:
  "owner_run invalid destroy move_new move_assign release ops s out = Inr (s', out') \<Longrightarrow>
   (\<And>h. count (balance invalid s + out + adopted invalid ops) h \<le> 1) \<Longrightarrow>
     balance invalid s' + out' = balance invalid s + out + adopted invalid ops"
proof (induction ops arbitrary: s out)
  case (Cons opr ops)
  show ?case
  proof (cases opr)
    case (Adopt i v)
    with Cons.prems have "vacant i s" by (auto split: if_splits)
    then have "balance invalid (put_value i v s) = balance invalid s + own invalid (Some v)"
      using balance_put [of i s invalid v] by (simp add: vacant_def)
    then have eq: "balance invalid (put_value i v s) + out + adopted invalid ops =
        balance invalid s + out + adopted invalid (opr # ops)"
      using Adopt by (simp add: add_ac)
    have "owner_run invalid destroy move_new move_assign release ops (put_value i v s) out = Inr (s', out')"
      using Cons.prems(1) Adopt by (simp split: if_splits)
    from Cons.IH [OF this] Cons.prems(2) show ?thesis unfolding eq by blast
  next
    case (Destroy i)
    with Cons.IH [of "destroy i s" out] Cons.prems destroy_balance [of i s] show ?thesis
      by (fastforce split: if_splits)
  next
    case (MoveNew i j)
    with Cons.IH [of "move_new i j s" out] Cons.prems move_new_balance [of i s j] show ?thesis
      by (fastforce split: if_splits)
  next
    case (MoveAssign i j)
    have "count (owned invalid s) h \<le> 1" for h
      using Cons.prems(2) [of h] by (simp add: balance_def)
    with MoveAssign Cons.IH [of "move_assign i j s" out] Cons.prems move_assign_balance [of i s j]
    show ?thesis by (fastforce split: if_splits)
  next
    case (Release i)
    obtain v s1 where r: "release i s = (v, s1)" by (cases "release i s")
    have "alive i s" and "owner_run invalid destroy move_new move_assign release ops s1
        (out + own invalid (Some v)) = Inr (s', out')"
      using Cons.prems Release r by (auto split: if_splits)
    moreover have eq: "balance invalid s1 + (out + own invalid (Some v)) + adopted invalid ops =
        balance invalid s + out + adopted invalid (opr # ops)"
      using release_balance [OF \<open>alive i s\<close>] r Release by (simp add: add_ac)
    ultimately show ?thesis
      using Cons.IH [of s1 "out + own invalid (Some v)"] Cons.prems(2) unfolding eq by blast
  qed
qed simp

end

lemma put_none_balance:
  "vacant i s \<Longrightarrow> balance invalid (put_value i v s) = balance invalid s + own invalid (Some v)"
  using balance_put [of i s invalid v] by (simp add: vacant_def)

lemma put_invalid_balance:
  "alive i s \<Longrightarrow> balance invalid (put_value i invalid s) + own invalid (vals s ! i) = balance invalid s"
  using balance_put [of i s invalid invalid] by (simp add: alive_def)

lemma close_put_balance:
  "alive i s \<Longrightarrow> balance invalid (put_value i v (handle_close invalid i s)) = balance invalid s + own invalid (Some v)"
  using balance_put [of i "handle_close invalid i s" invalid v] balance_close [of i s invalid]
  by (simp add: alive_def add_ac)

lemma destroy_close_balance:
  "alive i s \<Longrightarrow> balance invalid (end_object i (handle_close invalid i s)) = balance invalid s"
  using balance_end [of i "handle_close invalid i s" invalid] balance_close [of i s invalid]
  by (simp add: alive_def add_ac)

lemma owned_twice:
  assumes "alive i s" "alive j s" "i \<noteq> j" "value_of i s = value_of j s" "count (owned invalid s) (value_of i s) \<le> 1"
  shows "value_of i s = invalid"
proof (rule ccontr)
  assume "value_of i s \<noteq> invalid"
  then have "own invalid (vals s ! i) = {#value_of i s#}" "own invalid (vals s ! j) = {#value_of i s#}"
    using assms(1,2,4) by (auto simp: alive_def)
  moreover have "owned invalid s = own invalid (vals s ! i) + (own invalid (vals s ! j) +
      (\<Sum>k\<in>{..<length (vals s)} - {i} - {j}. own invalid (vals s ! k)))"
    using assms(1-3) unfolding owned_def alive_def
    by (simp add: sum.remove [of "{..<length (vals s)}" i] sum.remove [of "{..<length (vals s)} - {i}" j])
  ultimately show False using assms(5) by simp
qed

lemma some_value: "alive i s \<Longrightarrow> Some (value_of i s) = vals s ! i"
  by (auto simp: alive_def)

interpretation handle: owner invalid "handle_destroy invalid" "handle_move_new invalid"
  "handle_move_assign invalid" "handle_release invalid" for invalid
proof (unfold_locales, goal_cases)
  case (1 i s)
  then show ?case by (simp add: handle_destroy_def destroy_close_balance)
next
  case (2 i s j)
  then have "i \<noteq> j" by (auto simp: vacant_def alive_def)
  then have "vacant i (put_value j invalid s)" using 2(1) by (simp add: vacant_def)
  then show ?case
    using 2 put_none_balance [of i "put_value j invalid s" invalid "value_of j s"]
      put_invalid_balance [of j s invalid] some_value [of j s]
    by (simp add: handle_move_new_def handle_release_def Let_def)
next
  case (3 i s j)
  let ?s = "put_value j invalid s"
  have a: "alive i ?s" using 3 by (auto simp: alive_def nth_list_update)
  show ?case
  proof (cases "value_of i ?s = value_of j s")
    case False
    then show ?thesis
      using close_put_balance [OF a, of invalid "value_of j s"] put_invalid_balance [of j s invalid] 3
        some_value [of j s]
      by (simp add: handle_move_assign_def handle_release_def handle_reset_def Let_def)
  next
    case True
    then have "value_of j s = invalid"
    proof (cases "i = j")
      case False
      then show ?thesis using owned_twice [OF 3(1,2) False, of invalid] 3(3) True by simp
    qed (use 3 in \<open>simp add: alive_def\<close>)
    moreover from this have "own invalid (vals s ! j) = {#}"
      using some_value [OF 3(2)] by (metis own_simps(2))
    ultimately show ?thesis
      using put_invalid_balance [OF 3(2), of invalid] True
      by (simp add: handle_move_assign_def handle_release_def handle_reset_def Let_def)
  qed
next
  case (4 i s)
  then show ?case using put_invalid_balance [of i s invalid] some_value [of i s]
    by (simp add: handle_release_def Let_def)
qed


interpretation fd: owner no_fd fd_destroy fd_move_new fd_move_assign fd_release
proof (unfold_locales, goal_cases)
  case (1 i s)
  then show ?case by (simp add: fd_destroy_def fd_close_handle destroy_close_balance)
next
  case (2 i s j)
  then have "alive j (put_value i (value_of j s) s)" "vals (put_value i (value_of j s) s) ! j = vals s ! j"
    by (auto simp: vacant_def alive_def nth_list_update)
  then show ?case
    using put_invalid_balance [of j "put_value i (value_of j s) s" no_fd]
      put_none_balance [OF 2(1), of no_fd "value_of j s"] some_value [OF 2(2)]
    by (simp add: fd_move_new_def)
next
  case (3 i s j)
  show ?case
  proof (cases "j = i")
    case False
    let ?s = "put_value i (value_of j s) (handle_close no_fd i s)"
    have "alive j ?s" "vals ?s ! j = vals s ! j" using 3 False by (auto simp: alive_def nth_list_update)
    then show ?thesis
      using put_invalid_balance [of j ?s no_fd] close_put_balance [OF 3(1), of no_fd "value_of j s"]
        some_value [OF 3(2)] False
      by (simp add: fd_move_assign_def fd_close_handle Let_def)
  qed (simp add: fd_move_assign_def)
next
  case (4 i s)
  then show ?case using put_invalid_balance [of i s no_fd] some_value [of i s]
    by (simp add: fd_release_def Let_def)
qed

text \<open>
  C32. Ownership is exact for both classes: in every history in which each handle is adopted once,
  every handle is, at the end, owned by one object, or closed once, or released to the caller once;
  none is leaked and none is closed twice.
\<close>
theorem every_handle_accounted_for:
  assumes "\<forall>h. count (adopted invalid ops) h \<le> 1" and "\<forall>h. count (adopted no_fd fd_ops) h \<le> 1"
    and "owner_run invalid (handle_destroy invalid) (handle_move_new invalid) (handle_move_assign invalid)
      (handle_release invalid) ops (no_objects n) {#} = Inr (s, out)"
    and "owner_run no_fd fd_destroy fd_move_new fd_move_assign fd_release fd_ops (no_objects m) {#} =
      Inr (t, fd_out)"
  shows "owned invalid s + closed_handles s + out = adopted invalid ops \<and>
    owned no_fd t + closed_handles t + fd_out = adopted no_fd fd_ops"
proof
  have "balance invalid s + out = adopted invalid ops" using handle.run_balance [OF assms(3)] assms(1) by simp
  then show "owned invalid s + closed_handles s + out = adopted invalid ops" by (simp add: balance_def)
  have "balance no_fd t + fd_out = adopted no_fd fd_ops" using fd.run_balance [OF assms(4)] assms(2) by simp
  then show "owned no_fd t + closed_handles t + fd_out = adopted no_fd fd_ops" by (simp add: balance_def)
qed

theorem every_handle_accounted_for_witness:
  "\<exists>s :: int raii. \<exists>out. owner_run 0 (handle_destroy 0) (handle_move_new 0) (handle_move_assign 0)
     (handle_release 0) [Adopt 0 7, Adopt 1 9, MoveAssign 1 0, Destroy 0] (no_objects 2) {#} = Inr (s, out) \<and>
     owned 0 s + closed_handles s + out = {#7, 9#}"
proof -
  let ?ops = "[Adopt 0 7, Adopt 1 9, MoveAssign 1 0, Destroy 0] :: int owner_op list"
  let ?s = "\<lparr>vals = [None, Some 7], closed_handles = {#9#}\<rparr> :: int raii"
  have ad: "adopted 0 ?ops = {#7, 9#}" by simp
  have n2: "no_objects 2 = (\<lparr>vals = [None, None], closed_handles = {#}\<rparr> :: int raii)"
    by (simp add: no_objects_def numeral_2_eq_2)
  have run: "owner_run 0 (handle_destroy 0) (handle_move_new 0) (handle_move_assign 0) (handle_release 0)
      ?ops (no_objects 2) {#} = Inr (?s, {#})"
    by (simp add: n2 alive_def vacant_def put_value_def end_object_def handle_destroy_def
        handle_move_assign_def handle_release_def handle_reset_def handle_close_def is_valid_def Let_def)
  have fd: "owner_run no_fd fd_destroy fd_move_new fd_move_assign fd_release [Adopt 0 3, Release 0]
      (no_objects 1) {#} = Inr (\<lparr>vals = [Some no_fd], closed_handles = {#}\<rparr>, {#3#})"
    by (simp add: no_objects_def alive_def vacant_def put_value_def fd_release_def Let_def own_def no_fd_def)
  have "owned 0 ?s + closed_handles ?s + {#} = adopted 0 ?ops"
    using every_handle_accounted_for [OF _ _ run fd] unfolding ad by (simp add: own_def no_fd_def)
  then show ?thesis using run ad by (intro exI [of _ ?s] exI [of _ "{#}"]) (simp only: simp_thms)
qed

text \<open>
  Writing through the address that \<open>put\<close> returns: \<open>unique_handle\<close> has closed the handle that is
  overwritten, \<open>unique_fd\<close> loses it.
\<close>
lemma put_then_write:
  assumes "alive i s" "alive i t"
  shows "balance invalid (put_value i v (handle_put invalid i s)) = balance invalid s + own invalid (Some v)"
    and "balance no_fd (put_value i w (fd_put i t)) + own no_fd (vals t ! i) =
      balance no_fd t + own no_fd (Some w)"
proof -
  have "alive i (handle_put invalid i s)" "vals (handle_put invalid i s) ! i = Some invalid"
    using assms(1) by (auto simp: handle_put_def alive_def)
  moreover have "balance invalid (handle_put invalid i s) = balance invalid s"
    using close_put_balance [OF assms(1), of invalid invalid] by (simp add: handle_put_def)
  ultimately show "balance invalid (put_value i v (handle_put invalid i s)) = balance invalid s + own invalid (Some v)"
    using balance_put [of i "handle_put invalid i s" invalid v] by (simp add: alive_def)
  show "balance no_fd (put_value i w (fd_put i t)) + own no_fd (vals t ! i) =
      balance no_fd t + own no_fd (Some w)"
    using balance_put [of i t no_fd w] assms(2) by (simp add: fd_put_def alive_def)
qed

end
