(* ===== verification/Timer_Service.thy ===== *)
theory Timer_Service
  imports Prelude
begin

unbundle bit_operations_syntax

text \<open>
  The timer service of applications/timers/win-iocp: requests and their queue (timer_request.hpp,
  queue.hpp), and from timer_service.hpp the conversion of timeouts, posting, the entry of reactors
  and the shutdown protocol between the worker thread, the reactors and the posting threads.
  A system call appears as what it hands to the program: the handle of a created timer is an
  argument; a timer that fires, a delivered procedure call and a packet taken from the completion
  port are steps of the interleaving.
\<close>

subsection \<open>Timeouts\<close>

record filetime =
  dwLowDateTime :: u32
  dwHighDateTime :: u32

text \<open>Division of C++ rounds towards zero.\<close>

definition quot_100 :: "int \<Rightarrow> int" where
  "quot_100 ns = (if 0 \<le> ns then ns div 100 else - (- ns div 100))"

definition timeout_to_filetime :: "int \<Rightarrow> filetime" where
  "timeout_to_filetime ns =
     (let ns_incs = quot_100 ns; quad_part = word_of_int (- 1 * ns_incs) :: 64 word
      in \<lparr>dwLowDateTime = ucast quad_part, dwHighDateTime = ucast (drop_bit 32 quad_part)\<rparr>)"

text \<open>What \<open>SetWaitableTimer\<close> reads at the address of a file time: a signed 64-bit number.\<close>

definition as_large_integer :: "filetime \<Rightarrow> int" where
  "as_large_integer ft = sint ((word_cat (dwHighDateTime ft) (dwLowDateTime ft)) :: 64 word)"

lemma word_cat_split: "word_cat (ucast (drop_bit 32 q) :: u32) (ucast q :: u32) = (q :: 64 word)"
  by (rule bit_word_eqI) (auto simp: bit_word_cat_iff bit_ucast_iff bit_drop_bit_eq)

lemma quot_100_bound: "\<bar>ns\<bar> < 2 ^ 63 \<Longrightarrow> - (2 ^ 63) \<le> - quot_100 ns \<and> - quot_100 ns < 2 ^ 63"
  by (auto simp: quot_100_def)

text \<open>
  A timeout of up to \<open>2^63\<close> nanoseconds reaches the system as its negated number of 100 ns
  steps, rounded towards zero: a time relative to now exactly when the timeout is at least 100 ns.
\<close>
lemma timeout_is_relative:
  assumes "\<bar>ns\<bar> < 2 ^ 63"
  shows "as_large_integer (timeout_to_filetime ns) = - quot_100 ns \<and>
    (as_large_integer (timeout_to_filetime ns) < 0 \<longleftrightarrow> 100 \<le> ns)"
proof -
  have "sint (word_of_int (- quot_100 ns) :: 64 word) = - quot_100 ns"
    unfolding sint_sbintrunc' using quot_100_bound [OF assms] by (simp add: signed_take_bit_int_eq_self)
  then have eq: "as_large_integer (timeout_to_filetime ns) = - quot_100 ns"
    by (simp add: as_large_integer_def timeout_to_filetime_def Let_def word_cat_split)
  have "0 < quot_100 ns \<longleftrightarrow> 100 \<le> ns" by (auto simp: quot_100_def)
  then show ?thesis unfolding eq by simp
qed

subsection \<open>Requests\<close>

record timer_request =
  rq_port :: uptr
  rq_timeout :: filetime
  timer_object :: uptr
  completion_handler :: uptr
  rq_ctx :: uptr
  owned_timer :: bool

text \<open>\<open>created\<close> is the handle that \<open>CreateWaitableTimerA\<close> returned.\<close>

definition timer_request_owned :: "uptr \<Rightarrow> uptr \<Rightarrow> filetime \<Rightarrow> uptr \<Rightarrow> uptr \<Rightarrow> timer_request" where
  "timer_request_owned created port timeout handler ctx =
     \<lparr>rq_port = port, rq_timeout = timeout, timer_object = created, completion_handler = handler,
      rq_ctx = ctx, owned_timer = True\<rparr>"

definition timer_request_user :: "uptr \<Rightarrow> filetime \<Rightarrow> uptr \<Rightarrow> uptr \<Rightarrow> uptr \<Rightarrow> timer_request" where
  "timer_request_user port timeout timer handler ctx =
     \<lparr>rq_port = port, rq_timeout = timeout, timer_object = timer, completion_handler = handler,
      rq_ctx = ctx, owned_timer = False\<rparr>"

text \<open>The handles that the destructor closes.\<close>

definition timer_request_destroy :: "timer_request \<Rightarrow> uptr list" where
  "timer_request_destroy r = (if owned_timer r then [timer_object r] else [])"

type_synonym 'r request_queue = "'r list"

definition request_push :: "'r \<Rightarrow> 'r request_queue \<Rightarrow> 'r request_queue" where
  "request_push obj q = q @ [obj]"

text \<open>\<open>pop\<close> waits while the queue is empty (\<open>None\<close>); \<open>try_pop\<close> returns no request.\<close>

definition request_pop :: "'r request_queue \<Rightarrow> ('r \<times> 'r request_queue) option" where
  "request_pop q = (case q of [] \<Rightarrow> None | r # q' \<Rightarrow> Some (r, q'))"

definition request_try_pop :: "'r request_queue \<Rightarrow> 'r option \<times> 'r request_queue" where
  "request_try_pop q = (case q of [] \<Rightarrow> (None, q) | r # q' \<Rightarrow> (Some r, q'))"

subsection \<open>Posting, for one caller\<close>

record timer_service =
  service_port :: uptr
  requests :: "timer_request request_queue"
  n_active_reactors :: u32
  n_inflight_timers :: u32

definition CLOSED :: u32 where
  "CLOSED = 1"

definition NEW_REACTOR :: u32 where
  "NEW_REACTOR = 2"

definition add_inflight_timer :: "timer_service \<Rightarrow> timer_service" where
  "add_inflight_timer s = s\<lparr>n_inflight_timers := n_inflight_timers s + 1\<rparr>"

definition remove_inflight_timer :: "timer_service \<Rightarrow> timer_service" where
  "remove_inflight_timer s = s\<lparr>n_inflight_timers := n_inflight_timers s - 1\<rparr>"

definition post :: "uptr \<Rightarrow> int \<Rightarrow> uptr \<Rightarrow> uptr \<Rightarrow> timer_service \<Rightarrow> bool \<times> timer_service" where
  "post created timeout handler ctx s =
     (if n_active_reactors s AND CLOSED \<noteq> 0 then (False, s)
      else let s = add_inflight_timer s;
               req = timer_request_owned created (service_port s) (timeout_to_filetime timeout) handler ctx
           in (True, s\<lparr>requests := request_push req (requests s)\<rparr>))"

definition post_with_handle :: "uptr \<Rightarrow> int \<Rightarrow> uptr \<Rightarrow> uptr \<Rightarrow> timer_service \<Rightarrow> bool \<times> timer_service" where
  "post_with_handle timer timeout handler ctx s =
     (if n_active_reactors s AND CLOSED \<noteq> 0 then (False, s)
      else let s = add_inflight_timer s;
               req = timer_request_user (service_port s) (timeout_to_filetime timeout) timer handler ctx
           in (True, s\<lparr>requests := request_push req (requests s)\<rparr>))"

record timer_awaitable =
  posted :: bool
  aw_timeout :: filetime
  user_timer :: uptr

definition post_awaitable :: "int \<Rightarrow> timer_awaitable" where
  "post_awaitable timeout = \<lparr>posted = False, aw_timeout = timeout_to_filetime timeout, user_timer = 0\<rparr>"

definition awaitable_with_timer :: "uptr \<Rightarrow> int \<Rightarrow> timer_awaitable" where
  "awaitable_with_timer timer timeout =
     \<lparr>posted = False, aw_timeout = timeout_to_filetime timeout, user_timer = timer\<rparr>"

text \<open>
  \<open>resume_awaiting_coroutine\<close> is the address of that function, which resumes its context. The
  result \<open>False\<close> does not suspend; \<open>await_resume\<close> then reports that nothing was posted.
\<close>

definition timer_await_suspend ::
  "uptr \<Rightarrow> uptr \<Rightarrow> uptr \<Rightarrow> timer_awaitable \<Rightarrow> timer_service \<Rightarrow> bool \<times> timer_awaitable \<times> timer_service" where
  "timer_await_suspend resume_awaiting_coroutine created awaiting_coro aw s =
     (if n_active_reactors s AND CLOSED \<noteq> 0 then (False, aw, s)
      else let s = add_inflight_timer s; aw = aw\<lparr>posted := True\<rparr>;
               request = (if user_timer aw \<noteq> 0
                 then timer_request_user (service_port s) (aw_timeout aw) (user_timer aw)
                        resume_awaiting_coroutine awaiting_coro
                 else timer_request_owned created (service_port s) (aw_timeout aw)
                        resume_awaiting_coroutine awaiting_coro)
           in (True, aw, s\<lparr>requests := request_push request (requests s)\<rparr>))"

text \<open>
  One completion in the loop of \<open>run\<close>: a request is counted off and destroyed after its handler;
  the result is the handler to call with its context, and the handles closed.
\<close>

definition serve_completion :: "timer_request \<Rightarrow> timer_service \<Rightarrow> timer_service \<times> (uptr \<times> uptr) \<times> uptr list" where
  "serve_completion req s =
     (remove_inflight_timer s, (completion_handler req, rq_ctx req), timer_request_destroy req)"

lemma awaited_timer_resumes:
  assumes "timer_await_suspend f created c (post_awaitable ns) s = (True, aw, s')"
  shows "\<exists>req. requests s' = requests s @ [req] \<and> posted aw \<and>
    serve_completion req s' = (s'\<lparr>n_inflight_timers := n_inflight_timers s\<rparr>, (f, c), [created])"
  using assms
  by (auto simp: timer_await_suspend_def Let_def post_awaitable_def request_push_def serve_completion_def
      add_inflight_timer_def remove_inflight_timer_def timer_request_owned_def timer_request_destroy_def
      split: if_splits)


subsection \<open>Entering the reactor\<close>

text \<open>
  The loop of \<open>try_enter_reactor\<close> goes round while the compare-exchange \<^emph>\<open>succeeds\<close>. A turn sees
  \<open>state\<close>: \<open>Inl\<close> is another turn, with \<open>state\<close> as it was, \<open>Inr\<close> is the result.
\<close>

definition enter_turn :: "u32 \<Rightarrow> u32 \<Rightarrow> u32 \<times> (u32 + bool)" where
  "enter_turn state reactors =
     (if state AND CLOSED \<noteq> 0 then (reactors, Inr False)
      else if reactors = state then (state + NEW_REACTOR, Inl state)
      else (reactors, Inr True))"

partial_function (option) enter_loop :: "u32 \<Rightarrow> u32 \<Rightarrow> (u32 \<times> bool) option" where
  "enter_loop state reactors =
     (case enter_turn state reactors of
        (reactors, Inl state) \<Rightarrow> enter_loop state reactors
      | (reactors, Inr entered) \<Rightarrow> Some (reactors, entered))"

declare enter_loop.simps [code]

definition try_enter_reactor :: "u32 \<Rightarrow> (u32 \<times> bool) option" where
  "try_enter_reactor reactors = enter_loop reactors reactors"

definition leave_reactor :: "u32 \<Rightarrow> u32" where
  "leave_reactor reactors = reactors - NEW_REACTOR"

text \<open>\<open>shutdown\<close> closes the word and later posts as many packets as the word then says.\<close>

definition close_service :: "u32 \<Rightarrow> u32 \<times> bool" where
  "close_service state = (state OR CLOSED, state AND CLOSED = 0)"

definition shutdown_packets :: "u32 \<Rightarrow> nat" where
  "shutdown_packets remaining_reactors = unat remaining_reactors"

lemma try_enter_alone:
  "try_enter_reactor w = Some (if w AND CLOSED \<noteq> 0 then (w, False) else (w + NEW_REACTOR, True))"
  unfolding try_enter_reactor_def
  by (subst enter_loop.simps, subst enter_loop.simps) (auto simp: enter_turn_def NEW_REACTOR_def)

text \<open>
  Reactor threads that interleave: each loads the word, takes its turns, serves, and leaves. A
  compare-exchange may also fail spuriously.
\<close>

datatype reactor_pc = ROutside | REntering u32 | RServing | RRefused | RLeft

inductive reactor_step :: "u32 \<times> reactor_pc list \<Rightarrow> u32 \<times> reactor_pc list \<Rightarrow> bool" where
  load: "i < length rs \<Longrightarrow> rs ! i = ROutside \<Longrightarrow> reactor_step (w, rs) (w, rs[i := REntering w])"
| turn: "i < length rs \<Longrightarrow> rs ! i = REntering s \<Longrightarrow> enter_turn s w = (w', Inl s') \<Longrightarrow>
    reactor_step (w, rs) (w', rs[i := REntering s'])"
| entered: "i < length rs \<Longrightarrow> rs ! i = REntering s \<Longrightarrow> enter_turn s w = (w', Inr b) \<Longrightarrow>
    reactor_step (w, rs) (w', rs[i := if b then RServing else RRefused])"
| spurious: "i < length rs \<Longrightarrow> rs ! i = REntering s \<Longrightarrow> s AND CLOSED = 0 \<Longrightarrow>
    reactor_step (w, rs) (w, rs[i := RServing])"
| left: "i < length rs \<Longrightarrow> rs ! i = RServing \<Longrightarrow> reactor_step (w, rs) (leave_reactor w, rs[i := RLeft])"

definition serving :: "reactor_pc list \<Rightarrow> nat" where
  "serving rs = length (filter (\<lambda>r. r = RServing) rs)"

text \<open>
  The reactor count: a thread that enters an open service undisturbed is counted once, by
  virtue of the failure of its second turn; but of two threads that enter at the same time one
  is not counted, and when both have left the word is \<open>2^32 - 2\<close>, for which shutdown would
  post more than four thousand million packets.
\<close>
lemma reactors_miscounted:
  "(\<forall>w. w AND CLOSED = 0 \<longrightarrow> try_enter_reactor w = Some (w + NEW_REACTOR, True)) \<and>
   (\<exists>rs. reactor_step\<^sup>*\<^sup>* (0, [ROutside, ROutside]) (NEW_REACTOR, rs) \<and> serving rs = 2) \<and>
   reactor_step\<^sup>*\<^sup>* (0, [ROutside, ROutside]) (2 ^ 32 - 2, [RLeft, RLeft]) \<and>
   shutdown_packets (fst (close_service (2 ^ 32 - 2))) = 2 ^ 32 - 1"
proof -
  have s1: "reactor_step (0, [ROutside, ROutside]) (0, [REntering 0, ROutside])"
    using reactor_step.load [of 0 "[ROutside, ROutside]" 0] by simp
  have s2: "reactor_step (0, [REntering 0, ROutside]) (0, [REntering 0, REntering 0])"
    using reactor_step.load [of 1 "[REntering 0, ROutside]" 0] by simp
  have s3: "reactor_step (0, [REntering 0, REntering 0]) (NEW_REACTOR, [REntering 0, REntering 0])"
    using reactor_step.turn [of 0 "[REntering 0, REntering 0]" 0 0 NEW_REACTOR 0]
    by (simp add: enter_turn_def)
  have s4: "reactor_step (NEW_REACTOR, [REntering 0, REntering 0]) (NEW_REACTOR, [REntering 0, RServing])"
    using reactor_step.entered [of 1 "[REntering 0, REntering 0]" 0 NEW_REACTOR NEW_REACTOR True]
    by (simp add: enter_turn_def NEW_REACTOR_def)
  have s5: "reactor_step (NEW_REACTOR, [REntering 0, RServing]) (NEW_REACTOR, [RServing, RServing])"
    using reactor_step.entered [of 0 "[REntering 0, RServing]" 0 NEW_REACTOR NEW_REACTOR True]
    by (simp add: enter_turn_def NEW_REACTOR_def)
  have s6: "reactor_step (NEW_REACTOR, [RServing, RServing]) (0, [RLeft, RServing])"
    using reactor_step.left [of 0 "[RServing, RServing]" NEW_REACTOR] by (simp add: leave_reactor_def)
  have eq: "2 ^ 32 - 2 = 0 - NEW_REACTOR" by (subst eq_iff_diff_eq_0) (simp add: NEW_REACTOR_def)
  have s7: "reactor_step (0, [RLeft, RServing]) (2 ^ 32 - 2, [RLeft, RLeft])"
    unfolding eq using reactor_step.left [of 1 "[RLeft, RServing]" 0] by (simp add: leave_reactor_def)
  have two: "reactor_step\<^sup>*\<^sup>* (0, [ROutside, ROutside]) (NEW_REACTOR, [RServing, RServing])"
    using s1 s2 s3 s4 s5 by (meson converse_rtranclp_into_rtranclp rtranclp.rtrancl_refl)
  then have "reactor_step\<^sup>*\<^sup>* (0, [ROutside, ROutside]) (2 ^ 32 - 2, [RLeft, RLeft])"
    using s6 s7 by (meson rtranclp.rtrancl_into_rtrancl)
  moreover have "shutdown_packets (fst (close_service (2 ^ 32 - 2))) = 2 ^ 32 - 1"
    by (simp add: shutdown_packets_def close_service_def CLOSED_def)
  moreover have "serving [RServing, RServing] = 2" by (simp add: serving_def)
  ultimately show ?thesis using two try_enter_alone by auto
qed


subsection \<open>Shutdown\<close>

text \<open>
  Requests by number. \<open>armed\<close> are the timers set and not fired; \<open>apcs\<close> the procedure calls queued
  to the worker thread; \<open>packets\<close> the completions on the port. A posting thread tests the closed
  flag, counts its timer and pushes its request in three actions. The worker delivers procedure
  calls where it waits alertably: in \<open>pop\<close>, in \<open>try_pop\<close> and in \<open>SleepEx\<close>, which returns when it has
  delivered all that are queued.
\<close>

datatype apc = Expired nat | ShutdownRequest

datatype worker_pc = WServing | WDraining | WChecking | WSleeping | WExited

datatype poster_pc = Posting nat | Checked nat | Counted nat | Posted | Denied

datatype closer_pc = CIdle | CClosed | CWaiting | CReturned

datatype packet = Completion nat | Shutdown_Packet

record service_world =
  active :: u32
  inflight :: u32
  reqs :: "nat request_queue"
  armed :: "nat multiset"
  apcs :: "apc list"
  packets :: "packet list"
  worker :: worker_pc

record timer_world = service_world +
  posters :: "poster_pc list"
  closer :: closer_pc

fun expirations :: "apc list \<Rightarrow> nat list" where
  "expirations [] = []"
| "expirations (Expired r # as) = r # expirations as"
| "expirations (ShutdownRequest # as) = expirations as"

text \<open>The completions among the packets; what else the port holds tells reactors to end.\<close>

fun completions :: "packet list \<Rightarrow> nat list" where
  "completions [] = []"
| "completions (Completion r # ps) = r # completions ps"
| "completions (Shutdown_Packet # ps) = completions ps"

text \<open>The worker thread, with the timers of the system and the procedure calls it is delivered.\<close>

inductive worker_step :: "'a service_world_scheme \<Rightarrow> 'a service_world_scheme \<Rightarrow> bool" where
  serve: "worker w = WServing \<Longrightarrow> request_pop (reqs w) = Some (r, q) \<Longrightarrow>
    worker_step w (w\<lparr>reqs := q, armed := add_mset r (armed w)\<rparr>)"
| fires: "armed w = add_mset r m \<Longrightarrow> worker_step w (w\<lparr>armed := m, apcs := apcs w @ [Expired r]\<rparr>)"
| expired: "worker w \<in> {WServing, WDraining} \<Longrightarrow> apcs w = Expired r # as \<Longrightarrow>
    worker_step w (w\<lparr>apcs := as, packets := packets w @ [Completion r]\<rparr>)"
| asked: "worker w = WServing \<Longrightarrow> apcs w = ShutdownRequest # as \<Longrightarrow>
    worker_step w (w\<lparr>apcs := as, worker := WDraining\<rparr>)"
| drain: "worker w = WDraining \<Longrightarrow> request_try_pop (reqs w) = (Some r, q) \<Longrightarrow>
    worker_step w (w\<lparr>reqs := q, armed := add_mset r (armed w)\<rparr>)"
| drained: "worker w = WDraining \<Longrightarrow> request_try_pop (reqs w) = (None, q) \<Longrightarrow>
    worker_step w (w\<lparr>worker := WChecking\<rparr>)"
| sleeps: "worker w = WChecking \<Longrightarrow> inflight w > 0 \<Longrightarrow> worker_step w (w\<lparr>worker := WSleeping\<rparr>)"
| exits: "worker w = WChecking \<Longrightarrow> inflight w = 0 \<Longrightarrow> worker_step w (w\<lparr>worker := WExited\<rparr>)"
| wakes: "worker w = WSleeping \<Longrightarrow> apcs w \<noteq> [] \<Longrightarrow>
    worker_step w (w\<lparr>apcs := [], packets := packets w @ map Completion (expirations (apcs w)), worker := WChecking\<rparr>)"

inductive_cases worker_stepE: "worker_step w w'"

lemmas worker_step_cases = worker_stepE [consumes 1, case_names serve fires expired asked drain drained
  sleeps exits wakes]

text \<open>The whole service: posting threads, the worker, a reactor, and one call of \<open>shutdown\<close>.\<close>

inductive timer_step :: "timer_world \<Rightarrow> timer_world \<Rightarrow> bool" where
  check: "i < length (posters w) \<Longrightarrow> posters w ! i = Posting r \<Longrightarrow>
    timer_step w (w\<lparr>posters := (posters w)[i := if active w AND CLOSED \<noteq> 0 then Denied else Checked r]\<rparr>)"
| count: "i < length (posters w) \<Longrightarrow> posters w ! i = Checked r \<Longrightarrow>
    timer_step w (w\<lparr>inflight := inflight w + 1, posters := (posters w)[i := Counted r]\<rparr>)"
| push: "i < length (posters w) \<Longrightarrow> posters w ! i = Counted r \<Longrightarrow>
    timer_step w (w\<lparr>reqs := request_push r (reqs w), posters := (posters w)[i := Posted]\<rparr>)"
| works: "worker_step w w' \<Longrightarrow> timer_step w w'"
| reactor: "packets w = Completion r # ps \<Longrightarrow> timer_step w (w\<lparr>packets := ps, inflight := inflight w - 1\<rparr>)"
| close: "closer w = CIdle \<Longrightarrow> close_service (active w) = (a, first_call) \<Longrightarrow>
    timer_step w (w\<lparr>active := a, closer := if first_call then CClosed else CReturned\<rparr>)"
| ask: "closer w = CClosed \<Longrightarrow> timer_step w (w\<lparr>apcs := apcs w @ [ShutdownRequest], closer := CWaiting\<rparr>)"
| returns: "closer w = CWaiting \<Longrightarrow> worker w = WExited \<Longrightarrow> timer_step w (w\<lparr>closer := CReturned\<rparr>)"

inductive_cases timer_stepE: "timer_step w w'"

lemmas timer_step_cases = timer_stepE [consumes 1, case_names check count push works reactor close
  ask returns]

definition timer_start :: "u32 \<Rightarrow> nat list \<Rightarrow> timer_world" where
  "timer_start reactors rs = \<lparr>active = reactors, inflight = 0, reqs = [], armed = {#}, apcs = [],
     packets = [], worker = WServing, posters = map Posting rs, closer = CIdle\<rparr>"

text \<open>The requests that are counted as in flight, and the invariant that the counter counts them.\<close>

fun counted :: "poster_pc \<Rightarrow> nat" where
  "counted (Counted r) = 1"
| "counted _ = 0"

definition in_flight :: "timer_world \<Rightarrow> nat" where
  "in_flight w = (\<Sum>i<length (posters w). counted (posters w ! i)) + length (reqs w) + size (armed w) +
     length (expirations (apcs w)) + length (completions (packets w))"

lemma completions_append [simp]: "completions (ps @ qs) = completions ps @ completions qs"
  by (induction ps rule: completions.induct) simp_all

lemma completions_Completion [simp]: "completions (map Completion rs) = rs"
  by (induction rs) simp_all

definition timer_inv :: "timer_world \<Rightarrow> bool" where
  "timer_inv w \<longleftrightarrow> inflight w = of_nat (in_flight w)"

lemma expirations_append [simp]: "expirations (as @ bs) = expirations as @ expirations bs"
  by (induction as rule: expirations.induct) simp_all

lemma counted_update:
  "i < length xs \<Longrightarrow> (\<Sum>j<length xs. counted (xs[i := x] ! j)) + counted (xs ! i) =
     (\<Sum>j<length xs. counted (xs ! j)) + counted x"
  using sum_nth_update [of i xs "\<lambda>_. counted" x] .

lemmas queue_simps = request_push_def request_pop_def request_try_pop_def

lemma worker_step_posters: "worker_step w w' \<Longrightarrow> posters w' = posters w"
  by (cases rule: worker_step_cases) auto

lemma worker_step_in_flight:
  assumes "worker_step w w'"
  shows "in_flight w' = in_flight w" "inflight w' = inflight w"
  using assms by (cases rule: worker_step_cases; auto simp: in_flight_def queue_simps split: list.splits)+

lemma timer_inv_step:
  assumes "timer_step w w'" "timer_inv w"
  shows "timer_inv w'"
  using assms(1)
proof (cases rule: timer_step_cases)
  case (check i r)
  with assms(2) counted_update [of i "posters w" "if active w AND CLOSED \<noteq> 0 then Denied else Checked r"]
  show ?thesis by (auto simp: timer_inv_def in_flight_def)
next
  case (count i r)
  with assms(2) counted_update [of i "posters w" "Counted r"] show ?thesis
    by (simp add: timer_inv_def in_flight_def)
next
  case (push i r)
  then have "in_flight w' = in_flight w" "inflight w' = inflight w"
    using counted_update [of i "posters w" Posted] by (simp_all add: in_flight_def queue_simps)
  with assms(2) show ?thesis by (simp add: timer_inv_def)
next
  case works
  with assms(2) worker_step_in_flight [OF works] show ?thesis by (simp add: timer_inv_def)
next
  case (reactor r ps)
  with assms(2) show ?thesis by (simp add: timer_inv_def in_flight_def)
qed (use assms(2) in \<open>auto simp: timer_inv_def in_flight_def queue_simps split: list.splits\<close>)


text \<open>Each thread posts once: the timers in flight are no more than the threads.\<close>

fun unsettled :: "poster_pc \<Rightarrow> nat" where
  "unsettled Posted = 0"
| "unsettled Denied = 0"
| "unsettled _ = 1"

definition pending :: "timer_world \<Rightarrow> nat" where
  "pending w = (\<Sum>i<length (posters w). unsettled (posters w ! i)) + length (reqs w) + size (armed w) +
     length (expirations (apcs w)) + length (completions (packets w))"

lemma unsettled_update:
  "i < length xs \<Longrightarrow> (\<Sum>j<length xs. unsettled (xs[i := x] ! j)) + unsettled (xs ! i) =
     (\<Sum>j<length xs. unsettled (xs ! j)) + unsettled x"
  using sum_nth_update [of i xs "\<lambda>_. unsettled" x] .

lemma pending_step:
  assumes "timer_step w w'"
  shows "pending w' \<le> pending w"
  using assms
proof (cases rule: timer_step_cases)
  case (check i r)
  with unsettled_update [of i "posters w" "if active w AND CLOSED \<noteq> 0 then Denied else Checked r"]
  show ?thesis by (auto simp: pending_def)
next
  case (count i r)
  with unsettled_update [of i "posters w" "Counted r"] show ?thesis by (simp add: pending_def)
next
  case (push i r)
  with unsettled_update [of i "posters w" Posted] show ?thesis by (simp add: pending_def queue_simps)
next
  case works
  then show ?thesis
    by (cases rule: worker_step_cases; auto simp: pending_def queue_simps split: list.splits)
qed (auto simp: pending_def queue_simps split: list.splits)

lemma in_flight_le_pending: "in_flight w \<le> pending w"
proof -
  have "counted x \<le> unsettled x" for x by (cases x) simp_all
  then show ?thesis by (simp add: in_flight_def pending_def sum_mono)
qed

lemma timer_run_inv:
  assumes "timer_step\<^sup>*\<^sup>* (timer_start k rs) w"
  shows "timer_inv w \<and> pending w \<le> length rs"
  using assms
proof (induction rule: rtranclp_induct)
  case base
  then show ?case by (simp add: timer_start_def timer_inv_def in_flight_def pending_def)
next
  case (step w w')
  with timer_inv_step pending_step [of w w'] show ?case by auto
qed

text \<open>
  C29. The worker thread, on which shutdown waits, ends only when every timer that was counted has
  fired and its completion was taken by a reactor: at that moment no request is queued, armed,
  expired or on the port, and no posting thread is between counting and pushing.
\<close>
theorem worker_ends_after_all_timers:
  assumes "timer_step\<^sup>*\<^sup>* (timer_start k rs) w" and "length rs < 2 ^ 32"
    and "timer_step w w'" and "worker w \<noteq> WExited" and "worker w' = WExited"
  shows "reqs w' = [] \<and> armed w' = {#} \<and> expirations (apcs w') = [] \<and> completions (packets w') = [] \<and>
    (\<forall>i<length (posters w'). \<forall>r. posters w' ! i \<noteq> Counted r)"
proof -
  have inv: "inflight w = of_nat (in_flight w)" "in_flight w < 2 ^ 32"
    using timer_run_inv [OF assms(1)] in_flight_le_pending [of w] assms(2)
    by (auto simp: timer_inv_def)
  have w': "inflight w = 0" "w' = w\<lparr>worker := WExited\<rparr>"
    using assms(3-5)
    by (cases rule: timer_step_cases; auto elim: worker_stepE)+
  then have "unat (of_nat (in_flight w) :: u32) = 0" using inv(1) by simp
  then have "in_flight w = 0" using inv(2) by (simp add: unat_of_nat take_bit_nat_eq_self)
  then have z: "counted (posters w ! i) = 0" if "i < length (posters w)" for i
    using that by (auto simp: in_flight_def)
  have "reqs w = [] \<and> armed w = {#} \<and> expirations (apcs w) = [] \<and> completions (packets w) = []"
    using \<open>in_flight w = 0\<close> by (auto simp: in_flight_def)
  moreover have "posters w ! i \<noteq> Counted r" if "i < length (posters w)" for i r
    using z [OF that] by auto
  ultimately show ?thesis using w'(2) by simp
qed

lemma empty_service_shuts_down:
  "\<exists>w. timer_step\<^sup>*\<^sup>* (timer_start 0 []) w \<and> timer_step w (w\<lparr>worker := WExited\<rparr>) \<and> worker w = WChecking \<and>
    reqs w = []"
proof -
  let ?w = "\<lambda>a as pc c. \<lparr>active = a, inflight = 0, reqs = [], armed = {#}, apcs = as, packets = [],
    worker = pc, posters = [], closer = c\<rparr>"
  have "timer_step (timer_start 0 []) (?w 1 [] WServing CClosed)"
    using timer_step.close [of "timer_start 0 []" 1 True]
    by (simp add: timer_start_def close_service_def CLOSED_def)
  moreover have "timer_step (?w 1 [] WServing CClosed) (?w 1 [ShutdownRequest] WServing CWaiting)"
    using timer_step.ask [of "?w 1 [] WServing CClosed"] by simp
  moreover have "timer_step (?w 1 [ShutdownRequest] WServing CWaiting) (?w 1 [] WDraining CWaiting)"
    using timer_step.works [OF worker_step.asked [of "?w 1 [ShutdownRequest] WServing CWaiting"]] by simp
  moreover have "timer_step (?w 1 [] WDraining CWaiting) (?w 1 [] WChecking CWaiting)"
    using timer_step.works [OF worker_step.drained [of "?w 1 [] WDraining CWaiting"]] by (simp add: queue_simps)
  moreover have "timer_step (?w 1 [] WChecking CWaiting) (?w 1 [] WExited CWaiting)"
    using timer_step.works [OF worker_step.exits [of "?w 1 [] WChecking CWaiting"]] by simp
  ultimately show ?thesis
    by (intro exI [of _ "?w 1 [] WChecking CWaiting"])
      (auto intro: converse_rtranclp_into_rtranclp)
qed

theorem worker_ends_after_all_timers_witness:
  "\<exists>w. timer_step\<^sup>*\<^sup>* (timer_start 0 []) w \<and> worker w = WExited \<and> armed w = {#}"
proof -
  obtain w where w: "timer_step\<^sup>*\<^sup>* (timer_start 0 []) w" "timer_step w (w\<lparr>worker := WExited\<rparr>)"
    "worker w = WChecking"
    using empty_service_shuts_down by blast
  then have "armed (w\<lparr>worker := WExited\<rparr>) = {#}"
    using worker_ends_after_all_timers [OF w(1) _ w(2)] by simp
  with w show ?thesis by (intro exI [of _ "w\<lparr>worker := WExited\<rparr>"]) auto
qed

text \<open>
  Shutdown can hang: the worker is woken by the last timer, finds the counter not yet
  decremented, and sleeps again; then the reactor decrements the counter, and nothing is left that
  would wake the worker, although no timer is in flight.
\<close>
lemma shutdown_can_hang:
  "\<exists>w. timer_step\<^sup>*\<^sup>* (timer_start NEW_REACTOR [r]) w \<and> closer w = CWaiting \<and> worker w = WSleeping \<and>
    inflight w = 0 \<and> (\<forall>w'. \<not> timer_step w w')"
proof -
  let ?w = "\<lambda>a n q m as ps pc po c. \<lparr>active = a, inflight = n, reqs = q, armed = m, apcs = as, packets = ps,
    worker = pc, posters = [po], closer = c\<rparr>"
  have "timer_step (timer_start NEW_REACTOR [r]) (?w 2 0 [] {#} [] [] WServing (Checked r) CIdle)"
    using timer_step.check [of 0 "timer_start NEW_REACTOR [r]" r]
    by (simp add: timer_start_def NEW_REACTOR_def CLOSED_def)
  moreover have "timer_step (?w 2 0 [] {#} [] [] WServing (Checked r) CIdle)
      (?w 2 1 [] {#} [] [] WServing (Counted r) CIdle)"
    using timer_step.count [of 0 "?w 2 0 [] {#} [] [] WServing (Checked r) CIdle" r] by simp
  moreover have "timer_step (?w 2 1 [] {#} [] [] WServing (Counted r) CIdle)
      (?w 2 1 [r] {#} [] [] WServing Posted CIdle)"
    using timer_step.push [of 0 "?w 2 1 [] {#} [] [] WServing (Counted r) CIdle" r]
    by (simp add: queue_simps)
  moreover have "timer_step (?w 2 1 [r] {#} [] [] WServing Posted CIdle) (?w 2 1 [] {#r#} [] [] WServing Posted CIdle)"
    using timer_step.works [OF worker_step.serve [of "?w 2 1 [r] {#} [] [] WServing Posted CIdle" r "[]"]] by (simp add: queue_simps)
  moreover have "timer_step (?w 2 1 [] {#r#} [] [] WServing Posted CIdle) (?w 3 1 [] {#r#} [] [] WServing Posted CClosed)"
    using timer_step.close [of "?w 2 1 [] {#r#} [] [] WServing Posted CIdle" 3 True]
    by (simp add: close_service_def CLOSED_def)
  moreover have "timer_step (?w 3 1 [] {#r#} [] [] WServing Posted CClosed)
      (?w 3 1 [] {#r#} [ShutdownRequest] [] WServing Posted CWaiting)"
    using timer_step.ask [of "?w 3 1 [] {#r#} [] [] WServing Posted CClosed"] by simp
  moreover have "timer_step (?w 3 1 [] {#r#} [ShutdownRequest] [] WServing Posted CWaiting)
      (?w 3 1 [] {#r#} [] [] WDraining Posted CWaiting)"
    using timer_step.works [OF worker_step.asked [of "?w 3 1 [] {#r#} [ShutdownRequest] [] WServing Posted CWaiting"]] by simp
  moreover have "timer_step (?w 3 1 [] {#r#} [] [] WDraining Posted CWaiting) (?w 3 1 [] {#r#} [] [] WChecking Posted CWaiting)"
    using timer_step.works [OF worker_step.drained [of "?w 3 1 [] {#r#} [] [] WDraining Posted CWaiting"]] by (simp add: queue_simps)
  moreover have "timer_step (?w 3 1 [] {#r#} [] [] WChecking Posted CWaiting) (?w 3 1 [] {#r#} [] [] WSleeping Posted CWaiting)"
    using timer_step.works [OF worker_step.sleeps [of "?w 3 1 [] {#r#} [] [] WChecking Posted CWaiting"]] by simp
  moreover have "timer_step (?w 3 1 [] {#r#} [] [] WSleeping Posted CWaiting)
      (?w 3 1 [] {#} [Expired r] [] WSleeping Posted CWaiting)"
    using timer_step.works [OF worker_step.fires [of "?w 3 1 [] {#r#} [] [] WSleeping Posted CWaiting" r "{#}"]] by simp
  moreover have "timer_step (?w 3 1 [] {#} [Expired r] [] WSleeping Posted CWaiting)
      (?w 3 1 [] {#} [] [Completion r] WChecking Posted CWaiting)"
    using timer_step.works [OF worker_step.wakes [of "?w 3 1 [] {#} [Expired r] [] WSleeping Posted CWaiting"]] by simp
  moreover have "timer_step (?w 3 1 [] {#} [] [Completion r] WChecking Posted CWaiting) (?w 3 1 [] {#} [] [Completion r] WSleeping Posted CWaiting)"
    using timer_step.works [OF worker_step.sleeps [of "?w 3 1 [] {#} [] [Completion r] WChecking Posted CWaiting"]] by simp
  moreover have "timer_step (?w 3 1 [] {#} [] [Completion r] WSleeping Posted CWaiting) (?w 3 0 [] {#} [] [] WSleeping Posted CWaiting)"
    using timer_step.reactor [of "?w 3 1 [] {#} [] [Completion r] WSleeping Posted CWaiting" r "[]"] by simp
  ultimately have "timer_step\<^sup>*\<^sup>* (timer_start NEW_REACTOR [r]) (?w 3 0 [] {#} [] [] WSleeping Posted CWaiting)"
    by (meson converse_rtranclp_into_rtranclp rtranclp.rtrancl_refl)
  moreover have "\<not> timer_step (?w 3 0 [] {#} [] [] WSleeping Posted CWaiting) w'" for w'
    by (auto elim!: timer_stepE worker_stepE simp: queue_simps)
  ultimately show ?thesis
    by (intro exI [of _ "?w 3 0 [] {#} [] [] WSleeping Posted CWaiting"]) simp
qed

end
