(* ===== verification/Lazy.thy ===== *)
theory Lazy
  imports Prelude
begin

text \<open>
  The lazy value of primitives/lazy/lazy.hpp: the promise, the owner and its \<open>get\<close>, over a store of
  coroutine frames. The body computes to its end in one go: it returns a value or throws.
\<close>

datatype 'v computation = Returns 'v | Throws

record 'v lazy_frame =
  body :: "'v computation"
  promise_value :: "'v option"

type_synonym 'v lazy_store = "nat \<rightharpoonup> 'v lazy_frame"

record 'v lazy =
  lazy_value :: "'v option"
  lazy_handle :: "nat option"

text \<open>The call of the coroutine: \<open>initial_suspend\<close> suspends, and the owner gets the handle.\<close>

definition lazy_call :: "nat \<Rightarrow> 'v computation \<Rightarrow> 'v lazy_store \<Rightarrow> 'v lazy \<times> 'v lazy_store" where
  "lazy_call h c st =
     (\<lparr>lazy_value = None, lazy_handle = Some h\<rparr>, st(h \<mapsto> \<lparr>body = c, promise_value = None\<rparr>))"

text \<open>
  Resuming: \<open>return_value\<close> stores in the promise, and \<open>final_suspend\<close> does not suspend, so that the
  frame, with its promise, is destroyed when the body is done. An exception terminates the program.
\<close>

definition lazy_resume :: "nat \<Rightarrow> 'v lazy_store \<Rightarrow> 'v lazy_store res" where
  "lazy_resume h st =
     (case st h of
        None \<Rightarrow> Inl DeadHandle
      | Some f \<Rightarrow>
          (case body f of
             Throws \<Rightarrow> Inl (RuntimeError ''terminate'')
           | Returns v \<Rightarrow> (let st = st(h \<mapsto> f\<lparr>promise_value := Some v\<rparr>) in Inr (st(h := None)))))"

definition lazy_promise_value :: "nat \<Rightarrow> 'v lazy_store \<Rightarrow> 'v res" where
  "lazy_promise_value h st =
     (case st h of
        None \<Rightarrow> Inl DeadHandle
      | Some f \<Rightarrow> (case promise_value f of None \<Rightarrow> Inl WildPointer | Some v \<Rightarrow> Inr v))"

definition lazy_free :: "nat \<Rightarrow> 'v lazy_store \<Rightarrow> 'v lazy_store res" where
  "lazy_free h st = (if st h = None then Inl DeadHandle else Inr (st(h := None)))"

definition lazy_get :: "'v lazy \<Rightarrow> 'v lazy_store \<Rightarrow> ('v \<times> 'v lazy \<times> 'v lazy_store) res" where
  "lazy_get l st =
     bindE (case lazy_handle l of
        None \<Rightarrow> Inr (l, st)
      | Some h \<Rightarrow>
          bindE (lazy_resume h st) (\<lambda>st.
          bindE (lazy_promise_value h st) (\<lambda>v.
          bindE (lazy_free h st) (\<lambda>st.
            Inr (\<lparr>lazy_value = Some v, lazy_handle = None\<rparr>, st)))))
      (\<lambda>(l, st). case lazy_value l of
         None \<Rightarrow> Inl (RuntimeError ''bad optional access'')
       | Some v \<Rightarrow> Inr (v, l, st))"

definition lazy_destroy :: "'v lazy \<Rightarrow> 'v lazy_store \<Rightarrow> 'v lazy_store res" where
  "lazy_destroy l st = (case lazy_handle l of None \<Rightarrow> Inr st | Some h \<Rightarrow> lazy_free h st)"

text \<open>
  \<open>get\<close> never yields a value: whatever the computation, it reads the promise of a destroyed frame or
  the program has terminated; only a lazy value that nobody asks for is destroyed properly.
\<close>

lemma lazy_get_reads_dead_frame:
  assumes "lazy_call h c st = (l, st1)"
  shows "lazy_get l st1 = (case c of Returns v \<Rightarrow> Inl DeadHandle | Throws \<Rightarrow> Inl (RuntimeError ''terminate''))"
    and "lazy_destroy l st1 = Inr (st(h := None))"
  using assms
  by (auto simp: lazy_call_def lazy_get_def lazy_resume_def lazy_promise_value_def lazy_destroy_def
      lazy_free_def split: computation.splits)

end
