(* ===== verification/Epoll.thy ===== *)
theory Epoll
  imports Prelude
begin

unbundle bit_operations_syntax

text \<open>
  What the Linux parts of the repository rely on of epoll. The calls are arguments of the
  definitions that make them; \<open>epoll_documented\<close> states what their manual pages promise, in terms of
  the kernel's interest list, and is a hypothesis of the theorems that need it.
\<close>

type_synonym fd = "32 word"

definition EPOLLIN :: u32 where
  "EPOLLIN = 1"

definition EPOLLOUT :: u32 where
  "EPOLLOUT = 4"

definition EPOLLERR :: u32 where
  "EPOLLERR = 8"

definition EPOLLHUP :: u32 where
  "EPOLLHUP = 16"

lemmas epoll_bits = EPOLLIN_def EPOLLOUT_def EPOLLERR_def EPOLLHUP_def

record epoll_event =
  ep_events :: u32
  ep_ptr :: uptr

datatype ctl_op = CtlAdd | CtlMod | CtlDel

text \<open>\<open>epoll_ctl\<close>: the instance, the operation, the descriptor and the event; \<open>None\<close> is success.\<close>

type_synonym 'k epoll_ctl = "fd \<Rightarrow> ctl_op \<Rightarrow> fd \<Rightarrow> epoll_event \<Rightarrow> 'k \<Rightarrow> nat option \<times> 'k"
type_synonym 'k interest_list = "'k \<Rightarrow> fd \<Rightarrow> fd \<Rightarrow> epoll_event option"

definition ENOENT :: nat where
  "ENOENT = 2"

definition epoll_documented :: "'k epoll_ctl \<Rightarrow> 'k interest_list \<Rightarrow> bool" where
  "epoll_documented ctl interest \<longleftrightarrow>
     (\<forall>ioc op fd ev k.
        (let (r, k') = ctl ioc op fd ev k
         in if r = None
            then (op = CtlAdd \<longleftrightarrow> interest k ioc fd = None) \<and>
                 interest k' = (interest k)(ioc := (interest k ioc)(fd := if op = CtlDel then None else Some ev))
            else interest k' = interest k))"

text \<open>An event that \<open>epoll_wait\<close> may report: errors and hang-ups are reported unasked.\<close>

definition epoll_reports :: "'k interest_list \<Rightarrow> 'k \<Rightarrow> fd \<Rightarrow> fd \<Rightarrow> epoll_event \<Rightarrow> bool" where
  "epoll_reports interest k ioc fd ev \<longleftrightarrow>
     (\<exists>e. interest k ioc fd = Some e \<and> ep_ptr ev = ep_ptr e \<and> ep_events ev \<noteq> 0 \<and>
       ep_events ev AND NOT (ep_events e OR EPOLLERR OR EPOLLHUP) = 0)"

lemma ctl_success:
  assumes "epoll_documented ctl interest" "ctl ioc op fd ev k = (None, k')"
  shows "interest k' = (interest k)(ioc := (interest k ioc)(fd := if op = CtlDel then None else Some ev))"
    and "op = CtlAdd \<longleftrightarrow> interest k ioc fd = None"
  using assms(1) [unfolded epoll_documented_def, rule_format, of ioc op fd ev k] assms(2) by simp_all

lemma ctl_failure:
  assumes "epoll_documented ctl interest" "ctl ioc op fd ev k = (Some e, k')"
  shows "interest k' = interest k"
  using assms(1) [unfolded epoll_documented_def, rule_format, of ioc op fd ev k] assms(2) by simp

text \<open>A kernel that satisfies it: an association list, with the errors of the manual.\<close>

type_synonym interest_table = "((fd \<times> fd) \<times> epoll_event) list"

definition table_interest :: "interest_table \<Rightarrow> fd \<Rightarrow> fd \<Rightarrow> epoll_event option" where
  "table_interest t i f = map_of t (i, f)"

definition table_ctl :: "interest_table epoll_ctl" where
  "table_ctl i oper f ev t =
     (if (oper = CtlAdd) \<noteq> (map_of t (i, f) = None)
      then (Some (if oper = CtlAdd then 17 else ENOENT), t)
      else (None, if oper = CtlDel then filter (\<lambda>x. fst x \<noteq> (i, f)) t else ((i, f), ev) # t))"

lemma map_of_filter_keys: "map_of (filter (\<lambda>x. P (fst x)) xs) a = (if P a then map_of xs a else None)"
  by (induction xs) auto

lemma table_ctl_interest:
  "fst (table_ctl i oper f ev t) = None \<Longrightarrow>
     table_interest (snd (table_ctl i oper f ev t)) =
       (table_interest t)(i := (table_interest t i)(f := if oper = CtlDel then None else Some ev))"
  "fst (table_ctl i oper f ev t) = None \<Longrightarrow> oper = CtlAdd \<longleftrightarrow> table_interest t i f = None"
  "fst (table_ctl i oper f ev t) \<noteq> None \<Longrightarrow> snd (table_ctl i oper f ev t) = t"
  by (auto simp: table_ctl_def table_interest_def fun_eq_iff map_of_filter_keys [of "\<lambda>p. p \<noteq> q" for q]
      split: if_splits)

text \<open>A kernel state with such a table in it.\<close>

lemma table_ctl_lifts:
  assumes ctl: "\<And>i oper f ev k. ctl i oper f ev k =
      (let (r, t) = table_ctl i oper f ev (get k) in (r, put t k))"
    and get: "\<And>t k. get (put t k) = t"
  shows "epoll_documented ctl (\<lambda>k. table_interest (get k))"
  unfolding epoll_documented_def
proof (intro allI)
  fix i oper f ev k
  obtain r t where rt: "table_ctl i oper f ev (get k) = (r, t)" by fastforce
  show "let (r, k') = ctl i oper f ev k
        in if r = None
           then (oper = CtlAdd \<longleftrightarrow> table_interest (get k) i f = None) \<and>
                table_interest (get k') = (table_interest (get k))
                  (i := (table_interest (get k) i)(f := if oper = CtlDel then None else Some ev))
           else table_interest (get k') = table_interest (get k)"
    using table_ctl_interest [of i oper f ev "get k"] by (simp add: ctl get rt)
qed

text \<open>Dropping a closed descriptor.\<close>

definition table_close :: "fd \<Rightarrow> interest_table \<Rightarrow> interest_table" where
  "table_close f t = filter (\<lambda>x. fst (fst x) \<noteq> f \<and> snd (fst x) \<noteq> f) t"

lemma table_close_interest:
  "table_interest (table_close f t) = (\<lambda>i g. if i = f \<or> g = f then None else table_interest t i g)"
  by (auto simp: table_interest_def table_close_def fun_eq_iff
      map_of_filter_keys [of "\<lambda>p. fst p \<noteq> f \<and> snd p \<noteq> f"])

definition table_uses :: "fd \<Rightarrow> interest_table \<Rightarrow> bool" where
  "table_uses f t \<longleftrightarrow> f \<in> fst ` fst ` set t \<or> f \<in> snd ` fst ` set t"

lemma table_unused: "\<not> table_uses f t \<Longrightarrow> table_interest t f g = None \<and> table_interest t g f = None"
  by (force simp: table_uses_def table_interest_def map_of_eq_None_iff)

end
