(* ===== verification/Duration.thy ===== *)
theory Duration
  imports Prelude "HOL-Library.Signed_Division"
begin

text \<open>
  The part of \<open>std::chrono\<close> that the timers use: a duration is a signed 64-bit count of ticks of
  \<open>num / den\<close> seconds, and \<open>duration_cast\<close> multiplies and then divides, truncating towards zero.
  A product that does not fit is signed overflow, which is undefined.
\<close>

definition in_int64 :: "int \<Rightarrow> bool" where
  "in_int64 x \<longleftrightarrow> - (2 ^ 63) \<le> x \<and> x < 2 ^ 63"

definition checked64 :: "int \<Rightarrow> int res" where
  "checked64 x = (if in_int64 x then Inr x else Inl SignedOverflow)"

lemma checked64_Inr_iff: "checked64 x = Inr y \<longleftrightarrow> in_int64 x \<and> y = x"
  by (auto simp: checked64_def)

record duration =
  ticks :: int
  period_num :: int
  period_den :: int

definition period_ok :: "duration \<Rightarrow> bool" where
  "period_ok d \<longleftrightarrow> 0 < period_num d \<and> 0 < period_den d"

abbreviation seconds :: "int \<Rightarrow> duration" where
  "seconds n \<equiv> \<lparr>ticks = n, period_num = 1, period_den = 1\<rparr>"

text \<open>To a unit of which a second has \<open>per\<close>: the ratio of the periods is reduced first.\<close>

definition duration_cast :: "int \<Rightarrow> duration \<Rightarrow> int res" where
  "duration_cast per d =
     (let g = gcd (period_num d * per) (period_den d);
          n = period_num d * per div g;
          m = period_den d div g
      in bindE (checked64 (ticks d * n)) (\<lambda>x. Inr (x sdiv m)))"

abbreviation per_second :: int where "per_second \<equiv> 1"
abbreviation micro_per_second :: int where "micro_per_second \<equiv> 1000000"
abbreviation nano_per_second :: int where "nano_per_second \<equiv> 1000000000"

subsection \<open>Truncating division\<close>

lemma sdiv_nonneg: "0 \<le> a \<Longrightarrow> 0 < b \<Longrightarrow> (a :: int) sdiv b = a div b"
  by (simp add: signed_divide_int_def sgn_if)

lemma sdiv_minus: "(- a :: int) sdiv b = - (a sdiv b)"
  by (simp add: signed_divide_int_def sgn_minus abs_minus_cancel)

lemma sdiv_neg: "a \<le> 0 \<Longrightarrow> 0 < b \<Longrightarrow> (a :: int) sdiv b = - ((- a) div b)"
  using sdiv_minus [of "- a" b] sdiv_nonneg [of "- a" b] by simp

lemma sdiv_cancel: "0 < (g :: int) \<Longrightarrow> 0 < b \<Longrightarrow> (a * g) sdiv (b * g) = a sdiv b"
  by (cases "0 \<le> a") (simp_all add: sdiv_nonneg sdiv_neg mult_nonpos_nonneg flip: mult_minus_left)

lemma sdiv_sdiv: "0 < (b :: int) \<Longrightarrow> 0 < c \<Longrightarrow> a sdiv b sdiv c = a sdiv (b * c)"
proof -
  assume bc: "0 < b" "0 < c"
  have pos: "x sdiv b sdiv c = x sdiv (b * c)" if "0 \<le> x" for x
    using that bc by (simp add: sdiv_nonneg pos_imp_zdiv_nonneg_iff zdiv_zmult2_eq)
  show ?thesis
  proof (cases "0 \<le> a")
    case False
    then show ?thesis using pos [of "- a"] by (simp add: sdiv_minus)
  qed (rule pos)
qed

lemma duration_cast_value:
  assumes "period_ok d" "0 < per" "duration_cast per d = Inr x"
  shows "x = (ticks d * period_num d * per) sdiv period_den d"
proof -
  let ?g = "gcd (period_num d * per) (period_den d)"
  have g: "0 < ?g" using assms(1) by (simp add: period_ok_def)
  have n: "period_num d * per div ?g * ?g = period_num d * per" by simp
  have m: "period_den d div ?g * ?g = period_den d" by simp
  have m0: "0 < period_den d div ?g"
    using assms(1) g by (simp add: period_ok_def pos_imp_zdiv_pos_iff zdvd_imp_le)
  have "x = (ticks d * (period_num d * per div ?g)) sdiv (period_den d div ?g)"
    using assms(3) by (auto simp: duration_cast_def Let_def bindE_Inr_iff checked64_Inr_iff)
  also have "\<dots> = (ticks d * (period_num d * per div ?g) * ?g) sdiv (period_den d div ?g * ?g)"
    using sdiv_cancel [OF g m0] by simp
  also have "\<dots> = (ticks d * (period_num d * per)) sdiv period_den d"
    using n m by (simp only: mult.assoc)
  finally show ?thesis by (simp only: mult.assoc)
qed

lemma abs_sdiv_le: "\<bar>(a :: int) sdiv b\<bar> \<le> \<bar>a\<bar>"
proof -
  have "\<bar>a\<bar> div \<bar>b\<bar> \<le> \<bar>a\<bar>" "0 \<le> \<bar>a\<bar> div \<bar>b\<bar>"
    using zdiv_mono2 [of "\<bar>a\<bar>" 1 "\<bar>b\<bar>"] by (cases "b = 0"; simp add: pos_imp_zdiv_nonneg_iff)+
  then show ?thesis by (auto simp: signed_divide_int_def abs_mult abs_sgn_eq)
qed

lemma duration_cast_bound: "duration_cast per d = Inr x \<Longrightarrow> \<bar>x\<bar> \<le> 2 ^ 63"
proof -
  assume "duration_cast per d = Inr x"
  then obtain y m where y: "in_int64 y" "x = y sdiv m"
    by (auto simp: duration_cast_def Let_def bindE_Inr_iff checked64_Inr_iff)
  then have "\<bar>y\<bar> \<le> 2 ^ 63" by (simp add: in_int64_def abs_le_iff)
  then show ?thesis using abs_sdiv_le [of y m] y(2) by linarith
qed

text \<open>A coarser unit is the finer one divided: truncation loses nothing twice.\<close>

lemma duration_cast_coarser:
  assumes "period_ok d" "0 < per" "0 < f"
    and "duration_cast per d = Inr x" "duration_cast (per * f) d = Inr y"
  shows "x = y sdiv f"
proof -
  let ?A = "ticks d * period_num d * per"
  have b: "0 < period_den d" using assms(1) by (simp add: period_ok_def)
  have x: "x = ?A sdiv period_den d" by (rule duration_cast_value [OF assms(1,2,4)])
  have "y = (ticks d * period_num d * (per * f)) sdiv period_den d"
    by (rule duration_cast_value [OF assms(1) _ assms(5)]) (use assms(2,3) in simp)
  then have "y = (?A * f) sdiv period_den d" by (simp only: mult.assoc)
  then have "y sdiv f = (?A * f) sdiv (period_den d * f)" using sdiv_sdiv [OF b assms(3)] by simp
  then show ?thesis using x sdiv_cancel [OF assms(3) b] by simp
qed

subsection \<open>Seconds and nanoseconds\<close>

text \<open>How the timerfd timer's constructor splits its timeout.\<close>

definition timeout_split :: "duration \<Rightarrow> (int \<times> int) res" where
  "timeout_split d =
     bindE (duration_cast per_second d) (\<lambda>s.
     bindE (duration_cast nano_per_second d) (\<lambda>total.
     bindE (duration_cast nano_per_second (seconds s)) (\<lambda>whole.
     bindE (checked64 (total - whole)) (\<lambda>n. Inr (s, n)))))"

lemma sdiv_rest:
  assumes "0 < (f :: int)"
  shows "\<bar>y - y sdiv f * f\<bar> < f" and "0 \<le> y \<Longrightarrow> 0 \<le> y sdiv f \<and> 0 \<le> y - y sdiv f * f"
    and "y < 0 \<Longrightarrow> y sdiv f \<le> 0 \<and> y - y sdiv f * f \<le> 0"
proof -
  have pos: "0 \<le> z \<Longrightarrow> 0 \<le> z div f \<and> 0 \<le> z - z div f * f \<and> z - z div f * f < f" for z
    using assms by (simp add: pos_imp_zdiv_nonneg_iff minus_div_mult_eq_mod)
  show "\<bar>y - y sdiv f * f\<bar> < f"
    using pos [of y] pos [of "- y"] assms by (cases "0 \<le> y") (auto simp: sdiv_nonneg sdiv_neg)
  show "0 \<le> y \<Longrightarrow> 0 \<le> y sdiv f \<and> 0 \<le> y - y sdiv f * f"
    using pos [of y] assms by (simp add: sdiv_nonneg)
  show "y < 0 \<Longrightarrow> y sdiv f \<le> 0 \<and> y - y sdiv f * f \<le> 0"
    using pos [of "- y"] assms by (simp add: sdiv_neg)
qed

lemma timeout_split_value:
  assumes "period_ok d" "timeout_split d = Inr (s, n)"
  shows "duration_cast nano_per_second d = Inr (s * nano_per_second + n)"
    and "s = (s * nano_per_second + n) sdiv nano_per_second"
proof -
  from assms(2) obtain total where s: "duration_cast per_second d = Inr s"
    and t: "duration_cast nano_per_second d = Inr total" and n: "n = total - s * nano_per_second"
    by (auto simp: timeout_split_def bindE_Inr_iff checked64_Inr_iff duration_cast_def [of _ "seconds _"]
        signed_divide_int_def sgn_if abs_if)
  have "s = total sdiv nano_per_second"
    using duration_cast_coarser [OF assms(1) _ _ s, of nano_per_second total] t by simp
  then show "duration_cast nano_per_second d = Inr (s * nano_per_second + n)"
    "s = (s * nano_per_second + n) sdiv nano_per_second"
    using t n by simp_all
qed

end
