(* ===== verification/Expiry_Loop.thy ===== *)
theory Expiry_Loop
  imports Prelude
begin

text \<open>
  What the timer examples share: operations that fail without losing the state they had reached,
  the counted loop of their reactors, and the interface between a reactor and the one coroutine
  that its events resume.
\<close>

subsection \<open>Fallible operations on a state\<close>

type_synonym coro = nat
type_synonym ('w, 'a) op = "'w \<Rightarrow> 'a res \<times> 'w"

definition andthen :: "'a res \<times> 'w \<Rightarrow> ('a \<Rightarrow> ('w, 'b) op) \<Rightarrow> 'b res \<times> 'w" where
  "andthen r f = (case fst r of Inl e \<Rightarrow> (Inl e, snd r) | Inr a \<Rightarrow> f a (snd r))"

lemma andthen_simps [simp]:
  "andthen (Inl e, w) f = (Inl e, w)"
  "andthen (Inr a, w) f = f a w"
  by (simp_all add: andthen_def)

lemma andthen_Inr_iff: "andthen r f = (Inr b, w') \<longleftrightarrow> (\<exists>a w. r = (Inr a, w) \<and> f a w = (Inr b, w'))"
  by (cases r; cases "fst r") (auto simp: andthen_def)

subsection \<open>The counted loop\<close>

text \<open>
  One turn of a reactor goes on, breaks the loop, fails, or (\<open>None\<close>) blocks for ever. The loops
  count an \<open>unsigned long\<close> from 0 up to a number of that type, so the counter does not wrap.
\<close>

datatype 'w turn = Next 'w | Break 'w | Fail cpp_error 'w

fun count_loop :: "('w \<Rightarrow> 'w turn option) \<Rightarrow> nat \<Rightarrow> 'w \<Rightarrow> (unit res \<times> 'w) option" where
  "count_loop f 0 w = Some (Inr (), w)"
| "count_loop f (Suc n) w =
     (case f w of
        None \<Rightarrow> None
      | Some (Next w') \<Rightarrow> count_loop f n w'
      | Some (Break w') \<Rightarrow> Some (Inr (), w')
      | Some (Fail e w') \<Rightarrow> Some (Inl e, w'))"

text \<open>The loop of a thread that waits until something is signalled, while turns are played.\<close>

partial_function (option) until_loop ::
  "('w \<Rightarrow> bool) \<Rightarrow> ('w \<Rightarrow> 'w turn option) \<Rightarrow> 'w \<Rightarrow> (unit res \<times> 'w) option" where
  "until_loop stop f w =
     (if stop w then Some (Inr (), w)
      else (case f w of
              None \<Rightarrow> None
            | Some t \<Rightarrow>
                (case t of
                   Next w' \<Rightarrow> until_loop stop f w'
                 | Break w' \<Rightarrow> Some (Inr (), w')
                 | Fail e w' \<Rightarrow> Some (Inl e, w'))))"

declare until_loop.simps [code]

lemma count_loop_blocks: "f w = None \<Longrightarrow> 0 < n \<Longrightarrow> count_loop f n w = None"
  by (cases n) simp_all

text \<open>
  The interface: \<open>waiting c w\<close> says that the coroutine is suspended with \<open>c\<close> rounds to go and
  the event that wakes it is on its way. Each turn of the reactor then plays one round.
\<close>

locale expiry_loop =
  fixes react :: "'w \<Rightarrow> 'w turn option"
    and waiting :: "nat \<Rightarrow> 'w \<Rightarrow> bool"
    and finished :: "'w \<Rightarrow> bool"
    and fired :: "'w \<Rightarrow> nat"
  assumes plays_round:
    "waiting (Suc c) w \<Longrightarrow>
     \<exists>w'. react w = Some (Next w') \<and> fired w' = Suc (fired w) \<and>
       (if c = 0 then finished w' else waiting c w')"
begin

lemma all_rounds:
  "0 < n \<Longrightarrow> waiting n w \<Longrightarrow>
   \<exists>w'. count_loop react n w = Some (Inr (), w') \<and> finished w' \<and> fired w' = fired w + n"
proof (induction n arbitrary: w)
  case (Suc n)
  from plays_round [OF Suc.prems(2)] obtain w1 where w1: "react w = Some (Next w1)"
    "fired w1 = Suc (fired w)" "if n = 0 then finished w1 else waiting n w1" by blast
  show ?case
  proof (cases "n = 0")
    case True
    with w1 show ?thesis by simp
  next
    case False
    with w1 Suc.IH [of w1] show ?thesis by auto
  qed
qed simp

end

text \<open>The same where the reactor goes on until the coroutine has stopped it.\<close>

locale stopping_loop = expiry_loop +
  fixes stop :: "'a \<Rightarrow> bool"
  assumes not_yet: "waiting c w \<Longrightarrow> \<not> stop w"
    and stopped: "finished w \<Longrightarrow> stop w"
begin

lemma stops_after_all_rounds:
  "0 < n \<Longrightarrow> waiting n w \<Longrightarrow>
   \<exists>w'. until_loop stop react w = Some (Inr (), w') \<and> finished w' \<and> fired w' = fired w + n"
proof (induction n arbitrary: w)
  case (Suc n)
  from plays_round [OF Suc.prems(2)] obtain w1 where w1: "react w = Some (Next w1)"
    "fired w1 = Suc (fired w)" "if n = 0 then finished w1 else waiting n w1" by blast
  have step: "until_loop stop react w = until_loop stop react w1"
    using not_yet [OF Suc.prems(2)] w1(1) by (subst until_loop.simps) simp
  show ?case
  proof (cases "n = 0")
    case True
    with w1 stopped show ?thesis by (simp add: step) (simp add: until_loop.simps)
  next
    case False
    with w1 Suc.IH [of w1] show ?thesis by (auto simp: step)
  qed
qed simp

end

end
