(* ===== verification/Fd_Timer.thy ===== *)
theory Fd_Timer
  imports Epoll Duration Expiry_Loop
begin

text \<open>
  The Linux timer of applications/timers/nix-timerfd: \<open>awaitable_timer\<close> over a timerfd descriptor
  registered with epoll, and the example that awaits it. The system calls are the fields of a
  record of parameters; what their manual pages promise is \<open>timerfd_documented\<close>.

  A timer object is identified with the address of its \<open>async_ctx\<close>, which is what the constructor
  gives to epoll.
\<close>

datatype wait_result = WaitFailed | WaitEvent epoll_event

record 'k timer_calls =
  sys_timerfd_create :: "'k \<Rightarrow> fd \<times> 'k"
  sys_timerfd_settime :: "fd \<Rightarrow> int \<times> int \<Rightarrow> 'k \<Rightarrow> bool \<times> 'k"
  sys_epoll_create :: "'k \<Rightarrow> fd \<times> 'k"
  sys_epoll_ctl :: "'k epoll_ctl"
  sys_epoll_wait :: "fd \<Rightarrow> 'k \<Rightarrow> (wait_result \<times> 'k) option"
  sys_close :: "fd \<Rightarrow> 'k \<Rightarrow> 'k"

subsection \<open>The timer\<close>

record timer =
  tm_ioc :: fd
  tm_fd :: fd
  tm_sec :: int
  tm_ns :: int
  tm_ctx :: "coro option"

record 'k fd_timer_world =
  tw_kernel :: 'k
  tw_timers :: "uptr \<rightharpoonup> timer"

text \<open>The constructor. What it throws, it throws with the descriptor open and no object to close it.\<close>

definition timer_ctor ::
  "'k timer_calls \<Rightarrow> uptr \<Rightarrow> fd \<Rightarrow> duration \<Rightarrow> (('k, 'z) fd_timer_world_scheme, unit) op" where
  "timer_ctor K a ioc d w =
     (let (f, k) = sys_timerfd_create K (tw_kernel w)
      in if f = -1 then (Inl SystemError, w\<lparr>tw_kernel := k\<rparr>)
         else let (r, k) = sys_epoll_ctl K ioc CtlAdd f \<lparr>ep_events = EPOLLIN, ep_ptr = a\<rparr> k
              in if r \<noteq> None then (Inl SystemError, w\<lparr>tw_kernel := k\<rparr>)
                 else (case timeout_split d of
                         Inl e \<Rightarrow> (Inl e, w\<lparr>tw_kernel := k\<rparr>)
                       | Inr (s, n) \<Rightarrow>
                           (Inr (), w\<lparr>tw_kernel := k,
                              tw_timers := (tw_timers w)(a \<mapsto>
                                \<lparr>tm_ioc = ioc, tm_fd = f, tm_sec = s, tm_ns = n, tm_ctx = None\<rparr>)\<rparr>)))"

text \<open>\<open>close\<close>: the event argument of \<open>EPOLL_CTL_DEL\<close> is a null pointer; the results are ignored.\<close>

definition timer_close :: "'k timer_calls \<Rightarrow> timer \<Rightarrow> 'k \<Rightarrow> 'k" where
  "timer_close K t k =
     (if tm_fd t \<noteq> -1
      then sys_close K (tm_fd t)
             (snd (sys_epoll_ctl K (tm_ioc t) CtlDel (tm_fd t) \<lparr>ep_events = 0, ep_ptr = 0\<rparr> k))
      else k)"

definition timer_dtor ::
  "'k timer_calls \<Rightarrow> uptr \<Rightarrow> (('k, 'z) fd_timer_world_scheme, unit) op" where
  "timer_dtor K a w =
     (case tw_timers w a of
        None \<Rightarrow> (Inl WildPointer, w)
      | Some t \<Rightarrow>
          (Inr (), w\<lparr>tw_kernel := timer_close K t (tw_kernel w), tw_timers := (tw_timers w)(a := None)\<rparr>))"

text \<open>
  Moves. The move constructor initialises neither \<open>ioc\<close>, which holds the arbitrary value \<open>junk\<close>,
  nor the awaiting coroutine, whose handle is null by default. The move assignment leaves both as they are in the target.
\<close>

definition moved_from :: "timer \<Rightarrow> timer" where
  "moved_from t = t\<lparr>tm_fd := -1, tm_sec := 0, tm_ns := 0\<rparr>"

definition timer_move_ctor :: "fd \<Rightarrow> uptr \<Rightarrow> uptr \<Rightarrow> (('k, 'z) fd_timer_world_scheme, unit) op" where
  "timer_move_ctor junk a b w =
     (case tw_timers w a of
        None \<Rightarrow> (Inl WildPointer, w)
      | Some t \<Rightarrow>
          (Inr (), w\<lparr>tw_timers := (tw_timers w)
             (b \<mapsto> \<lparr>tm_ioc = junk, tm_fd = tm_fd t, tm_sec = tm_sec t, tm_ns = tm_ns t, tm_ctx = None\<rparr>,
              a \<mapsto> moved_from t)\<rparr>))"

definition timer_move_assign ::
  "'k timer_calls \<Rightarrow> uptr \<Rightarrow> uptr \<Rightarrow> (('k, 'z) fd_timer_world_scheme, unit) op" where
  "timer_move_assign K a b w =
     (case (tw_timers w a, tw_timers w b) of
        (Some t, Some u) \<Rightarrow>
          if a = b then (Inr (), w)
          else (Inr (), w\<lparr>tw_kernel := timer_close K u (tw_kernel w),
                  tw_timers := (tw_timers w)
                    (b \<mapsto> u\<lparr>tm_fd := tm_fd t, tm_sec := tm_sec t, tm_ns := tm_ns t\<rparr>,
                     a \<mapsto> moved_from t)\<rparr>)
      | _ \<Rightarrow> (Inl WildPointer, w))"

definition rearm :: "'k timer_calls \<Rightarrow> timer \<Rightarrow> 'k \<Rightarrow> bool \<times> 'k" where
  "rearm K t k = sys_timerfd_settime K (tm_fd t) (tm_sec t, tm_ns t) k"

text \<open>\<open>await_suspend\<close>: \<open>False\<close> says that the awaiting coroutine goes on at once.\<close>

definition fd_await_suspend ::
  "'k timer_calls \<Rightarrow> uptr \<Rightarrow> coro \<Rightarrow> (('k, 'z) fd_timer_world_scheme, bool) op" where
  "fd_await_suspend K a h w =
     (case tw_timers w a of
        None \<Rightarrow> (Inl WildPointer, w)
      | Some t \<Rightarrow>
          let t' = t\<lparr>tm_ctx := Some h\<rparr>;
              (ok, k) = rearm K t' (tw_kernel w)
          in (Inr ok, w\<lparr>tw_kernel := k, tw_timers := (tw_timers w)(a \<mapsto> t')\<rparr>))"

definition on_timer_expire ::
  "(coro \<Rightarrow> (('k, 'z) fd_timer_world_scheme, unit) op) \<Rightarrow> uptr \<Rightarrow> (('k, 'z) fd_timer_world_scheme, unit) op" where
  "on_timer_expire resume p w =
     (case tw_timers w p of
        None \<Rightarrow> (Inl WildPointer, w)
      | Some t \<Rightarrow> (case tm_ctx t of None \<Rightarrow> (Inl NullHandle, w) | Some h \<Rightarrow> resume h w))"

subsection \<open>The example\<close>

datatype waiter_state = NotStarted | Suspended nat | Finished | Failed cpp_error

record 'k driver = "'k fd_timer_world" +
  dw_waiter :: waiter_state
  dw_fired :: nat

text \<open>The waiter's frame holds the timer, at \<open>a\<close>; its handle is \<open>waiter_handle\<close>.\<close>

definition waiter_handle :: coro where
  "waiter_handle = 1"

text \<open>The loop of the waiter from count \<open>c\<close> on, up to its next suspension or its end.\<close>

function waiter_loop :: "'k timer_calls \<Rightarrow> uptr \<Rightarrow> nat \<Rightarrow> nat \<Rightarrow> ('k driver, unit) op" where
  "waiter_loop K a n c w =
     (if c < n
      then andthen (fd_await_suspend K a waiter_handle w) (\<lambda>suspended w.
             if suspended then (Inr (), w\<lparr>dw_waiter := Suspended c\<rparr>)
             else waiter_loop K a n (c + 1) (w\<lparr>dw_fired := dw_fired w + 1\<rparr>))
      else andthen (timer_dtor K a w) (\<lambda>_ w. (Inr (), w\<lparr>dw_waiter := Finished\<rparr>)))"
  by pat_completeness auto
termination by (relation "measure (\<lambda>(K, a, n, c, w). n - c)") auto

declare waiter_loop.simps [simp del]

text \<open>Resuming the waiter: it reports the expiration and goes round.\<close>

definition waiter_resume :: "'k timer_calls \<Rightarrow> uptr \<Rightarrow> nat \<Rightarrow> coro \<Rightarrow> ('k driver, unit) op" where
  "waiter_resume K a n h w =
     (if h \<noteq> waiter_handle then (Inl DeadHandle, w)
      else (case dw_waiter w of
              Suspended c \<Rightarrow> waiter_loop K a n (c + 1) (w\<lparr>dw_fired := dw_fired w + 1\<rparr>)
            | _ \<Rightarrow> (Inl DeadHandle, w)))"

text \<open>
  The call of the waiter, an eager task: an exception of the timer's constructor is stored in
  its promise, not thrown to the caller.
\<close>

definition waiter_start :: "'k timer_calls \<Rightarrow> uptr \<Rightarrow> fd \<Rightarrow> duration \<Rightarrow> nat \<Rightarrow> ('k driver, unit) op" where
  "waiter_start K a ioc d n w =
     (case timer_ctor K a ioc d w of
        (Inl SystemError, w) \<Rightarrow> (Inr (), w\<lparr>dw_waiter := Failed SystemError\<rparr>)
      | (Inl e, w) \<Rightarrow> (Inl e, w)
      | (Inr _, w) \<Rightarrow> waiter_loop K a n 0 w)"

text \<open>One turn of the reactor.\<close>

definition reactor_turn ::
  "'k timer_calls \<Rightarrow> (coro \<Rightarrow> ('k driver, unit) op) \<Rightarrow> fd \<Rightarrow> 'k driver \<Rightarrow> 'k driver turn option" where
  "reactor_turn K resume ioc w =
     (case sys_epoll_wait K ioc (tw_kernel w) of
        None \<Rightarrow> None
      | Some (WaitFailed, k) \<Rightarrow> Some (Fail SystemError (w\<lparr>tw_kernel := k\<rparr>))
      | Some (WaitEvent ev, k) \<Rightarrow>
          let w = w\<lparr>tw_kernel := k\<rparr>
          in if ep_events ev AND EPOLLIN \<noteq> 0
             then (case on_timer_expire resume (ep_ptr ev) w of
                     (Inl e, w) \<Rightarrow> Some (Fail e w)
                   | (Inr _, w) \<Rightarrow> Some (Next w))
             else Some (Next w))"

definition reactor ::
  "'k timer_calls \<Rightarrow> (coro \<Rightarrow> ('k driver, unit) op) \<Rightarrow> fd \<Rightarrow> nat \<Rightarrow> 'k driver \<Rightarrow> (unit res \<times> 'k driver) option" where
  "reactor K resume ioc n w = count_loop (reactor_turn K resume ioc) n w"

text \<open>
  \<open>main\<close>, from its argument \<open>n\<close> on: when the reactor returns, the task's destructor destroys the waiter's
  frame, with the timer if the waiter is still suspended, and then the epoll instance is closed.
\<close>

definition example_end :: "'k timer_calls \<Rightarrow> uptr \<Rightarrow> fd \<Rightarrow> ('k driver, unit) op" where
  "example_end K a ioc w =
     andthen (case dw_waiter w of Suspended c \<Rightarrow> timer_dtor K a w | _ \<Rightarrow> (Inr (), w))
       (\<lambda>_ w. (Inr (), w\<lparr>tw_kernel := sys_close K ioc (tw_kernel w)\<rparr>))"

definition example_main ::
  "'k timer_calls \<Rightarrow> uptr \<Rightarrow> duration \<Rightarrow> nat \<Rightarrow> 'k \<Rightarrow> (unit res \<times> 'k driver) option" where
  "example_main K a d n k =
     (let (ioc, k) = sys_epoll_create K k;
          w = \<lparr>tw_kernel = k, tw_timers = Map.empty, dw_waiter = NotStarted, dw_fired = 0\<rparr>
      in if ioc = -1 then Some (Inl SystemError, w)
         else (case waiter_start K a ioc d n w of
                 (Inl e, w) \<Rightarrow> Some (Inl e, w)
               | (Inr _, w) \<Rightarrow>
                   (case reactor K (waiter_resume K a n) ioc n w of
                      None \<Rightarrow> None
                    | Some (Inl e, w) \<Rightarrow> Some (Inl e, w)
                    | Some (Inr _, w) \<Rightarrow> Some (example_end K a ioc w))))"

text \<open>The timeout in the source.\<close>

definition two_seconds :: duration where
  "two_seconds = seconds 2"

subsection \<open>What the manual pages promise\<close>

datatype timer_state = Disarmed | Armed int int | Expired

record kernel_view =
  kv_interest :: "fd \<Rightarrow> fd \<Rightarrow> epoll_event option"
  kv_timer :: "fd \<Rightarrow> timer_state option"

text \<open>\<open>timerfd_create\<close> and \<open>epoll_create1\<close> return a descriptor that was not in use, or -1.\<close>

definition create_documented :: "'k timer_calls \<Rightarrow> ('k \<Rightarrow> kernel_view) \<Rightarrow> bool" where
  "create_documented K view \<longleftrightarrow>
     (\<forall>k. (let (f, k') = sys_timerfd_create K k; v = view k
           in if f = -1 then view k' = v
              else kv_timer v f = None \<and> (\<forall>ioc. kv_interest v ioc f = None) \<and>
                   view k' = v\<lparr>kv_timer := (kv_timer v)(f \<mapsto> Disarmed)\<rparr>)) \<and>
     (\<forall>k. (let (f, k') = sys_epoll_create K k
           in view k' = view k \<and> (f \<noteq> -1 \<longrightarrow> kv_interest (view k) f = (\<lambda>_. None))))"

text \<open>
  \<open>timerfd_settime\<close> fails with EINVAL on a negative or denormalised time and EBADF or EINVAL on what
  is no timer; the zero time disarms. Setting makes an expired timer unreadable again.
\<close>

definition settime_documented :: "'k timer_calls \<Rightarrow> ('k \<Rightarrow> kernel_view) \<Rightarrow> bool" where
  "settime_documented K view \<longleftrightarrow>
     (\<forall>f s n k. (let (ok, k') = sys_timerfd_settime K f (s, n) k; v = view k
        in (ok \<longleftrightarrow> kv_timer v f \<noteq> None \<and> 0 \<le> s \<and> 0 \<le> n \<and> n < nano_per_second) \<and>
           view k' = (if ok
                      then v\<lparr>kv_timer := (kv_timer v)(f \<mapsto> if s = 0 \<and> n = 0 then Disarmed else Armed s n)\<rparr>
                      else v)))"

text \<open>
  \<open>epoll_wait\<close> without a timeout blocks for ever only when no registered timer is armed or expired,
  and otherwise fails or reports one that has expired; meanwhile other timers may expire too.
\<close>

definition may_fire :: "kernel_view \<Rightarrow> fd \<Rightarrow> fd \<Rightarrow> bool" where
  "may_fire v ioc f \<longleftrightarrow>
     (\<exists>e. kv_interest v ioc f = Some e \<and> ep_events e AND EPOLLIN \<noteq> 0) \<and>
     kv_timer v f \<noteq> None \<and> kv_timer v f \<noteq> Some Disarmed"

definition time_passes :: "kernel_view \<Rightarrow> kernel_view \<Rightarrow> bool" where
  "time_passes v v' \<longleftrightarrow> kv_interest v' = kv_interest v \<and>
     (\<forall>f. kv_timer v' f = kv_timer v f \<or>
          (\<exists>s n. kv_timer v f = Some (Armed s n)) \<and> kv_timer v' f = Some Expired)"

definition wait_documented :: "'k timer_calls \<Rightarrow> ('k \<Rightarrow> kernel_view) \<Rightarrow> bool" where
  "wait_documented K view \<longleftrightarrow>
     (\<forall>ioc k. case sys_epoll_wait K ioc k of
        None \<Rightarrow> \<forall>f. \<not> may_fire (view k) ioc f
      | Some (r, k') \<Rightarrow>
          time_passes (view k) (view k') \<and>
          (case r of
             WaitFailed \<Rightarrow> True
           | WaitEvent ev \<Rightarrow> ep_events ev = EPOLLIN \<and>
               (\<exists>f e. may_fire (view k) ioc f \<and> kv_interest (view k) ioc f = Some e \<and>
                  ep_ptr ev = ep_ptr e \<and> kv_timer (view k') f = Some Expired)))"

text \<open>Closing a descriptor frees it and takes it out of every interest list.\<close>

definition close_documented :: "'k timer_calls \<Rightarrow> ('k \<Rightarrow> kernel_view) \<Rightarrow> bool" where
  "close_documented K view \<longleftrightarrow>
     (\<forall>f k. view (sys_close K f k) =
        \<lparr>kv_interest = (\<lambda>i g. if i = f \<or> g = f then None else kv_interest (view k) i g),
         kv_timer = (kv_timer (view k))(f := None)\<rparr>)"

definition timerfd_documented :: "'k timer_calls \<Rightarrow> ('k \<Rightarrow> kernel_view) \<Rightarrow> bool" where
  "timerfd_documented K view \<longleftrightarrow>
     create_documented K view \<and> settime_documented K view \<and> wait_documented K view \<and>
     close_documented K view \<and> epoll_documented (sys_epoll_ctl K) (\<lambda>k. kv_interest (view k)) \<and>
     (\<forall>ioc oper f ev k. kv_timer (view (snd (sys_epoll_ctl K ioc oper f ev k))) = kv_timer (view k))"

definition wait_never_fails :: "'k timer_calls \<Rightarrow> bool" where
  "wait_never_fails K \<longleftrightarrow> (\<forall>ioc k. \<forall>k'. sys_epoll_wait K ioc k \<noteq> Some (WaitFailed, k'))"

lemma create_view:
  assumes "timerfd_documented K view" "sys_timerfd_create K k = (f, k')" "f \<noteq> -1"
  shows "kv_timer (view k) f = None" "kv_interest (view k) ioc f = None"
    and "view k' = (view k)\<lparr>kv_timer := (kv_timer (view k))(f \<mapsto> Disarmed)\<rparr>"
  using assms(1) [unfolded timerfd_documented_def create_documented_def, THEN conjunct1, THEN conjunct1,
      rule_format, of k] assms(2,3)
  by (simp_all add: Let_def)

lemma epoll_create_view:
  assumes "timerfd_documented K view" "sys_epoll_create K k = (i, k')"
  shows "view k' = view k" and "i \<noteq> -1 \<Longrightarrow> kv_interest (view k) i = (\<lambda>_. None)"
  using assms(1) [unfolded timerfd_documented_def create_documented_def, THEN conjunct1, THEN conjunct2,
      rule_format, of k] assms(2)
  by simp_all

lemma settime_view:
  assumes "timerfd_documented K view" "sys_timerfd_settime K f (s, n) k = (ok, k')"
  shows "ok \<longleftrightarrow> kv_timer (view k) f \<noteq> None \<and> 0 \<le> s \<and> 0 \<le> n \<and> n < nano_per_second"
    and "ok \<Longrightarrow> view k' =
      (view k)\<lparr>kv_timer := (kv_timer (view k))(f \<mapsto> if s = 0 \<and> n = 0 then Disarmed else Armed s n)\<rparr>"
    and "\<not> ok \<Longrightarrow> view k' = view k"
  using assms(1) [unfolded timerfd_documented_def settime_documented_def, THEN conjunct2, THEN conjunct1,
      rule_format, of f s n k] assms(2)
  by (simp_all add: Let_def)

lemma wait_view:
  assumes "timerfd_documented K view" "sys_epoll_wait K ioc k = Some (WaitEvent ev, k')"
  shows "time_passes (view k) (view k')" and "ep_events ev = EPOLLIN"
    and "\<exists>f e. may_fire (view k) ioc f \<and> kv_interest (view k) ioc f = Some e \<and>
           ep_ptr ev = ep_ptr e \<and> kv_timer (view k') f = Some Expired"
  using assms(1) [unfolded timerfd_documented_def wait_documented_def] assms(2)
  by (force split: option.splits)+

lemma wait_blocks:
  assumes "timerfd_documented K view" "sys_epoll_wait K ioc k = None"
  shows "\<not> may_fire (view k) ioc f"
  using assms(1) [unfolded timerfd_documented_def wait_documented_def] assms(2)
  by (force split: option.splits)

lemma nothing_to_wait:
  assumes doc: "timerfd_documented K view" "wait_never_fails K" and none: "\<And>f. \<not> may_fire (view k) ioc f"
  shows "sys_epoll_wait K ioc k = None"
proof (rule ccontr)
  assume "sys_epoll_wait K ioc k \<noteq> None"
  then obtain ev k' where "sys_epoll_wait K ioc k = Some (WaitEvent ev, k')"
    using doc(2) by (metis wait_never_fails_def not_Some_eq surj_pair wait_result.exhaust)
  from wait_view(3) [OF doc(1) this] none show False by blast
qed

lemma close_view:
  assumes "timerfd_documented K view"
  shows "view (sys_close K f k) =
        \<lparr>kv_interest = (\<lambda>i g. if i = f \<or> g = f then None else kv_interest (view k) i g),
         kv_timer = (kv_timer (view k))(f := None)\<rparr>"
  using assms by (simp add: timerfd_documented_def close_documented_def)

lemma ctl_view:
  assumes "timerfd_documented K view" "sys_epoll_ctl K ioc oper f ev k = (r, k')"
  shows "kv_timer (view k') = kv_timer (view k)"
    and "r = None \<Longrightarrow> kv_interest (view k') = (kv_interest (view k))
           (ioc := (kv_interest (view k) ioc)(f := if oper = CtlDel then None else Some ev))"
    and "r \<noteq> None \<Longrightarrow> kv_interest (view k') = kv_interest (view k)"
proof -
  from assms(1) have e: "epoll_documented (sys_epoll_ctl K) (\<lambda>k. kv_interest (view k))"
    and t: "kv_timer (view (snd (sys_epoll_ctl K ioc oper f ev k))) = kv_timer (view k)"
    by (simp_all add: timerfd_documented_def)
  from t assms(2) show "kv_timer (view k') = kv_timer (view k)" by simp
  show "r = None \<Longrightarrow> kv_interest (view k') = (kv_interest (view k))
           (ioc := (kv_interest (view k) ioc)(f := if oper = CtlDel then None else Some ev))"
    using ctl_success(1) [OF e] assms(2) by simp
  show "r \<noteq> None \<Longrightarrow> kv_interest (view k') = kv_interest (view k)"
    using ctl_failure [OF e] assms(2) by fastforce
qed

text \<open>Whatever \<open>EPOLL_CTL_DEL\<close> returns, closing frees the descriptor.\<close>

lemma timer_close_view:
  assumes "timerfd_documented K view" "tm_fd t \<noteq> -1"
  shows "kv_timer (view (timer_close K t k)) = (kv_timer (view k))(tm_fd t := None)"
    and "kv_interest (view (timer_close K t k)) i (tm_fd t) = None"
    and "g \<noteq> tm_fd t \<Longrightarrow> i \<noteq> tm_fd t \<Longrightarrow> kv_interest (view (timer_close K t k)) i g = kv_interest (view k) i g"
proof -
  obtain r k' where c: "sys_epoll_ctl K (tm_ioc t) CtlDel (tm_fd t) \<lparr>ep_events = 0, ep_ptr = 0\<rparr> k = (r, k')"
    by fastforce
  note v = ctl_view [OF assms(1) c]
  show "kv_timer (view (timer_close K t k)) = (kv_timer (view k))(tm_fd t := None)"
    "kv_interest (view (timer_close K t k)) i (tm_fd t) = None"
    "g \<noteq> tm_fd t \<Longrightarrow> i \<noteq> tm_fd t \<Longrightarrow> kv_interest (view (timer_close K t k)) i g = kv_interest (view k) i g"
    using assms(2) v by (cases r; simp add: timer_close_def c close_view [OF assms(1)])+
qed

subsection \<open>The rounds of the example\<close>

definition armed_timer :: "kernel_view \<Rightarrow> uptr \<Rightarrow> fd \<Rightarrow> timer \<Rightarrow> bool" where
  "armed_timer v a ioc t \<longleftrightarrow>
     kv_interest v ioc = [tm_fd t \<mapsto> \<lparr>ep_events = EPOLLIN, ep_ptr = a\<rparr>] \<and>
     (kv_timer v (tm_fd t) = Some (Armed (tm_sec t) (tm_ns t)) \<or> kv_timer v (tm_fd t) = Some Expired)"

definition good_time :: "timer \<Rightarrow> bool" where
  "good_time t \<longleftrightarrow> 0 \<le> tm_sec t \<and> 0 \<le> tm_ns t \<and> tm_ns t < nano_per_second \<and> (tm_sec t \<noteq> 0 \<or> tm_ns t \<noteq> 0)"

definition nix_waiting ::
  "'k timer_calls \<Rightarrow> ('k \<Rightarrow> kernel_view) \<Rightarrow> uptr \<Rightarrow> fd \<Rightarrow> fd \<Rightarrow> nat \<Rightarrow> nat \<Rightarrow> 'k driver \<Rightarrow> bool" where
  "nix_waiting K view a ioc f n c w \<longleftrightarrow>
     timerfd_documented K view \<and> wait_never_fails K \<and> f \<noteq> -1 \<and> f \<noteq> ioc \<and> 0 < c \<and> c \<le> n \<and>
     dw_waiter w = Suspended (n - c) \<and>
     (\<exists>t. tw_timers w a = Some t \<and> tm_ctx t = Some waiter_handle \<and> tm_fd t = f \<and> good_time t \<and>
        armed_timer (view (tw_kernel w)) a ioc t)"

definition nix_finished :: "('k \<Rightarrow> kernel_view) \<Rightarrow> uptr \<Rightarrow> fd \<Rightarrow> 'k driver \<Rightarrow> bool" where
  "nix_finished view a f w \<longleftrightarrow>
     dw_waiter w = Finished \<and> tw_timers w a = None \<and> kv_timer (view (tw_kernel w)) f = None \<and>
     (\<forall>ioc. kv_interest (view (tw_kernel w)) ioc f = None)"

text \<open>Awaiting arms the timer, if its time is good.\<close>

lemma await_arms:
  assumes doc: "timerfd_documented K view" and t: "tw_timers w a = Some t" "good_time t"
    and k: "kv_timer (view (tw_kernel w)) (tm_fd t) \<noteq> None"
  obtains k' where "fd_await_suspend K a h w =
      (Inr True, w\<lparr>tw_kernel := k', tw_timers := (tw_timers w)(a \<mapsto> t\<lparr>tm_ctx := Some h\<rparr>)\<rparr>)"
    and "view k' = (view (tw_kernel w))\<lparr>kv_timer :=
           (kv_timer (view (tw_kernel w)))(tm_fd t \<mapsto> Armed (tm_sec t) (tm_ns t))\<rparr>"
proof -
  obtain ok k' where s: "sys_timerfd_settime K (tm_fd t) (tm_sec t, tm_ns t) (tw_kernel w) = (ok, k')"
    by fastforce
  note v = settime_view [OF doc s]
  from v(1) k t(2) have ok by (simp add: good_time_def)
  then show thesis
    using v(2) t s by (intro that [of k']) (auto simp: fd_await_suspend_def rearm_def good_time_def)
qed

lemma reactor_fires:
  assumes "nix_waiting K view a ioc f n (Suc c) w"
  obtains k' t where "tw_timers w a = Some t" "tm_fd t = f" "good_time t" "tm_ctx t = Some waiter_handle"
    "kv_interest (view k') ioc = [f \<mapsto> \<lparr>ep_events = EPOLLIN, ep_ptr = a\<rparr>]"
    "kv_timer (view k') f = Some Expired"
    "\<And>R. reactor_turn K R ioc w =
       (case R waiter_handle (w\<lparr>tw_kernel := k'\<rparr>) of
          (Inl e, w) \<Rightarrow> Some (Fail e w) | (Inr _, w) \<Rightarrow> Some (Next w))"
proof -
  from assms obtain t where doc: "timerfd_documented K view" and nf: "wait_never_fails K"
    and t: "tw_timers w a = Some t" "tm_ctx t = Some waiter_handle" "tm_fd t = f" "good_time t"
    and arm: "armed_timer (view (tw_kernel w)) a ioc t" by (auto simp: nix_waiting_def)
  have fire: "may_fire (view (tw_kernel w)) ioc f"
    using arm t(3) by (auto simp: may_fire_def armed_timer_def epoll_bits)
  obtain ev k' where wait: "sys_epoll_wait K ioc (tw_kernel w) = Some (WaitEvent ev, k')"
    using fire wait_blocks [OF doc, of ioc "tw_kernel w" f] nf
    by (metis wait_never_fails_def not_Some_eq surj_pair wait_result.exhaust)
  note v = wait_view [OF doc wait]
  from v(3) arm t(3) have p: "ep_ptr ev = a" "kv_timer (view k') f = Some Expired"
    by (auto simp: armed_timer_def split: if_splits)
  show thesis
  proof (rule that [OF t(1,3,4,2)])
    show "kv_interest (view k') ioc = [f \<mapsto> \<lparr>ep_events = EPOLLIN, ep_ptr = a\<rparr>]"
      using v(1) arm t(3) by (simp add: time_passes_def armed_timer_def)
    show "reactor_turn K R ioc w =
       (case R waiter_handle (w\<lparr>tw_kernel := k'\<rparr>) of
          (Inl e, w) \<Rightarrow> Some (Fail e w) | (Inr _, w) \<Rightarrow> Some (Next w))" for R
      using t v(2) by (simp add: reactor_turn_def wait p on_timer_expire_def epoll_bits)
  qed (rule p(2))
qed

lemma nix_round:
  assumes w: "nix_waiting K view a ioc f n (Suc c) w"
  shows "\<exists>w'. reactor_turn K (waiter_resume K a n) ioc w = Some (Next w') \<and> dw_fired w' = Suc (dw_fired w) \<and>
     (if c = 0 then nix_finished view a f w' else nix_waiting K view a ioc f n c w')"
proof -
  from w have doc: "timerfd_documented K view" and f: "f \<noteq> -1" "f \<noteq> ioc" and c: "Suc c \<le> n"
    and s: "dw_waiter w = Suspended (n - Suc c)" by (simp_all add: nix_waiting_def)
  obtain k' t where t: "tw_timers w a = Some t" "tm_fd t = f" "good_time t" "tm_ctx t = Some waiter_handle"
    and k': "kv_interest (view k') ioc = [f \<mapsto> \<lparr>ep_events = EPOLLIN, ep_ptr = a\<rparr>]"
      "kv_timer (view k') f = Some Expired"
    and turn: "\<And>R. reactor_turn K R ioc w =
       (case R waiter_handle (w\<lparr>tw_kernel := k'\<rparr>) of
          (Inl e, w) \<Rightarrow> Some (Fail e w) | (Inr _, w) \<Rightarrow> Some (Next w))"
    by (rule reactor_fires [OF w]) (rule that; assumption)
  define v where "v = w\<lparr>tw_kernel := k', dw_fired := Suc (dw_fired w)\<rparr>"
  have res: "waiter_resume K a n waiter_handle (w\<lparr>tw_kernel := k'\<rparr>) = waiter_loop K a n (n - c) v"
    using c s by (simp add: waiter_resume_def v_def Suc_diff_Suc)
  show ?thesis
  proof (cases "c = 0")
    case True
    then show ?thesis
      using t f timer_close_view [OF doc, of t]
      by (auto simp: turn res waiter_loop.simps [of K a n n] timer_dtor_def v_def nix_finished_def)
  next
    case False
    obtain k2 where aw: "fd_await_suspend K a waiter_handle v =
        (Inr True, v\<lparr>tw_kernel := k2, tw_timers := (tw_timers v)(a \<mapsto> t\<lparr>tm_ctx := Some waiter_handle\<rparr>)\<rparr>)"
      and k2: "view k2 = (view k')\<lparr>kv_timer := (kv_timer (view k'))(f \<mapsto> Armed (tm_sec t) (tm_ns t))\<rparr>"
      by (rule await_arms [OF doc, of v a t waiter_handle]) (use t k' in \<open>simp_all add: v_def\<close>)
    have "nix_waiting K view a ioc f n c
       (v\<lparr>tw_kernel := k2, tw_timers := (tw_timers v)(a \<mapsto> t\<lparr>tm_ctx := Some waiter_handle\<rparr>),
          dw_waiter := Suspended (n - c)\<rparr>)"
      using w False t k' k2 by (simp add: nix_waiting_def armed_timer_def good_time_def)
    moreover have "waiter_loop K a n (n - c) v =
       (Inr (), v\<lparr>tw_kernel := k2, tw_timers := (tw_timers v)(a \<mapsto> t\<lparr>tm_ctx := Some waiter_handle\<rparr>),
          dw_waiter := Suspended (n - c)\<rparr>)"
      using False c by (simp add: waiter_loop.simps [of K a n "n - c"] aw)
    ultimately show ?thesis using False by (simp add: turn res) (simp add: v_def)
  qed
qed

interpretation nix: expiry_loop "reactor_turn K (waiter_resume K a n) ioc" "nix_waiting K view a ioc f n"
    "nix_finished view a f" dw_fired
  for K view a n ioc f
  by unfold_locales (rule nix_round)

subsection \<open>A kernel that keeps these promises\<close>

record table_kernel =
  tk_next :: fd
  tk_timers :: "(fd \<times> timer_state) list"
  tk_interest :: interest_table

definition tk_view :: "table_kernel \<Rightarrow> kernel_view" where
  "tk_view k = \<lparr>kv_interest = table_interest (tk_interest k), kv_timer = map_of (tk_timers k)\<rparr>"

definition tk_create :: "table_kernel \<Rightarrow> fd \<times> table_kernel" where
  "tk_create k =
     (let f = tk_next k
      in if f = -1 \<or> map_of (tk_timers k) f \<noteq> None \<or> table_uses f (tk_interest k) then (-1, k)
         else (f, k\<lparr>tk_next := f + 1, tk_timers := (f, Disarmed) # tk_timers k\<rparr>))"

definition tk_epoll_create :: "table_kernel \<Rightarrow> fd \<times> table_kernel" where
  "tk_epoll_create k =
     (let f = tk_next k
      in if f = -1 \<or> table_uses f (tk_interest k) then (-1, k) else (f, k\<lparr>tk_next := f + 1\<rparr>))"

definition tk_settime :: "fd \<Rightarrow> int \<times> int \<Rightarrow> table_kernel \<Rightarrow> bool \<times> table_kernel" where
  "tk_settime f t k =
     (case t of (s, n) \<Rightarrow>
        if map_of (tk_timers k) f \<noteq> None \<and> 0 \<le> s \<and> 0 \<le> n \<and> n < nano_per_second
        then (True, k\<lparr>tk_timers := (f, if s = 0 \<and> n = 0 then Disarmed else Armed s n) # tk_timers k\<rparr>)
        else (False, k))"

definition tk_ctl :: "table_kernel epoll_ctl" where
  "tk_ctl i oper f ev k = (let (r, t) = table_ctl i oper f ev (tk_interest k) in (r, k\<lparr>tk_interest := t\<rparr>))"

definition tk_ready :: "table_kernel \<Rightarrow> fd \<Rightarrow> (fd \<times> fd) \<times> epoll_event \<Rightarrow> bool" where
  "tk_ready k i x \<longleftrightarrow>
     fst (fst x) = i \<and> map_of (tk_interest k) (fst x) = Some (snd x) \<and> ep_events (snd x) AND EPOLLIN \<noteq> 0 \<and>
     map_of (tk_timers k) (snd (fst x)) \<noteq> None \<and> map_of (tk_timers k) (snd (fst x)) \<noteq> Some Disarmed"

definition tk_wait :: "fd \<Rightarrow> table_kernel \<Rightarrow> (wait_result \<times> table_kernel) option" where
  "tk_wait i k =
     map_option (\<lambda>x. (WaitEvent \<lparr>ep_events = EPOLLIN, ep_ptr = ep_ptr (snd x)\<rparr>,
                      k\<lparr>tk_timers := (snd (fst x), Expired) # tk_timers k\<rparr>))
       (find (tk_ready k i) (tk_interest k))"

definition tk_close :: "fd \<Rightarrow> table_kernel \<Rightarrow> table_kernel" where
  "tk_close f k =
     k\<lparr>tk_timers := filter (\<lambda>x. fst x \<noteq> f) (tk_timers k),
       tk_interest := table_close f (tk_interest k)\<rparr>"

definition table_calls :: "table_kernel timer_calls" where
  "table_calls =
     \<lparr>sys_timerfd_create = tk_create, sys_timerfd_settime = tk_settime, sys_epoll_create = tk_epoll_create,
      sys_epoll_ctl = tk_ctl, sys_epoll_wait = tk_wait, sys_close = tk_close\<rparr>"

definition fresh_kernel :: table_kernel where
  "fresh_kernel = \<lparr>tk_next = 3, tk_timers = [], tk_interest = []\<rparr>"

lemmas tk_defs = tk_create_def tk_epoll_create_def tk_settime_def tk_ctl_def tk_ready_def tk_wait_def
  tk_close_def table_calls_def table_ctl_def table_interest_def table_uses_def table_close_def

lemma tk_create_documented: "create_documented table_calls tk_view"
  by (auto simp: create_documented_def table_calls_def tk_create_def tk_epoll_create_def tk_view_def Let_def
      table_unused fun_eq_iff)

lemma tk_settime_documented: "settime_documented table_calls tk_view"
  by (auto simp: settime_documented_def table_calls_def tk_settime_def tk_view_def Let_def fun_eq_iff)

lemma tk_close_documented: "close_documented table_calls tk_view"
  by (auto simp: close_documented_def table_calls_def tk_close_def tk_view_def fun_eq_iff table_close_interest
      map_of_filter_keys [of "\<lambda>g. g \<noteq> f" for f])

lemma tk_ctl_documented: "epoll_documented tk_ctl (\<lambda>k. kv_interest (tk_view k))"
  using table_ctl_lifts [of tk_ctl tk_interest "\<lambda>t k. k\<lparr>tk_interest := t\<rparr>"]
  by (simp add: tk_ctl_def tk_view_def)

lemma tk_may_fire: "may_fire (tk_view k) i f \<longleftrightarrow> (\<exists>e. ((i, f), e) \<in> set (tk_interest k) \<and> tk_ready k i ((i, f), e))"
  by (auto simp: may_fire_def tk_view_def tk_ready_def table_interest_def dest: map_of_SomeD)

lemma tk_wait_documented: "wait_documented table_calls tk_view"
proof -
  have "\<not> may_fire (tk_view k) i f" if "tk_wait i k = None" for i k f
    using that by (auto simp: tk_wait_def find_None_iff tk_may_fire)
  moreover have "\<exists>ev. r = WaitEvent ev \<and> time_passes (tk_view k) (tk_view k') \<and> ep_events ev = EPOLLIN \<and>
      (\<exists>f e. may_fire (tk_view k) i f \<and> kv_interest (tk_view k) i f = Some e \<and> ep_ptr ev = ep_ptr e \<and>
         kv_timer (tk_view k') f = Some Expired)"
    if r: "tk_wait i k = Some (r, k')" for i k r k'
  proof -
    from r obtain x where f: "find (tk_ready k i) (tk_interest k) = Some x"
      "r = WaitEvent \<lparr>ep_events = EPOLLIN, ep_ptr = ep_ptr (snd x)\<rparr>"
      "k' = k\<lparr>tk_timers := (snd (fst x), Expired) # tk_timers k\<rparr>" by (auto simp: tk_wait_def)
    then have "x \<in> set (tk_interest k)" "tk_ready k i x" by (auto simp: find_Some_iff)
    moreover from this have "x = ((i, snd (fst x)), snd x)" by (simp add: tk_ready_def prod_eq_iff)
    ultimately obtain f e where x: "((i, f), e) \<in> set (tk_interest k)" "tk_ready k i ((i, f), e)"
      "r = WaitEvent \<lparr>ep_events = EPOLLIN, ep_ptr = ep_ptr e\<rparr>" "k' = k\<lparr>tk_timers := (f, Expired) # tk_timers k\<rparr>"
      using f(2,3) that [of "snd (fst x)" "snd x"] by simp
    then have "may_fire (tk_view k) i f" by (auto simp: tk_may_fire)
    moreover have "time_passes (tk_view k) (tk_view k')"
      using x by (auto simp: time_passes_def tk_view_def tk_ready_def) (metis timer_state.exhaust)
    ultimately show ?thesis using x by (auto simp: tk_view_def tk_ready_def table_interest_def)
  qed
  ultimately show ?thesis
    by (fastforce simp: wait_documented_def table_calls_def split: option.split)
qed

lemma table_calls_documented: "timerfd_documented table_calls tk_view"
  using tk_create_documented tk_settime_documented tk_close_documented tk_ctl_documented tk_wait_documented
  by (simp add: timerfd_documented_def table_calls_def tk_ctl_def tk_view_def split: prod.split)

lemma table_calls_never_fail: "wait_never_fails table_calls"
  by (auto simp: wait_never_fails_def table_calls_def tk_wait_def)

text \<open>The same with an epoll instance that takes no more descriptors (ENOSPC).\<close>

definition full_calls :: "table_kernel timer_calls" where
  "full_calls = table_calls\<lparr>sys_epoll_ctl := (\<lambda>i oper f ev k. (Some 28, k))\<rparr>"

lemma full_calls_documented: "timerfd_documented full_calls tk_view"
  using table_calls_documented
  by (simp add: timerfd_documented_def full_calls_def create_documented_def settime_documented_def
      wait_documented_def close_documented_def epoll_documented_def)

lemma full_calls_never_fail: "wait_never_fails full_calls"
  using table_calls_never_fail by (simp add: wait_never_fails_def full_calls_def)

subsection \<open>Properties\<close>

lemma split_two_seconds: "timeout_split two_seconds = Inr (2, 0)"
  by (simp add: timeout_split_def duration_cast_def two_seconds_def checked64_def in_int64_def
      signed_divide_int_def)

text \<open>What a constructor that succeeds leaves.\<close>

lemma timer_ctor_runs:
  assumes doc: "timerfd_documented K view" and split: "timeout_split d = Inr (s, ns)"
    and f: "sys_timerfd_create K (tw_kernel w) = (f, k)" "f \<noteq> -1"
    and add: "sys_epoll_ctl K ioc CtlAdd f \<lparr>ep_events = EPOLLIN, ep_ptr = a\<rparr> k = (None, k')"
  shows "timer_ctor K a ioc d w =
      (Inr (), w\<lparr>tw_kernel := k', tw_timers := (tw_timers w)
         (a \<mapsto> \<lparr>tm_ioc = ioc, tm_fd = f, tm_sec = s, tm_ns = ns, tm_ctx = None\<rparr>)\<rparr>)"
    and "kv_timer (view k') f = Some Disarmed"
    and "kv_interest (view k') ioc = (kv_interest (view (tw_kernel w)) ioc)(f \<mapsto> \<lparr>ep_events = EPOLLIN, ep_ptr = a\<rparr>)"
  using create_view(3) [OF doc f] ctl_view(1,2) [OF doc add]
  by (simp_all add: timer_ctor_def f add split)

lemma waiter_start_waits:
  assumes doc: "timerfd_documented K view" "wait_never_fails K"
    and split: "timeout_split d = Inr (s, ns)" "0 \<le> s" "0 \<le> ns" "ns < nano_per_second" "s \<noteq> 0 \<or> ns \<noteq> 0"
    and f: "sys_timerfd_create K (tw_kernel w) = (f, k)" "f \<noteq> -1" "f \<noteq> ioc"
    and add: "sys_epoll_ctl K ioc CtlAdd f \<lparr>ep_events = EPOLLIN, ep_ptr = a\<rparr> k = (None, k')"
    and empty: "kv_interest (view (tw_kernel w)) ioc = (\<lambda>_. None)" "0 < n"
  shows "\<exists>w'. waiter_start K a ioc d n w = (Inr (), w') \<and> nix_waiting K view a ioc f n n w' \<and>
           dw_fired w' = dw_fired w \<and> (\<forall>b. b \<noteq> a \<longrightarrow> tw_timers w' b = tw_timers w b)"
proof -
  let ?t = "\<lparr>tm_ioc = ioc, tm_fd = f, tm_sec = s, tm_ns = ns, tm_ctx = None\<rparr>"
  let ?w = "w\<lparr>tw_kernel := k', tw_timers := (tw_timers w)(a \<mapsto> ?t)\<rparr>"
  note c = timer_ctor_runs [OF doc(1) split(1) f(1,2) add]
  have t: "good_time ?t" using split by (simp add: good_time_def)
  obtain k2 where aw: "fd_await_suspend K a waiter_handle ?w =
      (Inr True, ?w\<lparr>tw_kernel := k2, tw_timers := (tw_timers ?w)(a \<mapsto> ?t\<lparr>tm_ctx := Some waiter_handle\<rparr>)\<rparr>)"
    and k2: "view k2 = (view k')\<lparr>kv_timer := (kv_timer (view k'))(f \<mapsto> Armed s ns)\<rparr>"
    by (rule await_arms [OF doc(1), of ?w a ?t waiter_handle]) (use t c in simp_all)
  show ?thesis
    using doc split f empty t c(3) k2
    by (simp add: waiter_start_def c(1) waiter_loop.simps [of K a n 0] aw nix_waiting_def armed_timer_def good_time_def)
qed



text \<open>C25. Round trip of the timeout: the seconds and nanoseconds that the constructor stores add up to
  exactly the timeout in nanoseconds, less than a second is left over, and the kernel takes them
  (\<open>rearm\<close> succeeds) exactly when the timeout is not negative.\<close>

theorem timeout_roundtrip:
  assumes "timerfd_documented K view" "period_ok d"
    and "timer_ctor K a ioc d w = (Inr (), w')" "tw_timers w' a = Some t"
    and "kv_timer (view k) (tm_fd t) \<noteq> None"
  shows "duration_cast nano_per_second d = Inr (tm_sec t * nano_per_second + tm_ns t) \<and>
    \<bar>tm_ns t\<bar> < nano_per_second \<and>
    (fst (rearm K t k) \<longleftrightarrow> 0 \<le> tm_sec t * nano_per_second + tm_ns t)"
proof -
  obtain s n where split: "timeout_split d = Inr (s, n)" and t: "tm_sec t = s" "tm_ns t = n"
    using assms(3,4) by (auto simp: timer_ctor_def Let_def split: prod.splits if_splits sum.splits)
  note v = timeout_split_value [OF assms(2) split]
  let ?y = "s * nano_per_second + n"
  note y = sdiv_rest [of nano_per_second ?y, unfolded v(2) [symmetric]]
  have b: "\<bar>n\<bar> < nano_per_second" using y(1) by simp
  obtain ok k' where s: "sys_timerfd_settime K (tm_fd t) (s, n) k = (ok, k')" by fastforce
  have "(0 \<le> s \<and> 0 \<le> n) = (0 \<le> ?y)"
    using y(2,3) by linarith
  then show ?thesis
    using v(1) b settime_view(1) [OF assms(1) s] assms(5) by (auto simp: t rearm_def s)
qed

theorem timeout_roundtrip_witness:
  "duration_cast nano_per_second \<lparr>ticks = -2500, period_num = 1, period_den = 1000\<rparr> =
     Inr (-2 * nano_per_second + -500000000) \<and> \<bar>-500000000 :: int\<bar> < nano_per_second \<and>
   (fst (rearm table_calls \<lparr>tm_ioc = 9, tm_fd = 3, tm_sec = -2, tm_ns = -500000000, tm_ctx = None\<rparr>
      \<lparr>tk_next = 4, tk_timers = [(3, Disarmed)], tk_interest = []\<rparr>) \<longleftrightarrow>
    0 \<le> (-2 * nano_per_second + -500000000 :: int))"
  using timeout_roundtrip [OF table_calls_documented, where
      a = 4096 and ioc = 9 and d = "\<lparr>ticks = -2500, period_num = 1, period_den = 1000\<rparr>" and
      w = "\<lparr>tw_kernel = fresh_kernel, tw_timers = Map.empty\<rparr>" and
      w' = "snd (timer_ctor table_calls 4096 9 \<lparr>ticks = -2500, period_num = 1, period_den = 1000\<rparr>
              \<lparr>tw_kernel = fresh_kernel, tw_timers = Map.empty\<rparr>)" and
      t = "\<lparr>tm_ioc = 9, tm_fd = 3, tm_sec = -2, tm_ns = -500000000, tm_ctx = None\<rparr>" and
      k = "\<lparr>tk_next = 4, tk_timers = [(3, Disarmed)], tk_interest = []\<rparr>"]
  by (simp add: period_ok_def timer_ctor_def tk_defs fresh_kernel_def timeout_split_def duration_cast_def Let_def
      checked64_def in_int64_def signed_divide_int_def tk_view_def rearm_def)

text \<open>A negative timeout: no await suspends, so the waiter counts every expiration at its start.\<close>

lemma settime_refuses:
  assumes doc: "timerfd_documented K view" and t: "tw_timers w a = Some t" "\<not> (0 \<le> tm_sec t \<and> 0 \<le> tm_ns t)"
  shows "\<exists>w'. fd_await_suspend K a h w = (Inr False, w') \<and> tw_timers w' a = Some (t\<lparr>tm_ctx := Some h\<rparr>) \<and>
    (\<forall>b. b \<noteq> a \<longrightarrow> tw_timers w' b = tw_timers w b)"
proof -
  obtain ok k' where s: "sys_timerfd_settime K (tm_fd t) (tm_sec t, tm_ns t) (tw_kernel w) = (ok, k')"
    by fastforce
  from settime_view(1) [OF doc s] t(2) have "\<not> ok" by auto
  then show ?thesis using t s by (simp add: fd_await_suspend_def rearm_def)
qed

lemma negative_timeout_never_waits:
  assumes doc: "timerfd_documented K view" and t: "tw_timers w a = Some t" "\<not> (0 \<le> tm_sec t \<and> 0 \<le> tm_ns t)"
    and c: "c \<le> n"
  shows "\<exists>w'. waiter_loop K a n c w = (Inr (), w') \<and> dw_waiter w' = Finished \<and> dw_fired w' = dw_fired w + (n - c)"
  using c t
proof (induction "n - c" arbitrary: c w t)
  case 0
  then show ?case by (simp add: waiter_loop.simps [of K a c c] timer_dtor_def)
next
  case (Suc m)
  from settime_refuses [OF doc Suc.prems(2,3), of waiter_handle] obtain w1 where w1:
    "fd_await_suspend K a waiter_handle w = (Inr False, w1)" "tw_timers w1 a = Some (t\<lparr>tm_ctx := Some waiter_handle\<rparr>)"
    by blast
  have "dw_fired w1 = dw_fired w"
    using w1(1) Suc.prems(2) by (auto simp: fd_await_suspend_def Let_def split: prod.splits)
  moreover from Suc.hyps(2) have c: "c < n" "m = n - (c + 1)" "n - c = Suc (n - (c + 1))" by simp_all
  moreover obtain w' where
    "waiter_loop K a n (c + 1) (w1\<lparr>dw_fired := dw_fired w1 + 1\<rparr>) = (Inr (), w')" "dw_waiter w' = Finished"
    "dw_fired w' = dw_fired w1 + 1 + (n - (c + 1))"
    using Suc.hyps(1) [of "c + 1" "w1\<lparr>dw_fired := dw_fired w1 + 1\<rparr>" "t\<lparr>tm_ctx := Some waiter_handle\<rparr>"]
      Suc.prems(3) c w1(2)
    by auto
  ultimately show ?case using w1(1) by (simp add: waiter_loop.simps [of K a n c])
qed

text \<open>
  A failure of \<open>epoll_ctl\<close> in the constructor stays unnoticed: the exception is kept by the eager task
  that nobody awaits, the timer's descriptor stays open with no object to close it, and \<open>main\<close>
  waits for ever for a timer that was never registered.\<close>

lemma failed_timer_hangs_example:
  assumes doc: "timerfd_documented K view" "wait_never_fails K"
    and ioc: "sys_epoll_create K k = (ioc, k1)" "ioc \<noteq> -1"
    and f: "sys_timerfd_create K k1 = (f, k2)" "f \<noteq> -1"
    and add: "sys_epoll_ctl K ioc CtlAdd f \<lparr>ep_events = EPOLLIN, ep_ptr = a\<rparr> k2 = (Some e, k3)"
    and n: "0 < n"
  shows "example_main K a d n k = None \<and>
    waiter_start K a ioc d n \<lparr>tw_kernel = k1, tw_timers = Map.empty, dw_waiter = NotStarted, dw_fired = 0\<rparr> =
      (Inr (), \<lparr>tw_kernel = k3, tw_timers = Map.empty, dw_waiter = Failed SystemError, dw_fired = 0\<rparr>) \<and>
    kv_timer (view k3) f = Some Disarmed"
proof -
  have start: "waiter_start K a ioc d n \<lparr>tw_kernel = k1, tw_timers = Map.empty, dw_waiter = NotStarted, dw_fired = 0\<rparr> =
      (Inr (), \<lparr>tw_kernel = k3, tw_timers = Map.empty, dw_waiter = Failed SystemError, dw_fired = 0\<rparr>)"
    using f add by (simp add: waiter_start_def timer_ctor_def)
  have "\<not> may_fire (view k3) ioc g" for g
    using epoll_create_view [OF doc(1) ioc(1)] ioc(2) create_view(3) [OF doc(1) f] ctl_view(3) [OF doc(1) add]
    by (simp add: may_fire_def)
  then have "sys_epoll_wait K ioc k3 = None" by (rule nothing_to_wait [OF doc])
  then show ?thesis
    using start ioc n ctl_view(1) [OF doc(1) add] create_view(3) [OF doc(1) f]
    by (simp add: example_main_def reactor_def count_loop_blocks reactor_turn_def)
qed

text \<open>
  A timeout of zero disarms the timer, so the first await is never resumed and \<open>main\<close> hangs.\<close>

lemma zero_timeout_never_fires:
  assumes doc: "timerfd_documented K view" "wait_never_fails K"
    and split: "timeout_split d = Inr (0, 0)"
    and ioc: "sys_epoll_create K k = (ioc, k1)" "ioc \<noteq> -1"
    and f: "sys_timerfd_create K k1 = (f, k2)" "f \<noteq> -1"
    and add: "sys_epoll_ctl K ioc CtlAdd f \<lparr>ep_events = EPOLLIN, ep_ptr = a\<rparr> k2 = (None, k3)"
    and n: "0 < n"
  shows "example_main K a d n k = None"
proof -
  let ?w = "\<lparr>tw_kernel = k1, tw_timers = Map.empty, dw_waiter = NotStarted, dw_fired = 0\<rparr>"
  have c: "timer_ctor K a ioc d ?w = (Inr (), ?w\<lparr>tw_kernel := k3, tw_timers := (tw_timers ?w)
         (a \<mapsto> \<lparr>tm_ioc = ioc, tm_fd = f, tm_sec = 0, tm_ns = 0, tm_ctx = None\<rparr>)\<rparr>)"
    and t: "kv_timer (view k3) f = Some Disarmed"
    and i: "kv_interest (view k3) ioc = [f \<mapsto> \<lparr>ep_events = EPOLLIN, ep_ptr = a\<rparr>]"
    using timer_ctor_runs [OF doc(1) split, of ?w, OF _ f(2) add] f(1)
      epoll_create_view [OF doc(1) ioc(1)] ioc(2) by simp_all
  obtain ok k4 where s: "sys_timerfd_settime K f (0, 0) k3 = (ok, k4)" by fastforce
  note v = settime_view [OF doc(1) s]
  have ok and view: "view k4 = (view k3)\<lparr>kv_timer := (kv_timer (view k3))(f \<mapsto> Disarmed)\<rparr>"
    using v t by simp_all
  obtain w where w: "waiter_start K a ioc d n ?w = (Inr (), w)" "tw_kernel w = k4"
    using \<open>ok\<close> n by (simp add: waiter_start_def c waiter_loop.simps [of K a n 0] fd_await_suspend_def rearm_def s)
  have "\<not> may_fire (view k4) ioc g" for g using view i by (simp add: may_fire_def)
  then have "sys_epoll_wait K ioc k4 = None" by (rule nothing_to_wait [OF doc])
  then show ?thesis
    using w ioc n by (simp add: example_main_def reactor_def count_loop_blocks reactor_turn_def)
qed

text \<open>
  A timer that is moved loses its wake-ups: the kernel still holds the address of the source, so an
  await on the new object \<open>b\<close> is never resumed by its expiration. What is resumed is whatever handle the
  source holds, a null handle if there is none, and a destroyed object if the source is gone.\<close>

lemma moved_timer_wakes_source:
  assumes doc: "timerfd_documented K view"
    and t: "tw_timers w a = Some t" "a \<noteq> b"
    and i: "kv_interest (view (tw_kernel w)) ioc = [tm_fd t \<mapsto> \<lparr>ep_events = EPOLLIN, ep_ptr = a\<rparr>]"
    and move: "timer_move_ctor junk a b w = (Inr (), w1)"
    and await: "fd_await_suspend K b h w1 = (Inr ok, w2)"
    and fire: "sys_epoll_wait K ioc (tw_kernel w2) = Some (WaitEvent ev, k)"
  shows "on_timer_expire resume (ep_ptr ev) (w2\<lparr>tw_kernel := k\<rparr>) =
      (case tm_ctx t of
         None \<Rightarrow> (Inl NullHandle, w2\<lparr>tw_kernel := k\<rparr>)
       | Some g \<Rightarrow> resume g (w2\<lparr>tw_kernel := k\<rparr>)) \<and>
    on_timer_expire resume (ep_ptr ev) (w2\<lparr>tw_kernel := k, tw_timers := (tw_timers w2)(a := None)\<rparr>) =
      (Inl WildPointer, w2\<lparr>tw_kernel := k, tw_timers := (tw_timers w2)(a := None)\<rparr>)"
proof -
  let ?u = "\<lparr>tm_ioc = junk, tm_fd = tm_fd t, tm_sec = tm_sec t, tm_ns = tm_ns t, tm_ctx = Some h\<rparr>"
  have w1: "w1 = w\<lparr>tw_timers := (tw_timers w)(b \<mapsto> ?u\<lparr>tm_ctx := None\<rparr>, a \<mapsto> moved_from t)\<rparr>"
    using move t(1) by (simp add: timer_move_ctor_def)
  obtain k2 where s: "sys_timerfd_settime K (tm_fd t) (tm_sec t, tm_ns t) (tw_kernel w) = (ok, k2)"
    and w2: "w2 = w1\<lparr>tw_kernel := k2, tw_timers := (tw_timers w1)(b \<mapsto> ?u)\<rparr>"
    using await t(2) by (auto simp: w1 fd_await_suspend_def rearm_def split: prod.splits)
  have "kv_interest (view k2) = kv_interest (view (tw_kernel w))"
    using settime_view(2,3) [OF doc s] by (cases ok) simp_all
  then have "ep_ptr ev = a"
    using wait_view(3) [OF doc fire] i by (auto simp: w2 split: if_splits)
  moreover have "tw_timers w2 a = Some (moved_from t)" using t(2) by (simp add: w2 w1)
  ultimately show ?thesis by (simp add: on_timer_expire_def moved_from_def)
qed

end
