(* ===== verification/Kqueue_Timer.thy ===== *)
theory Kqueue_Timer
  imports Fd_Timer
begin

text \<open>
  The macOS timer of applications/timers/osx-kqueue: it has no descriptor of its own, only an
  identifier in a kqueue, and each await registers a one-shot timer event under it. The driver is
  the nix one over again, except that a failed wait ends its reactor without an error.
\<close>

record kevent =
  ke_ident :: uptr
  ke_filter :: int
  ke_flags :: u32
  ke_fflags :: u32
  ke_data :: int
  ke_udata :: uptr

definition EVFILT_TIMER :: int where "EVFILT_TIMER = -7"
definition EV_ADD :: u32 where "EV_ADD = 1"
definition EV_ONESHOT :: u32 where "EV_ONESHOT = 16"
definition NOTE_USECONDS :: u32 where "NOTE_USECONDS = 2"

text \<open>\<open>kevent\<close> with one change, and \<open>kevent\<close> that waits for one event without a timeout.\<close>

record 'k kq_calls =
  sys_kqueue :: "'k \<Rightarrow> fd \<times> 'k"
  sys_kevent_change :: "fd \<Rightarrow> kevent \<Rightarrow> 'k \<Rightarrow> bool \<times> 'k"
  sys_kevent_wait :: "fd \<Rightarrow> 'k \<Rightarrow> (kevent option \<times> 'k) option"
  sys_kq_close :: "fd \<Rightarrow> 'k \<Rightarrow> 'k"

subsection \<open>The timer\<close>

record kq_timer =
  kt_ioc :: fd
  kt_ident :: uptr
  kt_timeout :: int
  kt_ctx :: "coro option"

definition kq_timer_ctor :: "fd \<Rightarrow> uptr \<Rightarrow> duration \<Rightarrow> kq_timer res" where
  "kq_timer_ctor ioc i d =
     bindE (duration_cast micro_per_second d)
       (\<lambda>us. Inr \<lparr>kt_ioc = ioc, kt_ident = i, kt_timeout = us, kt_ctx = None\<rparr>)"

record 'k kq_driver =
  kd_kernel :: 'k
  kd_timers :: "uptr \<rightharpoonup> kq_timer"
  kd_waiter :: waiter_state
  kd_fired :: nat

definition arm_event :: "uptr \<Rightarrow> kq_timer \<Rightarrow> kevent" where
  "arm_event a t =
     \<lparr>ke_ident = kt_ident t, ke_filter = EVFILT_TIMER, ke_flags = EV_ADD OR EV_ONESHOT,
      ke_fflags = NOTE_USECONDS, ke_data = kt_timeout t, ke_udata = a\<rparr>"

definition arm_timer :: "'k kq_calls \<Rightarrow> uptr \<Rightarrow> kq_timer \<Rightarrow> 'k \<Rightarrow> bool \<times> 'k" where
  "arm_timer K a t k = sys_kevent_change K (kt_ioc t) (arm_event a t) k"

definition kq_await_suspend :: "'k kq_calls \<Rightarrow> uptr \<Rightarrow> coro \<Rightarrow> ('k kq_driver, bool) op" where
  "kq_await_suspend K a h w =
     (case kd_timers w a of
        None \<Rightarrow> (Inl WildPointer, w)
      | Some t \<Rightarrow>
          let t' = t\<lparr>kt_ctx := Some h\<rparr>;
              (ok, k) = arm_timer K a t' (kd_kernel w)
          in (Inr ok, w\<lparr>kd_kernel := k, kd_timers := (kd_timers w)(a \<mapsto> t')\<rparr>))"

definition on_timer_expiration ::
  "(coro \<Rightarrow> ('k kq_driver, unit) op) \<Rightarrow> uptr \<Rightarrow> ('k kq_driver, unit) op" where
  "on_timer_expiration resume p w =
     (case kd_timers w p of
        None \<Rightarrow> (Inl WildPointer, w)
      | Some t \<Rightarrow> (case kt_ctx t of None \<Rightarrow> (Inl NullHandle, w) | Some h \<Rightarrow> resume h w))"

subsection \<open>The example\<close>

text \<open>The timer has no destructor of its own: at the end of the waiter it is just gone.\<close>

function kq_waiter_loop :: "'k kq_calls \<Rightarrow> uptr \<Rightarrow> nat \<Rightarrow> nat \<Rightarrow> ('k kq_driver, unit) op" where
  "kq_waiter_loop K a n c w =
     (if c < n
      then andthen (kq_await_suspend K a waiter_handle w) (\<lambda>suspended w.
             if suspended then (Inr (), w\<lparr>kd_waiter := Suspended c\<rparr>)
             else kq_waiter_loop K a n (c + 1) (w\<lparr>kd_fired := kd_fired w + 1\<rparr>))
      else (Inr (), w\<lparr>kd_timers := (kd_timers w)(a := None), kd_waiter := Finished\<rparr>))"
  by pat_completeness auto
termination by (relation "measure (\<lambda>(K, a, n, c, w). n - c)") auto

declare kq_waiter_loop.simps [simp del]

definition kq_waiter_resume :: "'k kq_calls \<Rightarrow> uptr \<Rightarrow> nat \<Rightarrow> coro \<Rightarrow> ('k kq_driver, unit) op" where
  "kq_waiter_resume K a n h w =
     (if h \<noteq> waiter_handle then (Inl DeadHandle, w)
      else (case kd_waiter w of
              Suspended c \<Rightarrow> kq_waiter_loop K a n (c + 1) (w\<lparr>kd_fired := kd_fired w + 1\<rparr>)
            | _ \<Rightarrow> (Inl DeadHandle, w)))"

definition kq_waiter_start :: "'k kq_calls \<Rightarrow> uptr \<Rightarrow> fd \<Rightarrow> duration \<Rightarrow> nat \<Rightarrow> ('k kq_driver, unit) op" where
  "kq_waiter_start K a ioc d n w =
     (case kq_timer_ctor ioc 0 d of
        Inl e \<Rightarrow> (Inl e, w)
      | Inr t \<Rightarrow> kq_waiter_loop K a n 0 (w\<lparr>kd_timers := (kd_timers w)(a \<mapsto> t)\<rparr>))"

definition kq_reactor_turn ::
  "'k kq_calls \<Rightarrow> (coro \<Rightarrow> ('k kq_driver, unit) op) \<Rightarrow> fd \<Rightarrow> 'k kq_driver \<Rightarrow> 'k kq_driver turn option" where
  "kq_reactor_turn K resume ioc w =
     (case sys_kevent_wait K ioc (kd_kernel w) of
        None \<Rightarrow> None
      | Some (None, k) \<Rightarrow> Some (Break (w\<lparr>kd_kernel := k\<rparr>))
      | Some (Some ev, k) \<Rightarrow>
          (case on_timer_expiration resume (ke_udata ev) (w\<lparr>kd_kernel := k\<rparr>) of
             (Inl e, w) \<Rightarrow> Some (Fail e w)
           | (Inr _, w) \<Rightarrow> Some (Next w)))"

definition kq_reactor ::
  "'k kq_calls \<Rightarrow> (coro \<Rightarrow> ('k kq_driver, unit) op) \<Rightarrow> fd \<Rightarrow> nat \<Rightarrow> 'k kq_driver \<Rightarrow>
   (unit res \<times> 'k kq_driver) option" where
  "kq_reactor K resume ioc n w = count_loop (kq_reactor_turn K resume ioc) n w"

text \<open>\<open>main\<close>, with the destructors at its end: the waiter's frame, then the kqueue.\<close>

definition kq_main ::
  "'k kq_calls \<Rightarrow> uptr \<Rightarrow> duration \<Rightarrow> nat \<Rightarrow> 'k \<Rightarrow> (unit res \<times> 'k kq_driver) option" where
  "kq_main K a d n k =
     (let (ioc, k) = sys_kqueue K k;
          w = \<lparr>kd_kernel = k, kd_timers = Map.empty, kd_waiter = NotStarted, kd_fired = 0\<rparr>
      in if ioc = -1 then Some (Inl SystemError, w)
         else (case kq_waiter_start K a ioc d n w of
                 (Inl e, w) \<Rightarrow> Some (Inl e, w)
               | (Inr _, w) \<Rightarrow>
                   map_option (\<lambda>(r, w). (r, w\<lparr>kd_timers := (kd_timers w)(a := None),
                                               kd_kernel := sys_kq_close K ioc (kd_kernel w)\<rparr>))
                     (kq_reactor K (kq_waiter_resume K a n) ioc n w)))"

definition kq_timeout :: duration where
  "kq_timeout = seconds 3"

subsection \<open>What the manual page promises\<close>

text \<open>
  A registration is known by its queue, identifier and filter; adding it again replaces it. A
  one-shot event is taken out when it is reported. A wait without a timeout blocks for ever only on
  an empty queue.
\<close>

type_synonym 'k kq_view = "'k \<Rightarrow> fd \<Rightarrow> uptr \<Rightarrow> kevent option"

definition kqueue_documented :: "'k kq_calls \<Rightarrow> 'k kq_view \<Rightarrow> bool" where
  "kqueue_documented K view \<longleftrightarrow>
     (\<forall>k. (let (i, k') = sys_kqueue K k in view k' = view k \<and> (i \<noteq> -1 \<longrightarrow> view k i = (\<lambda>_. None)))) \<and>
     (\<forall>i t a k. (let (ok, k') = sys_kevent_change K i (arm_event a t) k
        in view k' = (if ok then (view k)(i := (view k i)(kt_ident t \<mapsto> arm_event a t)) else view k))) \<and>
     (\<forall>i k. case sys_kevent_wait K i k of
        None \<Rightarrow> view k i = (\<lambda>_. None)
      | Some (None, k') \<Rightarrow> view k' = view k
      | Some (Some ev, k') \<Rightarrow> view k i (ke_ident ev) = Some ev \<and>
          view k' = (view k)(i := (view k i)(ke_ident ev := None)))"

definition kqueue_never_fails :: "'k kq_calls \<Rightarrow> bool" where
  "kqueue_never_fails K \<longleftrightarrow>
     (\<forall>i ev k. fst (sys_kevent_change K i ev k)) \<and> (\<forall>i k k'. sys_kevent_wait K i k \<noteq> Some (None, k'))"

lemma change_view:
  assumes "kqueue_documented K view" "kqueue_never_fails K"
  obtains k' where "arm_timer K a t k = (True, k')"
    "view k' = (view k)(kt_ioc t := (view k (kt_ioc t))(kt_ident t \<mapsto> arm_event a t))"
proof -
  obtain ok k' where c: "sys_kevent_change K (kt_ioc t) (arm_event a t) k = (ok, k')" by fastforce
  have ok using assms(2) c unfolding kqueue_never_fails_def by (metis fst_conv)
  then show thesis
    using c assms(1) [unfolded kqueue_documented_def, THEN conjunct2, THEN conjunct1, rule_format,
        of "kt_ioc t" a t k]
    by (intro that [of k']) (simp_all add: arm_timer_def)
qed

lemma kq_wait_view:
  assumes "kqueue_documented K view" "kqueue_never_fails K" "view k i b \<noteq> None"
  obtains ev k' where "sys_kevent_wait K i k = Some (Some ev, k')" "view k i (ke_ident ev) = Some ev"
    "view k' = (view k)(i := (view k i)(ke_ident ev := None))"
proof -
  note d = assms(1) [unfolded kqueue_documented_def, THEN conjunct2, THEN conjunct2,
      THEN spec [of _ i], THEN spec [of _ k]]
  have "sys_kevent_wait K i k \<noteq> None" using d assms(3) by (auto split: option.splits)
  then obtain ev k' where w: "sys_kevent_wait K i k = Some (Some ev, k')"
    using assms(2) unfolding kqueue_never_fails_def by (metis not_Some_eq surj_pair)
  then show thesis using d by (intro that [of ev k']) simp_all
qed

subsection \<open>The rounds\<close>

definition kq_waiting ::
  "'k kq_calls \<Rightarrow> 'k kq_view \<Rightarrow> uptr \<Rightarrow> fd \<Rightarrow> nat \<Rightarrow> nat \<Rightarrow> 'k kq_driver \<Rightarrow> bool" where
  "kq_waiting K view a ioc n c w \<longleftrightarrow>
     kqueue_documented K view \<and> kqueue_never_fails K \<and> 0 < c \<and> c \<le> n \<and> kd_waiter w = Suspended (n - c) \<and>
     (\<exists>t. kd_timers w a = Some t \<and> kt_ctx t = Some waiter_handle \<and> kt_ioc t = ioc \<and>
        view (kd_kernel w) ioc = [kt_ident t \<mapsto> arm_event a t])"

lemma kq_await_arms:
  assumes doc: "kqueue_documented K view" "kqueue_never_fails K"
    and t: "kd_timers w a = Some t" and empty: "view (kd_kernel w) (kt_ioc t) = (\<lambda>_. None)"
    and c: "c < n"
  shows "\<exists>w'. kq_waiter_loop K a n c w = (Inr (), w') \<and> kq_waiting K view a (kt_ioc t) n (n - c) w' \<and>
    kd_fired w' = kd_fired w"
proof -
  let ?t = "t\<lparr>kt_ctx := Some waiter_handle\<rparr>"
  obtain k' where "arm_timer K a ?t (kd_kernel w) = (True, k')"
    "view k' = (view (kd_kernel w))(kt_ioc t := (view (kd_kernel w) (kt_ioc t))(kt_ident t \<mapsto> arm_event a ?t))"
    using change_view [OF doc, of a ?t "kd_kernel w"] by auto
  then show ?thesis
    using doc t empty c
    by (simp add: kq_waiter_loop.simps [of K a n c] kq_await_suspend_def kq_waiting_def)
qed

lemma kq_round:
  assumes w: "kq_waiting K view a ioc n (Suc c) w"
  shows "\<exists>w'. kq_reactor_turn K (kq_waiter_resume K a n) ioc w = Some (Next w') \<and>
     kd_fired w' = Suc (kd_fired w) \<and>
     (if c = 0 then kd_waiter w' = Finished \<and> view (kd_kernel w') ioc = (\<lambda>_. None)
      else kq_waiting K view a ioc n c w')"
proof -
  from w obtain t where doc: "kqueue_documented K view" "kqueue_never_fails K" and c: "Suc c \<le> n"
    and s: "kd_waiter w = Suspended (n - Suc c)"
    and t: "kd_timers w a = Some t" "kt_ctx t = Some waiter_handle" "kt_ioc t = ioc"
    and v: "view (kd_kernel w) ioc = [kt_ident t \<mapsto> arm_event a t]"
    by (auto simp: kq_waiting_def)
  obtain ev k' where wait: "sys_kevent_wait K ioc (kd_kernel w) = Some (Some ev, k')"
    "view (kd_kernel w) ioc (ke_ident ev) = Some ev"
    "view k' = (view (kd_kernel w))(ioc := (view (kd_kernel w) ioc)(ke_ident ev := None))"
    using kq_wait_view [OF doc, of "kd_kernel w" ioc "kt_ident t"] v by auto
  from wait(2) v have ev: "ke_udata ev = a" "ke_ident ev = kt_ident t"
    by (auto simp: arm_event_def split: if_splits)
  have empty: "view k' ioc = (\<lambda>_. None)" using wait(3) v ev(2) by auto
  define w1 where "w1 = w\<lparr>kd_kernel := k', kd_fired := Suc (kd_fired w)\<rparr>"
  have turn: "kq_reactor_turn K (kq_waiter_resume K a n) ioc w =
      (case kq_waiter_loop K a n (n - c) w1 of (Inl e, w) \<Rightarrow> Some (Fail e w) | (Inr _, w) \<Rightarrow> Some (Next w))"
    using c s t wait(1) ev(1)
    by (simp add: kq_reactor_turn_def on_timer_expiration_def kq_waiter_resume_def w1_def Suc_diff_Suc)
  show ?thesis
  proof (cases "c = 0")
    case True
    then show ?thesis
      using empty by (simp add: turn kq_waiter_loop.simps [of K a n n]) (simp add: w1_def)
  next
    case False
    have "\<exists>w'. kq_waiter_loop K a n (n - c) w1 = (Inr (), w') \<and> kq_waiting K view a (kt_ioc t) n (n - (n - c)) w' \<and>
       kd_fired w' = kd_fired w1"
      by (rule kq_await_arms [OF doc]) (use t False c empty in \<open>simp_all add: w1_def\<close>)
    then show ?thesis using False c t(3) by (auto simp: turn w1_def)
  qed
qed

interpretation kq: expiry_loop "kq_reactor_turn K (kq_waiter_resume K a n) ioc" "kq_waiting K view a ioc n"
    "\<lambda>w. kd_waiter w = Finished \<and> view (kd_kernel w) ioc = (\<lambda>_. None)" kd_fired
  for K view a n ioc
  by unfold_locales (rule kq_round)

subsection \<open>A kernel that keeps these promises\<close>

record table_kq =
  tq_next :: fd
  tq_events :: "(fd \<times> kevent) list"

definition tq_key :: "fd \<times> kevent \<Rightarrow> fd \<times> uptr" where
  "tq_key x = (fst x, ke_ident (snd x))"

definition tq_view :: "table_kq kq_view" where
  "tq_view k i u = map_option snd (find (\<lambda>x. tq_key x = (i, u)) (tq_events k))"

definition kq_table_calls :: "table_kq kq_calls" where
  "kq_table_calls =
     \<lparr>sys_kqueue = (\<lambda>k. if tq_next k = -1 \<or> tq_next k \<in> fst ` set (tq_events k) then (-1, k)
                         else (tq_next k, k\<lparr>tq_next := tq_next k + 1\<rparr>)),
      sys_kevent_change = (\<lambda>i ev k. (True, k\<lparr>tq_events := (i, ev) # tq_events k\<rparr>)),
      sys_kevent_wait = (\<lambda>i k. map_option
        (\<lambda>x. (Some (snd x), k\<lparr>tq_events := filter (\<lambda>y. tq_key y \<noteq> tq_key x) (tq_events k)\<rparr>))
        (find (\<lambda>x. fst x = i) (tq_events k))),
      sys_kq_close = (\<lambda>i k. k\<lparr>tq_events := filter (\<lambda>x. fst x \<noteq> i) (tq_events k)\<rparr>)\<rparr>"

lemma find_filter_key:
  "find (\<lambda>x. g x = a) (filter (\<lambda>x. g x \<noteq> b) xs) = (if a = b then None else find (\<lambda>x. g x = a) xs)"
  by (induction xs) auto

lemma find_refine:
  "find P xs = Some x \<Longrightarrow> (\<And>y. Q y \<Longrightarrow> P y) \<Longrightarrow> Q x \<Longrightarrow> find Q xs = Some x"
  by (induction xs) (auto split: if_splits)

lemma tq_view_none: "(\<And>x. x \<in> set (tq_events k) \<Longrightarrow> fst x \<noteq> i) \<Longrightarrow> tq_view k i = (\<lambda>_. None)"
  by (fastforce simp: tq_view_def fun_eq_iff find_None_iff tq_key_def)

lemma tq_wait_view:
  assumes "find (\<lambda>x. fst x = i) (tq_events k) = Some x"
  shows "tq_view k i (ke_ident (snd x)) = Some (snd x)"
    and "tq_view (k\<lparr>tq_events := filter (\<lambda>y. tq_key y \<noteq> tq_key x) (tq_events k)\<rparr>) =
      (tq_view k)(i := (tq_view k i)(ke_ident (snd x) := None))"
proof -
  have i: "fst x = i" using assms by (auto simp: find_Some_iff)
  show "tq_view k i (ke_ident (snd x)) = Some (snd x)"
    using find_refine [OF assms, of "\<lambda>y. tq_key y = (i, ke_ident (snd x))"] i by (simp add: tq_view_def tq_key_def)
  show "tq_view (k\<lparr>tq_events := filter (\<lambda>y. tq_key y \<noteq> tq_key x) (tq_events k)\<rparr>) =
      (tq_view k)(i := (tq_view k i)(ke_ident (snd x) := None))"
  proof (intro ext)
    fix j u
    have "tq_key x = (i, ke_ident (snd x))" using i by (simp add: tq_key_def)
    then show "tq_view (k\<lparr>tq_events := filter (\<lambda>y. tq_key y \<noteq> tq_key x) (tq_events k)\<rparr>) j u =
        ((tq_view k)(i := (tq_view k i)(ke_ident (snd x) := None))) j u"
      by (simp add: tq_view_def find_filter_key)
  qed
qed

lemma kq_table_documented: "kqueue_documented kq_table_calls tq_view"
proof -
  have "tq_view (k\<lparr>tq_events := (i, arm_event a t) # tq_events k\<rparr>) =
      (tq_view k)(i := (tq_view k i)(kt_ident t \<mapsto> arm_event a t))" for i a t k
    by (auto simp: fun_eq_iff tq_view_def tq_key_def arm_event_def)
  moreover have "tq_view (k\<lparr>tq_next := n\<rparr>) = tq_view k" for k n by (simp add: fun_eq_iff tq_view_def)
  moreover have "tq_view k i = (\<lambda>_. None)" if "find (\<lambda>x. fst x = i) (tq_events k) = None" for i k
    using that by (intro tq_view_none) (auto simp: find_None_iff)
  moreover have "tq_view k (tq_next k) = (\<lambda>_. None)" if "tq_next k \<notin> fst ` set (tq_events k)" for k
    using that by (intro tq_view_none) (metis imageI)
  ultimately show ?thesis
    using tq_wait_view by (simp add: kqueue_documented_def kq_table_calls_def Let_def split: option.split)
qed

lemma kq_table_never_fails: "kqueue_never_fails kq_table_calls"
  by (auto simp: kqueue_never_fails_def kq_table_calls_def)

definition fresh_kq :: table_kq where
  "fresh_kq = \<lparr>tq_next = 3, tq_events = []\<rparr>"

subsection \<open>Properties\<close>

text \<open>
  The kqueue example returns after exactly as many expirations as it was asked for, with the
  waiter finished, for every timeout that fits in microseconds.\<close>

lemma kq_example_returns:
  assumes doc: "kqueue_documented K view" "kqueue_never_fails K"
    and ioc: "sys_kqueue K k = (ioc, k1)" "ioc \<noteq> -1"
    and t: "kq_timer_ctor ioc 0 d = Inr t"
  shows "\<exists>w. kq_main K a d n k = Some (Inr (), w) \<and> kd_fired w = n \<and> kd_waiter w = Finished \<and>
           kd_timers w a = None"
proof -
  let ?w = "\<lparr>kd_kernel = k1, kd_timers = [a \<mapsto> t], kd_waiter = NotStarted, kd_fired = 0\<rparr>"
  have i: "kt_ioc t = ioc" using t by (auto simp: kq_timer_ctor_def bindE_Inr_iff)
  have empty: "view k1 ioc = (\<lambda>_. None)"
    using doc(1) [unfolded kqueue_documented_def, THEN conjunct1, rule_format, of k] ioc by simp
  show ?thesis
  proof (cases "n = 0")
    case True
    then show ?thesis
      using ioc t by (simp add: kq_main_def kq_waiter_start_def kq_waiter_loop.simps [of K a 0 0] kq_reactor_def)
  next
    case False
    have "\<exists>w1. kq_waiter_loop K a n 0 ?w = (Inr (), w1) \<and> kq_waiting K view a (kt_ioc t) n (n - 0) w1 \<and>
      kd_fired w1 = kd_fired ?w"
      by (rule kq_await_arms [OF doc]) (use empty i False in simp_all)
    then obtain w1 where w1: "kq_waiter_loop K a n 0 ?w = (Inr (), w1)" "kq_waiting K view a ioc n n w1"
      "kd_fired w1 = 0" using i by auto
    from kq.all_rounds [OF _ w1(2)] False w1(3) ioc w1(1) t show ?thesis
      by (auto simp: kq_main_def kq_waiter_start_def kq_reactor_def)
  qed
qed

text \<open>
  Two timers that share an identifier on one queue are one registration: arming the second takes
  the first out, the event reported is the second's, and afterwards nothing is left on the queue
  that could resume the coroutine that awaits the first.\<close>

lemma same_ident_loses_waiter:
  assumes doc: "kqueue_documented K view" "kqueue_never_fails K"
    and t: "kt_ioc t = kt_ioc u" "kt_ident t = kt_ident u" "view k (kt_ioc u) = (\<lambda>_. None)"
    and arm: "arm_timer K a t k = (ok1, k1)" "arm_timer K b u k1 = (ok2, k2)"
  shows "\<exists>ev k3. sys_kevent_wait K (kt_ioc u) k2 = Some (Some ev, k3) \<and> ke_udata ev = b \<and>
           view k3 (kt_ioc u) = (\<lambda>_. None)"
proof -
  let ?ioc = "kt_ioc u"
  have "view k1 = (view k)(?ioc := [kt_ident u \<mapsto> arm_event a t])"
    using change_view [OF doc, of a t k] arm(1) t by auto
  moreover have "view k2 = (view k1)(?ioc := (view k1 ?ioc)(kt_ident u \<mapsto> arm_event b u))"
    using change_view [OF doc, of b u k1] arm(2) by auto
  ultimately have v: "view k2 ?ioc = [kt_ident u \<mapsto> arm_event b u]" by simp
  obtain ev k3 where w: "sys_kevent_wait K ?ioc k2 = Some (Some ev, k3)" "view k2 ?ioc (ke_ident ev) = Some ev"
    "view k3 = (view k2)(?ioc := (view k2 ?ioc)(ke_ident ev := None))"
    using kq_wait_view [OF doc, of k2 ?ioc "kt_ident u"] v by auto
  have "ev = arm_event b u" "ke_ident ev = kt_ident u" using w(2) v by (auto simp: arm_event_def split: if_splits)
  then show ?thesis using w v by (auto simp: arm_event_def)
qed

end
