(* ===== verification/Pool_Timer.thy ===== *)
theory Pool_Timer
  imports Fd_Timer
begin

text \<open>
  The Windows timer of applications/timers/win-pool: \<open>awaitable_timer\<close> over a thread-pool timer,
  \<open>io_context\<close>, which owns the pool, and the example. The callbacks run on the pool's one thread
  while \<open>main\<close> waits for the shutdown event, so the run is a sequence of callbacks.
\<close>

type_synonym handle_value = "64 word"

subsection \<open>File times\<close>

record pool_filetime =
  pf_low :: u32
  pf_high :: u32

text \<open>Units of 100 ns, negated (a relative time), split into two halves. Only negating the least integer would overflow.\<close>

definition pool_timeout_to_filetime :: "duration \<Rightarrow> pool_filetime res" where
  "pool_timeout_to_filetime d =
     bindE (duration_cast nano_per_second d) (\<lambda>ns.
       let quad = word_of_int (- (ns sdiv 100)) :: 64 word
       in Inr \<lparr>pf_low = ucast quad, pf_high = ucast (drop_bit 32 quad)\<rparr>)"

definition filetime_value :: "pool_filetime \<Rightarrow> int" where
  "filetime_value ft = sint (word_cat (pf_high ft) (pf_low ft) :: 64 word)"

subsection \<open>The system's calls\<close>

record pool_env =
  env_pool :: handle_value
  env_group :: handle_value

record 'k pool_calls =
  sys_CreateThreadpool :: "'k \<Rightarrow> handle_value \<times> 'k"
  sys_CreateCleanupGroup :: "'k \<Rightarrow> handle_value \<times> 'k"
  sys_CreateEvent :: "'k \<Rightarrow> handle_value \<times> 'k"
  sys_SetMaximum :: "handle_value \<Rightarrow> nat \<Rightarrow> 'k \<Rightarrow> 'k"
  sys_SetMinimum :: "handle_value \<Rightarrow> nat \<Rightarrow> 'k \<Rightarrow> bool \<times> 'k"
  sys_CreateTimer :: "uptr \<Rightarrow> pool_env \<Rightarrow> 'k \<Rightarrow> handle_value \<times> 'k"
  sys_SetTimer :: "handle_value \<Rightarrow> pool_filetime \<Rightarrow> 'k \<Rightarrow> 'k"
  sys_CloseTimer :: "handle_value \<Rightarrow> 'k \<Rightarrow> 'k"
  sys_SetEvent :: "handle_value \<Rightarrow> 'k \<Rightarrow> 'k"
  sys_event_is_set :: "'k \<Rightarrow> handle_value \<Rightarrow> bool"
  sys_next_callback :: "'k \<Rightarrow> (uptr \<times> 'k) option"
  sys_CloseGroupMembers :: "handle_value \<Rightarrow> 'k \<Rightarrow> 'k"
  sys_CloseHandle :: "handle_value \<Rightarrow> 'k \<Rightarrow> 'k"
  sys_CloseGroup :: "handle_value \<Rightarrow> 'k \<Rightarrow> 'k"
  sys_ClosePool :: "handle_value \<Rightarrow> 'k \<Rightarrow> 'k"

subsection \<open>The IO context\<close>

record io_context =
  ic_closed :: bool
  ic_pool :: handle_value
  ic_group :: handle_value
  ic_env :: pool_env
  ic_event :: handle_value

record win_timer =
  wt_ioc :: uptr
  wt_timeout :: pool_filetime
  wt_timer :: handle_value
  wt_ctx :: "coro option"

record 'k tpool_world =
  pw_kernel :: 'k
  pw_iocs :: "uptr \<rightharpoonup> io_context"
  pw_timers :: "uptr \<rightharpoonup> win_timer"
  pw_waiter :: waiter_state
  pw_fired :: nat

text \<open>The constructor; the event's handle is not checked. What it throws leaves the handles open.\<close>

definition io_context_ctor :: "'k pool_calls \<Rightarrow> uptr \<Rightarrow> nat \<Rightarrow> ('k tpool_world, unit) op" where
  "io_context_ctor K a concurrency w =
     (let (p, k) = sys_CreateThreadpool K (pw_kernel w);
          (g, k) = sys_CreateCleanupGroup K k;
          (e, k) = sys_CreateEvent K k
      in if p = 0 \<or> g = 0 then (Inl SystemError, w\<lparr>pw_kernel := k\<rparr>)
         else let (ok, k) = sys_SetMinimum K p concurrency (sys_SetMaximum K p concurrency k)
              in if \<not> ok then (Inl SystemError, w\<lparr>pw_kernel := k\<rparr>)
                 else (Inr (), w\<lparr>pw_kernel := k, pw_iocs := (pw_iocs w)(a \<mapsto>
                         \<lparr>ic_closed = False, ic_pool = p, ic_group = g,
                          ic_env = \<lparr>env_pool = p, env_group = g\<rparr>, ic_event = e\<rparr>)\<rparr>))"

definition ioc_shutdown :: "'k pool_calls \<Rightarrow> io_context \<Rightarrow> 'k \<Rightarrow> 'k" where
  "ioc_shutdown K c k = sys_SetEvent K (ic_event c) k"

definition ioc_wait_close :: "'k pool_calls \<Rightarrow> io_context \<Rightarrow> 'k \<Rightarrow> 'k" where
  "ioc_wait_close K c k = sys_CloseGroupMembers K (ic_group c) k"

definition ioc_cleanup :: "'k pool_calls \<Rightarrow> io_context \<Rightarrow> 'k \<Rightarrow> 'k" where
  "ioc_cleanup K c k = sys_ClosePool K (ic_pool c) (sys_CloseGroup K (ic_group c) (sys_CloseHandle K (ic_event c) k))"

definition io_context_dtor :: "'k pool_calls \<Rightarrow> uptr \<Rightarrow> ('k tpool_world, unit) op" where
  "io_context_dtor K a w =
     (case pw_iocs w a of
        None \<Rightarrow> (Inl WildPointer, w)
      | Some c \<Rightarrow> (Inr (), w\<lparr>pw_kernel := ioc_cleanup K c (ioc_wait_close K c (pw_kernel w)),
                             pw_iocs := (pw_iocs w)(a := None)\<rparr>))"

subsection \<open>The timer\<close>

definition win_timer_ctor :: "'k pool_calls \<Rightarrow> uptr \<Rightarrow> uptr \<Rightarrow> duration \<Rightarrow> ('k tpool_world, unit) op" where
  "win_timer_ctor K a ioc d w =
     (case pool_timeout_to_filetime d of
        Inl e \<Rightarrow> (Inl e, w)
      | Inr ft \<Rightarrow>
          (case pw_iocs w ioc of
             None \<Rightarrow> (Inl WildPointer, w)
           | Some c \<Rightarrow>
               let (h, k) = sys_CreateTimer K a (ic_env c) (pw_kernel w)
               in if h = 0 then (Inl SystemError, w\<lparr>pw_kernel := k\<rparr>)
                  else (Inr (), w\<lparr>pw_kernel := k, pw_timers := (pw_timers w)(a \<mapsto>
                          \<lparr>wt_ioc = ioc, wt_timeout = ft, wt_timer = h, wt_ctx = None\<rparr>)\<rparr>)))"

definition win_timer_close :: "'k pool_calls \<Rightarrow> win_timer \<Rightarrow> 'k \<Rightarrow> 'k" where
  "win_timer_close K t k = (if wt_timer t \<noteq> 0 then sys_CloseTimer K (wt_timer t) k else k)"

text \<open>The destructor is the default one: the handle object closes the timer.\<close>

definition win_timer_dtor :: "'k pool_calls \<Rightarrow> uptr \<Rightarrow> ('k tpool_world, unit) op" where
  "win_timer_dtor K a w =
     (case pw_timers w a of
        None \<Rightarrow> (Inl WildPointer, w)
      | Some t \<Rightarrow> (Inr (), w\<lparr>pw_kernel := win_timer_close K t (pw_kernel w), pw_timers := (pw_timers w)(a := None)\<rparr>))"

text \<open>The move constructor: the pool's timer keeps the context address of the source.\<close>

definition win_timer_move :: "uptr \<Rightarrow> uptr \<Rightarrow> ('k tpool_world, unit) op" where
  "win_timer_move a b w =
     (case pw_timers w a of
        None \<Rightarrow> (Inl WildPointer, w)
      | Some t \<Rightarrow> (Inr (), w\<lparr>pw_timers := (pw_timers w)(b \<mapsto> t, a \<mapsto> t\<lparr>wt_timer := 0\<rparr>)\<rparr>))"

text \<open>
  The move assignment. \<open>ioc\<close> is a reference, so \<open>ioc = at.ioc\<close> does not make it refer to the
  other context but copies the other context into the one it refers to.
\<close>

definition win_timer_move_assign :: "'k pool_calls \<Rightarrow> uptr \<Rightarrow> uptr \<Rightarrow> ('k tpool_world, unit) op" where
  "win_timer_move_assign K a b w =
     (case (pw_timers w a, pw_timers w b) of
        (Some t, Some u) \<Rightarrow>
          if a = b then (Inr (), w)
          else (case (pw_iocs w (wt_ioc t), pw_iocs w (wt_ioc u)) of
                  (Some c, Some _) \<Rightarrow>
                    (Inr (), w\<lparr>pw_kernel := win_timer_close K u (pw_kernel w),
                       pw_iocs := (pw_iocs w)(wt_ioc u \<mapsto> c),
                       pw_timers := (pw_timers w)
                         (b \<mapsto> t\<lparr>wt_ioc := wt_ioc u\<rparr>, a \<mapsto> t\<lparr>wt_timer := 0\<rparr>)\<rparr>)
                | _ \<Rightarrow> (Inl WildPointer, w))
      | _ \<Rightarrow> (Inl WildPointer, w))"

text \<open>\<open>await_suspend\<close> returns nothing: the awaiting coroutine always suspends.\<close>

definition win_await_suspend :: "'k pool_calls \<Rightarrow> uptr \<Rightarrow> coro \<Rightarrow> ('k tpool_world, unit) op" where
  "win_await_suspend K a h w =
     (case pw_timers w a of
        None \<Rightarrow> (Inl WildPointer, w)
      | Some t \<Rightarrow> (Inr (), w\<lparr>pw_kernel := sys_SetTimer K (wt_timer t) (wt_timeout t) (pw_kernel w),
                             pw_timers := (pw_timers w)(a \<mapsto> t\<lparr>wt_ctx := Some h\<rparr>)\<rparr>))"

definition win_timer_expiration ::
  "(coro \<Rightarrow> ('k tpool_world, unit) op) \<Rightarrow> uptr \<Rightarrow> ('k tpool_world, unit) op" where
  "win_timer_expiration resume p w =
     (case pw_timers w p of
        None \<Rightarrow> (Inl WildPointer, w)
      | Some t \<Rightarrow> (case wt_ctx t of None \<Rightarrow> (Inl NullHandle, w) | Some h \<Rightarrow> resume h w))"

subsection \<open>The example\<close>

text \<open>The coroutine from count \<open>i\<close> on; at its end it shuts the context down, and then its timer goes.\<close>

definition start_timer_loop :: "'k pool_calls \<Rightarrow> uptr \<Rightarrow> uptr \<Rightarrow> nat \<Rightarrow> nat \<Rightarrow> ('k tpool_world, unit) op" where
  "start_timer_loop K a ioc n i w =
     (if i < n
      then andthen (win_await_suspend K a waiter_handle w) (\<lambda>_ w. (Inr (), w\<lparr>pw_waiter := Suspended i\<rparr>))
      else (case pw_iocs w ioc of
              None \<Rightarrow> (Inl WildPointer, w)
            | Some c \<Rightarrow>
                andthen (win_timer_dtor K a (w\<lparr>pw_kernel := ioc_shutdown K c (pw_kernel w)\<rparr>))
                  (\<lambda>_ w. (Inr (), w\<lparr>pw_waiter := Finished\<rparr>))))"

definition start_timer_resume :: "'k pool_calls \<Rightarrow> uptr \<Rightarrow> uptr \<Rightarrow> nat \<Rightarrow> coro \<Rightarrow> ('k tpool_world, unit) op" where
  "start_timer_resume K a ioc n h w =
     (if h \<noteq> waiter_handle then (Inl DeadHandle, w)
      else (case pw_waiter w of
              Suspended i \<Rightarrow> start_timer_loop K a ioc n (i + 1) (w\<lparr>pw_fired := pw_fired w + 1\<rparr>)
            | _ \<Rightarrow> (Inl DeadHandle, w)))"

definition start_timer :: "'k pool_calls \<Rightarrow> uptr \<Rightarrow> uptr \<Rightarrow> duration \<Rightarrow> nat \<Rightarrow> ('k tpool_world, unit) op" where
  "start_timer K a ioc d n w =
     (case win_timer_ctor K a ioc d w of
        (Inl SystemError, w) \<Rightarrow> (Inr (), w\<lparr>pw_waiter := Failed SystemError\<rparr>)
      | (Inl e, w) \<Rightarrow> (Inl e, w)
      | (Inr _, w) \<Rightarrow> start_timer_loop K a ioc n 0 w)"

definition pool_turn ::
  "'k pool_calls \<Rightarrow> (coro \<Rightarrow> ('k tpool_world, unit) op) \<Rightarrow> 'k tpool_world \<Rightarrow> 'k tpool_world turn option" where
  "pool_turn K resume w =
     (case sys_next_callback K (pw_kernel w) of
        None \<Rightarrow> None
      | Some (p, k) \<Rightarrow>
          (case win_timer_expiration resume p (w\<lparr>pw_kernel := k\<rparr>) of
             (Inl e, w) \<Rightarrow> Some (Fail e w)
           | (Inr _, w) \<Rightarrow> Some (Next w)))"

text \<open>\<open>run\<close> waits for the event while the pool's thread runs the callbacks.\<close>

definition ioc_run ::
  "'k pool_calls \<Rightarrow> (coro \<Rightarrow> ('k tpool_world, unit) op) \<Rightarrow> io_context \<Rightarrow> 'k tpool_world \<Rightarrow>
   (unit res \<times> 'k tpool_world) option" where
  "ioc_run K resume c w =
     until_loop (\<lambda>w. sys_event_is_set K (pw_kernel w) (ic_event c)) (pool_turn K resume) w"

definition pool_main ::
  "'k pool_calls \<Rightarrow> uptr \<Rightarrow> uptr \<Rightarrow> duration \<Rightarrow> nat \<Rightarrow> 'k \<Rightarrow> (unit res \<times> 'k tpool_world) option" where
  "pool_main K ioc a d n k =
     (case andthen (io_context_ctor K ioc 1
               \<lparr>pw_kernel = k, pw_iocs = Map.empty, pw_timers = Map.empty, pw_waiter = NotStarted, pw_fired = 0\<rparr>)
             (\<lambda>_. start_timer K a ioc d n) of
        (Inl e, w) \<Rightarrow> Some (Inl e, w)
      | (Inr _, w) \<Rightarrow>
          (case pw_iocs w ioc of
             None \<Rightarrow> Some (Inl WildPointer, w)
           | Some c \<Rightarrow>
               map_option (\<lambda>r. andthen r
                   (\<lambda>_ w. io_context_dtor K ioc (w\<lparr>pw_kernel := ioc_wait_close K c (pw_kernel w)\<rparr>)))
                 (ioc_run K (start_timer_resume K a ioc n) c w)))"

subsection \<open>What the documentation promises\<close>

record pool_view =
  pv_timers :: "handle_value \<Rightarrow> (uptr \<times> bool) option"
  pv_events :: "handle_value \<Rightarrow> bool"

text \<open>
  A timer has the context of its creation and is armed or not; a callback is for an armed timer and
  disarms it, and the pool's thread sleeps for ever only when no timer is armed.
\<close>

definition pool_documented :: "'k pool_calls \<Rightarrow> ('k \<Rightarrow> pool_view) \<Rightarrow> bool" where
  "pool_documented K view \<longleftrightarrow>
     (\<forall>a e k. (let (h, k') = sys_CreateTimer K a e k; v = view k
        in view k' = (if h = 0 then v else v\<lparr>pv_timers := (pv_timers v)(h \<mapsto> (a, False))\<rparr>))) \<and>
     (\<forall>h ft k. (let v = view k in view (sys_SetTimer K h ft k) =
        v\<lparr>pv_timers := (pv_timers v)(h := map_option (\<lambda>x. (fst x, True)) (pv_timers v h))\<rparr>)) \<and>
     (\<forall>h k. view (sys_CloseTimer K h k) = (view k)\<lparr>pv_timers := (pv_timers (view k))(h := None)\<rparr>) \<and>
     (\<forall>h k. view (sys_SetEvent K h k) = (view k)\<lparr>pv_events := (pv_events (view k))(h := True)\<rparr>) \<and>
     (\<forall>h k. sys_event_is_set K k h \<longleftrightarrow> pv_events (view k) h) \<and>
     (\<forall>k. case sys_next_callback K k of
        None \<Rightarrow> \<forall>h a. pv_timers (view k) h \<noteq> Some (a, True)
      | Some (p, k') \<Rightarrow> \<exists>h. pv_timers (view k) h = Some (p, True) \<and>
          view k' = (view k)\<lparr>pv_timers := (pv_timers (view k))(h \<mapsto> (p, False))\<rparr>)"

lemma pool_view:
  assumes "pool_documented K view"
  shows "sys_CreateTimer K a e k = (h, k') \<Longrightarrow> h \<noteq> 0 \<Longrightarrow>
      view k' = (view k)\<lparr>pv_timers := (pv_timers (view k))(h \<mapsto> (a, False))\<rparr>"
    and "view (sys_SetTimer K h ft k) =
      (view k)\<lparr>pv_timers := (pv_timers (view k))(h := map_option (\<lambda>x. (fst x, True)) (pv_timers (view k) h))\<rparr>"
    and "view (sys_CloseTimer K h k) = (view k)\<lparr>pv_timers := (pv_timers (view k))(h := None)\<rparr>"
    and "view (sys_SetEvent K h k) = (view k)\<lparr>pv_events := (pv_events (view k))(h := True)\<rparr>"
    and "sys_event_is_set K k h \<longleftrightarrow> pv_events (view k) h"
proof -
  note d = assms [unfolded pool_documented_def Let_def]
  show "sys_CreateTimer K a e k = (h, k') \<Longrightarrow> h \<noteq> 0 \<Longrightarrow>
      view k' = (view k)\<lparr>pv_timers := (pv_timers (view k))(h \<mapsto> (a, False))\<rparr>"
    using d [THEN conjunct1, THEN spec [of _ a], THEN spec [of _ e], THEN spec [of _ k]] by simp
  from d show "view (sys_SetTimer K h ft k) =
      (view k)\<lparr>pv_timers := (pv_timers (view k))(h := map_option (\<lambda>x. (fst x, True)) (pv_timers (view k) h))\<rparr>"
    "view (sys_CloseTimer K h k) = (view k)\<lparr>pv_timers := (pv_timers (view k))(h := None)\<rparr>"
    "view (sys_SetEvent K h k) = (view k)\<lparr>pv_events := (pv_events (view k))(h := True)\<rparr>"
    "sys_event_is_set K k h \<longleftrightarrow> pv_events (view k) h"
    by (simp_all only:)
qed

lemma callback_view:
  assumes "pool_documented K view" "pv_timers (view k) h = Some (a, True)"
  obtains p k' g where "sys_next_callback K k = Some (p, k')" "pv_timers (view k) g = Some (p, True)"
    "view k' = (view k)\<lparr>pv_timers := (pv_timers (view k))(g \<mapsto> (p, False))\<rparr>"
  using assms(1) [unfolded pool_documented_def, THEN conjunct2, THEN conjunct2, THEN conjunct2, THEN conjunct2,
      THEN conjunct2, THEN spec [of _ k]] assms(2)
  by (cases "sys_next_callback K k") auto

subsection \<open>The rounds\<close>

definition pool_waiting ::
  "'k pool_calls \<Rightarrow> ('k \<Rightarrow> pool_view) \<Rightarrow> uptr \<Rightarrow> uptr \<Rightarrow> io_context \<Rightarrow> nat \<Rightarrow> nat \<Rightarrow> 'k tpool_world \<Rightarrow> bool" where
  "pool_waiting K view a ioc x n c w \<longleftrightarrow>
     pool_documented K view \<and> 0 < c \<and> c \<le> n \<and> pw_waiter w = Suspended (n - c) \<and> pw_iocs w ioc = Some x \<and>
     \<not> pv_events (view (pw_kernel w)) (ic_event x) \<and>
     (\<exists>t. pw_timers w a = Some t \<and> wt_ctx t = Some waiter_handle \<and> wt_timer t \<noteq> 0 \<and>
        pv_timers (view (pw_kernel w)) = [wt_timer t \<mapsto> (a, True)])"

definition pool_finished ::
  "'k pool_calls \<Rightarrow> ('k \<Rightarrow> pool_view) \<Rightarrow> uptr \<Rightarrow> uptr \<Rightarrow> io_context \<Rightarrow> 'k tpool_world \<Rightarrow> bool" where
  "pool_finished K view a ioc x w \<longleftrightarrow>
     pool_documented K view \<and> pw_waiter w = Finished \<and> pw_timers w a = None \<and> pw_iocs w ioc = Some x \<and>
     pv_events (view (pw_kernel w)) (ic_event x) \<and> pv_timers (view (pw_kernel w)) = Map.empty"

lemma start_loop_waits:
  assumes "pool_documented K view" "i < n" "pw_iocs w ioc = Some x" "\<not> pv_events (view (pw_kernel w)) (ic_event x)"
    and "pw_timers w a = Some t" "wt_timer t \<noteq> 0" "pv_timers (view (pw_kernel w)) = [wt_timer t \<mapsto> (a, b)]"
  shows "\<exists>w'. start_timer_loop K a ioc n i w = (Inr (), w') \<and> pool_waiting K view a ioc x n (n - i) w' \<and>
    pw_fired w' = pw_fired w"
  using assms by (simp add: start_timer_loop_def win_await_suspend_def pool_waiting_def pool_view)

lemma pool_round:
  assumes w: "pool_waiting K view a ioc x n (Suc c) w"
  shows "\<exists>w'. pool_turn K (start_timer_resume K a ioc n) w = Some (Next w') \<and> pw_fired w' = Suc (pw_fired w) \<and>
     (if c = 0 then pool_finished K view a ioc x w' else pool_waiting K view a ioc x n c w')"
proof -
  from w obtain t where doc: "pool_documented K view" and c: "Suc c \<le> n"
    and s: "pw_waiter w = Suspended (n - Suc c)" "pw_iocs w ioc = Some x"
      "\<not> pv_events (view (pw_kernel w)) (ic_event x)"
    and t: "pw_timers w a = Some t" "wt_ctx t = Some waiter_handle" "wt_timer t \<noteq> 0"
    and v: "pv_timers (view (pw_kernel w)) = [wt_timer t \<mapsto> (a, True)]"
    by (auto simp: pool_waiting_def)
  obtain p k' g where cb: "sys_next_callback K (pw_kernel w) = Some (p, k')"
    "pv_timers (view (pw_kernel w)) g = Some (p, True)"
    "view k' = (view (pw_kernel w))\<lparr>pv_timers := (pv_timers (view (pw_kernel w)))(g \<mapsto> (p, False))\<rparr>"
    using callback_view [OF doc, of "pw_kernel w" "wt_timer t" a] v by auto
  have g: "p = a" "g = wt_timer t" using cb(2) v by (auto split: if_splits)
  define w1 where "w1 = w\<lparr>pw_kernel := k', pw_fired := Suc (pw_fired w)\<rparr>"
  have k': "view k' = (view (pw_kernel w))\<lparr>pv_timers := [wt_timer t \<mapsto> (a, False)]\<rparr>" using cb(3) v g by simp
  have turn: "pool_turn K (start_timer_resume K a ioc n) w =
      (case start_timer_loop K a ioc n (n - c) w1 of (Inl e, w) \<Rightarrow> Some (Fail e w) | (Inr _, w) \<Rightarrow> Some (Next w))"
    using c s t cb(1) g by (simp add: pool_turn_def win_timer_expiration_def start_timer_resume_def w1_def Suc_diff_Suc)
  show ?thesis
  proof (cases "c = 0")
    case True
    then show ?thesis
      using doc s t k'
      by (simp add: turn start_timer_loop_def win_timer_dtor_def w1_def pool_finished_def ioc_shutdown_def
          win_timer_close_def pool_view)
  next
    case False
    have "\<exists>w'. start_timer_loop K a ioc n (n - c) w1 = (Inr (), w') \<and>
        pool_waiting K view a ioc x n (n - (n - c)) w' \<and> pw_fired w' = pw_fired w1"
      by (rule start_loop_waits [OF doc, of _ _ _ _ _ _ t False]) (use False c s t k' in \<open>simp_all add: w1_def\<close>)
    then show ?thesis using False c by (auto simp: turn w1_def)
  qed
qed

interpretation tpool: stopping_loop "pool_turn K (start_timer_resume K a ioc n)" "pool_waiting K view a ioc x n"
    "pool_finished K view a ioc x" pw_fired
    "\<lambda>w. pool_documented K view \<and> sys_event_is_set K (pw_kernel w) (ic_event x)"
  for K view a n ioc x
  by unfold_locales (auto simp: pool_round pool_waiting_def pool_finished_def pool_view)

subsection \<open>Properties\<close>

text \<open>
  Round trip of the file time: put together again, the two halves are minus the timeout in units of
  100 ns, for every timeout of either sign. It is a relative time (negative) exactly for timeouts of at
  least one unit: what is shorter, and every negative timeout, becomes a time that has passed.\<close>

lemma pool_filetime_roundtrip:
  assumes "pool_timeout_to_filetime d = Inr ft" "duration_cast nano_per_second d = Inr ns"
  shows "filetime_value ft = - (ns sdiv 100) \<and> (filetime_value ft < 0 \<longleftrightarrow> 100 \<le> ns)"
proof -
  let ?q = "word_of_int (- (ns sdiv 100)) :: 64 word"
  have "word_cat (ucast (drop_bit 32 ?q) :: u32) (ucast ?q :: u32) = ?q"
    by (rule bit_word_eqI) (auto simp: bit_word_cat_iff bit_ucast_iff bit_drop_bit_eq)
  moreover have "sint ?q = - (ns sdiv 100)"
  proof -
    have "\<bar>ns sdiv 100\<bar> = \<bar>ns\<bar> div 100"
      by (cases "0 \<le> ns") (simp_all add: sdiv_nonneg sdiv_neg pos_imp_zdiv_nonneg_iff)
    then have "\<bar>ns sdiv 100\<bar> < 2 ^ 63"
      using zdiv_mono1 [OF duration_cast_bound [OF assms(2)], of 100] by simp
    then have "signed_take_bit 63 (- (ns sdiv 100)) = - (ns sdiv 100)"
      by (intro signed_take_bit_int_eq_self) (auto simp: abs_less_iff)
    then show ?thesis by (simp add: sint_sbintrunc' del: of_int_minus)
  qed
  moreover have "0 < ns sdiv 100 \<longleftrightarrow> 100 \<le> ns"
    by (cases "0 \<le> ns") (simp_all add: sdiv_nonneg sdiv_neg pos_imp_zdiv_pos_iff pos_imp_zdiv_nonneg_iff not_less)
  ultimately show ?thesis
    using assms(1,2) by (auto simp: pool_timeout_to_filetime_def filetime_value_def Let_def)
qed

lemma two_seconds_filetime:
  "filetime_value \<lparr>pf_low = 0xFECED300, pf_high = 0xFFFFFFFF\<rparr> = - (2000000000 sdiv 100) \<and>
   (filetime_value \<lparr>pf_low = 0xFECED300, pf_high = 0xFFFFFFFF\<rparr> < 0 \<longleftrightarrow> 100 \<le> (2000000000 :: int))"
  by (rule pool_filetime_roundtrip [where d = two_seconds])
     (simp_all add: pool_timeout_to_filetime_def two_seconds_def duration_cast_def checked64_def in_int64_def
        signed_divide_int_def Let_def)

text \<open>
  Move assignment between timers of two contexts destroys one context and duplicates the other: both
  references now hold the source's handles, so that destroying both contexts closes the same pool,
  group and event twice, and nothing closes those of the target's context.\<close>

lemma move_assign_merges_contexts:
  assumes "pw_timers w a = Some t" "pw_timers w b = Some u" "a \<noteq> b" "wt_ioc t \<noteq> wt_ioc u"
    and "pw_iocs w (wt_ioc t) = Some c" "pw_iocs w (wt_ioc u) = Some c'"
    and "win_timer_move_assign K a b w = (Inr (), w')"
  shows "pw_iocs w' (wt_ioc t) = Some c \<and> pw_iocs w' (wt_ioc u) = Some c \<and>
    (\<exists>w1 w2. io_context_dtor K (wt_ioc u) w' = (Inr (), w1) \<and> io_context_dtor K (wt_ioc t) w1 = (Inr (), w2) \<and>
       pw_kernel w2 = ioc_cleanup K c (ioc_wait_close K c (ioc_cleanup K c (ioc_wait_close K c
                        (win_timer_close K u (pw_kernel w))))))"
  using assms by (auto simp: win_timer_move_assign_def io_context_dtor_def)

text \<open>A pool that keeps the promises, with a log of the pools it has closed.\<close>

record table_pool =
  tp_next :: handle_value
  tp_timers :: "(handle_value \<times> uptr \<times> bool) list"
  tp_events :: "handle_value list"
  tp_log :: "handle_value list"

definition tp_view :: "table_pool \<Rightarrow> pool_view" where
  "tp_view k = \<lparr>pv_timers = map_of (tp_timers k), pv_events = (\<lambda>h. h \<in> set (tp_events k))\<rparr>"

definition tp_new :: "table_pool \<Rightarrow> handle_value \<times> table_pool" where
  "tp_new k = (tp_next k, k\<lparr>tp_next := tp_next k + 1\<rparr>)"

definition tp_armed :: "table_pool \<Rightarrow> handle_value \<times> uptr \<times> bool \<Rightarrow> bool" where
  "tp_armed k x \<longleftrightarrow> snd (snd x) \<and> map_of (tp_timers k) (fst x) = Some (snd x)"

definition pool_table_calls :: "table_pool pool_calls" where
  "pool_table_calls =
     \<lparr>sys_CreateThreadpool = tp_new, sys_CreateCleanupGroup = tp_new, sys_CreateEvent = tp_new,
      sys_SetMaximum = (\<lambda>h n k. k), sys_SetMinimum = (\<lambda>h n k. (True, k)),
      sys_CreateTimer = (\<lambda>a e k. (tp_next k, if tp_next k = 0 then k else
         k\<lparr>tp_next := tp_next k + 1, tp_timers := (tp_next k, a, False) # tp_timers k\<rparr>)),
      sys_SetTimer = (\<lambda>h ft k. case map_of (tp_timers k) h of
         None \<Rightarrow> k | Some x \<Rightarrow> k\<lparr>tp_timers := (h, fst x, True) # tp_timers k\<rparr>),
      sys_CloseTimer = (\<lambda>h k. k\<lparr>tp_timers := filter (\<lambda>x. fst x \<noteq> h) (tp_timers k)\<rparr>),
      sys_SetEvent = (\<lambda>h k. k\<lparr>tp_events := h # tp_events k\<rparr>),
      sys_event_is_set = (\<lambda>k h. h \<in> set (tp_events k)),
      sys_next_callback = (\<lambda>k. map_option
         (\<lambda>x. (fst (snd x), k\<lparr>tp_timers := (fst x, fst (snd x), False) # tp_timers k\<rparr>))
         (find (tp_armed k) (tp_timers k))),
      sys_CloseGroupMembers = (\<lambda>h k. k), sys_CloseHandle = (\<lambda>h k. k), sys_CloseGroup = (\<lambda>h k. k),
      sys_ClosePool = (\<lambda>h k. k\<lparr>tp_log := tp_log k @ [h]\<rparr>)\<rparr>"

definition fresh_pool :: table_pool where
  "fresh_pool = \<lparr>tp_next = 1, tp_timers = [], tp_events = [], tp_log = []\<rparr>"

lemma pool_table_documented: "pool_documented pool_table_calls tp_view"
proof -
  have none: "map_of (tp_timers k) h \<noteq> Some (a, True)" if "find (tp_armed k) (tp_timers k) = None" for k h a
  proof
    assume "map_of (tp_timers k) h = Some (a, True)"
    then have "(h, a, True) \<in> set (tp_timers k)" "tp_armed k (h, a, True)"
      by (auto simp: tp_armed_def dest: map_of_SomeD)
    with that show False by (auto simp: find_None_iff)
  qed
  have some: "map_of (tp_timers k) (fst x) = Some (fst (snd x), True)"
    if "find (tp_armed k) (tp_timers k) = Some x" for k x
    using that by (auto simp: find_Some_iff tp_armed_def prod_eq_iff)
  have set_timer: "tp_view (sys_SetTimer pool_table_calls h ft k) =
      (tp_view k)\<lparr>pv_timers := (pv_timers (tp_view k))(h := map_option (\<lambda>x. (fst x, True)) (pv_timers (tp_view k) h))\<rparr>"
    for h ft k
    by (cases "map_of (tp_timers k) h") (auto simp: pool_table_calls_def tp_view_def fun_eq_iff)
  have close: "map_of (filter (\<lambda>x. fst x \<noteq> h) xs) = (map_of xs)(h := None)" for h and xs :: "(handle_value \<times> uptr \<times> bool) list"
    by (simp add: fun_eq_iff map_of_filter_keys [of "\<lambda>g. g \<noteq> h"])
  show ?thesis
    unfolding pool_documented_def
  proof (intro conjI)
    show "\<forall>k. case sys_next_callback pool_table_calls k of
        None \<Rightarrow> \<forall>h a. pv_timers (tp_view k) h \<noteq> Some (a, True)
      | Some (p, k') \<Rightarrow> \<exists>h. pv_timers (tp_view k) h = Some (p, True) \<and>
          tp_view k' = (tp_view k)\<lparr>pv_timers := (pv_timers (tp_view k))(h \<mapsto> (p, False))\<rparr>"
    proof
      fix k
      show "case sys_next_callback pool_table_calls k of
        None \<Rightarrow> \<forall>h a. pv_timers (tp_view k) h \<noteq> Some (a, True)
      | Some (p, k') \<Rightarrow> \<exists>h. pv_timers (tp_view k) h = Some (p, True) \<and>
          tp_view k' = (tp_view k)\<lparr>pv_timers := (pv_timers (tp_view k))(h \<mapsto> (p, False))\<rparr>"
        using none [of k] some [of k]
        by (cases "find (tp_armed k) (tp_timers k)") (auto simp: pool_table_calls_def tp_view_def)
    qed
  qed (use set_timer in \<open>auto simp: pool_table_calls_def tp_view_def Let_def close fun_eq_iff\<close>)
qed

text \<open>
  The thread-pool example returns: the coroutine is resumed as often as asked for, then shuts the
  context down, and \<open>main\<close> destroys the context.
\<close>

abbreviation tpool_start :: "'k \<Rightarrow> 'k tpool_world" where
  "tpool_start k \<equiv>
     \<lparr>pw_kernel = k, pw_iocs = Map.empty, pw_timers = Map.empty, pw_waiter = NotStarted, pw_fired = 0\<rparr>"

lemma start_timer_runs:
  assumes doc: "pool_documented K view"
    and c: "pw_iocs w ioc = Some x" "pv_timers (view (pw_kernel w)) = Map.empty"
      "\<not> pv_events (view (pw_kernel w)) (ic_event x)"
    and ft: "pool_timeout_to_filetime d = Inr ft"
    and h: "sys_CreateTimer K a (ic_env x) (pw_kernel w) = (h, k1)" "h \<noteq> 0"
  shows "\<exists>w'. start_timer K a ioc d n w = (Inr (), w') \<and> pw_fired w' = pw_fired w \<and>
    (if n = 0 then pool_finished K view a ioc x w' else pool_waiting K view a ioc x n n w')"
proof -
  let ?t = "\<lparr>wt_ioc = ioc, wt_timeout = ft, wt_timer = h, wt_ctx = None\<rparr>"
  let ?w = "w\<lparr>pw_kernel := k1, pw_timers := (pw_timers w)(a \<mapsto> ?t)\<rparr>"
  note v = pool_view(1) [OF doc h]
  have start: "start_timer K a ioc d n w = start_timer_loop K a ioc n 0 ?w"
    using c h ft by (simp add: start_timer_def win_timer_ctor_def)
  show ?thesis
  proof (cases "n = 0")
    case True
    then show ?thesis
      using c h doc v
      by (simp add: start [unfolded True] start_timer_loop_def win_timer_dtor_def pool_finished_def
          ioc_shutdown_def win_timer_close_def pool_view)
  next
    case False
    have "\<exists>w'. start_timer_loop K a ioc n 0 ?w = (Inr (), w') \<and> pool_waiting K view a ioc x n (n - 0) w' \<and>
       pw_fired w' = pw_fired ?w"
      by (rule start_loop_waits [OF doc, of _ _ _ _ _ _ ?t False]) (use False c h v in simp_all)
    then show ?thesis using False by (auto simp: start)
  qed
qed

lemma pool_example_returns:
  assumes doc: "pool_documented K view"
    and ctor: "io_context_ctor K ioc 1 (tpool_start k) = (Inr (), w1)" "pw_iocs w1 ioc = Some x"
    and c: "pv_timers (view (pw_kernel w1)) = Map.empty" "\<not> pv_events (view (pw_kernel w1)) (ic_event x)"
    and ft: "pool_timeout_to_filetime d = Inr ft"
    and h: "sys_CreateTimer K a (ic_env x) (pw_kernel w1) = (h, k1)" "h \<noteq> 0"
  shows "\<exists>w. pool_main K ioc a d n k = Some (Inr (), w) \<and> pw_fired w = n \<and> pw_waiter w = Finished \<and>
    pw_timers w a = None \<and> pw_iocs w ioc = None"
proof -
  have zero: "pw_fired w1 = 0"
    using ctor(1) by (auto simp: io_context_ctor_def Let_def split: prod.splits if_splits)
  obtain w2 where w2: "start_timer K a ioc d n w1 = (Inr (), w2)" "pw_fired w2 = 0"
    "if n = 0 then pool_finished K view a ioc x w2 else pool_waiting K view a ioc x n n w2"
    using start_timer_runs [OF doc ctor(2) c ft h, of n] zero by auto
  have "\<exists>w3. ioc_run K (start_timer_resume K a ioc n) x w2 = Some (Inr (), w3) \<and>
      pool_finished K view a ioc x w3 \<and> pw_fired w3 = n"
  proof (cases "n = 0")
    case True
    with w2 show ?thesis
      by (simp add: ioc_run_def until_loop.simps pool_finished_def pool_view(5) [OF doc])
  next
    case False
    with tpool.stops_after_all_rounds [of n K view a ioc x n w2] w2 doc show ?thesis
      by (simp add: ioc_run_def)
  qed
  moreover have "pw_iocs w2 ioc = Some x"
    using w2(3) by (auto simp: pool_finished_def pool_waiting_def split: if_splits)
  ultimately show ?thesis
    using ctor(1) w2(1) by (auto simp: pool_main_def io_context_dtor_def pool_finished_def)
qed

end
