(* ===== verification/Nix_Pipe.thy ===== *)
theory Nix_Pipe
  imports Epoll Expiry_Loop
begin

text \<open>
  The pipes of applications/pipes/nix-pipe: the reactor \<open>io_context\<close>, the awaiters it resumes, the two
  pipe classes and \<open>make_pipe\<close>, and the consumer of driver1.cpp. System calls are parameters.

  Objects are known by their address. What the code leaves uninitialised is an argument \<open>junk\<close>.
\<close>

type_synonym byte = "8 word"

definition EAGAIN :: nat where
  "EAGAIN = 11"

text \<open>
  \<open>epoll_wait\<close> has no timeout: \<open>None\<close> is a wait that never ends, and an empty result a failed one.
\<close>

record 'k pipe_calls =
  px_epoll_create :: "'k \<Rightarrow> fd \<times> 'k"
  px_epoll_ctl :: "'k epoll_ctl"
  px_epoll_wait :: "fd \<Rightarrow> u32 \<Rightarrow> 'k \<Rightarrow> (epoll_event list option \<times> 'k) option"
  px_pipe2 :: "'k \<Rightarrow> (fd \<times> fd) option \<times> 'k"
  px_read :: "fd \<Rightarrow> size_t \<Rightarrow> 'k \<Rightarrow> (nat + byte list) \<times> 'k"
  px_write :: "fd \<Rightarrow> byte list \<Rightarrow> 'k \<Rightarrow> (nat + size_t) \<times> 'k"
  px_close :: "fd \<Rightarrow> 'k \<Rightarrow> 'k"

subsection \<open>The state\<close>

record io_ctx =
  ic_max :: size_t
  ic_instance :: fd

record ioc_awaiter =
  aw_error :: nat
  aw_coro :: "coro option"

record pipe_awaiter = ioc_awaiter +
  pa_ioc :: uptr
  pa_me :: uptr
  pa_buffer :: uptr
  pa_len :: size_t
  pa_xfer :: size_t

record readable_pipe =
  rp_fd :: fd
  rp_ioc :: uptr

record writeable_pipe =
  wp_fd :: fd
  wp_ioc :: uptr
  wp_base :: bool

record 'k pipe_world =
  pk :: 'k
  p_iocs :: "uptr \<rightharpoonup> io_ctx"
  p_readers :: "uptr \<rightharpoonup> readable_pipe"
  p_writers :: "uptr \<rightharpoonup> writeable_pipe"
  p_awaiters :: "uptr \<rightharpoonup> pipe_awaiter"
  p_buffers :: "uptr \<rightharpoonup> byte list"

definition deref :: "('a \<Rightarrow> 'b option) \<Rightarrow> 'a \<Rightarrow> 'b res" where
  "deref m p = (case m p of None \<Rightarrow> Inl WildPointer | Some x \<Rightarrow> Inr x)"

definition given :: "'a res \<Rightarrow> ('a \<Rightarrow> 'w \<Rightarrow> 'b res \<times> 'w) \<Rightarrow> ('w, 'b) op" where
  "given r f w = (case r of Inl e \<Rightarrow> (Inl e, w) | Inr a \<Rightarrow> f a w)"

lemma given_simps [simp]: "given (Inl e) f w = (Inl e, w)" "given (Inr a) f w = f a w"
  by (simp_all add: given_def)

lemma deref_simps [simp]: "m p = Some x \<Longrightarrow> deref m p = Inr x" "m p = None \<Longrightarrow> deref m p = Inl WildPointer"
  by (simp_all add: deref_def)

subsection \<open>The reactor\<close>

definition io_ctx_ctor :: "'k pipe_calls \<Rightarrow> uptr \<Rightarrow> size_t \<Rightarrow> (('k, 'z) pipe_world_scheme, unit) op" where
  "io_ctx_ctor K a n w =
     (if n < 1 then (Inl (RuntimeError ''invalid max_events count specified''), w)
      else let (i, k) = px_epoll_create K (pk w)
           in if i = -1 then (Inl SystemError, w\<lparr>pk := k\<rparr>)
              else (Inr (), w\<lparr>pk := k, p_iocs := (p_iocs w)(a \<mapsto> \<lparr>ic_max = n, ic_instance = i\<rparr>)\<rparr>))"

definition io_ctx_dtor :: "'k pipe_calls \<Rightarrow> uptr \<Rightarrow> (('k, 'z) pipe_world_scheme, unit) op" where
  "io_ctx_dtor K a w =
     given (deref (p_iocs w) a) (\<lambda>c w.
       (Inr (), w\<lparr>pk := if ic_instance c \<noteq> -1 then px_close K (ic_instance c) (pk w) else pk w,
                  p_iocs := (p_iocs w)(a := None)\<rparr>)) w"

definition io_ctx_move_ctor :: "uptr \<Rightarrow> uptr \<Rightarrow> (('k, 'z) pipe_world_scheme, unit) op" where
  "io_ctx_move_ctor a b w =
     given (deref (p_iocs w) a) (\<lambda>c w.
       (Inr (), w\<lparr>p_iocs := (p_iocs w)(b \<mapsto> c, a \<mapsto> c\<lparr>ic_instance := -1\<rparr>)\<rparr>)) w"

text \<open>The move assignment keeps \<open>max_events\<close> and does not close the instance it overwrites.\<close>

definition io_ctx_move_assign :: "uptr \<Rightarrow> uptr \<Rightarrow> (('k, 'z) pipe_world_scheme, unit) op" where
  "io_ctx_move_assign a b w =
     given (deref (p_iocs w) a) (\<lambda>c. given (deref (p_iocs w) b) (\<lambda>d w.
       if a = b then (Inr (), w)
       else (Inr (), w\<lparr>p_iocs := (p_iocs w)(b \<mapsto> d\<lparr>ic_instance := ic_instance c\<rparr>,
                                            a \<mapsto> c\<lparr>ic_instance := -1\<rparr>)\<rparr>))) w"

datatype io_interest = Read | Write

definition ctl_throws :: "nat option \<times> 'k \<Rightarrow> ('k, 'z) pipe_world_scheme \<Rightarrow> unit res \<times> ('k, 'z) pipe_world_scheme" where
  "ctl_throws r w = ((if fst r = None then Inr () else Inl SystemError), w\<lparr>pk := snd r\<rparr>)"

definition register_handle :: "'k pipe_calls \<Rightarrow> uptr \<Rightarrow> fd \<Rightarrow> io_interest \<Rightarrow> (('k, 'z) pipe_world_scheme, unit) op" where
  "register_handle K a f interest w =
     given (deref (p_iocs w) a) (\<lambda>c w.
       ctl_throws (px_epoll_ctl K (ic_instance c) CtlAdd f
         \<lparr>ep_events = (case interest of Read \<Rightarrow> EPOLLIN | Write \<Rightarrow> EPOLLOUT), ep_ptr = 0\<rparr> (pk w)) w) w"

definition unregister_handle :: "'k pipe_calls \<Rightarrow> uptr \<Rightarrow> fd \<Rightarrow> (('k, 'z) pipe_world_scheme, unit) op" where
  "unregister_handle K a f w =
     given (deref (p_iocs w) a) (\<lambda>c w.
       let (r, k) = px_epoll_ctl K (ic_instance c) CtlDel f \<lparr>ep_events = 0, ep_ptr = 0\<rparr> (pk w)
       in ((if r \<noteq> None \<and> r \<noteq> Some ENOENT then Inl SystemError else Inr ()), w\<lparr>pk := k\<rparr>)) w"

text \<open>\<open>set_awaiter\<close>: the event is value-initialised and only its pointer is set.\<close>

definition set_awaiter :: "'k pipe_calls \<Rightarrow> uptr \<Rightarrow> fd \<Rightarrow> uptr \<Rightarrow> (('k, 'z) pipe_world_scheme, unit) op" where
  "set_awaiter K a f p w =
     given (deref (p_iocs w) a) (\<lambda>c w.
       ctl_throws (px_epoll_ctl K (ic_instance c) CtlMod f \<lparr>ep_events = 0, ep_ptr = p\<rparr> (pk w)) w) w"

text \<open>\<open>io_ready_callback\<close>; the coroutine it resumes belongs to the program that uses the pipes.\<close>

definition io_ready_callback ::
  "(coro \<Rightarrow> (('k, 'z) pipe_world_scheme, unit) op) \<Rightarrow> uptr \<Rightarrow> nat \<Rightarrow> (('k, 'z) pipe_world_scheme, unit) op" where
  "io_ready_callback resume p code w =
     (if p = 0 then (Inl NullDeref, w)
      else given (deref (p_awaiters w) p) (\<lambda>x w.
             let w = w\<lparr>p_awaiters := (p_awaiters w)(p \<mapsto> x\<lparr>aw_error := code\<rparr>)\<rparr>
             in case aw_coro x of None \<Rightarrow> (Inl NullHandle, w) | Some h \<Rightarrow> resume h w) w)"

definition process_event ::
  "(coro \<Rightarrow> (('k, 'z) pipe_world_scheme, unit) op) \<Rightarrow> epoll_event \<Rightarrow> (('k, 'z) pipe_world_scheme, unit) op" where
  "process_event resume ev w =
     (if ep_events ev AND EPOLLIN \<noteq> 0 \<or> ep_events ev AND EPOLLOUT \<noteq> 0
      then io_ready_callback resume (ep_ptr ev) 0 w
      else if ep_events ev AND (EPOLLHUP OR EPOLLERR) \<noteq> 0
      then io_ready_callback resume (ep_ptr ev) 1 w
      else (Inr (), w))"

fun process_n_events ::
  "(coro \<Rightarrow> (('k, 'z) pipe_world_scheme, unit) op) \<Rightarrow> epoll_event list \<Rightarrow> (('k, 'z) pipe_world_scheme, unit) op" where
  "process_n_events resume [] w = (Inr (), w)"
| "process_n_events resume (ev # evs) w =
     andthen (process_event resume ev w) (\<lambda>_. process_n_events resume evs)"

text \<open>The loop of \<open>process_events\<close> has no way out but an exception.\<close>

partial_function (option) process_events ::
  "'k pipe_calls \<Rightarrow> (coro \<Rightarrow> (('k, 'z) pipe_world_scheme, unit) op) \<Rightarrow> io_ctx \<Rightarrow> ('k, 'z) pipe_world_scheme \<Rightarrow>
   (unit res \<times> ('k, 'z) pipe_world_scheme) option" where
  "process_events K resume c w =
     (case px_epoll_wait K (ic_instance c) (ucast (ic_max c)) (pk w) of
        None \<Rightarrow> None
      | Some (r, k) \<Rightarrow>
          (case r of
             None \<Rightarrow> Some (Inl SystemError, w\<lparr>pk := k\<rparr>)
           | Some evs \<Rightarrow>
               (case process_n_events resume evs (w\<lparr>pk := k\<rparr>) of
                  (x, w) \<Rightarrow> (case x of Inl e \<Rightarrow> Some (Inl e, w) | Inr _ \<Rightarrow> process_events K resume c w))))"

declare process_events.simps [code]

subsection \<open>The readable end\<close>

definition rp_ctor :: "'k pipe_calls \<Rightarrow> uptr \<Rightarrow> fd \<Rightarrow> uptr \<Rightarrow> (('k, 'z) pipe_world_scheme, unit) op" where
  "rp_ctor K a f ioc w =
     andthen (register_handle K ioc f Read w)
       (\<lambda>_ w. (Inr (), w\<lparr>p_readers := (p_readers w)(a \<mapsto> \<lparr>rp_fd = f, rp_ioc = ioc\<rparr>)\<rparr>))"

definition rp_close :: "'k pipe_calls \<Rightarrow> uptr \<Rightarrow> readable_pipe \<Rightarrow> (('k, 'z) pipe_world_scheme, unit) op" where
  "rp_close K a r w =
     andthen (unregister_handle K (rp_ioc r) (rp_fd r) w)
       (\<lambda>_ w. (Inr (), w\<lparr>pk := px_close K (rp_fd r) (pk w),
                         p_readers := (p_readers w)(a \<mapsto> r\<lparr>rp_fd := -1\<rparr>)\<rparr>))"

text \<open>A destructor is \<open>noexcept\<close>: what \<open>close\<close> throws in it ends the program.\<close>

definition rp_dtor :: "'k pipe_calls \<Rightarrow> uptr \<Rightarrow> (('k, 'z) pipe_world_scheme, unit) op" where
  "rp_dtor K a w =
     given (deref (p_readers w) a) (\<lambda>r w.
       andthen (if rp_fd r \<noteq> -1 then rp_close K a r w else (Inr (), w))
         (\<lambda>_ w. (Inr (), w\<lparr>p_readers := (p_readers w)(a := None)\<rparr>))) w"

definition rp_move_ctor :: "uptr \<Rightarrow> uptr \<Rightarrow> (('k, 'z) pipe_world_scheme, unit) op" where
  "rp_move_ctor a b w =
     given (deref (p_readers w) a) (\<lambda>r w.
       (Inr (), w\<lparr>p_readers := (p_readers w)(b \<mapsto> r, a \<mapsto> r\<lparr>rp_fd := -1\<rparr>)\<rparr>)) w"

definition rp_move_assign :: "'k pipe_calls \<Rightarrow> uptr \<Rightarrow> uptr \<Rightarrow> (('k, 'z) pipe_world_scheme, unit) op" where
  "rp_move_assign K a b w =
     given (deref (p_readers w) a) (\<lambda>r. given (deref (p_readers w) b) (\<lambda>s w.
       if a = b then (Inr (), w)
       else andthen (if rp_fd s \<noteq> -1 then rp_close K b s w else (Inr (), w))
              (\<lambda>_ w. (Inr (), w\<lparr>p_readers := (p_readers w)(b \<mapsto> r, a \<mapsto> r\<lparr>rp_fd := -1\<rparr>)\<rparr>)))) w"

text \<open>
  \<open>read_some\<close> makes an awaiter, at \<open>q\<close>. Its constructor's parameter is \<open>len_\<close> but it initialises
  \<open>len{len}\<close>, the member by itself, and it does not initialise \<open>bytes_xfer\<close>: both are junk.
\<close>

definition make_awaiter :: "size_t \<times> size_t \<Rightarrow> uptr \<Rightarrow> uptr \<Rightarrow> uptr \<Rightarrow> size_t \<Rightarrow> pipe_awaiter" where
  "make_awaiter junk ioc me buffer len =
     \<lparr>aw_error = 0, aw_coro = None, pa_ioc = ioc, pa_me = me, pa_buffer = buffer,
      pa_len = fst junk, pa_xfer = snd junk\<rparr>"

definition read_some ::
  "size_t \<times> size_t \<Rightarrow> uptr \<Rightarrow> uptr \<Rightarrow> uptr \<Rightarrow> size_t \<Rightarrow> (('k, 'z) pipe_world_scheme, unit) op" where
  "read_some junk q a buffer len w =
     given (deref (p_readers w) a) (\<lambda>r w.
       (Inr (), w\<lparr>p_awaiters := (p_awaiters w)(q \<mapsto> make_awaiter junk (rp_ioc r) a buffer len)\<rparr>)) w"

definition read_await_suspend :: "'k pipe_calls \<Rightarrow> uptr \<Rightarrow> coro \<Rightarrow> (('k, 'z) pipe_world_scheme, bool) op" where
  "read_await_suspend K q h w =
     given (deref (p_awaiters w) q) (\<lambda>x. given (deref (p_readers w) (pa_me x)) (\<lambda>r w.
       andthen (set_awaiter K (pa_ioc x) (rp_fd r) q
                  (w\<lparr>p_awaiters := (p_awaiters w)(q \<mapsto> x\<lparr>aw_coro := Some h\<rparr>)\<rparr>))
         (\<lambda>_ w. (Inr True, w)))) w"

text \<open>The kernel writes at most \<open>len\<close> bytes to the buffer, whatever the buffer's size.\<close>

definition store_bytes :: "uptr \<Rightarrow> byte list \<Rightarrow> (('k, 'z) pipe_world_scheme, unit) op" where
  "store_bytes b xs w =
     given (deref (p_buffers w) b) (\<lambda>old w.
       if length old < length xs then (Inl OutOfBounds, w)
       else (Inr (), w\<lparr>p_buffers := (p_buffers w)(b \<mapsto> xs @ drop (length xs) old)\<rparr>)) w"

definition read_await_resume :: "'k pipe_calls \<Rightarrow> uptr \<Rightarrow> (('k, 'z) pipe_world_scheme, size_t) op" where
  "read_await_resume K q w =
     given (deref (p_awaiters w) q) (\<lambda>x.
       if 0 < pa_xfer x then (\<lambda>w. (Inr (pa_xfer x), w))
       else given (deref (p_readers w) (pa_me x)) (\<lambda>r w.
         case px_read K (rp_fd r) (pa_len x) (pk w) of
           (Inl e, k) \<Rightarrow> (Inl SystemError, w\<lparr>pk := k\<rparr>)
         | (Inr xs, k) \<Rightarrow> andthen (store_bytes (pa_buffer x) xs (w\<lparr>pk := k\<rparr>))
                            (\<lambda>_ w. (Inr (of_nat (length xs)), w)))) w"

subsection \<open>The writeable end\<close>

text \<open>It also owns an \<open>awaiter_base\<close> that nothing uses; the move constructor leaves it null.\<close>

definition wp_ctor :: "'k pipe_calls \<Rightarrow> uptr \<Rightarrow> fd \<Rightarrow> uptr \<Rightarrow> (('k, 'z) pipe_world_scheme, unit) op" where
  "wp_ctor K a f ioc w =
     andthen (register_handle K ioc f Write w)
       (\<lambda>_ w. (Inr (), w\<lparr>p_writers := (p_writers w)(a \<mapsto> \<lparr>wp_fd = f, wp_ioc = ioc, wp_base = True\<rparr>)\<rparr>))"

text \<open>This \<open>close\<close> does not reset the descriptor.\<close>

definition wp_close :: "'k pipe_calls \<Rightarrow> writeable_pipe \<Rightarrow> (('k, 'z) pipe_world_scheme, unit) op" where
  "wp_close K r w =
     andthen (unregister_handle K (wp_ioc r) (wp_fd r) w)
       (\<lambda>_ w. (Inr (), w\<lparr>pk := px_close K (wp_fd r) (pk w)\<rparr>))"

definition wp_dtor :: "'k pipe_calls \<Rightarrow> uptr \<Rightarrow> (('k, 'z) pipe_world_scheme, unit) op" where
  "wp_dtor K a w =
     given (deref (p_writers w) a) (\<lambda>r w.
       andthen (if wp_fd r \<noteq> -1 then wp_close K r w else (Inr (), w))
         (\<lambda>_ w. (Inr (), w\<lparr>p_writers := (p_writers w)(a := None)\<rparr>))) w"

definition wp_move_ctor :: "uptr \<Rightarrow> uptr \<Rightarrow> (('k, 'z) pipe_world_scheme, unit) op" where
  "wp_move_ctor a b w =
     given (deref (p_writers w) a) (\<lambda>r w.
       (Inr (), w\<lparr>p_writers := (p_writers w)(b \<mapsto> r\<lparr>wp_base := False\<rparr>, a \<mapsto> r\<lparr>wp_fd := -1\<rparr>)\<rparr>)) w"

definition wp_move_assign :: "'k pipe_calls \<Rightarrow> uptr \<Rightarrow> uptr \<Rightarrow> (('k, 'z) pipe_world_scheme, unit) op" where
  "wp_move_assign K a b w =
     given (deref (p_writers w) a) (\<lambda>r. given (deref (p_writers w) b) (\<lambda>s w.
       if a = b then (Inr (), w)
       else andthen (if wp_fd s \<noteq> -1 then wp_close K s w else (Inr (), w))
              (\<lambda>_ w. (Inr (), w\<lparr>p_writers := (p_writers w)
                 (b \<mapsto> s\<lparr>wp_fd := wp_fd r, wp_ioc := wp_ioc r\<rparr>, a \<mapsto> r\<lparr>wp_fd := -1\<rparr>)\<rparr>)))) w"

definition write_some ::
  "size_t \<times> size_t \<Rightarrow> uptr \<Rightarrow> uptr \<Rightarrow> uptr \<Rightarrow> size_t \<Rightarrow> (('k, 'z) pipe_world_scheme, unit) op" where
  "write_some junk q a buffer len w =
     given (deref (p_writers w) a) (\<lambda>r w.
       (Inr (), w\<lparr>p_awaiters := (p_awaiters w)(q \<mapsto> make_awaiter junk (wp_ioc r) a buffer len)\<rparr>)) w"

definition load_bytes :: "uptr \<Rightarrow> size_t \<Rightarrow> ('k, 'z) pipe_world_scheme \<Rightarrow> byte list res" where
  "load_bytes b n w =
     bindE (deref (p_buffers w) b) (\<lambda>xs. if length xs < unat n then Inl OutOfBounds else Inr (take (unat n) xs))"

text \<open>The write itself, of both members.\<close>

definition pipe_write :: "'k pipe_calls \<Rightarrow> uptr \<Rightarrow> pipe_awaiter \<Rightarrow> (('k, 'z) pipe_world_scheme, nat + size_t) op" where
  "pipe_write K q x w =
     given (deref (p_writers w) (pa_me x)) (\<lambda>r. given (load_bytes (pa_buffer x) (pa_len x) w) (\<lambda>xs w.
       let (n, k) = px_write K (wp_fd r) xs (pk w) in (Inr n, w\<lparr>pk := k\<rparr>))) w"

text \<open>A write that the pipe takes at once does not suspend, and is noted in the awaiter.\<close>

definition write_await_suspend :: "'k pipe_calls \<Rightarrow> uptr \<Rightarrow> coro \<Rightarrow> (('k, 'z) pipe_world_scheme, bool) op" where
  "write_await_suspend K q h w =
     given (deref (p_awaiters w) q) (\<lambda>x. given (deref (p_writers w) (pa_me x)) (\<lambda>r w.
       let x = x\<lparr>aw_coro := Some h\<rparr>
       in andthen (set_awaiter K (pa_ioc x) (wp_fd r) q (w\<lparr>p_awaiters := (p_awaiters w)(q \<mapsto> x)\<rparr>)) (\<lambda>_ w.
          andthen (pipe_write K q x w) (\<lambda>n w.
            case n of
              Inl e \<Rightarrow> if e = EAGAIN then (Inr True, w) else (Inl SystemError, w)
            | Inr m \<Rightarrow> (Inr False, w\<lparr>p_awaiters := (p_awaiters w)(q \<mapsto> x\<lparr>pa_xfer := m\<rparr>)\<rparr>))))) w"

definition write_await_resume :: "'k pipe_calls \<Rightarrow> uptr \<Rightarrow> (('k, 'z) pipe_world_scheme, size_t) op" where
  "write_await_resume K q w =
     given (deref (p_awaiters w) q) (\<lambda>x.
       if 0 < pa_xfer x then (\<lambda>w. (Inr (pa_xfer x), w))
       else (\<lambda>w. andthen (pipe_write K q x w) (\<lambda>n w.
               case n of Inl e \<Rightarrow> (Inl SystemError, w) | Inr m \<Rightarrow> (Inr m, w)))) w"

definition end_awaiter :: "uptr \<Rightarrow> ('k, 'z) pipe_world_scheme \<Rightarrow> ('k, 'z) pipe_world_scheme" where
  "end_awaiter q w = w\<lparr>p_awaiters := (p_awaiters w)(q := None)\<rparr>"

subsection \<open>make pipe\<close>

text \<open>
  The two ends are temporaries, at \<open>t\<close> and \<open>u\<close>, made in an order the language leaves open, and moved
  into the pair at \<open>r\<close> and \<open>s\<close>. If the second constructor throws, the first temporary is destroyed.
\<close>

definition make_ends :: "'k pipe_calls \<Rightarrow> bool \<Rightarrow> uptr \<Rightarrow> uptr \<Rightarrow> uptr \<Rightarrow> fd \<times> fd \<Rightarrow> (('k, 'z) pipe_world_scheme, unit) op" where
  "make_ends K reader_first ioc t u fds w =
     (if reader_first
      then andthen (rp_ctor K t (fst fds) ioc w) (\<lambda>_ w.
             case wp_ctor K u (snd fds) ioc w of
               (Inl e, w) \<Rightarrow> andthen (rp_dtor K t w) (\<lambda>_ w. (Inl e, w))
             | (Inr _, w) \<Rightarrow> (Inr (), w))
      else andthen (wp_ctor K u (snd fds) ioc w) (\<lambda>_ w.
             case rp_ctor K t (fst fds) ioc w of
               (Inl e, w) \<Rightarrow> andthen (wp_dtor K u w) (\<lambda>_ w. (Inl e, w))
             | (Inr _, w) \<Rightarrow> (Inr (), w)))"

definition make_pipe ::
  "'k pipe_calls \<Rightarrow> bool \<Rightarrow> uptr \<Rightarrow> uptr \<Rightarrow> uptr \<Rightarrow> uptr \<Rightarrow> uptr \<Rightarrow> (('k, 'z) pipe_world_scheme, unit) op" where
  "make_pipe K reader_first ioc t u r s w =
     (case px_pipe2 K (pk w) of
        (None, k) \<Rightarrow> (Inl SystemError, w\<lparr>pk := k\<rparr>)
      | (Some fds, k) \<Rightarrow>
          andthen (make_ends K reader_first ioc t u fds (w\<lparr>pk := k\<rparr>)) (\<lambda>_ w.
          andthen (rp_move_ctor t r w) (\<lambda>_ w.
          andthen (wp_move_ctor u s w) (\<lambda>_ w.
          andthen (wp_dtor K u w) (\<lambda>_.
          rp_dtor K t)))))"

subsection \<open>The consumer of the first driver\<close>

datatype consumer_state = CNotStarted | CWaiting | CFinished | CFailed cpp_error

record 'k consumer_world = "'k pipe_world" +
  c_state :: consumer_state
  c_reads :: "size_t list"

definition BUFFER_SIZE :: size_t where
  "BUFFER_SIZE = 64"

definition consumer_handle :: coro where
  "consumer_handle = 1"

text \<open>An exception in the coroutine ends its frame and goes to its \<open>std::future\<close>, which nobody reads.\<close>

definition consumer_catch :: "uptr \<Rightarrow> unit res \<times> 'k consumer_world \<Rightarrow> unit res \<times> 'k consumer_world" where
  "consumer_catch q r =
     (case r of
        (Inl SystemError, w) \<Rightarrow> (Inr (), (end_awaiter q w)\<lparr>c_state := CFailed SystemError\<rparr>)
      | _ \<Rightarrow> r)"

text \<open>One \<open>co_await pipe.read_some\<close> up to its suspension; the awaiter lives in the frame, at \<open>q\<close>.\<close>

definition consumer_await ::
  "'k pipe_calls \<Rightarrow> size_t \<times> size_t \<Rightarrow> uptr \<Rightarrow> uptr \<Rightarrow> uptr \<Rightarrow> ('k consumer_world, unit) op" where
  "consumer_await K junk q pipe buffer w =
     andthen (read_some junk q pipe buffer BUFFER_SIZE w) (\<lambda>_ w.
     andthen (read_await_suspend K q consumer_handle w) (\<lambda>_ w. (Inr (), w\<lparr>c_state := CWaiting\<rparr>)))"

definition consumer_start ::
  "'k pipe_calls \<Rightarrow> size_t \<times> size_t \<Rightarrow> uptr \<Rightarrow> uptr \<Rightarrow> uptr \<Rightarrow> ('k consumer_world, unit) op" where
  "consumer_start K junk q pipe buffer w = consumer_catch q (consumer_await K junk q pipe buffer w)"

definition consumer_resume ::
  "'k pipe_calls \<Rightarrow> size_t \<times> size_t \<Rightarrow> uptr \<Rightarrow> uptr \<Rightarrow> uptr \<Rightarrow> coro \<Rightarrow> ('k consumer_world, unit) op" where
  "consumer_resume K junk q pipe buffer h w =
     (if h \<noteq> consumer_handle \<or> c_state w \<noteq> CWaiting then (Inl DeadHandle, w)
      else consumer_catch q
        (andthen (read_await_resume K q w) (\<lambda>n w.
           let w = end_awaiter q w
           in if n = 0 then (Inr (), w\<lparr>c_state := CFinished\<rparr>)
              else consumer_await K junk q pipe buffer (w\<lparr>c_reads := c_reads w @ [n]\<rparr>))))"

text \<open>The main thread of driver1.cpp once it has its pipe: start the consumer, then the reactor.\<close>

definition driver1_reads ::
  "'k pipe_calls \<Rightarrow> size_t \<times> size_t \<Rightarrow> uptr \<Rightarrow> uptr \<Rightarrow> uptr \<Rightarrow> uptr \<Rightarrow> 'k consumer_world \<Rightarrow>
   (unit res \<times> 'k consumer_world) option" where
  "driver1_reads K junk q pipe buffer ioc w =
     (case consumer_start K junk q pipe buffer w of
        (Inl e, w) \<Rightarrow> Some (Inl e, w)
      | (Inr _, w) \<Rightarrow>
          (case p_iocs w ioc of
             None \<Rightarrow> Some (Inl WildPointer, w)
           | Some c \<Rightarrow> process_events K (consumer_resume K junk q pipe buffer) c w))"

subsection \<open>What the manual pages promise\<close>

record pipe_view =
  xv_interest :: "fd \<Rightarrow> fd \<Rightarrow> epoll_event option"
  xv_open :: "fd set"
  xv_hup :: "fd \<Rightarrow> bool"

definition wait_reports :: "('k \<Rightarrow> pipe_view) \<Rightarrow> 'k \<Rightarrow> fd \<Rightarrow> epoll_event \<Rightarrow> bool" where
  "wait_reports view k i ev \<longleftrightarrow>
     (\<exists>f. epoll_reports (\<lambda>k. xv_interest (view k)) k i f ev \<and>
          (ep_events ev AND (EPOLLHUP OR EPOLLERR) \<noteq> 0 \<longrightarrow> xv_hup (view k) f))"

text \<open>
  \<open>pipe2\<close> returns two descriptors that were not in use; a hang-up or an error is reported when the
  other end is closed (\<open>xv_hup\<close>); a wait that returns reports at least one event.
\<close>

definition pipes_documented :: "'k pipe_calls \<Rightarrow> ('k \<Rightarrow> pipe_view) \<Rightarrow> bool" where
  "pipes_documented K view \<longleftrightarrow>
     epoll_documented (px_epoll_ctl K) (\<lambda>k. xv_interest (view k)) \<and>
     (\<forall>i oper f ev k. xv_open (view (snd (px_epoll_ctl K i oper f ev k))) = xv_open (view k)) \<and>
     (\<forall>k. case px_pipe2 K k of
        (None, k') \<Rightarrow> view k' = view k
      | (Some (r, s), k') \<Rightarrow>
          r \<noteq> -1 \<and> s \<noteq> -1 \<and> r \<noteq> s \<and> r \<notin> xv_open (view k) \<and> s \<notin> xv_open (view k) \<and>
          (\<forall>f\<in>{r, s}. \<forall>g. xv_interest (view k) f g = None \<and> xv_interest (view k) g f = None) \<and>
          xv_interest (view k') = xv_interest (view k) \<and> xv_open (view k') = {r, s} \<union> xv_open (view k)) \<and>
     (\<forall>i n k. case px_epoll_wait K i n k of
        None \<Rightarrow> True
      | Some (r, k') \<Rightarrow> xv_interest (view k') = xv_interest (view k) \<and>
          (case r of None \<Rightarrow> True | Some evs \<Rightarrow> evs \<noteq> [] \<and> (\<forall>ev\<in>set evs. wait_reports view k' i ev))) \<and>
     (\<forall>f k. xv_open (view (px_close K f k)) = xv_open (view k) - {f} \<and>
        xv_interest (view (px_close K f k)) =
          (\<lambda>i g. if i = f \<or> g = f then None else xv_interest (view k) i g))"

lemma pipe_ctl:
  assumes "pipes_documented K view" "px_epoll_ctl K i oper f ev k = (r, k')"
  shows "xv_open (view k') = xv_open (view k)"
    and "r = None \<Longrightarrow> xv_interest (view k') = (xv_interest (view k))
           (i := (xv_interest (view k) i)(f := if oper = CtlDel then None else Some ev))"
    and "r \<noteq> None \<Longrightarrow> xv_interest (view k') = xv_interest (view k)"
proof -
  from assms(1) have e: "epoll_documented (px_epoll_ctl K) (\<lambda>k. xv_interest (view k))"
    and t: "xv_open (view (snd (px_epoll_ctl K i oper f ev k))) = xv_open (view k)"
    by (simp_all only: pipes_documented_def)
  from t assms(2) show "xv_open (view k') = xv_open (view k)" by simp
  show "r = None \<Longrightarrow> xv_interest (view k') = (xv_interest (view k))
           (i := (xv_interest (view k) i)(f := if oper = CtlDel then None else Some ev))"
    using ctl_success(1) [OF e] assms(2) by simp
  show "r \<noteq> None \<Longrightarrow> xv_interest (view k') = xv_interest (view k)"
    using ctl_failure [OF e] assms(2) by fastforce
qed

lemma pipe_close_view:
  assumes "pipes_documented K view"
  shows "xv_open (view (px_close K f k)) = xv_open (view k) - {f}"
    and "xv_interest (view (px_close K f k)) = (\<lambda>i g. if i = f \<or> g = f then None else xv_interest (view k) i g)"
  using assms by (simp_all only: pipes_documented_def)

lemma pipe2_view:
  assumes "pipes_documented K view" "px_pipe2 K k = (Some (r, s), k')"
  shows "r \<noteq> -1" "s \<noteq> -1" "r \<noteq> s" "r \<notin> xv_open (view k)" "s \<notin> xv_open (view k)"
    and "xv_interest (view k) r g = None" "xv_interest (view k) s g = None"
    and "xv_interest (view k) g r = None" "xv_interest (view k) g s = None"
    and "xv_interest (view k') = xv_interest (view k)" "xv_open (view k') = {r, s} \<union> xv_open (view k)"
  using assms(1) [unfolded pipes_documented_def, THEN conjunct2, THEN conjunct2, THEN conjunct1,
      THEN spec [of _ k]] assms(2)
  by simp_all

lemma pipe_wait_view:
  assumes "pipes_documented K view" "px_epoll_wait K i n k = Some (r, k')"
  shows "xv_interest (view k') = xv_interest (view k)"
    and "r = Some evs \<Longrightarrow> evs \<noteq> []" "r = Some evs \<Longrightarrow> ev \<in> set evs \<Longrightarrow> wait_reports view k' i ev"
  using assms(1) [unfolded pipes_documented_def, THEN conjunct2, THEN conjunct2, THEN conjunct2, THEN conjunct1,
      THEN spec [of _ i], THEN spec [of _ n], THEN spec [of _ k]] assms(2)
  by simp_all

subsection \<open>A kernel that keeps these promises\<close>

text \<open>\<open>pt_data\<close> lists the descriptors that have data to read; no end of a pipe is ever hung up.\<close>

record pipe_table =
  pt_next :: fd
  pt_open :: "fd list"
  pt_interest :: interest_table
  pt_data :: "fd list"

definition pt_view :: "pipe_table \<Rightarrow> pipe_view" where
  "pt_view k = \<lparr>xv_interest = table_interest (pt_interest k), xv_open = set (pt_open k), xv_hup = (\<lambda>_. False)\<rparr>"

definition pt_ctl :: "pipe_table epoll_ctl" where
  "pt_ctl i oper f ev k = (let (r, t) = table_ctl i oper f ev (pt_interest k) in (r, k\<lparr>pt_interest := t\<rparr>))"

definition pt_pipe2 :: "pipe_table \<Rightarrow> (fd \<times> fd) option \<times> pipe_table" where
  "pt_pipe2 k =
     (let r = pt_next k; s = r + 1
      in if r = -1 \<or> s = -1 \<or> r \<in> set (pt_open k) \<or> s \<in> set (pt_open k) \<or>
            table_uses r (pt_interest k) \<or> table_uses s (pt_interest k) then (None, k)
         else (Some (r, s), k\<lparr>pt_next := s + 1, pt_open := r # s # pt_open k\<rparr>))"

definition pt_ready :: "pipe_table \<Rightarrow> fd \<Rightarrow> fd \<Rightarrow> epoll_event option" where
  "pt_ready k i f =
     (case table_interest (pt_interest k) i f of
        Some e \<Rightarrow> if ep_events e AND EPOLLIN \<noteq> 0 then Some \<lparr>ep_events = EPOLLIN, ep_ptr = ep_ptr e\<rparr> else None
      | None \<Rightarrow> None)"

definition pt_wait :: "fd \<Rightarrow> u32 \<Rightarrow> pipe_table \<Rightarrow> (epoll_event list option \<times> pipe_table) option" where
  "pt_wait i n k =
     (case List.map_filter (pt_ready k i) (pt_data k) of
        [] \<Rightarrow> None
      | ev # evs \<Rightarrow> Some (Some [ev], k))"

definition pipe_table_calls :: "pipe_table pipe_calls" where
  "pipe_table_calls =
     \<lparr>px_epoll_create = (\<lambda>k. (pt_next k, k\<lparr>pt_next := pt_next k + 1, pt_open := pt_next k # pt_open k\<rparr>)),
      px_epoll_ctl = pt_ctl, px_epoll_wait = pt_wait, px_pipe2 = pt_pipe2,
      px_read = (\<lambda>f n k. (Inr (replicate (unat n) 0), k)),
      px_write = (\<lambda>f xs k. (Inr (of_nat (length xs)), k)),
      px_close = (\<lambda>f k. k\<lparr>pt_open := removeAll f (pt_open k), pt_interest := table_close f (pt_interest k)\<rparr>)\<rparr>"

lemma epollin_masked:
  "EPOLLIN \<noteq> 0" "EPOLLIN AND (EPOLLHUP OR EPOLLERR) = 0"
  "x AND EPOLLIN \<noteq> 0 \<Longrightarrow> EPOLLIN AND NOT (x OR EPOLLERR OR EPOLLHUP) = 0"
  by (simp_all add: epoll_bits and_one_eq one_and_eq mod2_eq_if even_not_iff even_or_iff del: bit.de_Morgan_disj
      split: if_splits)

lemma pt_wait_reports:
  assumes "pt_wait i n k = Some (r, k')"
  shows "k' = k \<and> (\<exists>ev. r = Some [ev] \<and> wait_reports pt_view k i ev)"
proof -
  obtain ev evs where evs: "List.map_filter (pt_ready k i) (pt_data k) = ev # evs" "r = Some [ev]" "k' = k"
    using assms by (auto simp: pt_wait_def split: list.splits)
  have "ev \<in> set (List.map_filter (pt_ready k i) (pt_data k))" by (simp add: evs)
  then obtain f e where "table_interest (pt_interest k) i f = Some e" "ep_events e AND EPOLLIN \<noteq> 0"
    "ev = \<lparr>ep_events = EPOLLIN, ep_ptr = ep_ptr e\<rparr>"
    by (auto simp: map_filter_def pt_ready_def split: option.splits if_splits)
  then have "wait_reports pt_view k i ev"
    by (auto simp: wait_reports_def epoll_reports_def pt_view_def epollin_masked
        simp del: bit.de_Morgan_disj intro!: exI [of _ f])
  with evs show ?thesis by blast
qed

lemma pipe_table_documented: "pipes_documented pipe_table_calls pt_view"
  unfolding pipes_documented_def
proof (intro conjI allI)
  show "epoll_documented (px_epoll_ctl pipe_table_calls) (\<lambda>k. xv_interest (pt_view k))"
    using table_ctl_lifts [of pt_ctl pt_interest "\<lambda>t k. k\<lparr>pt_interest := t\<rparr>"]
    by (simp add: pt_ctl_def pt_view_def pipe_table_calls_def)
  fix k
  show "case px_pipe2 pipe_table_calls k of
        (None, k') \<Rightarrow> pt_view k' = pt_view k
      | (Some (r, s), k') \<Rightarrow>
          r \<noteq> -1 \<and> s \<noteq> -1 \<and> r \<noteq> s \<and> r \<notin> xv_open (pt_view k) \<and> s \<notin> xv_open (pt_view k) \<and>
          (\<forall>f\<in>{r, s}. \<forall>g. xv_interest (pt_view k) f g = None \<and> xv_interest (pt_view k) g f = None) \<and>
          xv_interest (pt_view k') = xv_interest (pt_view k) \<and> xv_open (pt_view k') = {r, s} \<union> xv_open (pt_view k)"
    by (auto simp: pipe_table_calls_def pt_pipe2_def pt_view_def Let_def table_unused)
next
  fix i n k
  show "case px_epoll_wait pipe_table_calls i n k of
        None \<Rightarrow> True
      | Some (r, k') \<Rightarrow> xv_interest (pt_view k') = xv_interest (pt_view k) \<and>
          (case r of None \<Rightarrow> True | Some evs \<Rightarrow> evs \<noteq> [] \<and> (\<forall>ev\<in>set evs. wait_reports pt_view k' i ev))"
    using pt_wait_reports [of i n k]
    by (auto simp: pipe_table_calls_def split: option.split)
qed (simp_all add: pipe_table_calls_def pt_view_def pt_ctl_def table_close_interest fun_eq_iff
    split: prod.split)

subsection \<open>Events\<close>

lemma masked_events:
  fixes x m :: u32
  assumes "x AND NOT (m OR EPOLLERR OR EPOLLHUP) = 0"
  shows "x = x AND m OR x AND (EPOLLHUP OR EPOLLERR)"
proof -
  let ?a = "m OR EPOLLERR OR EPOLLHUP"
  have "x = x AND (?a OR NOT ?a)" by (simp only: bit.disj_cancel_right bit.conj_one_right)
  also have "\<dots> = x AND ?a" using assms by (simp only: bit.conj_disj_distrib or.right_neutral)
  also have "\<dots> = x AND m OR x AND (EPOLLHUP OR EPOLLERR)"
    by (simp only: bit.conj_disj_distrib or.assoc or.commute)
  finally show ?thesis .
qed

lemma set_awaiter_view:
  assumes "pipes_documented K view" "p_iocs w a = Some c" "set_awaiter K a f p w = (Inr (), w')"
  shows "xv_interest (view (pk w')) (ic_instance c) f = Some \<lparr>ep_events = 0, ep_ptr = p\<rparr>"
    and "\<exists>k. w' = w\<lparr>pk := k\<rparr>"
proof -
  obtain r k where c: "px_epoll_ctl K (ic_instance c) CtlMod f \<lparr>ep_events = 0, ep_ptr = p\<rparr> (pk w) = (r, k)"
    by fastforce
  with assms(2,3) have r: "r = None" "w' = w\<lparr>pk := k\<rparr>"
    by (auto simp: set_awaiter_def ctl_throws_def split: if_splits)
  then show "\<exists>k. w' = w\<lparr>pk := k\<rparr>" by blast
  show "xv_interest (view (pk w')) (ic_instance c) f = Some \<lparr>ep_events = 0, ep_ptr = p\<rparr>"
    using pipe_ctl(2) [OF assms(1) c r(1)] r(2) by simp
qed

text \<open>C28. An awaiter is blind to data: after \<open>set_awaiter\<close> nothing that \<open>epoll_wait\<close> may report for the
  descriptor says that it is readable or writeable. Only a hang-up or an error wakes the awaiter, with
  error code 1, and if the awaiter has gone meanwhile the reactor uses a dangling pointer.\<close>

theorem awaiter_blind_to_data:
  assumes "pipes_documented K view" "p_iocs w a = Some c" "set_awaiter K a f p w = (Inr (), w')" "p \<noteq> 0"
    and "epoll_reports (\<lambda>k. xv_interest (view k)) (pk w') (ic_instance c) f ev"
  shows "ep_events ev AND EPOLLIN = 0 \<and> ep_events ev AND EPOLLOUT = 0 \<and>
    process_event resume ev u = io_ready_callback resume p 1 u \<and>
    (p_awaiters u p \<noteq> None \<or> process_event resume ev u = (Inl WildPointer, u))"
proof -
  from assms(5) set_awaiter_view(1) [OF assms(1-3)] have ev: "ep_ptr ev = p" "ep_events ev \<noteq> 0"
    "ep_events ev AND NOT (0 OR EPOLLERR OR EPOLLHUP) = 0"
    by (auto simp: epoll_reports_def)
  have e: "ep_events ev = ep_events ev AND (EPOLLHUP OR EPOLLERR)"
    using masked_events [OF ev(3)] by simp
  have "ep_events ev AND EPOLLIN = 0" "ep_events ev AND EPOLLOUT = 0"
    by (subst e, simp add: and.assoc epoll_bits)+
  then show ?thesis
    using ev(1,2) e assms(4)
    by (cases "p_awaiters u p") (simp_all add: process_event_def io_ready_callback_def)
qed

text \<open>
  Before its first await an end is registered with a null pointer, so any event for it makes the reactor
  dereference null. For the writeable end of a new pipe that event is there at once.\<close>

lemma early_event_is_null:
  assumes "pipes_documented K view" "p_iocs w a = Some c" "register_handle K a f interest w = (Inr (), w')"
    and "epoll_reports (\<lambda>k. xv_interest (view k)) (pk w') (ic_instance c) f ev"
  shows "process_event resume ev u = (Inl NullDeref, u)"
proof -
  let ?m = "case interest of Read \<Rightarrow> EPOLLIN | Write \<Rightarrow> EPOLLOUT"
  obtain r k where ctl: "px_epoll_ctl K (ic_instance c) CtlAdd f \<lparr>ep_events = ?m, ep_ptr = 0\<rparr> (pk w) = (r, k)"
    by fastforce
  with assms(2,3) have r: "r = None" "w' = w\<lparr>pk := k\<rparr>"
    by (auto simp: register_handle_def ctl_throws_def split: if_splits)
  have "xv_interest (view (pk w')) (ic_instance c) f = Some \<lparr>ep_events = ?m, ep_ptr = 0\<rparr>"
    using pipe_ctl(2) [OF assms(1) ctl r(1)] r(2) by simp
  with assms(4) have ev: "ep_ptr ev = 0" "ep_events ev \<noteq> 0"
    "ep_events ev AND NOT (?m OR EPOLLERR OR EPOLLHUP) = 0"
    by (auto simp: epoll_reports_def)
  show ?thesis
    using ev(1,2) masked_events [OF ev(3)]
    by (cases interest) (auto simp: process_event_def io_ready_callback_def)
qed

subsection \<open>The consumer starves\<close>

lemma nothing_reported:
  assumes doc: "pipes_documented K view" and hup: "\<not> xv_hup (view k') f"
    and i: "xv_interest (view k) i = [f \<mapsto> \<lparr>ep_events = 0, ep_ptr = p\<rparr>]"
    and wait: "px_epoll_wait K i n k = Some (r, k')"
  shows "r = None"
proof (rule ccontr)
  assume "r \<noteq> None"
  then obtain ev evs where r: "r = Some (ev # evs)"
    using pipe_wait_view(2) [OF doc wait] by (cases r) (auto simp: neq_Nil_conv)
  then have rep: "wait_reports view k' i ev" using pipe_wait_view(3) [OF doc wait] by simp
  then have ev: "ep_events ev \<noteq> 0" "ep_events ev AND NOT (0 OR EPOLLERR OR EPOLLHUP) = 0"
    "ep_events ev AND (EPOLLHUP OR EPOLLERR) = 0"
    using hup i pipe_wait_view(1) [OF doc wait]
    by (auto simp: wait_reports_def epoll_reports_def split: if_splits)
  from masked_events [OF ev(2)] ev(1,3) show False by simp
qed

text \<open>
  The first driver's consumer never reads. Whatever is written to the pipe, as long as its writeable
  end stays open the reactor sees no event for the awaiting consumer: \<open>main\<close> blocks for ever or ends with the
  failure of a system call, and the consumer still waits, with nothing read.\<close>

lemma driver1_consumer_starves:
  assumes doc: "pipes_documented K view" and hup: "\<And>k. \<not> xv_hup (view k) f"
    and w: "p_iocs w ioc = Some c" "p_readers w pipe = Some \<lparr>rp_fd = f, rp_ioc = ioc\<rparr>"
    and i: "xv_interest (view (pk w)) (ic_instance c) = [f \<mapsto> \<lparr>ep_events = EPOLLIN, ep_ptr = 0\<rparr>]"
    and ok: "fst (px_epoll_ctl K (ic_instance c) CtlMod f \<lparr>ep_events = 0, ep_ptr = q\<rparr> (pk w)) = None"
  shows "driver1_reads K junk q pipe buffer ioc w = None \<or>
    (\<exists>w'. driver1_reads K junk q pipe buffer ioc w = Some (Inl SystemError, w') \<and>
       c_state w' = CWaiting \<and> c_reads w' = c_reads w)"
proof -
  let ?x = "make_awaiter junk ioc pipe buffer BUFFER_SIZE"
  obtain k where ctl: "px_epoll_ctl K (ic_instance c) CtlMod f \<lparr>ep_events = 0, ep_ptr = q\<rparr> (pk w) = (None, k)"
    using ok by (metis prod.collapse)
  define w1 where "w1 = w\<lparr>pk := k, p_awaiters := (p_awaiters w)(q \<mapsto> ?x\<lparr>aw_coro := Some consumer_handle\<rparr>),
      c_state := CWaiting\<rparr>"
  have start: "consumer_start K junk q pipe buffer w = (Inr (), w1)"
    using w ctl
    by (simp add: consumer_start_def consumer_await_def read_some_def read_await_suspend_def make_awaiter_def
        set_awaiter_def ctl_throws_def consumer_catch_def w1_def)
  have v: "xv_interest (view k) (ic_instance c) = [f \<mapsto> \<lparr>ep_events = 0, ep_ptr = q\<rparr>]"
    using pipe_ctl(2) [OF doc ctl] i by simp
  have w1: "p_iocs w1 ioc = Some c" "pk w1 = k" "c_state w1 = CWaiting" "c_reads w1 = c_reads w"
    using w by (simp_all add: w1_def)
  have "driver1_reads K junk q pipe buffer ioc w =
      process_events K (consumer_resume K junk q pipe buffer) c w1"
    using start w1 by (simp add: driver1_reads_def)
  also have "\<dots> = None \<or> (\<exists>k'. \<dots> = Some (Inl SystemError, w1\<lparr>pk := k'\<rparr>))"
  proof (cases "px_epoll_wait K (ic_instance c) (ucast (ic_max c)) k")
    case None
    then show ?thesis using w1 by (simp add: process_events.simps)
  next
    case (Some rk)
    obtain r k' where rk: "rk = (r, k')" by fastforce
    have "r = None" by (rule nothing_reported [OF doc hup v]) (use Some rk in simp)
    then show ?thesis using w1 Some rk by (auto simp: process_events.simps)
  qed
  finally show ?thesis using w1 by auto
qed

lemmas pt_defs = pipe_table_calls_def pt_ctl_def pt_wait_def pt_ready_def pt_pipe2_def table_ctl_def table_interest_def

text \<open>Ten bytes wait in the pipe, and the consumer is not woken.\<close>

abbreviation demo_world :: "pipe_table consumer_world" where
  "demo_world \<equiv>
     \<lparr>pk = \<lparr>pt_next = 6, pt_open = [3, 4, 5], pt_interest = [((3, 4), \<lparr>ep_events = EPOLLIN, ep_ptr = 0\<rparr>)], pt_data = [4]\<rparr>,
      p_iocs = [100 \<mapsto> \<lparr>ic_max = 8, ic_instance = 3\<rparr>], p_readers = [200 \<mapsto> \<lparr>rp_fd = 4, rp_ioc = 100\<rparr>],
      p_writers = Map.empty, p_awaiters = Map.empty, p_buffers = [300 \<mapsto> replicate 64 0],
      c_state = CNotStarted, c_reads = []\<rparr>"

theorem awaiter_blind_to_data_witness:
  "ep_events \<lparr>ep_events = EPOLLHUP, ep_ptr = 400\<rparr> AND EPOLLIN = 0 \<and>
   process_event (\<lambda>h w. (Inr (), w)) \<lparr>ep_events = EPOLLHUP, ep_ptr = 400\<rparr> demo_world = (Inl WildPointer, demo_world)"
proof -
  let ?ev = "\<lparr>ep_events = EPOLLHUP, ep_ptr = 400\<rparr>" and ?resume = "\<lambda>h w. (Inr (), w :: pipe_table consumer_world)"
  have "ep_events ?ev AND EPOLLIN = 0 \<and> ep_events ?ev AND EPOLLOUT = 0 \<and>
    process_event ?resume ?ev demo_world = io_ready_callback ?resume 400 1 demo_world \<and>
    (p_awaiters demo_world 400 \<noteq> None \<or> process_event ?resume ?ev demo_world = (Inl WildPointer, demo_world))"
    by (rule awaiter_blind_to_data [where a = 100 and c = "\<lparr>ic_max = 8, ic_instance = 3\<rparr>" and f = 4 and
          w = demo_world and w' = "snd (set_awaiter pipe_table_calls 100 4 400 demo_world)", OF pipe_table_documented])
       (simp_all add: pt_view_def pt_defs set_awaiter_def ctl_throws_def epoll_reports_def epoll_bits)
  moreover have "p_awaiters demo_world 400 = None" by simp
  ultimately show ?thesis by blast
qed

subsection \<open>The life of a pipe\<close>

lemma register_view:
  assumes "pipes_documented K view" "p_iocs w ioc = Some c" "register_handle K ioc f d w = (Inr (), w')"
  shows "\<exists>k e. w' = w\<lparr>pk := k\<rparr> \<and> xv_open (view k) = xv_open (view (pk w)) \<and>
    xv_interest (view k) = (xv_interest (view (pk w)))
      (ic_instance c := (xv_interest (view (pk w)) (ic_instance c))(f \<mapsto> e))"
proof -
  let ?e = "\<lparr>ep_events = (case d of Read \<Rightarrow> EPOLLIN | Write \<Rightarrow> EPOLLOUT), ep_ptr = 0\<rparr>"
  obtain r k where ctl: "px_epoll_ctl K (ic_instance c) CtlAdd f ?e (pk w) = (r, k)" by fastforce
  with assms(2,3) have r: "r = None" "w' = w\<lparr>pk := k\<rparr>"
    by (auto simp: register_handle_def ctl_throws_def split: if_splits)
  then show ?thesis using pipe_ctl(1,2) [OF assms(1) ctl] by auto
qed

text \<open>Unregistering and closing, the body of both \<open>close\<close> members.\<close>

lemma unregister_close_view:
  assumes "pipes_documented K view" "p_iocs w ioc = Some c" "unregister_handle K ioc f w = (Inr (), w')"
  shows "\<exists>k. w' = w\<lparr>pk := k\<rparr> \<and> xv_open (view (px_close K f k)) = xv_open (view (pk w)) - {f} \<and>
    xv_interest (view (px_close K f k)) = (\<lambda>i g. if i = f \<or> g = f then None else xv_interest (view (pk w)) i g)"
proof -
  obtain r k where ctl: "px_epoll_ctl K (ic_instance c) CtlDel f \<lparr>ep_events = 0, ep_ptr = 0\<rparr> (pk w) = (r, k)"
    by fastforce
  with assms(2,3) have "w' = w\<lparr>pk := k\<rparr>" by (auto simp: unregister_handle_def split: if_splits)
  moreover have "(\<lambda>i g. if i = f \<or> g = f then None else xv_interest (view k) i g) =
      (\<lambda>i g. if i = f \<or> g = f then None else xv_interest (view (pk w)) i g)"
    using pipe_ctl(2,3) [OF assms(1) ctl] by (cases r) (auto simp: fun_eq_iff)
  ultimately show ?thesis using pipe_ctl(1) [OF assms(1) ctl] pipe_close_view [OF assms(1), of f k] by auto
qed

lemma rp_dtor_view:
  assumes "pipes_documented K view" "p_readers w a = Some r" "p_iocs w (rp_ioc r) = Some c" "rp_fd r \<noteq> -1"
    and "rp_dtor K a w = (Inr (), w')"
  shows "\<exists>k. w' = w\<lparr>pk := k, p_readers := (p_readers w)(a := None)\<rparr> \<and>
    xv_open (view k) = xv_open (view (pk w)) - {rp_fd r} \<and>
    xv_interest (view k) = (\<lambda>i g. if i = rp_fd r \<or> g = rp_fd r then None else xv_interest (view (pk w)) i g)"
proof -
  obtain w1 where w1: "unregister_handle K (rp_ioc r) (rp_fd r) w = (Inr (), w1)"
    "w' = w1\<lparr>pk := px_close K (rp_fd r) (pk w1), p_readers := (p_readers w1)(a := None)\<rparr>"
    using assms(2,4,5) by (auto simp: rp_dtor_def rp_close_def andthen_Inr_iff)
  from unregister_close_view [OF assms(1,3) w1(1)] w1(2) show ?thesis by auto
qed

lemma wp_dtor_view:
  assumes "pipes_documented K view" "p_writers w a = Some r" "p_iocs w (wp_ioc r) = Some c" "wp_fd r \<noteq> -1"
    and "wp_dtor K a w = (Inr (), w')"
  shows "\<exists>k. w' = w\<lparr>pk := k, p_writers := (p_writers w)(a := None)\<rparr> \<and>
    xv_open (view k) = xv_open (view (pk w)) - {wp_fd r} \<and>
    xv_interest (view k) = (\<lambda>i g. if i = wp_fd r \<or> g = wp_fd r then None else xv_interest (view (pk w)) i g)"
proof -
  obtain w1 where w1: "unregister_handle K (wp_ioc r) (wp_fd r) w = (Inr (), w1)"
    "w' = w1\<lparr>pk := px_close K (wp_fd r) (pk w1), p_writers := (p_writers w1)(a := None)\<rparr>"
    using assms(2,4,5) by (auto simp: wp_dtor_def wp_close_def andthen_Inr_iff)
  from unregister_close_view [OF assms(1,3) w1(1)] w1(2) show ?thesis by auto
qed

lemma unwind_Inr:
  "(case x of (Inl e, w) \<Rightarrow> andthen (f w) (\<lambda>_ w. (Inl e, w)) | (Inr _, w) \<Rightarrow> (Inr (), w)) = (Inr (), w') \<longleftrightarrow>
     x = (Inr (), w')"
  by (cases x; cases "fst x") (auto simp: andthen_def split: sum.splits)

lemma make_ends_view:
  assumes "pipes_documented K view" "p_iocs w ioc = Some c" "make_ends K first ioc t u (f, g) w = (Inr (), w')"
  shows "\<exists>k. w' = w\<lparr>pk := k, p_readers := (p_readers w)(t \<mapsto> \<lparr>rp_fd = f, rp_ioc = ioc\<rparr>),
      p_writers := (p_writers w)(u \<mapsto> \<lparr>wp_fd = g, wp_ioc = ioc, wp_base = True\<rparr>)\<rparr> \<and>
    xv_open (view k) = xv_open (view (pk w)) \<and>
    (\<forall>i h. h \<noteq> f \<longrightarrow> h \<noteq> g \<longrightarrow> xv_interest (view k) i h = xv_interest (view (pk w)) i h)"
proof -
  have step: "\<exists>k. w2 = w1\<lparr>pk := k\<rparr> \<and> xv_open (view k) = xv_open (view (pk w1)) \<and>
      (\<forall>i g. g \<noteq> h \<longrightarrow> xv_interest (view k) i g = xv_interest (view (pk w1)) i g)"
    if "p_iocs w1 ioc = Some c" "register_handle K ioc h d w1 = (Inr (), w2)" for w1 w2 h d
    using register_view [OF assms(1) that] by (auto simp: fun_eq_iff)
  show ?thesis
  proof (cases first)
    case True
    then obtain w1 w2 where r: "register_handle K ioc f Read w = (Inr (), w1)"
      "register_handle K ioc g Write (w1\<lparr>p_readers := (p_readers w1)(t \<mapsto> \<lparr>rp_fd = f, rp_ioc = ioc\<rparr>)\<rparr>) = (Inr (), w2)"
      "w' = w2\<lparr>p_writers := (p_writers w2)(u \<mapsto> \<lparr>wp_fd = g, wp_ioc = ioc, wp_base = True\<rparr>)\<rparr>"
      using assms(3)
      by (auto simp: make_ends_def andthen_Inr_iff unwind_Inr) (auto simp: rp_ctor_def wp_ctor_def andthen_Inr_iff)
    from step [OF assms(2) r(1)] obtain k where k: "w1 = w\<lparr>pk := k\<rparr>" "xv_open (view k) = xv_open (view (pk w))"
      "\<forall>i h. h \<noteq> f \<longrightarrow> xv_interest (view k) i h = xv_interest (view (pk w)) i h" by blast
    moreover obtain k2 where "w2 = (w1\<lparr>p_readers := (p_readers w1)(t \<mapsto> \<lparr>rp_fd = f, rp_ioc = ioc\<rparr>)\<rparr>)\<lparr>pk := k2\<rparr>" "xv_open (view k2) = xv_open (view k)"
      "\<forall>i h. h \<noteq> g \<longrightarrow> xv_interest (view k2) i h = xv_interest (view k) i h"
      using step [OF _ r(2)] assms(2) k(1) by auto
    ultimately show ?thesis using r(3) by (intro exI [of _ k2]) simp
  next
    case False
    then obtain w1 w2 where r: "register_handle K ioc g Write w = (Inr (), w1)"
      "register_handle K ioc f Read
         (w1\<lparr>p_writers := (p_writers w1)(u \<mapsto> \<lparr>wp_fd = g, wp_ioc = ioc, wp_base = True\<rparr>)\<rparr>) = (Inr (), w2)"
      "w' = w2\<lparr>p_readers := (p_readers w2)(t \<mapsto> \<lparr>rp_fd = f, rp_ioc = ioc\<rparr>)\<rparr>"
      using assms(3)
      by (auto simp: make_ends_def andthen_Inr_iff unwind_Inr) (auto simp: rp_ctor_def wp_ctor_def andthen_Inr_iff)
    from step [OF assms(2) r(1)] obtain k where k: "w1 = w\<lparr>pk := k\<rparr>" "xv_open (view k) = xv_open (view (pk w))"
      "\<forall>i h. h \<noteq> g \<longrightarrow> xv_interest (view k) i h = xv_interest (view (pk w)) i h" by blast
    moreover obtain k2 where "w2 = (w1\<lparr>p_writers := (p_writers w1)(u \<mapsto> \<lparr>wp_fd = g, wp_ioc = ioc, wp_base = True\<rparr>)\<rparr>)\<lparr>pk := k2\<rparr>" "xv_open (view k2) = xv_open (view k)"
      "\<forall>i h. h \<noteq> f \<longrightarrow> xv_interest (view k2) i h = xv_interest (view k) i h"
      using step [OF _ r(2)] assms(2) k(1) by auto
    ultimately show ?thesis using r(3) by (intro exI [of _ k2]) simp
  qed
qed



text \<open>
  What \<open>read_some\<close> asks for does not matter: a resumed read takes the junk in \<open>bytes_xfer\<close> for the number
  of bytes that it never read, and if that is 0 it reads the junk in \<open>len\<close>, possibly past the buffer.
\<close>

lemma read_some_reads_junk:
  assumes "read_some junk q a buf len w = (Inr (), w1)"
    and r: "p_readers w a = Some r" and p: "p_buffers w buf = Some old"
  shows "read_await_resume K q w1 =
    (if 0 < snd junk then (Inr (snd junk), w1)
     else (case px_read K (rp_fd r) (fst junk) (pk w) of
             (Inl e, k) \<Rightarrow> (Inl SystemError, w1\<lparr>pk := k\<rparr>)
           | (Inr xs, k) \<Rightarrow>
               if length old < length xs then (Inl OutOfBounds, w1\<lparr>pk := k\<rparr>)
               else (Inr (of_nat (length xs)),
                     w1\<lparr>pk := k, p_buffers := (p_buffers w)(buf \<mapsto> xs @ drop (length xs) old)\<rparr>)))"
proof -
  have w1: "w1 = w\<lparr>p_awaiters := (p_awaiters w)(q \<mapsto> make_awaiter junk (rp_ioc r) a buf len)\<rparr>"
    using assms(1) r by (simp add: read_some_def)
  show ?thesis
    using r p by (auto simp: w1 read_await_resume_def make_awaiter_def store_bytes_def split: prod.split sum.split)
qed

end
