(* ===== verification/Pool_Liveness.thy ===== *)
theory Pool_Liveness
  imports Thread_Pool
begin

text \<open>
  Shutdown of the thread pool is always able to return: from every state that a pool with one
  caller of \<open>shutdown\<close> can reach, some continuation of the threads leads to the state where every
  worker has ended and the call has returned. The proof names the step to take next and a measure
  that it decreases.
\<close>

subsection \<open>One caller of shutdown\<close>

fun closer_ok :: "thread_pool \<Rightarrow> closer_pc \<Rightarrow> bool" where
  "closer_ok p CallShutdown \<longleftrightarrow> \<not> pool_closed p \<and> (\<forall>i<unat (n_threads p). joinable p ! i)"
| "closer_ok p PostSentinels \<longleftrightarrow> pool_closed p \<and> (\<forall>i<unat (n_threads p). joinable p ! i)"
| "closer_ok p (Joining j) \<longleftrightarrow> pool_closed p \<and> (\<forall>i<unat (n_threads p). j \<le> i \<longrightarrow> joinable p ! i)"
| "closer_ok p Done \<longleftrightarrow> True"
| "closer_ok p _ \<longleftrightarrow> False"

definition solo_inv :: "pool_world \<Rightarrow> bool" where
  "solo_inv w \<longleftrightarrow> (\<exists>c. closers w = [c] \<and> closer_ok (pool w) c)"

lemma closer_ok_cong:
  "pool_closed p' = pool_closed p \<Longrightarrow> n_threads p' = n_threads p \<Longrightarrow> joinable p' = joinable p \<Longrightarrow>
   closer_ok p' c = closer_ok p c"
  by (cases c) simp_all

lemma solo_inv_same:
  "solo_inv w \<Longrightarrow> closers w' = closers w \<Longrightarrow> pool_closed (pool w') = pool_closed (pool w) \<Longrightarrow>
   n_threads (pool w') = n_threads (pool w) \<Longrightarrow> joinable (pool w') = joinable (pool w) \<Longrightarrow> solo_inv w'"
  unfolding solo_inv_def using closer_ok_cong by metis

lemma solo_inv_step:
  assumes step: "pool_step w ev w'" and inv: "solo_inv w"
  shows "solo_inv w'"
proof -
  from inv obtain c where c: "closers w = [c]" "closer_ok (pool w) c" by (auto simp: solo_inv_def)
  from step show ?thesis
  proof (cases rule: pool_step_cases)
    case (close k p first_call)
    with c show ?thesis by (auto simp: solo_inv_def pool_ops pool_closed_def pool_consts)
  next
    case (post k)
    with c show ?thesis by (auto simp: solo_inv_def pool_ops pool_closed_def)
  next
    case (destroy k)
    with c show ?thesis by auto
  next
    case (join k i p)
    with c show ?thesis by (auto simp: solo_inv_def pool_ops pool_closed_def)
  next
    case (throws k i e)
    with c show ?thesis by (auto simp: pool_ops)
  next
    case (all_joined k i)
    with c show ?thesis by (auto simp: solo_inv_def)
  qed (use inv in \<open>rule solo_inv_same; auto simp: pool_ops pool_closed_def pool_consts\<close>)+
qed

lemma solo_inv_start: "solo_inv (pool_start n m [CallShutdown])"
  by (auto simp: solo_inv_def thread_pool_new_def pool_closed_def)

lemma solo_inv_run: "pool_run w evs w' \<Longrightarrow> solo_inv w \<Longrightarrow> solo_inv w'"
  by (erule run_inv) (rule solo_inv_step)

subsection \<open>The measure\<close>

fun pc_rank :: "thread_pc \<Rightarrow> nat" where
  "pc_rank Exited = 0"
| "pc_rank Popping = 1"
| "pc_rank Back = 2"
| "pc_rank (Running h) = 3"
| "pc_rank (Comparing h s) = (if s AND CLOSED_FLAG = 0 then 5 else 4)"
| "pc_rank (Pushing h) = 6"

fun closer_rank :: "nat \<Rightarrow> closer_pc \<Rightarrow> nat" where
  "closer_rank n CallShutdown = 4 * n + 3"
| "closer_rank n PostSentinels = 4 * n + 2"
| "closer_rank n (Joining j) = 1 + (n - j)"
| "closer_rank n _ = 0"

definition distance :: "pool_world \<Rightarrow> nat" where
  "distance w = 3 * length (awaiters (pool w)) + (\<Sum>i<length (pcs w). pc_rank (pcs w ! i)) +
     (\<Sum>k<length (closers w). closer_rank (workers w) (closers w ! k))"

lemma distance_thread:
  assumes "i < length (pcs w)" "pcs w' = (pcs w)[i := pc]" "closers w' = closers w" "workers w' = workers w"
  shows "distance w' + 3 * length (awaiters (pool w)) + pc_rank (pcs w ! i) =
    distance w + 3 * length (awaiters (pool w')) + pc_rank pc"
  using sum_nth_update [OF assms(1), of "\<lambda>_. pc_rank" pc] assms(2-4) by (simp add: distance_def)

lemma distance_closer:
  assumes "closers w = [c]" "closers w' = [c']" "pcs w' = pcs w" "workers w' = workers w"
  shows "distance w' + 3 * length (awaiters (pool w)) + closer_rank (workers w) c =
    distance w + 3 * length (awaiters (pool w')) + closer_rank (workers w) c'"
  using assms by (simp add: distance_def)

subsection \<open>Progress\<close>

text \<open>While a worker has not ended and the sentinels are out, the queue holds one.\<close>

lemma queue_not_empty:
  assumes inv: "pool_inv w" "pool_closed (pool w)" "posting w = 0" and j: "j < workers w" "pcs w ! j \<noteq> Exited"
  shows "awaiters (pool w) \<noteq> []"
proof
  assume "awaiters (pool w) = []"
  then have "exited w = workers w"
    using inv by (simp add: pool_inv_def sentinel_inv_def)
  moreover have "exited w = card {i. i < length (pcs w) \<and> pcs w ! i = Exited}"
    by (simp add: exited_def sum.If_cases Int_def)
  moreover have "{i. i < length (pcs w) \<and> pcs w ! i = Exited} \<subseteq> {..<workers w} - {j}"
    using inv(1) j(2) by (auto simp: pool_inv_def pool_shape_def)
  then have "card {i. i < length (pcs w) \<and> pcs w ! i = Exited} \<le> card ({..<workers w} - {j})"
    by (rule card_mono [rotated]) simp
  ultimately show False using j(1) by simp
qed

lemma worker_progress:
  assumes inv: "pool_inv w" "pool_closed (pool w)" "posting w = 0" and j: "j < workers w" "pcs w ! j \<noteq> Exited"
  shows "\<exists>ev w'. pool_step w ev w' \<and> distance w' < distance w"
proof -
  have len: "j < length (pcs w)" using inv(1) j(1) by (simp add: pool_inv_def pool_shape_def)
  show ?thesis
  proof (cases "pcs w ! j")
    case Popping
    obtain v q where q: "awaiters (pool w) = v # q"
      using queue_not_empty [OF assms] by (cases "awaiters (pool w)") auto
    define pc where "pc = (if v = SENTINEL_AWAITER then Exited else Running v)"
    have pop: "work_pop (pool w) = Some ((pool w)\<lparr>awaiters := q\<rparr>, pc)" using q by (simp add: work_pop_Some pc_def)
    have "pc_rank pc \<le> 3" by (simp add: pc_def)
    then show ?thesis
      using pool_step.pop [OF j(1) len Popping pop refl]
        distance_thread [OF len, of "w\<lparr>pool := (pool w)\<lparr>awaiters := q\<rparr>, pcs := (pcs w)[j := pc]\<rparr>" pc] Popping q
      by (intro exI conjI) (assumption, simp)
  next
    case (Running h)
    show ?thesis
      using pool_step.ends [OF len Running] distance_thread [OF len, of "w\<lparr>pcs := (pcs w)[j := Back]\<rparr>" Back] Running
      by (intro exI conjI) (assumption, simp)
  next
    case (Comparing h s)
    show ?thesis
    proof (cases "s AND CLOSED_FLAG = 0")
      case True
      have "pool_state (pool w) \<noteq> s" using True inv(2) by (auto simp: pool_closed_def)
      then have again: "try_awaiter_enter s (pool w) = (pool w, Inl (pool_state (pool w)))"
        using True by (simp add: try_awaiter_enter_def)
      show ?thesis
        using pool_step.again [OF len Comparing again] inv(2) True Comparing
          distance_thread [OF len, of "w\<lparr>pool := pool w, pcs := (pcs w)[j := Comparing h (pool_state (pool w))]\<rparr>"
            "Comparing h (pool_state (pool w))"]
        by (intro exI conjI) (assumption, simp add: pool_closed_def)
    next
      case False
      then have refused: "try_awaiter_enter s (pool w) = (pool w, Inr False)" by (simp add: try_awaiter_enter_def)
      show ?thesis
        using pool_step.refused [OF len Comparing refused] False Comparing
          distance_thread [OF len, of "w\<lparr>pool := pool w, pcs := (pcs w)[j := Running h]\<rparr>" "Running h"]
        by (intro exI conjI) (assumption, simp)
    qed
  next
    case (Pushing h)
    show ?thesis
      using pool_step.push [OF len Pushing] Pushing
        distance_thread [OF len, of "w\<lparr>pool := (pool w)\<lparr>awaiters := pool_push (awaiters (pool w)) h\<rparr>,
          pcs := (pcs w)[j := Back]\<rparr>" Back]
      by (intro exI conjI) (assumption, simp add: pool_push_def)
  next
    case Back
    show ?thesis
      using pool_step.leave [OF j(1) len Back] Back
        distance_thread [OF len, of "w\<lparr>pool := notify_awaiter_leave (pool w), pcs := (pcs w)[j := Popping]\<rparr>" Popping]
      by (intro exI conjI) (assumption, simp add: notify_awaiter_leave_def)
  qed (use j(2) in simp)
qed

lemma closer_progress:
  assumes inv: "pool_inv w" "closers w = [c]" "closer_ok (pool w) c" "c \<noteq> Done"
  shows "\<exists>ev w'. pool_step w ev w' \<and> distance w' < distance w"
proof (cases c)
  case CallShutdown
  obtain p first where cl: "close_pool (pool w) = (p, first)" by fastforce
  then have p: "p = (pool w)\<lparr>pool_state := pool_state (pool w) OR 1\<rparr>" and f: first
    using inv(3) CallShutdown by (simp_all add: pool_ops pool_closed_def pool_consts)
  show ?thesis
    using pool_step.close [of 0 w, OF _ _ cl] inv(2) CallShutdown f
      distance_closer [of w c "w\<lparr>pool := p, closers := [PostSentinels]\<rparr>" PostSentinels]
    by (intro exI conjI) (simp, simp add: p)
next
  case PostSentinels
  show ?thesis
    using pool_step.post [of 0 w] inv(2) PostSentinels
      distance_closer [of w c "w\<lparr>pool := post_sentinels (pool w), closers := [Joining 0]\<rparr>" "Joining 0"]
    by (intro exI conjI) (simp, simp add: post_sentinels_simp)
next
  case (Joining j)
  have posting: "posting w = 0" using inv(2) Joining by (simp add: posting_def)
  have closed: "pool_closed (pool w)" using inv(3) Joining by simp
  show ?thesis
  proof (cases "j < workers w")
    case False
    then show ?thesis
      using pool_step.all_joined [of 0 w j] inv(2) Joining
        distance_closer [of w c "w\<lparr>pool := (pool w)\<lparr>joined := True\<rparr>, closers := [Done]\<rparr>" Done]
      by (intro exI conjI) (simp, simp)
  next
    case j: True
    show ?thesis
    proof (cases "pcs w ! j = Exited")
      case True
      let ?p = "(pool w)\<lparr>joinable := (joinable (pool w))[j := False]\<rparr>"
      have "join_thread j (pool w) = Inr ?p" using inv(3) Joining j by (simp add: join_thread_def)
      then show ?thesis
        using pool_step.join [of 0 w j ?p] inv(2) Joining j True
          distance_closer [of w c "w\<lparr>pool := ?p, closers := [Joining (Suc j)]\<rparr>" "Joining (Suc j)"]
        by (intro exI conjI) (simp, simp)
    qed (rule worker_progress [OF inv(1) closed posting j])
  qed
qed (use inv in simp_all)

lemma shutdown_reachable:
  "pool_inv w \<Longrightarrow> solo_inv w \<Longrightarrow> \<exists>evs w'. pool_run w evs w' \<and> closers w' = [Done]"
proof (induction "distance w" arbitrary: w rule: less_induct)
  case less
  from less.prems(2) obtain c where c: "closers w = [c]" "closer_ok (pool w) c" by (auto simp: solo_inv_def)
  show ?case
  proof (cases "c = Done")
    case True
    with c show ?thesis using pool_run.none by blast
  next
    case False
    obtain ev w1 where step: "pool_step w ev w1" and d: "distance w1 < distance w"
      using closer_progress [OF less.prems(1) c False] by blast
    obtain evs w' where run: "pool_run w1 evs w'" "closers w' = [Done]"
      using less.hyps [OF d pool_inv_step [OF step less.prems(1)] solo_inv_step [OF step less.prems(2)]] by blast
    have "pool_run w ([] @ [ev]) w1" by (rule pool_run.more [OF pool_run.none step])
    from pool_run_append [OF run(1) this] run(2) show ?thesis by blast
  qed
qed

text \<open>C9. Liveness of shutdown: whatever the workers, the threads outside and the call of \<open>shutdown\<close> have done so
  far, they can go on so that the call returns; then every worker has ended and been joined.\<close>

theorem shutdown_can_always_return:
  assumes "pool_run (pool_start n m [CallShutdown]) evs w"
  shows "\<exists>evs' w'. pool_run w evs' w' \<and> closers w' = [Done] \<and> joined (pool w') \<and>
    (\<forall>i\<in>{..<unat n}. pcs w' ! i = Exited \<and> \<not> joinable (pool w') ! i)"
proof -
  have "calls [CallShutdown]" by (simp add: calls_def)
  then have inv: "pool_inv w" using pool_inv_run [OF assms] pool_inv_start by blast
  obtain evs' w' where run: "pool_run w evs' w'" "closers w' = [Done]"
    using shutdown_reachable [OF inv solo_inv_run [OF assms solo_inv_start]] by blast
  have "workers w = unat n"
    using run_inv [OF assms, of "\<lambda>v. workers v = unat n"] step_workers by (auto simp: thread_pool_new_def)
  then have n: "workers w' = unat n"
    using run_inv [OF run(1), of "\<lambda>v. workers v = unat n"] step_workers by auto
  have "join_inv w'" using pool_inv_run [OF run(1) inv] by (simp add: pool_inv_def)
  with run n show ?thesis by (auto simp: join_inv_def gone_def)
qed

theorem shutdown_can_always_return_witness:
  "\<exists>evs' w'. pool_run (late_world 2 [] False [True] [Popping, Pushing 4096] CallShutdown) evs' w' \<and>
     closers w' = [Done] \<and> joined (pool w') \<and> pcs w' ! 0 = Exited"
  using shutdown_can_always_return [OF late_enters [of 4096]] by auto

end
