(* ===== verification/Map_Heap.thy ===== *)
theory Map_Heap
  imports Map_History
begin

text \<open>
  The hash map once more, with its pointers: entries in a heap, linked by \<open>next\<close>, and buckets that
  hold the address of their first entry. Every loop along a chain may not return, since nothing
  forbids a cyclic chain. The lemmas show that each operation does to the heap what the operation of
  theory Hash_Map does to the lists that the chains spell.

  The address that \<open>new\<close> returns is given by the function \<open>alloc\<close> of the heap; \<open>None\<close> is
  \<open>std::bad_alloc\<close>. The arrays of buckets are allocated without failure.
\<close>

subsection \<open>The heap\<close>

record ('k, 'v) node =
  next_ptr :: uptr
  n_key :: 'k
  n_val :: 'v

type_synonym ('k, 'v) heap = "uptr \<rightharpoonup> ('k, 'v) node"

record ptr_bucket =
  pb_first :: uptr
  pb_items :: size_t

record ('k, 'v) ptr_map =
  pm_items :: size_t
  pm_capacity :: size_t
  pm_max :: size_t
  pm_buckets :: "ptr_bucket list"
  pm_heap :: "('k, 'v) heap"

abbreviation null :: uptr where
  "null \<equiv> 0"

definition load_node :: "uptr \<Rightarrow> ('k, 'v) heap \<Rightarrow> ('k, 'v) node res" where
  "load_node p h = (if p = null then Inl NullDeref else case h p of None \<Rightarrow> Inl WildPointer | Some n \<Rightarrow> Inr n)"

definition ptr_index :: "('k \<Rightarrow> size_t) \<Rightarrow> ('k, 'v) ptr_map \<Rightarrow> 'k \<Rightarrow> nat" where
  "ptr_index hasher m k = unat (bucket_index hasher (pm_capacity m) k)"

definition ptr_map_new :: "size_t \<Rightarrow> ('k, 'v) heap \<Rightarrow> ('k, 'v) ptr_map res" where
  "ptr_map_new mc h =
     (if mc = 0 then Inl (RuntimeError ''maximum capacity must be nonzero'')
      else let c = drop_bit 1 (next_power_of_2 (min DEFAULT_INIT_CAPACITY mc))
           in Inr \<lparr>pm_items = 0, pm_capacity = c, pm_max = mc,
                   pm_buckets = replicate (unat c) \<lparr>pb_first = null, pb_items = 0\<rparr>, pm_heap = h\<rparr>)"

subsection \<open>Walking a chain\<close>

text \<open>
  The loop of \<open>lookup\<close>, \<open>insert\<close>, \<open>update\<close> and \<open>remove\<close>: the entry with the key, or the last entry.
\<close>

partial_function (option) find_loop :: "'k \<Rightarrow> uptr \<Rightarrow> ('k, 'v) heap \<Rightarrow> (bool \<times> uptr) res option" where
  "find_loop k entry h =
     bind_run (Some (load_node entry h)) (\<lambda>n.
       if k = n_key n then Some (Inr (True, entry))
       else if next_ptr n = null then Some (Inr (False, entry))
       else find_loop k (next_ptr n) h)"

declare find_loop.simps [code]

definition ptr_lookup :: "('k \<Rightarrow> size_t) \<Rightarrow> ('k, 'v) ptr_map \<Rightarrow> 'k \<Rightarrow> uptr option res option" where
  "ptr_lookup hasher m k =
     bind_run (Some (array_get (pm_buckets m) (ptr_index hasher m k))) (\<lambda>bucket.
       if pb_items bucket = 0 then Some (Inr None)
       else bind_run (find_loop k (pb_first bucket) (pm_heap m)) (\<lambda>(found, p).
              Some (Inr (if found then Some p else None))))"

subsection \<open>Resizing\<close>

text \<open>\<open>for (; current->next != nullptr; current = current->next)\<close>\<close>

partial_function (option) last_loop :: "uptr \<Rightarrow> ('k, 'v) heap \<Rightarrow> uptr res option" where
  "last_loop current h =
     bind_run (Some (load_node current h)) (\<lambda>n.
       if next_ptr n = null then Some (Inr current) else last_loop (next_ptr n) h)"

declare last_loop.simps [code]

definition link_next :: "uptr \<Rightarrow> uptr \<Rightarrow> ('k, 'v) heap \<Rightarrow> ('k, 'v) heap res" where
  "link_next p q h = bindE (load_node p h) (\<lambda>n. Inr (h(p \<mapsto> n\<lparr>next_ptr := q\<rparr>)))"

definition ptr_insert_into_bucket ::
  "ptr_bucket \<Rightarrow> uptr \<Rightarrow> ('k, 'v) heap \<Rightarrow> (ptr_bucket \<times> ('k, 'v) heap) res option" where
  "ptr_insert_into_bucket b entry h =
     bind_run (Some (link_next entry null h)) (\<lambda>h.
       let b' = b\<lparr>pb_items := pb_items b + 1\<rparr>
       in if pb_first b = null then Some (Inr (b'\<lparr>pb_first := entry\<rparr>, h))
          else bind_run (last_loop (pb_first b) h) (\<lambda>p.
               bind_run (Some (link_next p entry h)) (\<lambda>h. Some (Inr (b', h)))))"

partial_function (option) ptr_move_chain ::
  "('k \<Rightarrow> size_t) \<Rightarrow> size_t \<Rightarrow> uptr \<Rightarrow> ptr_bucket list \<Rightarrow> ('k, 'v) heap \<Rightarrow>
   (ptr_bucket list \<times> ('k, 'v) heap) res option" where
  "ptr_move_chain hasher new_capacity entry nbs h =
     (if entry = null then Some (Inr (nbs, h))
      else bind_run (Some (load_node entry h)) (\<lambda>n.
        let new_index = unat (bucket_index hasher new_capacity (n_key n)); tmp_next = next_ptr n
        in bind_run (Some (array_get nbs new_index)) (\<lambda>nb.
           bind_run (ptr_insert_into_bucket nb entry h) (\<lambda>(nb, h).
             ptr_move_chain hasher new_capacity tmp_next (nbs[new_index := nb]) h))))"

declare ptr_move_chain.simps [code]

fun ptr_move_buckets ::
  "('k \<Rightarrow> size_t) \<Rightarrow> size_t \<Rightarrow> ptr_bucket list \<Rightarrow> nat list \<Rightarrow> ptr_bucket list \<Rightarrow> ('k, 'v) heap \<Rightarrow>
   (ptr_bucket list \<times> ('k, 'v) heap) res option" where
  "ptr_move_buckets hasher new_capacity bs [] nbs h = Some (Inr (nbs, h))"
| "ptr_move_buckets hasher new_capacity bs (i # is) nbs h =
     bind_run (Some (array_get bs i)) (\<lambda>b.
     bind_run (ptr_move_chain hasher new_capacity (pb_first b) nbs h) (\<lambda>(nbs, h).
       ptr_move_buckets hasher new_capacity bs is nbs h))"

definition ptr_resize_required :: "('k, 'v) ptr_map \<Rightarrow> bool" where
  "ptr_resize_required m \<longleftrightarrow>
     load_factor_exceeded (pm_items m) (pm_capacity m) \<and> push_bit 1 (pm_capacity m) \<le> pm_max m"

definition ptr_resize :: "('k \<Rightarrow> size_t) \<Rightarrow> ('k, 'v) ptr_map \<Rightarrow> ('k, 'v) ptr_map res option" where
  "ptr_resize hasher m =
     (if \<not> ptr_resize_required m then Some (Inr m)
      else let new_capacity = push_bit 1 (pm_capacity m)
           in bind_run (ptr_move_buckets hasher new_capacity (pm_buckets m) [0 ..< unat (pm_capacity m)]
                  (replicate (unat new_capacity) \<lparr>pb_first = null, pb_items = 0\<rparr>) (pm_heap m)) (\<lambda>(nbs, h).
                Some (Inr (m\<lparr>pm_buckets := nbs, pm_capacity := new_capacity, pm_heap := h\<rparr>))))"

subsection \<open>Insertion, update and removal\<close>

definition set_bucket :: "nat \<Rightarrow> ptr_bucket \<Rightarrow> ('k, 'v) ptr_map \<Rightarrow> ('k, 'v) ptr_map" where
  "set_bucket i b m = m\<lparr>pm_buckets := (pm_buckets m)[i := b]\<rparr>"

text \<open>\<open>new Entry{key, value}\<close>\<close>

definition new_node ::
  "(('k, 'v) heap \<Rightarrow> uptr option) \<Rightarrow> 'k \<Rightarrow> 'v \<Rightarrow> ('k, 'v) heap \<Rightarrow> (uptr \<times> ('k, 'v) heap) res" where
  "new_node alloc k v h = (case alloc h of None \<Rightarrow> Inl BadAlloc
     | Some p \<Rightarrow> Inr (p, h(p \<mapsto> \<lparr>next_ptr = null, n_key = k, n_val = v\<rparr>)))"

text \<open>A new entry as the only one of a bucket, and at the end of a chain, after the entry at \<open>tail\<close>.\<close>

definition put_first ::
  "(('k, 'v) heap \<Rightarrow> uptr option) \<Rightarrow> ('k \<Rightarrow> size_t) \<Rightarrow> nat \<Rightarrow> ptr_bucket \<Rightarrow> 'k \<Rightarrow> 'v \<Rightarrow> ('k, 'v) ptr_map \<Rightarrow>
   ('k, 'v) ptr_map res option" where
  "put_first alloc hasher i bucket k v m =
     bind_run (Some (new_node alloc k v (pm_heap m))) (\<lambda>(new, h).
       ptr_resize hasher ((set_bucket i \<lparr>pb_first = new, pb_items = pb_items bucket + 1\<rparr> m)
         \<lparr>pm_heap := h, pm_items := pm_items m + 1\<rparr>))"

definition put_last ::
  "(('k, 'v) heap \<Rightarrow> uptr option) \<Rightarrow> ('k \<Rightarrow> size_t) \<Rightarrow> nat \<Rightarrow> ptr_bucket \<Rightarrow> uptr \<Rightarrow> 'k \<Rightarrow> 'v \<Rightarrow> ('k, 'v) ptr_map \<Rightarrow>
   ('k, 'v) ptr_map res option" where
  "put_last alloc hasher i bucket tail k v m =
     bind_run (Some (new_node alloc k v (pm_heap m))) (\<lambda>(new, h).
     bind_run (Some (link_next tail new h)) (\<lambda>h.
       ptr_resize hasher ((set_bucket i (bucket\<lparr>pb_items := pb_items bucket + 1\<rparr>) m)
         \<lparr>pm_heap := h, pm_items := pm_items m + 1\<rparr>)))"

definition ptr_insert ::
  "(('k, 'v) heap \<Rightarrow> uptr option) \<Rightarrow> ('k \<Rightarrow> size_t) \<Rightarrow> 'k \<Rightarrow> 'v \<Rightarrow> ('k, 'v) ptr_map \<Rightarrow>
   (('k, 'v) ptr_map \<times> ('k, 'v) insert_result) res option" where
  "ptr_insert alloc hasher k v m =
     (let i = ptr_index hasher m k
      in bind_run (Some (array_get (pm_buckets m) i)) (\<lambda>bucket.
         if pb_items bucket = 0
         then bind_run (put_first alloc hasher i bucket k v m)
                (\<lambda>m. Some (Inr (m, \<lparr>ins_key = k, ins_value = v, inserted = True\<rparr>)))
         else bind_run (find_loop k (pb_first bucket) (pm_heap m)) (\<lambda>(found, p).
                if found
                then bind_run (Some (load_node p (pm_heap m))) (\<lambda>n.
                       Some (Inr (m, \<lparr>ins_key = n_key n, ins_value = n_val n, inserted = False\<rparr>)))
                else bind_run (put_last alloc hasher i bucket p k v m)
                       (\<lambda>m. Some (Inr (m, \<lparr>ins_key = k, ins_value = v, inserted = True\<rparr>))))))"

definition ptr_update ::
  "(('k, 'v) heap \<Rightarrow> uptr option) \<Rightarrow> ('k \<Rightarrow> size_t) \<Rightarrow> 'k \<Rightarrow> 'v \<Rightarrow> ('k, 'v) ptr_map \<Rightarrow>
   (('k, 'v) ptr_map \<times> ('k, 'v) insert_result) res option" where
  "ptr_update alloc hasher k v m =
     (let i = ptr_index hasher m k
      in bind_run (Some (array_get (pm_buckets m) i)) (\<lambda>bucket.
         if pb_items bucket = 0
         then bind_run (put_first alloc hasher i bucket k v m)
                (\<lambda>m. Some (Inr (m, \<lparr>ins_key = k, ins_value = v, inserted = True\<rparr>)))
         else bind_run (find_loop k (pb_first bucket) (pm_heap m)) (\<lambda>(found, p).
                if found
                then bind_run (Some (load_node p (pm_heap m))) (\<lambda>n.
                       Some (Inr (m\<lparr>pm_heap := (pm_heap m)(p \<mapsto> n\<lparr>n_val := v\<rparr>)\<rparr>,
                                  \<lparr>ins_key = n_key n, ins_value = v, inserted = True\<rparr>)))
                else bind_run (put_last alloc hasher i bucket p k v m)
                       (\<lambda>m. Some (Inr (m, \<lparr>ins_key = k, ins_value = v, inserted = True\<rparr>))))))"

text \<open>In \<open>remove\<close>, \<open>prev\<close> stays null, so it is always \<open>bucket.first\<close> that is set to the successor.\<close>

definition ptr_remove ::
  "('k \<Rightarrow> size_t) \<Rightarrow> 'k \<Rightarrow> ('k, 'v) ptr_map \<Rightarrow> (('k, 'v) ptr_map \<times> ('k, 'v) remove_result) res option" where
  "ptr_remove hasher k m =
     (let i = ptr_index hasher m k
      in bind_run (Some (array_get (pm_buckets m) i)) (\<lambda>bucket.
         if pb_items bucket = 0 then Some (Inr (m, None))
         else bind_run (find_loop k (pb_first bucket) (pm_heap m)) (\<lambda>(found, p).
                if \<not> found then Some (Inr (m, None))
                else bind_run (Some (load_node p (pm_heap m))) (\<lambda>n.
                  Some (Inr ((set_bucket i \<lparr>pb_first = next_ptr n, pb_items = pb_items bucket - 1\<rparr> m)
                               \<lparr>pm_heap := (pm_heap m)(p := None), pm_items := pm_items m - 1\<rparr>,
                             Some (n_key n, n_val n)))))))"

subsection \<open>What a heap represents\<close>

text \<open>\<open>path h p ps\<close>: the chain from \<open>p\<close> runs through the addresses \<open>ps\<close> and ends at null.\<close>

fun path :: "('k, 'v) heap \<Rightarrow> uptr \<Rightarrow> uptr list \<Rightarrow> bool" where
  "path h p [] \<longleftrightarrow> p = null"
| "path h p (q # qs) \<longleftrightarrow> p = q \<and> q \<noteq> null \<and> (\<exists>n. h q = Some n \<and> path h (next_ptr n) qs)"

definition entry_at :: "('k, 'v) heap \<Rightarrow> uptr \<Rightarrow> ('k, 'v) entry" where
  "entry_at h p = \<lparr>key = n_key (the (h p)), val = n_val (the (h p))\<rparr>"

definition bucket_rep :: "('k, 'v) heap \<Rightarrow> uptr list \<Rightarrow> ptr_bucket \<Rightarrow> ('k, 'v) bucket \<Rightarrow> bool" where
  "bucket_rep h ps pb b \<longleftrightarrow> path h (pb_first pb) ps \<and> first b = map (entry_at h) ps \<and> pb_items pb = b_items b"

definition disjoint_paths :: "uptr list list \<Rightarrow> bool" where
  "disjoint_paths pss \<longleftrightarrow> (\<forall>i<length pss. distinct (pss ! i)) \<and>
     (\<forall>i<length pss. \<forall>j<length pss. i \<noteq> j \<longrightarrow> set (pss ! i) \<inter> set (pss ! j) = {})"

definition table_rep ::
  "('k, 'v) heap \<Rightarrow> uptr list list \<Rightarrow> ptr_bucket list \<Rightarrow> ('k, 'v) bucket list \<Rightarrow> bool" where
  "table_rep h pss pbs bs \<longleftrightarrow> disjoint_paths pss \<and> length pss = length bs \<and> length pbs = length bs \<and>
     (\<forall>i<length bs. bucket_rep h (pss ! i) (pbs ! i) (bs ! i))"

text \<open>A map on the heap and the map of lists it stands for. Entries may be left on the heap that no chain reaches.\<close>

definition represents :: "('k, 'v) ptr_map \<Rightarrow> ('k, 'v) hmap \<Rightarrow> bool" where
  "represents pm m \<longleftrightarrow> pm_items pm = n_items m \<and> pm_capacity pm = capacity m \<and> pm_max pm = max_capacity m \<and>
     length (buckets m) = unat (capacity m) \<and> (\<exists>pss. table_rep (pm_heap pm) pss (pm_buckets pm) (buckets m))"

text \<open>What \<open>new\<close> promises: an address that it returns is not null and not in use.\<close>

definition allocates :: "(('k, 'v) heap \<Rightarrow> uptr option) \<Rightarrow> bool" where
  "allocates alloc \<longleftrightarrow> (\<forall>h p. alloc h = Some p \<longrightarrow> p \<noteq> null \<and> h p = None)"

subsection \<open>Paths\<close>

lemma path_allocated: "path h p ps \<Longrightarrow> q \<in> set ps \<Longrightarrow> q \<noteq> null \<and> (\<exists>n. h q = Some n)"
  by (induction ps arbitrary: p) auto

lemma path_null: "path h null ps \<longleftrightarrow> ps = []"
  by (cases ps) auto

lemma path_cong: "(\<And>q. q \<in> set ps \<Longrightarrow> h' q = h q) \<Longrightarrow> path h' p ps = path h p ps"
  by (induction ps arbitrary: p) auto

lemma entry_at_cong: "(\<And>q. q \<in> set ps \<Longrightarrow> h' q = h q) \<Longrightarrow> map (entry_at h') ps = map (entry_at h) ps"
  by (simp add: entry_at_def)

lemma bucket_rep_cong:
  "(\<And>q. q \<in> set ps \<Longrightarrow> h' q = h q) \<Longrightarrow> bucket_rep h' ps pb b = bucket_rep h ps pb b"
  unfolding bucket_rep_def by (simp only: path_cong [of ps h' h] entry_at_cong [of ps h' h])

lemma load_path: "path h p (q # qs) \<Longrightarrow> \<exists>n. load_node p h = Inr n \<and> h q = Some n \<and> p = q \<and> path h (next_ptr n) qs"
  by (auto simp: load_node_def)

lemma load_Some: "h p = Some n \<Longrightarrow> p \<noteq> null \<Longrightarrow> load_node p h = Inr n"
  by (simp add: load_node_def)

text \<open>The end of a path may be extended.\<close>

lemma path_snoc:
  assumes "path h p (ps @ [q])" "h q = Some n" "q \<notin> set ps" "r \<notin> set (ps @ [q])" "r \<noteq> null" "h r = Some n'"
    "next_ptr n' = null"
  shows "path (h(q \<mapsto> n\<lparr>next_ptr := r\<rparr>)) p (ps @ [q, r])"
  using assms by (induction ps arbitrary: p) auto

lemma find_loop_null: "find_loop k null h = Some (Inl NullDeref)"
  by (simp add: find_loop.simps load_node_def)

lemma find_loop_step:
  "load_node p h = Inr n \<Longrightarrow> find_loop k p h =
     (if k = n_key n then Some (Inr (True, p)) else if next_ptr n = null then Some (Inr (False, p))
      else find_loop k (next_ptr n) h)"
  by (subst find_loop.simps) simp

lemma last_loop_step:
  "load_node p h = Inr n \<Longrightarrow>
   last_loop p h = (if next_ptr n = null then Some (Inr p) else last_loop (next_ptr n) h)"
  by (subst last_loop.simps) simp

lemma find_loop_path:
  "path h p ps \<Longrightarrow> ps \<noteq> [] \<Longrightarrow>
   (\<exists>xs q ys. ps = xs @ q # ys \<and> find_loop k p h = Some (Inr (True, q)) \<and> key (entry_at h q) = k \<and>
      k \<notin> key ` entry_at h ` set xs) \<or>
   find_loop k p h = Some (Inr (False, last ps)) \<and> k \<notin> key ` entry_at h ` set ps"
proof (induction ps arbitrary: p)
  case (Cons q qs)
  from load_path [OF Cons.prems(1)] obtain n where n: "load_node p h = Inr n" "h q = Some n" "p = q"
    "path h (next_ptr n) qs" by blast
  have key: "key (entry_at h q) = n_key n" by (simp add: entry_at_def n(2))
  show ?case
  proof (cases "k = n_key n")
    case True
    then show ?thesis using n key by (intro disjI1 exI [of _ "[]"]) (simp add: find_loop_step)
  next
    case ne: False
    show ?thesis
    proof (cases qs)
      case Nil
      then show ?thesis using n ne key by (simp add: find_loop_step)
    next
      case (Cons r rs)
      then have "next_ptr n \<noteq> null" using n(4) by auto
      then have step: "find_loop k p h = find_loop k (next_ptr n) h"
        using n(1) ne by (simp add: find_loop_step)
      have "qs \<noteq> []" using Cons by simp
      from Cons.IH [OF n(4) this] show ?thesis
      proof (elim disjE exE conjE)
        fix xs q' ys
        assume "qs = xs @ q' # ys" "find_loop k (next_ptr n) h = Some (Inr (True, q'))"
          "key (entry_at h q') = k" "k \<notin> key ` entry_at h ` set xs"
        then show ?thesis using step ne key by (intro disjI1 exI [of _ "q # xs"]) auto
      next
        assume "find_loop k (next_ptr n) h = Some (Inr (False, last qs))" "k \<notin> key ` entry_at h ` set qs"
        then show ?thesis using step ne key Cons by auto
      qed
    qed
  qed
qed simp

lemma last_loop_path: "path h p ps \<Longrightarrow> ps \<noteq> [] \<Longrightarrow> last_loop p h = Some (Inr (last ps))"
proof (induction ps arbitrary: p)
  case (Cons q qs)
  from load_path [OF Cons.prems(1)] obtain n where n: "load_node p h = Inr n" "h q = Some n" "p = q"
    "path h (next_ptr n) qs" by blast
  then show ?case
    using Cons.IH [OF n(4)] by (cases qs) (auto simp: last_loop_step path_null)
qed simp

text \<open>What the list operations do on the list that a path spells.\<close>

lemma chain_find_split:
  "k \<notin> key ` set xs \<Longrightarrow> key e = k \<Longrightarrow> chain_find k (xs @ e # ys) = Inr (Some e)"
  by (induction xs) (auto split: list.splits)

lemma chain_find_absent: "es \<noteq> [] \<Longrightarrow> k \<notin> key ` set es \<Longrightarrow> chain_find k es = Inr None"
  by (induction k es rule: chain_find.induct) auto

lemma chain_set_split:
  "k \<notin> key ` set xs \<Longrightarrow> key e = k \<Longrightarrow> chain_set k v (xs @ e # ys) = xs @ e\<lparr>val := v\<rparr> # ys"
  by (induction xs) auto

lemma remove_loop_split:
  "k \<notin> key ` set xs \<Longrightarrow> key e = k \<Longrightarrow> remove_loop k None (xs @ e # ys) = Inr (Some (e, ys))"
  by (induction xs) (auto split: list.splits)

lemma remove_loop_absent: "es \<noteq> [] \<Longrightarrow> k \<notin> key ` set es \<Longrightarrow> remove_loop k None es = Inr None"
  by (induction es) auto

subsection \<open>Agreement of runs\<close>

text \<open>A run with pointers fails where the one with lists fails, and returns where it returns.\<close>

definition agrees :: "('a \<Rightarrow> 'b \<Rightarrow> bool) \<Rightarrow> 'a res option \<Rightarrow> 'b res \<Rightarrow> bool" where
  "agrees R x y \<longleftrightarrow> (case y of Inl e \<Rightarrow> x = Some (Inl e) | Inr b \<Rightarrow> \<exists>a. x = Some (Inr a) \<and> R a b)"

lemma agrees_simps [simp]:
  "agrees R (Some (Inl e)) (Inl e)" "agrees R (Some (Inr a)) (Inr b) = R a b"
  by (simp_all add: agrees_def)

lemma agrees_bind:
  assumes "agrees R x y" "\<And>a b. R a b \<Longrightarrow> agrees S (f a) (g b)"
  shows "agrees S (bind_run x f) (bindE y g)"
proof (cases y)
  case (Inl e)
  with assms(1) show ?thesis by (simp add: agrees_def)
next
  case (Inr b)
  with assms(1) obtain a where "x = Some (Inr a)" "R a b" by (auto simp: agrees_def)
  with assms(2) [OF this(2)] Inr show ?thesis by simp
qed

lemma agrees_map:
  "agrees R x y \<Longrightarrow> (\<And>a b. R a b \<Longrightarrow> S (f a) b) \<Longrightarrow> agrees S (bind_run x (\<lambda>a. Some (Inr (f a)))) y"
  by (auto simp: agrees_def split: sum.splits)

lemma agrees_mono: "agrees R x y \<Longrightarrow> (\<And>a b. R a b \<Longrightarrow> S a b) \<Longrightarrow> agrees S x y"
  by (auto simp: agrees_def split: sum.splits)

lemma find_loop_agrees:
  assumes "path h p ps"
  shows "agrees (\<lambda>fp r. r = (if fst fp then Some (entry_at h (snd fp)) else None))
    (find_loop k p h) (chain_find k (map (entry_at h) ps))"
proof (cases "ps = []")
  case True
  then show ?thesis using assms by (simp add: find_loop_null)
next
  case False
  from find_loop_path [OF assms False, of k] show ?thesis
  proof (elim disjE exE conjE)
    fix xs q ys
    assume "ps = xs @ q # ys" "find_loop k p h = Some (Inr (True, q))" "key (entry_at h q) = k"
      "k \<notin> key ` entry_at h ` set xs"
    then show ?thesis by (simp add: chain_find_split)
  next
    assume "find_loop k p h = Some (Inr (False, last ps))" "k \<notin> key ` entry_at h ` set ps"
    then show ?thesis using False by (simp add: chain_find_absent)
  qed
qed

subsection \<open>Tables\<close>

lemma table_rep_update:
  assumes t: "table_rep h pss pbs bs" and i: "i < length bs" and b: "bucket_rep h' ps pb b" "distinct ps"
    and other: "\<And>j. j < length bs \<Longrightarrow> j \<noteq> i \<Longrightarrow> set ps \<inter> set (pss ! j) = {}"
    and same: "\<And>j q. j < length bs \<Longrightarrow> j \<noteq> i \<Longrightarrow> q \<in> set (pss ! j) \<Longrightarrow> h' q = h q"
  shows "table_rep h' (pss[i := ps]) (pbs[i := pb]) (bs[i := b])"
proof -
  have "bucket_rep h' (pss ! j) (pbs ! j) (bs ! j)" if "j < length bs" "j \<noteq> i" for j
    using t that bucket_rep_cong [of "pss ! j" h' h] same [OF that] by (simp add: table_rep_def)
  moreover have "disjoint_paths (pss[i := ps])"
    using t i b(2) other by (auto simp: table_rep_def disjoint_paths_def nth_list_update)
  ultimately show ?thesis
    using t i b(1) by (simp add: table_rep_def nth_list_update)
qed

lemma table_rep_path:
  "table_rep h pss pbs bs \<Longrightarrow> i < length bs \<Longrightarrow> path h (pb_first (pbs ! i)) (pss ! i) \<and>
     first (bs ! i) = map (entry_at h) (pss ! i) \<and> pb_items (pbs ! i) = b_items (bs ! i) \<and> distinct (pss ! i)"
  by (simp add: table_rep_def bucket_rep_def disjoint_paths_def)

lemma table_rep_other:
  "table_rep h pss pbs bs \<Longrightarrow> i < length bs \<Longrightarrow> j < length bs \<Longrightarrow> i \<noteq> j \<Longrightarrow> set (pss ! i) \<inter> set (pss ! j) = {}"
  by (simp add: table_rep_def disjoint_paths_def)

lemma table_rep_allocated:
  "table_rep h pss pbs bs \<Longrightarrow> j < length bs \<Longrightarrow> q \<in> set (pss ! j) \<Longrightarrow> q \<noteq> null \<and> h q \<noteq> None"
  using table_rep_path [of h pss pbs bs j] path_allocated [of h _ "pss ! j" q] by auto

lemma table_get_agrees:
  assumes "table_rep h pss pbs bs"
  shows "agrees (\<lambda>pb b. i < length bs \<and> pb = pbs ! i \<and> b = bs ! i) (Some (array_get pbs i)) (array_get bs i)"
  using assms by (cases "i < length bs") (simp_all add: table_rep_def)

definition all_paths :: "uptr list list \<Rightarrow> uptr set" where
  "all_paths pss = (\<Union>i<length pss. set (pss ! i))"

lemma all_paths_nth: "i < length pss \<Longrightarrow> set (pss ! i) \<subseteq> all_paths pss"
  by (auto simp: all_paths_def)

lemma all_paths_update:
  "i < length pss \<Longrightarrow> all_paths (pss[i := pss ! i @ [q]]) = insert q (all_paths pss)"
  by (auto simp: all_paths_def nth_list_update split: if_splits)

subsection \<open>Resizing refines\<close>

lemma entry_at_next: "h q = Some n \<Longrightarrow> entry_at (h(q \<mapsto> n\<lparr>next_ptr := r\<rparr>)) = entry_at h"
  by (auto simp: fun_eq_iff entry_at_def)

lemma insert_into_bucket_agrees:
  assumes t: "table_rep h pss nbs bs" and i: "i < length bs" and q: "h q = Some n" "q \<noteq> null"
    and new: "q \<notin> all_paths pss"
  shows "\<exists>h' pb'. ptr_insert_into_bucket (nbs ! i) q h = Some (Inr (pb', h')) \<and>
    table_rep h' (pss[i := pss ! i @ [q]]) (nbs[i := pb']) (bs[i := insert_into_bucket (bs ! i) (entry_at h q)]) \<and>
    (\<forall>a. a \<notin> all_paths pss \<longrightarrow> a \<noteq> q \<longrightarrow> h' a = h a)"
proof -
  note r = table_rep_path [OF t i]
  have len: "length pss = length bs" using t by (simp add: table_rep_def)
  have notin: "q \<notin> set (pss ! j)" if "j < length bs" for j
    using new that all_paths_nth [of j pss] len by auto
  define h1 where "h1 = h(q \<mapsto> n\<lparr>next_ptr := null\<rparr>)"
  have h1: "link_next q null h = Inr h1" using q by (simp add: link_next_def load_Some h1_def)
  have e1: "entry_at h1 = entry_at h" unfolding h1_def by (rule entry_at_next [where h = h, OF q(1)])
  have p1: "path h1 (pb_first (nbs ! i)) (pss ! i)"
  proof -
    have "h1 a = h a" if "a \<in> set (pss ! i)" for a using that notin [OF i] by (auto simp: h1_def)
    from path_cong [OF this] r show ?thesis by simp
  qed
  have disj: "set (pss ! i @ [q]) \<inter> set (pss ! j) = {}" if "j < length bs" "j \<noteq> i" for j
    using table_rep_other [OF t i that(1)] that notin by auto
  show ?thesis
  proof (cases "pss ! i" rule: rev_cases)
    case Nil
    let ?pb = "(nbs ! i)\<lparr>pb_items := pb_items (nbs ! i) + 1, pb_first := q\<rparr>"
    have "ptr_insert_into_bucket (nbs ! i) q h = Some (Inr (?pb, h1))"
      using p1 Nil h1 by (simp add: ptr_insert_into_bucket_def)
    moreover have "bucket_rep h1 (pss ! i @ [q]) ?pb (insert_into_bucket (bs ! i) (entry_at h q))"
      using Nil r q e1 by (simp add: bucket_rep_def insert_into_bucket_def) (simp add: h1_def)
    then have "table_rep h1 (pss[i := pss ! i @ [q]]) (nbs[i := ?pb]) (bs[i := insert_into_bucket (bs ! i) (entry_at h q)])"
      by (intro table_rep_update [OF t i]) (use Nil disj notin in \<open>auto simp: h1_def\<close>)
    ultimately show ?thesis by (intro exI [of _ h1] exI [of _ ?pb]) (auto simp: h1_def)
  next
    case (snoc ps0 l)
    have l: "l \<in> set (pss ! i)" "l \<noteq> q" "l \<notin> set ps0" using snoc notin [OF i] r by auto
    then obtain nl where nl: "h1 l = Some nl" "l \<noteq> null" using path_allocated [OF p1 l(1)] by auto
    define h2 where "h2 = h1(l \<mapsto> nl\<lparr>next_ptr := q\<rparr>)"
    let ?pb = "(nbs ! i)\<lparr>pb_items := pb_items (nbs ! i) + 1\<rparr>"
    have "pb_first (nbs ! i) \<noteq> null"
    proof
      assume "pb_first (nbs ! i) = null"
      with p1 have "pss ! i = []" by (simp add: path_null)
      with snoc show False by simp
    qed
    moreover have "last_loop (pb_first (nbs ! i)) h1 = Some (Inr l)"
      using last_loop_path [OF p1] snoc by simp
    moreover have "link_next l q h1 = Inr h2" using nl by (simp add: link_next_def load_Some h2_def)
    ultimately have "ptr_insert_into_bucket (nbs ! i) q h = Some (Inr (?pb, h2))"
      using h1 by (simp add: ptr_insert_into_bucket_def)
    moreover have "path h2 (pb_first (nbs ! i)) (ps0 @ [l, q])"
      unfolding h2_def
      by (rule path_snoc [where h = h1, OF _ nl(1), where n' = "n\<lparr>next_ptr := null\<rparr>"])
        (use p1 snoc l notin [OF i] q in \<open>auto simp: h1_def\<close>)
    then have "bucket_rep h2 (pss ! i @ [q]) ?pb (insert_into_bucket (bs ! i) (entry_at h q))"
      using r snoc e1 entry_at_next [where h = h1, OF nl(1)] by (simp add: bucket_rep_def insert_into_bucket_def h2_def)
    then have "table_rep h2 (pss[i := pss ! i @ [q]]) (nbs[i := ?pb]) (bs[i := insert_into_bucket (bs ! i) (entry_at h q)])"
    proof (rule table_rep_update [OF t i])
      fix j a
      assume j: "j < length bs" "j \<noteq> i"
      show "set (pss ! i @ [q]) \<inter> set (pss ! j) = {}" by (rule disj [OF j])
      assume "a \<in> set (pss ! j)"
      with disj [OF j] l(1) show "h2 a = h a" by (auto simp: h2_def h1_def)
    qed (use r notin [OF i] in simp)
    moreover have "l \<in> all_paths pss" using l(1) all_paths_nth [of i pss] i len by auto
    ultimately show ?thesis by (intro exI [of _ h2] exI [of _ ?pb]) (auto simp: h2_def h1_def)
  qed
qed

definition grows ::
  "('k, 'v) heap \<Rightarrow> uptr list list \<Rightarrow> uptr set \<Rightarrow> ptr_bucket list \<times> ('k, 'v) heap \<Rightarrow> ('k, 'v) bucket list \<Rightarrow> bool" where
  "grows h pss A r bs' \<longleftrightarrow>
     (\<exists>pss'. table_rep (snd r) pss' (fst r) bs' \<and> length pss' = length pss \<and>
        all_paths pss' = all_paths pss \<union> A \<and> (\<forall>a. a \<notin> all_paths pss \<union> A \<longrightarrow> snd r a = h a))"

lemma move_chain_agrees:
  "table_rep h pss nbs bs \<Longrightarrow> path h p qs \<Longrightarrow> distinct qs \<Longrightarrow> set qs \<inter> all_paths pss = {} \<Longrightarrow>
   agrees (grows h pss (set qs)) (ptr_move_chain hasher c p nbs h) (move_chain hasher c (map (entry_at h) qs) bs)"
proof (induction qs arbitrary: h pss nbs bs p)
  case Nil
  then show ?case by (auto simp: ptr_move_chain.simps grows_def)
next
  case (Cons q qs)
  from load_path [OF Cons.prems(2)] obtain n where n: "load_node p h = Inr n" "h q = Some n" "p = q"
    "path h (next_ptr n) qs" by blast
  have q: "q \<noteq> null" using Cons.prems(2) by simp
  define i where "i = unat (bucket_index hasher c (n_key n))"
  have key: "key (entry_at h q) = n_key n" by (simp add: entry_at_def n(2))
  have len: "length nbs = length bs" "length pss = length bs" using Cons.prems(1) by (simp_all add: table_rep_def)
  have step: "ptr_move_chain hasher c p nbs h =
      bind_run (Some (array_get nbs i)) (\<lambda>nb. bind_run (ptr_insert_into_bucket nb q h) (\<lambda>(nb, h).
        ptr_move_chain hasher c (next_ptr n) (nbs[i := nb]) h))"
    using n q by (subst ptr_move_chain.simps) (simp add: i_def Let_def)
  have lstep: "move_chain hasher c (map (entry_at h) (q # qs)) bs = bindE (array_get bs i) (\<lambda>b.
      move_chain hasher c (map (entry_at h) qs) (bs[i := insert_into_bucket b (entry_at h q)]))"
    by (simp add: i_def key Let_def)
  show ?case
  proof (cases "i < length bs")
    case False
    then show ?thesis unfolding step lstep using len by simp
  next
    case i: True
    obtain h' pb where ins: "ptr_insert_into_bucket (nbs ! i) q h = Some (Inr (pb, h'))"
      "table_rep h' (pss[i := pss ! i @ [q]]) (nbs[i := pb]) (bs[i := insert_into_bucket (bs ! i) (entry_at h q)])"
      "\<And>a. a \<notin> all_paths pss \<Longrightarrow> a \<noteq> q \<Longrightarrow> h' a = h a"
      using insert_into_bucket_agrees [OF Cons.prems(1) i n(2) q] Cons.prems(4) by auto
    have keep: "h' a = h a" if "a \<in> set qs" for a
      using ins(3) that Cons.prems(3,4) by auto
    have paths: "all_paths (pss[i := pss ! i @ [q]]) = insert q (all_paths pss)"
      by (rule all_paths_update) (use i len in simp)
    have "agrees (grows h' (pss[i := pss ! i @ [q]]) (set qs))
        (ptr_move_chain hasher c (next_ptr n) (nbs[i := pb]) h')
        (move_chain hasher c (map (entry_at h') qs) (bs[i := insert_into_bucket (bs ! i) (entry_at h q)]))"
      by (rule Cons.IH [OF ins(2)])
        (use n(4) path_cong [of qs h' h, OF keep] Cons.prems(3,4) paths in auto)
    then show ?thesis
      unfolding step lstep using i len ins(1) entry_at_cong [of qs h' h, OF keep]
      by (auto simp: grows_def paths elim!: agrees_mono) (metis ins(3))+
  qed
qed

text \<open>\<open>old_rep\<close>: the buckets of the old table that the loop has not reached yet.\<close>

definition old_rep ::
  "('k, 'v) heap \<Rightarrow> uptr list list \<Rightarrow> ptr_bucket list \<Rightarrow> ('k, 'v) bucket list \<Rightarrow> nat list \<Rightarrow> uptr list list \<Rightarrow> bool" where
  "old_rep h opss opbs obs is pss \<longleftrightarrow> length opbs = length obs \<and> distinct is \<and>
     (\<forall>i \<in> set is. i < length obs \<longrightarrow> path h (pb_first (opbs ! i)) (opss ! i) \<and>
        first (obs ! i) = map (entry_at h) (opss ! i) \<and> distinct (opss ! i) \<and> set (opss ! i) \<inter> all_paths pss = {} \<and>
        (\<forall>j \<in> set is. j < length obs \<longrightarrow> j \<noteq> i \<longrightarrow> set (opss ! i) \<inter> set (opss ! j) = {}))"

lemma old_rep_step:
  assumes o: "old_rep h opss opbs obs (i # is) pss" and i: "i < length obs"
    and paths: "all_paths pss' = all_paths pss \<union> set (opss ! i)"
    and same: "\<And>a. a \<notin> all_paths pss \<union> set (opss ! i) \<Longrightarrow> h' a = h a"
  shows "old_rep h' opss opbs obs is pss'"
proof -
  have d: "set (opss ! j) \<inter> (all_paths pss \<union> set (opss ! i)) = {}" if "j \<in> set is" "j < length obs" for j
    using o that i unfolding old_rep_def by (auto simp: Int_Un_distrib)
  have eq: "h' q = h q" if "j \<in> set is" "j < length obs" "q \<in> set (opss ! j)" for j q
    using same [of q] d [OF that(1,2)] that(3) by blast
  have "path h' (pb_first (opbs ! j)) (opss ! j) \<and> first (obs ! j) = map (entry_at h') (opss ! j) \<and>
      set (opss ! j) \<inter> all_paths pss' = {}" if j: "j \<in> set is" "j < length obs" for j
    using o j d [OF j] path_cong [of "opss ! j" h' h, OF eq [OF j]] entry_at_cong [of "opss ! j" h' h, OF eq [OF j]]
    by (simp add: old_rep_def paths)
  with o show ?thesis unfolding old_rep_def by simp
qed

lemma move_buckets_agrees:
  "table_rep h pss nbs bs \<Longrightarrow> old_rep h opss opbs obs is pss \<Longrightarrow>
   agrees (\<lambda>r bs'. \<exists>pss'. table_rep (snd r) pss' (fst r) bs' \<and> length pss' = length pss)
     (ptr_move_buckets hasher c opbs is nbs h) (move_buckets hasher c obs is bs)"
proof (induction "is" arbitrary: h pss nbs bs)
  case Nil
  then show ?case by auto
next
  case (Cons i "is")
  show ?case
  proof (cases "i < length obs")
    case False
    then show ?thesis using Cons.prems(2) by (simp add: old_rep_def)
  next
    case i: True
    have o: "length opbs = length obs" "path h (pb_first (opbs ! i)) (opss ! i)" "distinct (opss ! i)"
      "first (obs ! i) = map (entry_at h) (opss ! i)" "set (opss ! i) \<inter> all_paths pss = {}"
      using Cons.prems(2) i by (simp_all add: old_rep_def)
    have "agrees (\<lambda>r bs'. \<exists>pss'. table_rep (snd r) pss' (fst r) bs' \<and> length pss' = length pss)
      (bind_run (ptr_move_chain hasher c (pb_first (opbs ! i)) nbs h) (\<lambda>(nbs, h). ptr_move_buckets hasher c opbs is nbs h))
      (bindE (move_chain hasher c (first (obs ! i)) bs) (move_buckets hasher c obs is))"
    proof (rule agrees_bind)
      show "agrees (grows h pss (set (opss ! i))) (ptr_move_chain hasher c (pb_first (opbs ! i)) nbs h)
          (move_chain hasher c (first (obs ! i)) bs)"
        unfolding o(4) by (rule move_chain_agrees [OF Cons.prems(1) o(2,3,5)])
      fix r bs'
      assume "grows h pss (set (opss ! i)) r bs'"
      then obtain pss' where g: "table_rep (snd r) pss' (fst r) bs'" "length pss' = length pss"
        "all_paths pss' = all_paths pss \<union> set (opss ! i)"
        "\<And>a. a \<notin> all_paths pss \<union> set (opss ! i) \<Longrightarrow> snd r a = h a" by (auto simp: grows_def)
      from Cons.IH [OF g(1) old_rep_step [OF Cons.prems(2) i g(3,4)]] g(2)
      show "agrees (\<lambda>r bs'. \<exists>pss'. table_rep (snd r) pss' (fst r) bs' \<and> length pss' = length pss)
          (case r of (nbs, h) \<Rightarrow> ptr_move_buckets hasher c opbs is nbs h) (move_buckets hasher c obs is bs')"
        by (simp add: case_prod_beta)
    qed
    then show ?thesis using i o(1) by simp
  qed
qed

lemma empty_table_rep:
  "table_rep h (replicate n []) (replicate n \<lparr>pb_first = null, pb_items = 0\<rparr>) (replicate n new_bucket)"
  by (simp add: table_rep_def disjoint_paths_def bucket_rep_def new_bucket_def)

lemma empty_all_paths: "all_paths (replicate n []) = {}"
  by (auto simp: all_paths_def)

lemma table_rep_old:
  "table_rep h pss pbs bs \<Longrightarrow> old_rep h pss pbs bs [0 ..< n] (replicate c [])"
  using table_rep_path [of h pss pbs bs] table_rep_other [of h pss pbs bs]
  by (simp add: old_rep_def empty_all_paths table_rep_def)

lemma resize_agrees:
  assumes "represents pm m"
  shows "agrees represents (ptr_resize hasher pm) (perform_resize_if_required hasher m)"
proof (cases "resize_required m")
  case False
  then have "\<not> ptr_resize_required pm"
    using assms by (simp add: ptr_resize_required_def resize_required_def represents_def Let_def)
  with False assms show ?thesis by (simp add: ptr_resize_def perform_resize_if_required_def)
next
  case True
  then have r: "ptr_resize_required pm"
    using assms by (simp add: ptr_resize_required_def resize_required_def represents_def Let_def)
  from assms obtain pss where t: "table_rep (pm_heap pm) pss (pm_buckets pm) (buckets m)"
    and f: "pm_items pm = n_items m" "pm_capacity pm = capacity m" "pm_max pm = max_capacity m"
    by (auto simp: represents_def)
  show ?thesis
    unfolding ptr_resize_def perform_resize_if_required_def Let_def f(2) using r True
    by (simp, intro agrees_bind [OF move_buckets_agrees [OF empty_table_rep table_rep_old [OF t]]])
      (auto simp: represents_def f table_rep_def)
qed

subsection \<open>The operations refine\<close>

text \<open>With an allocation on the way: the run ends with \<open>std::bad_alloc\<close>, or agrees.\<close>

definition refines :: "('a \<Rightarrow> 'b \<Rightarrow> bool) \<Rightarrow> 'a res option \<Rightarrow> 'b res \<Rightarrow> bool" where
  "refines R x y \<longleftrightarrow> x = Some (Inl BadAlloc) \<or> agrees R x y"

lemma agrees_refines: "agrees R x y \<Longrightarrow> refines R x y"
  by (simp add: refines_def)

lemma refines_bind:
  assumes "refines R x y" "\<And>a b. R a b \<Longrightarrow> refines S (f a) (g b)"
  shows "refines S (bind_run x f) (bindE y g)"
proof (cases "x = Some (Inl BadAlloc)")
  case False
  with assms(1) have a: "agrees R x y" by (simp add: refines_def)
  show ?thesis
  proof (cases y)
    case (Inr b)
    with a obtain a where "x = Some (Inr a)" "R a b" by (auto simp: agrees_def)
    with assms(2) [OF this(2)] Inr show ?thesis by simp
  qed (use a in \<open>simp add: agrees_def refines_def\<close>)
qed (simp add: refines_def)

lemma allocates_cases:
  assumes "allocates alloc"
  obtains "alloc h = None" | p where "alloc h = Some p" "p \<noteq> null" "h p = None"
  using assms unfolding allocates_def by (cases "alloc h") auto

lemma represents_bucket:
  assumes "represents pm m" and i: "ptr_index hasher pm k < length (buckets m)"
  obtains pss where "table_rep (pm_heap pm) pss (pm_buckets pm) (buckets m)"
    "unat (bucket_index_for_key hasher m k) = ptr_index hasher pm k"
    "bucket_for hasher m k = Inr (buckets m ! ptr_index hasher pm k)"
    "array_get (pm_buckets pm) (ptr_index hasher pm k) = Inr (pm_buckets pm ! ptr_index hasher pm k)"
    "pb_items (pm_buckets pm ! ptr_index hasher pm k) = b_items (buckets m ! ptr_index hasher pm k)"
    "first (buckets m ! ptr_index hasher pm k) = map (entry_at (pm_heap pm)) (pss ! ptr_index hasher pm k)"
    "path (pm_heap pm) (pb_first (pm_buckets pm ! ptr_index hasher pm k)) (pss ! ptr_index hasher pm k)"
    "distinct (pss ! ptr_index hasher pm k)"
proof -
  from assms obtain pss where t: "table_rep (pm_heap pm) pss (pm_buckets pm) (buckets m)"
    and c: "pm_capacity pm = capacity m" by (auto simp: represents_def)
  have "length (pm_buckets pm) = length (buckets m)" using t by (simp add: table_rep_def)
  with that [OF t] table_rep_path [OF t i] i c show ?thesis
    by (simp add: ptr_index_def bucket_index_for_key_def bucket_for_def)
qed

lemma represents_no_bucket:
  assumes "represents pm m" "\<not> ptr_index hasher pm k < length (buckets m)"
  shows "bucket_for hasher m k = Inl OutOfBounds"
    and "array_get (pm_buckets pm) (ptr_index hasher pm k) = Inl OutOfBounds"
  using assms
  by (auto simp: represents_def table_rep_def ptr_index_def bucket_index_for_key_def bucket_for_def)

lemma lookup_agrees:
  assumes r: "represents pm m"
  shows "agrees (\<lambda>p e. e = map_option (entry_at (pm_heap pm)) p) (ptr_lookup hasher pm k) (lookup_kv hasher m k)"
proof (cases "ptr_index hasher pm k < length (buckets m)")
  case True
  from represents_bucket [OF r True] obtain pss where
    b: "bucket_for hasher m k = Inr (buckets m ! ptr_index hasher pm k)"
    "array_get (pm_buckets pm) (ptr_index hasher pm k) = Inr (pm_buckets pm ! ptr_index hasher pm k)"
    "pb_items (pm_buckets pm ! ptr_index hasher pm k) = b_items (buckets m ! ptr_index hasher pm k)"
    "first (buckets m ! ptr_index hasher pm k) = map (entry_at (pm_heap pm)) (pss ! ptr_index hasher pm k)"
    and p: "path (pm_heap pm) (pb_first (pm_buckets pm ! ptr_index hasher pm k)) (pss ! ptr_index hasher pm k)"
    by metis
  show ?thesis
  proof (cases "b_items (buckets m ! ptr_index hasher pm k) = 0")
    case False
    have "agrees (\<lambda>p e. e = map_option (entry_at (pm_heap pm)) p)
        (bind_run (find_loop k (pb_first (pm_buckets pm ! ptr_index hasher pm k)) (pm_heap pm))
          (\<lambda>fp. Some (Inr (if fst fp then Some (snd fp) else None))))
        (chain_find k (map (entry_at (pm_heap pm)) (pss ! ptr_index hasher pm k)))"
      by (rule agrees_map [OF find_loop_agrees [OF p]]) auto
    with False show ?thesis by (simp add: ptr_lookup_def lookup_kv_def b case_prod_unfold)
  qed (simp add: ptr_lookup_def lookup_kv_def b)
qed (use represents_no_bucket [OF r, of hasher k] in \<open>simp add: ptr_lookup_def lookup_kv_def\<close>)

text \<open>The three ends of the loop along a chain: a null chain, an entry with the key, the last entry.\<close>

lemma find_loop_cases:
  assumes "path h p ps"
  obtains "ps = []" "find_loop k p h = Some (Inl NullDeref)"
  | xs q ys n where "ps = xs @ q # ys" "find_loop k p h = Some (Inr (True, q))" "h q = Some n" "q \<noteq> null"
      "n_key n = k" "k \<notin> key ` set (map (entry_at h) xs)"
  | xs l n where "ps = xs @ [l]" "find_loop k p h = Some (Inr (False, l))" "h l = Some n" "l \<noteq> null"
      "k \<notin> key ` set (map (entry_at h) ps)"
proof (cases "ps = []")
  case True
  with assms have "p = null" by simp
  with find_loop_null have "find_loop k p h = Some (Inl NullDeref)" by simp
  with True show ?thesis by (rule that(1))
next
  case False
  from find_loop_path [OF assms False, of k] show ?thesis
  proof (elim disjE exE conjE)
    fix xs q ys
    assume a: "ps = xs @ q # ys" "find_loop k p h = Some (Inr (True, q))" "key (entry_at h q) = k"
      "k \<notin> key ` entry_at h ` set xs"
    then obtain n where "h q = Some n" "q \<noteq> null" using path_allocated [OF assms, of q] by auto
    with a that(2) [of xs q ys n] show ?thesis by (simp add: entry_at_def)
  next
    assume a: "find_loop k p h = Some (Inr (False, last ps))" "k \<notin> key ` entry_at h ` set ps"
    then obtain n where "h (last ps) = Some n" "last ps \<noteq> null"
      using path_allocated [OF assms, of "last ps"] False by auto
    with a False that(3) [of "butlast ps" "last ps" n] show ?thesis by simp
  qed
qed

lemma represents_update:
  assumes r: "represents pm m" and t: "table_rep (pm_heap pm) pss (pm_buckets pm) (buckets m)"
    and i: "i < length (buckets m)" and b: "bucket_rep h' ps pb b" "distinct ps"
    and other: "\<And>j. j < length (buckets m) \<Longrightarrow> j \<noteq> i \<Longrightarrow> set ps \<inter> set (pss ! j) = {}"
    and same: "\<And>j q. j < length (buckets m) \<Longrightarrow> j \<noteq> i \<Longrightarrow> q \<in> set (pss ! j) \<Longrightarrow> h' q = pm_heap pm q"
  shows "represents ((set_bucket i pb pm)\<lparr>pm_heap := h', pm_items := n\<rparr>) (m\<lparr>buckets := (buckets m)[i := b], n_items := n\<rparr>)"
proof -
  have "table_rep h' (pss[i := ps]) ((pm_buckets pm)[i := pb]) ((buckets m)[i := b])"
    by (rule table_rep_update [OF t i b other same])
  with r show ?thesis by (auto simp: represents_def set_bucket_def)
qed

lemma put_first_refines:
  assumes a: "allocates alloc" and r: "represents pm m" and i: "i < length (buckets m)"
    and n: "pb_items (pm_buckets pm ! i) = b_items (buckets m ! i)"
  shows "refines represents (put_first alloc hasher i (pm_buckets pm ! i) k v pm)
    (perform_resize_if_required hasher (m\<lparr>buckets := (buckets m)[i := (buckets m ! i)\<lparr>first := [new_entry k v],
       b_items := b_items (buckets m ! i) + 1\<rparr>], n_items := n_items m + 1\<rparr>))"
proof (cases rule: allocates_cases [OF a, of "pm_heap pm"])
  case 1
  then show ?thesis by (simp add: put_first_def new_node_def refines_def)
next
  case (2 p)
  from r obtain pss where t: "table_rep (pm_heap pm) pss (pm_buckets pm) (buckets m)" and it: "pm_items pm = n_items m"
    by (auto simp: represents_def)
  have new: "p \<notin> set (pss ! j)" if "j < length (buckets m)" for j
    using table_rep_allocated [OF t that, of p] 2(3) by auto
  show ?thesis
    unfolding put_first_def
    by (simp add: new_node_def 2(1) it n)
      (intro agrees_refines resize_agrees represents_update [OF r t i, where ps = "[p]"],
        use 2 new in \<open>auto simp: bucket_rep_def entry_at_def new_entry_def\<close>)
qed

lemma put_last_refines:
  assumes a: "allocates alloc" and r: "represents pm m"
    and t: "table_rep (pm_heap pm) pss (pm_buckets pm) (buckets m)" and i: "i < length (buckets m)"
    and ps: "pss ! i = xs @ [l]" and l: "pm_heap pm l = Some nl"
  shows "refines represents (put_last alloc hasher i (pm_buckets pm ! i) l k v pm)
    (perform_resize_if_required hasher (m\<lparr>buckets := (buckets m)[i := (buckets m ! i)
       \<lparr>first := first (buckets m ! i) @ [new_entry k v], b_items := b_items (buckets m ! i) + 1\<rparr>], n_items := n_items m + 1\<rparr>))"
proof (cases rule: allocates_cases [OF a, of "pm_heap pm"])
  case 1
  then show ?thesis by (simp add: put_last_def new_node_def refines_def)
next
  case (2 p)
  define h1 where "h1 = (pm_heap pm)(p \<mapsto> \<lparr>next_ptr = null, n_key = k, n_val = v\<rparr>)"
  define h2 where "h2 = h1(l \<mapsto> nl\<lparr>next_ptr := p\<rparr>)"
  have it: "pm_items pm = n_items m" using r by (simp add: represents_def)
  note b = table_rep_path [OF t i]
  have new: "p \<notin> set (pss ! j)" if "j < length (buckets m)" for j
    using table_rep_allocated [OF t that, of p] 2(3) by auto
  have l': "l \<in> set (pss ! i)" "l \<noteq> p" "l \<notin> set xs" "l \<noteq> null" "h1 l = Some nl"
    using ps new [OF i] b l table_rep_allocated [OF t i, of l] by (auto simp: h1_def)
  have "h1 a = pm_heap pm a" if "a \<in> set (pss ! i)" for a using that new [OF i] by (auto simp: h1_def)
  note same1 = path_cong [of "pss ! i" h1 "pm_heap pm", OF this] entry_at_cong [of "pss ! i" h1 "pm_heap pm", OF this]
  have "path h2 (pb_first (pm_buckets pm ! i)) (xs @ [l, p])"
    unfolding h2_def
    by (rule path_snoc [where h = h1, OF _ l'(5), where n' = "\<lparr>next_ptr = null, n_key = k, n_val = v\<rparr>"])
      (use b same1 ps l' 2 new [OF i] in \<open>auto simp: h1_def\<close>)
  moreover have "map (entry_at h2) (xs @ [l, p]) = first (buckets m ! i) @ [new_entry k v]"
    using entry_at_next [where h = h1, OF l'(5)] same1(2) b ps
    by (simp add: h2_def) (simp add: entry_at_def h1_def new_entry_def)
  ultimately have rep: "bucket_rep h2 (pss ! i @ [p]) ((pm_buckets pm ! i)\<lparr>pb_items := b_items (buckets m ! i) + 1\<rparr>)
      ((buckets m ! i)\<lparr>first := first (buckets m ! i) @ [new_entry k v], b_items := b_items (buckets m ! i) + 1\<rparr>)"
    using ps by (simp add: bucket_rep_def)
  have "represents ((set_bucket i ((pm_buckets pm ! i)\<lparr>pb_items := b_items (buckets m ! i) + 1\<rparr>) pm)
      \<lparr>pm_heap := h2, pm_items := n_items m + 1\<rparr>) (m\<lparr>buckets := (buckets m)[i := (buckets m ! i)
       \<lparr>first := first (buckets m ! i) @ [new_entry k v], b_items := b_items (buckets m ! i) + 1\<rparr>], n_items := n_items m + 1\<rparr>)"
  proof (rule represents_update [OF r t i rep])
    fix j q
    assume j: "j < length (buckets m)" "j \<noteq> i"
    show "set (pss ! i @ [p]) \<inter> set (pss ! j) = {}" using table_rep_other [OF t i j(1)] j new by auto
    assume "q \<in> set (pss ! j)"
    with table_rep_other [OF t i j(1)] j new [OF j(1)] l'(1) show "h2 q = pm_heap pm q"
      by (auto simp: h2_def h1_def)
  qed (use b new [OF i] in simp)
  from resize_agrees [OF this]
  have "refines represents (ptr_resize hasher ((set_bucket i ((pm_buckets pm ! i)\<lparr>pb_items := b_items (buckets m ! i) + 1\<rparr>) pm)
      \<lparr>pm_heap := h2, pm_items := n_items m + 1\<rparr>)) (perform_resize_if_required hasher (m\<lparr>buckets := (buckets m)[i := (buckets m ! i)
       \<lparr>first := first (buckets m ! i) @ [new_entry k v], b_items := b_items (buckets m ! i) + 1\<rparr>], n_items := n_items m + 1\<rparr>))"
    by (rule agrees_refines)
  moreover have "link_next l p h1 = Inr h2" using l' by (simp add: link_next_def load_Some h2_def)
  moreover have "new_node alloc k v (pm_heap pm) = Inr (p, h1)" by (simp add: new_node_def 2(1) h1_def)
  ultimately show ?thesis unfolding put_last_def using b it by simp
qed

abbreviation same_result ::
  "('k, 'v) ptr_map \<times> 'r \<Rightarrow> ('k, 'v) hmap \<times> 'r \<Rightarrow> bool" where
  "same_result \<equiv> \<lambda>p l. represents (fst p) (fst l) \<and> snd p = snd l"

lemma refines_result:
  "refines represents x y \<Longrightarrow>
   refines same_result (bind_run x (\<lambda>m. Some (Inr (m, r)))) (bindE y (\<lambda>m. Inr (m, r)))"
  by (rule refines_bind) (simp_all add: refines_def)

text \<open>\<open>insert\<close> and \<open>update\<close> differ in what they do with an entry that has the key.\<close>

lemma store_refines:
  fixes pm :: "('k, 'v) ptr_map"
  assumes a: "allocates alloc" and r: "represents pm m"
    and found: "\<And>pss xs q ys n. table_rep (pm_heap pm) pss (pm_buckets pm) (buckets m) \<Longrightarrow>
       ptr_index hasher pm k < length (buckets m) \<Longrightarrow> pss ! ptr_index hasher pm k = xs @ q # ys \<Longrightarrow>
       pm_heap pm q = Some n \<Longrightarrow> q \<noteq> null \<Longrightarrow> n_key n = k \<Longrightarrow> k \<notin> key ` set (map (entry_at (pm_heap pm)) xs) \<Longrightarrow>
       refines same_result (f q) (g (buckets m ! ptr_index hasher pm k) (entry_at (pm_heap pm) q))"
  shows "refines same_result
    (bind_run (Some (array_get (pm_buckets pm) (ptr_index hasher pm k))) (\<lambda>bucket.
       if pb_items bucket = 0
       then bind_run (put_first alloc hasher (ptr_index hasher pm k) bucket k v pm) (\<lambda>m. Some (Inr (m, res)))
       else bind_run (find_loop k (pb_first bucket) (pm_heap pm)) (\<lambda>(found, p).
              if found then f p
              else bind_run (put_last alloc hasher (ptr_index hasher pm k) bucket p k v pm) (\<lambda>m. Some (Inr (m, res))))))
    (bindE (bucket_for hasher m k) (\<lambda>bucket.
       if b_items bucket = 0
       then bindE (perform_resize_if_required hasher (m\<lparr>buckets := (buckets m)[ptr_index hasher pm k :=
                bucket\<lparr>first := [new_entry k v], b_items := b_items bucket + 1\<rparr>], n_items := n_items m + 1\<rparr>)) (\<lambda>m. Inr (m, res))
       else bindE (chain_find k (first bucket)) (\<lambda>found. case found of Some e \<Rightarrow> g bucket e
          | None \<Rightarrow> bindE (perform_resize_if_required hasher (m\<lparr>buckets := (buckets m)[ptr_index hasher pm k :=
                bucket\<lparr>first := first bucket @ [new_entry k v], b_items := b_items bucket + 1\<rparr>], n_items := n_items m + 1\<rparr>))
                (\<lambda>m. Inr (m, res)))))"
proof (cases "ptr_index hasher pm k < length (buckets m)")
  case False
  with represents_no_bucket [OF r this] show ?thesis by (simp add: refines_def)
next
  case i: True
  let ?i = "ptr_index hasher pm k"
  from represents_bucket [OF r i] obtain pss where t: "table_rep (pm_heap pm) pss (pm_buckets pm) (buckets m)"
    and b: "bucket_for hasher m k = Inr (buckets m ! ?i)" "array_get (pm_buckets pm) ?i = Inr (pm_buckets pm ! ?i)"
      "pb_items (pm_buckets pm ! ?i) = b_items (buckets m ! ?i)"
    and c: "first (buckets m ! ?i) = map (entry_at (pm_heap pm)) (pss ! ?i)"
    and p: "path (pm_heap pm) (pb_first (pm_buckets pm ! ?i)) (pss ! ?i)"
    by metis
  show ?thesis
  proof (cases "b_items (buckets m ! ?i) = 0")
    case True
    with refines_result [OF put_first_refines [OF a r i b(3)]] show ?thesis using b True by simp
  next
    case nz: False
    show ?thesis
    proof (cases rule: find_loop_cases [OF p, of k])
      case 1
      then show ?thesis using b nz c by (simp add: refines_def)
    next
      case (2 xs q ys n)
      have "chain_find k (first (buckets m ! ?i)) = Inr (Some (entry_at (pm_heap pm) q))"
        using 2 chain_find_split [of k "map (entry_at (pm_heap pm)) xs"] by (simp add: c entry_at_def)
      with found [OF t i 2(1,3,4,5,6)] 2(2) show ?thesis using b nz by simp
    next
      case (3 xs l n)
      have "chain_find k (first (buckets m ! ?i)) = Inr None"
        using 3 unfolding c by (intro chain_find_absent) simp_all
      with refines_result [OF put_last_refines [OF a r t i 3(1,3)]] 3(2) show ?thesis using b nz by simp
    qed
  qed
qed

lemma put_bucket_items: "n_items (put_bucket hasher m k b) = n_items m"
  by (simp add: put_bucket_def)

lemma represents_index: "represents pm m \<Longrightarrow> unat (bucket_index_for_key hasher m k) = ptr_index hasher pm k"
  by (simp add: represents_def ptr_index_def bucket_index_for_key_def)

lemma insert_refines:
  assumes a: "allocates alloc" and r: "represents pm m"
  shows "refines same_result (ptr_insert alloc hasher k v pm) (insert_kv hasher k v m)"
  unfolding ptr_insert_def insert_kv_def Let_def put_bucket_items
  unfolding put_bucket_def represents_index [OF r]
  by (rule store_refines [OF a r]) (simp add: load_Some refines_def entry_at_def r)

lemma update_refines:
  assumes a: "allocates alloc" and r: "represents pm m"
  shows "refines same_result (ptr_update alloc hasher k v pm) (update_kv hasher k v m)"
  unfolding ptr_update_def update_kv_def Let_def put_bucket_items
  unfolding put_bucket_def represents_index [OF r]
proof (rule store_refines [OF a r])
  fix pss xs q ys n
  let ?i = "ptr_index hasher pm k" and ?h = "(pm_heap pm)(q \<mapsto> n\<lparr>n_val := v\<rparr>)"
  assume t: "table_rep (pm_heap pm) pss (pm_buckets pm) (buckets m)" and i: "?i < length (buckets m)"
    and ps: "pss ! ?i = xs @ q # ys" and n: "pm_heap pm q = Some n" "q \<noteq> null" "n_key n = k"
    and first_with: "k \<notin> key ` set (map (entry_at (pm_heap pm)) xs)"
  note b = table_rep_path [OF t i]
  have "\<And>p ps. path (pm_heap pm) p ps \<Longrightarrow> path ?h p ps"
  proof -
    fix p ps
    show "path (pm_heap pm) p ps \<Longrightarrow> path ?h p ps" by (induction ps arbitrary: p) (auto simp: n(1))
  qed
  moreover have "map (entry_at ?h) (pss ! ?i) = chain_set k v (first (buckets m ! ?i))"
  proof -
    have "map (entry_at ?h) xs = map (entry_at (pm_heap pm)) xs" "map (entry_at ?h) ys = map (entry_at (pm_heap pm)) ys"
      using b ps by (auto simp: entry_at_def)
    with b ps n chain_set_split [OF first_with, of "entry_at (pm_heap pm) q" v] show ?thesis
      by (simp add: entry_at_def)
  qed
  ultimately have rep: "bucket_rep ?h (pss ! ?i) (pm_buckets pm ! ?i)
      ((buckets m ! ?i)\<lparr>first := chain_set k v (first (buckets m ! ?i))\<rparr>)"
    using b by (simp add: bucket_rep_def)
  have "represents ((set_bucket ?i (pm_buckets pm ! ?i) pm)\<lparr>pm_heap := ?h, pm_items := n_items m\<rparr>)
      (m\<lparr>buckets := (buckets m)[?i := (buckets m ! ?i)\<lparr>first := chain_set k v (first (buckets m ! ?i))\<rparr>], n_items := n_items m\<rparr>)"
  proof (rule represents_update [OF r t i rep])
    fix j a
    assume j: "j < length (buckets m)" "j \<noteq> ?i"
    show "set (pss ! ?i) \<inter> set (pss ! j) = {}" using table_rep_other [OF t i j(1)] j by simp
    assume "a \<in> set (pss ! j)"
    with table_rep_other [OF t i j(1)] j ps show "?h a = pm_heap pm a" by auto
  qed (use b in simp)
  moreover have "set_bucket ?i (pm_buckets pm ! ?i) pm = pm" by (simp add: set_bucket_def)
  moreover have "pm\<lparr>pm_heap := ?h, pm_items := n_items m\<rparr> = pm\<lparr>pm_heap := ?h\<rparr>"
    using r by (cases pm) (simp add: represents_def)
  moreover have "m\<lparr>buckets := bs, n_items := n_items m\<rparr> = m\<lparr>buckets := bs\<rparr>" for bs by simp
  ultimately have "represents (pm\<lparr>pm_heap := ?h\<rparr>)
      (m\<lparr>buckets := (buckets m)[?i := (buckets m ! ?i)\<lparr>first := chain_set k v (first (buckets m ! ?i))\<rparr>]\<rparr>)"
    by metis
  then show "refines same_result
      (bind_run (Some (load_node q (pm_heap pm))) (\<lambda>n. Some (Inr (pm\<lparr>pm_heap := (pm_heap pm)(q \<mapsto> n\<lparr>n_val := v\<rparr>)\<rparr>,
         \<lparr>ins_key = n_key n, ins_value = v, inserted = True\<rparr>))))
      (Inr (m\<lparr>buckets := (buckets m)[?i := (buckets m ! ?i)\<lparr>first := chain_set k v (first (buckets m ! ?i))\<rparr>]\<rparr>,
         \<lparr>ins_key = key (entry_at (pm_heap pm) q), ins_value = v, inserted = True\<rparr>))"
    using n by (simp add: load_Some refines_def entry_at_def)
qed

lemma remove_agrees:
  assumes r: "represents pm m"
  shows "agrees same_result (ptr_remove hasher k pm) (remove_kv hasher k m)"
proof (cases "ptr_index hasher pm k < length (buckets m)")
  case False
  with represents_no_bucket [OF r this] show ?thesis by (simp add: ptr_remove_def remove_kv_def Let_def)
next
  case i: True
  let ?i = "ptr_index hasher pm k"
  from represents_bucket [OF r i] obtain pss where t: "table_rep (pm_heap pm) pss (pm_buckets pm) (buckets m)"
    and b: "bucket_for hasher m k = Inr (buckets m ! ?i)" "array_get (pm_buckets pm) ?i = Inr (pm_buckets pm ! ?i)"
      "pb_items (pm_buckets pm ! ?i) = b_items (buckets m ! ?i)"
    and c: "first (buckets m ! ?i) = map (entry_at (pm_heap pm)) (pss ! ?i)"
    and p: "path (pm_heap pm) (pb_first (pm_buckets pm ! ?i)) (pss ! ?i)"
    and d: "distinct (pss ! ?i)"
    by metis
  show ?thesis
  proof (cases "b_items (buckets m ! ?i) = 0")
    case True
    then show ?thesis using b r by (simp add: ptr_remove_def remove_kv_def Let_def)
  next
    case nz: False
    show ?thesis
    proof (cases rule: find_loop_cases [OF p, of k])
      case 1
      then show ?thesis using b nz c by (simp add: ptr_remove_def remove_kv_def Let_def)
    next
      case (2 xs q ys n)
      let ?h = "(pm_heap pm)(q := None)"
      let ?b = "(buckets m ! ?i)\<lparr>first := map (entry_at (pm_heap pm)) ys, b_items := b_items (buckets m ! ?i) - 1\<rparr>"
      have it: "pm_items pm = n_items m" using r by (simp add: represents_def)
      have loop: "remove_loop k None (first (buckets m ! ?i)) =
          Inr (Some (entry_at (pm_heap pm) q, map (entry_at (pm_heap pm)) ys))"
        using 2 remove_loop_split [of k "map (entry_at (pm_heap pm)) xs"] by (simp add: c entry_at_def)
      have tail: "path (pm_heap pm) (next_ptr n) ys"
      proof -
        have "\<And>p. path (pm_heap pm) p (xs @ q # ys) \<Longrightarrow> path (pm_heap pm) (next_ptr n) ys"
          using 2(3) by (induction xs) auto
        with p 2(1) show ?thesis by simp
      qed
      have same: "?h a = pm_heap pm a" if "a \<in> set ys" for a using that d 2(1) by auto
      have rep: "bucket_rep ?h ys \<lparr>pb_first = next_ptr n, pb_items = pb_items (pm_buckets pm ! ?i) - 1\<rparr> ?b"
        using tail path_cong [of ys ?h "pm_heap pm", OF same] entry_at_cong [of ys ?h "pm_heap pm", OF same] b
        by (simp add: bucket_rep_def)
      have "represents ((set_bucket ?i \<lparr>pb_first = next_ptr n, pb_items = pb_items (pm_buckets pm ! ?i) - 1\<rparr> pm)
          \<lparr>pm_heap := ?h, pm_items := n_items m - 1\<rparr>) (m\<lparr>buckets := (buckets m)[?i := ?b], n_items := n_items m - 1\<rparr>)"
      proof (rule represents_update [OF r t i rep])
        fix j a
        assume j: "j < length (buckets m)" "j \<noteq> ?i"
        show "set ys \<inter> set (pss ! j) = {}" using table_rep_other [OF t i j(1)] j 2(1) by auto
        assume "a \<in> set (pss ! j)"
        with table_rep_other [OF t i j(1)] j 2(1) show "?h a = pm_heap pm a" by auto
      qed (use d 2(1) in simp)
      then show ?thesis
        using b nz loop 2 it
        by (simp add: ptr_remove_def remove_kv_def Let_def load_Some put_bucket_items put_bucket_def
            represents_index [OF r] entry_at_def)
    next
      case (3 xs l n)
      have "remove_loop k None (first (buckets m ! ?i)) = Inr None"
        using 3 unfolding c by (intro remove_loop_absent) simp_all
      then show ?thesis using b nz 3 r by (simp add: ptr_remove_def remove_kv_def Let_def)
    qed
  qed
qed

lemma new_agrees: "agrees represents (Some (ptr_map_new mc h)) (Map_new mc)"
proof (cases "mc = 0")
  case False
  let ?n = "unat (drop_bit 1 (next_power_of_2 (min DEFAULT_INIT_CAPACITY mc)))"
  have "\<exists>pss. table_rep h pss (replicate ?n \<lparr>pb_first = null, pb_items = 0\<rparr>) (replicate ?n new_bucket)"
    using empty_table_rep by blast
  with False show ?thesis by (simp add: ptr_map_new_def Map_new_def Let_def represents_def)
qed (simp add: ptr_map_new_def Map_new_def)

subsection \<open>Histories\<close>

text \<open>What the result object of \<open>lookup\<close> reads at the address.\<close>

fun ptr_step ::
  "(('k, 'v) heap \<Rightarrow> uptr option) \<Rightarrow> ('k \<Rightarrow> size_t) \<Rightarrow> ('k, 'v) map_call \<Rightarrow> ('k, 'v) ptr_map \<Rightarrow>
   (('k, 'v) ptr_map \<times> ('k, 'v) map_out) res option" where
  "ptr_step alloc hasher (Lookup k) m =
     bind_run (ptr_lookup hasher m k) (\<lambda>r. Some (Inr (m, Found (map_option (\<lambda>p. val (entry_at (pm_heap m) p)) r))))"
| "ptr_step alloc hasher (Insert k v) m =
     bind_run (ptr_insert alloc hasher k v m) (\<lambda>(m, r). Some (Inr (m, Stored (ins_key r) (ins_value r) (inserted r))))"
| "ptr_step alloc hasher (Update k v) m =
     bind_run (ptr_update alloc hasher k v m) (\<lambda>(m, r). Some (Inr (m, Stored (ins_key r) (ins_value r) (inserted r))))"
| "ptr_step alloc hasher (Remove k) m =
     bind_run (ptr_remove hasher k m) (\<lambda>(m, r). Some (Inr (m, Removed r)))"
| "ptr_step alloc hasher Count m = Some (Inr (m, Counted (pm_items m)))"

fun ptr_run ::
  "(('k, 'v) heap \<Rightarrow> uptr option) \<Rightarrow> ('k \<Rightarrow> size_t) \<Rightarrow> ('k, 'v) map_call list \<Rightarrow> ('k, 'v) ptr_map \<Rightarrow>
   (('k, 'v) ptr_map \<times> ('k, 'v) map_out list) res option" where
  "ptr_run alloc hasher [] m = Some (Inr (m, []))"
| "ptr_run alloc hasher (c # cs) m =
     bind_run (ptr_step alloc hasher c m) (\<lambda>(m, out).
       bind_run (ptr_run alloc hasher cs m) (\<lambda>(m, outs). Some (Inr (m, out # outs))))"

lemma step_refines:
  assumes a: "allocates alloc" and r: "represents pm m"
  shows "refines same_result (ptr_step alloc hasher c pm) (map_step hasher c m)"
proof (cases c)
  case (Lookup k)
  show ?thesis
    unfolding Lookup ptr_step.simps map_step.simps
    by (rule refines_bind [OF agrees_refines [OF lookup_agrees [OF r]]])
      (auto simp: r refines_def option.map_comp comp_def)
next
  case (Insert k v)
  show ?thesis
    unfolding Insert ptr_step.simps map_step.simps
    by (rule refines_bind [OF insert_refines [OF a r]]) (simp add: refines_def case_prod_beta)
next
  case (Update k v)
  show ?thesis
    unfolding Update ptr_step.simps map_step.simps
    by (rule refines_bind [OF update_refines [OF a r]]) (simp add: refines_def case_prod_beta)
next
  case (Remove k)
  show ?thesis
    unfolding Remove ptr_step.simps map_step.simps
    by (rule refines_bind [OF agrees_refines [OF remove_agrees [OF r]]]) (simp add: refines_def case_prod_beta)
next
  case Count
  with r show ?thesis by (simp add: refines_def represents_def count_items_def)
qed

lemma run_refines:
  fixes m :: "('k, 'v) hmap"
  shows "allocates alloc \<Longrightarrow> represents pm m \<Longrightarrow> refines same_result (ptr_run alloc hasher cs pm) (map_run hasher cs m)"
proof (induction cs arbitrary: pm m)
  case (Cons c cs)
  show ?case
    unfolding ptr_run.simps map_run.simps
  proof (rule refines_bind [OF step_refines [OF Cons.prems]])
    fix p l
    assume "same_result p (l :: ('k, 'v) hmap \<times> ('k, 'v) map_out)"
    then have p: "represents (fst p) (fst l)" "snd p = snd l" by simp_all
    from refines_bind [OF Cons.IH [OF Cons.prems(1) p(1)],
        of same_result "\<lambda>(m, outs). Some (Inr (m, snd l # outs))" "\<lambda>(m, outs). Inr (m, snd l # outs)"] p(2)
    show "refines same_result
        (case p of (m, out) \<Rightarrow> bind_run (ptr_run alloc hasher cs m) (\<lambda>(m, outs). Some (Inr (m, out # outs))))
        (case l of (m, out) \<Rightarrow> bindE (map_run hasher cs m) (\<lambda>(m, outs). Inr (m, out # outs)))"
      by (simp add: case_prod_beta refines_def)
  qed
qed (simp add: refines_def)

subsection \<open>Entries stay where they are\<close>

definition keeps :: "('k, 'v) heap \<Rightarrow> ('k, 'v) heap \<Rightarrow> bool" where
  "keeps h h' \<longleftrightarrow>
     (\<forall>p n. h p = Some n \<longrightarrow> (\<exists>n'. h' p = Some n' \<and> n_key n' = n_key n \<and> n_val n' = n_val n))"

lemma keeps_refl [simp]: "keeps h h"
  by (simp add: keeps_def)

lemma keeps_trans: "keeps h h' \<Longrightarrow> keeps h' h'' \<Longrightarrow> keeps h h''"
  unfolding keeps_def by metis

lemma link_next_keeps: "link_next p q h = Inr h' \<Longrightarrow> keeps h h'"
  by (auto simp: link_next_def load_node_def keeps_def bindE_Inr_iff split: if_splits option.splits)

lemma insert_into_bucket_keeps:
  "ptr_insert_into_bucket b q h = Some (Inr (b', h')) \<Longrightarrow> keeps h h'"
  by (auto simp: ptr_insert_into_bucket_def bind_run_Some_Inr Let_def split: if_splits
      dest!: link_next_keeps intro: keeps_trans)

lemma move_chain_keeps:
  fixes h :: "('k, 'v) heap"
  assumes "ptr_move_chain hasher c p nbs h = Some (Inr (nbs', h'))"
  shows "keeps h h'"
proof -
  have "\<forall>x. (Inr (nbs', h') :: (ptr_bucket list \<times> ('k, 'v) heap) res) = Inr x \<longrightarrow> keeps h (snd x)"
  proof (rule ptr_move_chain.raw_induct [OF _ assms, where P = "\<lambda>hasher c p nbs h r. \<forall>x. r = Inr x \<longrightarrow> keeps h (snd x)"],
      intro allI impI)
    fix rec hasher c p nbs r x
    fix h :: "('k, 'v) heap"
    assume IH: "\<And>hasher c p nbs (h :: ('k, 'v) heap) r. rec hasher c p nbs h = Some r \<Longrightarrow> \<forall>x. r = Inr x \<longrightarrow> keeps h (snd x)"
      and body: "(if p = null then Some (Inr (nbs, h))
        else bind_run (Some (load_node p h)) (\<lambda>n. let new_index = unat (bucket_index hasher c (n_key n)); tmp_next = next_ptr n
          in bind_run (Some (array_get nbs new_index)) (\<lambda>nb. bind_run (ptr_insert_into_bucket nb p h) (\<lambda>(nb, h).
             rec hasher c tmp_next (nbs[new_index := nb]) h)))) = Some r"
      and r: "r = Inr x"
    show "keeps h (snd x)"
    proof (cases "p = null")
      case False
      with body r obtain q nb b1 h1 i where "ptr_insert_into_bucket nb p h = Some (Inr (b1, h1))"
        "rec hasher c q (nbs[i := b1]) h1 = Some (Inr x)"
        by (auto simp: bind_run_Some_Inr Let_def)
      with IH insert_into_bucket_keeps keeps_trans show ?thesis by blast
    qed (use body r in auto)
  qed
  then show ?thesis by simp
qed

lemma move_buckets_keeps:
  "ptr_move_buckets hasher c bs is nbs h = Some (Inr (nbs', h')) \<Longrightarrow> keeps h h'"
proof (induction "is" arbitrary: nbs h)
  case (Cons i "is")
  then obtain p nbs1 h1 where "ptr_move_chain hasher c p nbs h = Some (Inr (nbs1, h1))"
    "ptr_move_buckets hasher c bs is nbs1 h1 = Some (Inr (nbs', h'))"
    by (auto simp: bind_run_Some_Inr)
  with Cons.IH move_chain_keeps keeps_trans show ?case by blast
qed simp

lemma resize_keeps: "ptr_resize hasher m = Some (Inr m') \<Longrightarrow> keeps (pm_heap m) (pm_heap m')"
  by (auto simp: ptr_resize_def bind_run_Some_Inr Let_def split: if_splits dest!: move_buckets_keeps)

lemma new_node_keeps: "allocates alloc \<Longrightarrow> new_node alloc k v h = Inr (p, h') \<Longrightarrow> keeps h h'"
  by (rule allocates_cases [of alloc h]) (auto simp: new_node_def keeps_def)

lemma put_first_keeps:
  "allocates alloc \<Longrightarrow> put_first alloc hasher i b k v m = Some (Inr m') \<Longrightarrow> keeps (pm_heap m) (pm_heap m')"
  by (auto simp: put_first_def bind_run_Some_Inr dest!: resize_keeps new_node_keeps intro: keeps_trans)

lemma put_last_keeps:
  "allocates alloc \<Longrightarrow> put_last alloc hasher i b p k v m = Some (Inr m') \<Longrightarrow> keeps (pm_heap m) (pm_heap m')"
  by (auto simp: put_last_def bind_run_Some_Inr dest!: resize_keeps new_node_keeps link_next_keeps intro: keeps_trans)

text \<open>Storing keeps every entry at its address, with its key and value, unless the value is assigned.\<close>

lemma insert_keeps:
  "allocates alloc \<Longrightarrow> ptr_insert alloc hasher k v m = Some (Inr (m', r)) \<Longrightarrow> keeps (pm_heap m) (pm_heap m')"
  by (auto simp: ptr_insert_def bind_run_Some_Inr Let_def split: if_splits dest: put_first_keeps put_last_keeps)

subsection \<open>Properties\<close>

text \<open>An allocator with a fixed stock of addresses.\<close>

definition from_stock :: "uptr list \<Rightarrow> ('k, 'v) heap \<Rightarrow> uptr option" where
  "from_stock ps h = List.find (\<lambda>p. p \<noteq> null \<and> h p = None) ps"

lemma from_stock_allocates: "allocates (from_stock ps)"
  by (auto simp: allocates_def from_stock_def find_Some_iff)

text \<open>
  C20. For every history of calls on a newly constructed map, removals included: unless an
  allocation fails, the code with its pointers returns, with the results of the map of lists, and
  leaves a heap whose chains spell the lists of that map; where the map of lists fails (the null
  dereference after a bad removal), so does the code with pointers, in the same way.
\<close>

theorem pointer_map_refines_lists:
  assumes "allocates alloc" and "ptr_map_new mc h = Inr pm" and "Map_new mc = Inr m"
  shows "ptr_run alloc hasher cs pm = Some (Inl BadAlloc) \<or>
    (case map_run hasher cs m of
       Inl e \<Rightarrow> ptr_run alloc hasher cs pm = Some (Inl e)
     | Inr (m', outs) \<Rightarrow> \<exists>pm'. ptr_run alloc hasher cs pm = Some (Inr (pm', outs)) \<and> represents pm' m')"
proof -
  have "represents pm m" using new_agrees [of mc h] assms(2,3) by simp
  from run_refines [OF assms(1) this, of hasher cs] show ?thesis
    by (auto simp: refines_def agrees_def split: sum.splits prod.splits)
qed

theorem pointer_map_refines_lists_witness:
  "\<exists>pm. ptr_map_new 16 Map.empty = Inr pm \<and>
     (ptr_run (from_stock [64, 128]) id [Insert 0 10, Insert 8 20] pm = Some (Inl BadAlloc) \<or>
      (\<exists>pm'. ptr_run (from_stock [64, 128]) id [Insert 0 10, Insert 8 20] pm =
           Some (Inr (pm', [Stored 0 10 True, Stored 8 20 True])) \<and> represents pm' two_keys))"
proof -
  obtain pm :: "(size_t, nat) ptr_map" where pm: "ptr_map_new 16 Map.empty = Inr pm"
    by (simp add: ptr_map_new_def Let_def)
  from pointer_map_refines_lists [OF from_stock_allocates [of "[64, 128]"] pm Map_new_16,
      where hasher = id and cs = "[Insert 0 10, Insert 8 20]"] pm
  show ?thesis unfolding two_keys_run sum.case prod.case by blast
qed



text \<open>
  C33. The pointers that a lookup hands out survive every later insertion, resizes included: an
  entry on the heap is still at its address afterwards, with the same key and the same value.
\<close>

theorem insert_keeps_entries:
  assumes "allocates alloc" and "ptr_insert alloc hasher k v m = Some (Inr (m', r))" and "pm_heap m p = Some n"
  shows "\<exists>n'. pm_heap m' p = Some n' \<and> n_key n' = n_key n \<and> n_val n' = n_val n"
  using insert_keeps [OF assms(1,2)] assms(3) by (simp add: keeps_def)

definition one_bucket :: "(size_t, nat) ptr_map" where
  "one_bucket = \<lparr>pm_items = 1, pm_capacity = 1, pm_max = 2, pm_buckets = [\<lparr>pb_first = 64, pb_items = 1\<rparr>],
     pm_heap = [64 \<mapsto> \<lparr>next_ptr = null, n_key = 5, n_val = 50\<rparr>]\<rparr>"

theorem insert_keeps_entries_witness:
  "\<exists>m' r n'. ptr_insert (from_stock [64, 128]) id 6 60 one_bucket = Some (Inr (m', r)) \<and>
     pm_heap m' 64 = Some n' \<and> n_key n' = 5 \<and> n_val n' = 50"
proof -
  have "case ptr_insert (from_stock [64, 128]) id 6 60 one_bucket of Some (Inr (m', r)) \<Rightarrow> pm_capacity m' = 2 | _ \<Rightarrow> False"
    by code_simp
  then obtain m' r where m': "ptr_insert (from_stock [64, 128]) id 6 60 one_bucket = Some (Inr (m', r))"
    by (auto split: option.splits sum.splits)
  from insert_keeps_entries [OF from_stock_allocates m', of 64 "\<lparr>next_ptr = null, n_key = 5, n_val = 50\<rparr>"] m'
  show ?thesis by (simp add: one_bucket_def)
qed

end
