(* ===== verification/First_Tasks.thy ===== *)
theory First_Tasks
  imports Prelude
begin

text \<open>
  The task types and programs of basics/: \<open>task\<close> of composition/task_v0.hpp (no continuations) and of
  task_v1.hpp, \<open>resumable\<close> of keywords/, and the programs that use them, on a machine of coroutine frames.

  A function body is cut at its suspension points: for a function and a point, what it prints until
  the next suspension, and what it does there. The operand of a \<open>co_await\<close> on a call is a temporary of the
  awaiting frame and is destroyed when that frame goes on or is itself destroyed. \<open>await_suspend\<close> of both
  headers resumes the awaited coroutine from inside, so resumptions nest; whoever resumes is suspended
  by then, so no frame is running twice.
\<close>

subsection \<open>The machine\<close>

datatype func = Main | Coro nat

datatype at_pause = Suspend nat | Yield string nat | Await func nat | Return "string option"

type_synonym program = "func \<Rightarrow> nat \<Rightarrow> string list \<times> at_pause"

record coro_frame =
  fname :: func
  point :: nat
  temporary :: "nat option"
  prom_continuation :: "nat option"
  prom_string :: "string option"
  at_final :: bool

record coro_machine =
  coro_frames :: "nat \<rightharpoonup> coro_frame"
  fresh_handle :: nat
  printed :: "(func \<times> string) list"

definition machine0 :: coro_machine where
  "machine0 = \<lparr>coro_frames = Map.empty, fresh_handle = 0, printed = []\<rparr>"

definition put_frame :: "nat \<Rightarrow> coro_frame \<Rightarrow> coro_machine \<Rightarrow> coro_machine" where
  "put_frame h f m = m\<lparr>coro_frames := (coro_frames m)(h \<mapsto> f)\<rparr>"

definition traces :: "func \<Rightarrow> string list \<Rightarrow> coro_machine \<Rightarrow> coro_machine" where
  "traces c out m = m\<lparr>printed := printed m @ map (Pair c) out\<rparr>"

text \<open>A call: the frame is made, \<open>get_return_object\<close> gives the handle, \<open>initial_suspend\<close> suspends.\<close>

definition call_coro :: "func \<Rightarrow> coro_machine \<Rightarrow> nat \<times> coro_machine" where
  "call_coro c m =
     (fresh_handle m,
      (put_frame (fresh_handle m) \<lparr>fname = c, point = 0, temporary = None, prom_continuation = None,
         prom_string = None, at_final = False\<rparr> m)\<lparr>fresh_handle := fresh_handle m + 1\<rparr>)"

text \<open>The destructor of a task destroys the frame, and with it a task that is a temporary of the frame.\<close>

partial_function (option) destroy :: "nat \<Rightarrow> coro_machine \<Rightarrow> coro_machine res option" where
  "destroy h m =
     (case coro_frames m h of
        None \<Rightarrow> Some (Inl DeadHandle)
      | Some f \<Rightarrow>
          (let m = m\<lparr>coro_frames := (coro_frames m)(h := None)\<rparr>
           in case temporary f of None \<Rightarrow> Some (Inr m) | Some t \<Rightarrow> destroy t m))"

declare destroy.simps [code]

definition end_await :: "coro_frame \<Rightarrow> coro_machine \<Rightarrow> coro_machine res option" where
  "end_await f m = (case temporary f of None \<Rightarrow> Some (Inr m) | Some t \<Rightarrow> destroy t m)"

subsection \<open>The two task types\<close>

record task_type =
  awaiter_suspend :: "nat \<Rightarrow> nat \<Rightarrow> coro_machine \<Rightarrow> coro_machine res"
  final_resumes :: "coro_frame \<Rightarrow> nat option"

text \<open>
  What \<open>await_suspend\<close> of the awaiter does before it resumes the awaited coroutine, and which handle
  \<open>await_suspend\<close> of the final awaiter resumes.
\<close>

definition v0_await_suspend :: "nat \<Rightarrow> nat \<Rightarrow> coro_machine \<Rightarrow> coro_machine res" where
  "v0_await_suspend awaiting coro m = Inr m"

definition v0_final_suspend :: "coro_frame \<Rightarrow> nat option" where
  "v0_final_suspend f = None"

definition v1_await_suspend :: "nat \<Rightarrow> nat \<Rightarrow> coro_machine \<Rightarrow> coro_machine res" where
  "v1_await_suspend awaiting coro m =
     (case coro_frames m coro of
        None \<Rightarrow> Inl DeadHandle
      | Some f \<Rightarrow> Inr (put_frame coro (f\<lparr>prom_continuation := Some awaiting\<rparr>) m))"

definition v1_final_suspend :: "coro_frame \<Rightarrow> nat option" where
  "v1_final_suspend f = prom_continuation f"

definition task_v0 :: task_type where
  "task_v0 = \<lparr>awaiter_suspend = v0_await_suspend, final_resumes = v0_final_suspend\<rparr>"

definition task_v1 :: task_type where
  "task_v1 = \<lparr>awaiter_suspend = v1_await_suspend, final_resumes = v1_final_suspend\<rparr>"

subsection \<open>Resumption\<close>

definition return_value_of :: "string option \<Rightarrow> coro_frame \<Rightarrow> coro_frame" where
  "return_value_of r f = (case r of None \<Rightarrow> f | Some x \<Rightarrow> f\<lparr>prom_string := Some x\<rparr>)"

definition yield_value :: "string \<Rightarrow> coro_frame \<Rightarrow> coro_frame" where
  "yield_value x f = f\<lparr>prom_string := Some x\<rparr>"

partial_function (option) resume_nested :: "task_type \<Rightarrow> program \<Rightarrow> nat \<Rightarrow> coro_machine \<Rightarrow> coro_machine res option" where
  "resume_nested T prog h m =
     (case coro_frames m h of
        None \<Rightarrow> Some (Inl DeadHandle)
      | Some f \<Rightarrow>
          if at_final f then Some (Inl DeadHandle)
          else bind_run (end_await f m) (\<lambda>m.
            let (out, next) = prog (fname f) (point f);
                f = f\<lparr>temporary := None\<rparr>;
                m = traces (fname f) out m
            in case next of
                 Suspend s \<Rightarrow> Some (Inr (put_frame h (f\<lparr>point := s\<rparr>) m))
               | Yield x s \<Rightarrow> Some (Inr (put_frame h (yield_value x (f\<lparr>point := s\<rparr>)) m))
               | Await c s \<Rightarrow>
                   (let (t, m) = call_coro c m
                    in bind_run (Some (awaiter_suspend T h t (put_frame h (f\<lparr>point := s, temporary := Some t\<rparr>) m)))
                         (\<lambda>m. resume_nested T prog t m))
               | Return r \<Rightarrow>
                   (let m = put_frame h ((return_value_of r f)\<lparr>at_final := True\<rparr>) m
                    in case final_resumes T f of None \<Rightarrow> Some (Inr m) | Some c \<Rightarrow> resume_nested T prog c m)))"

declare resume_nested.simps [code]

definition handle_done :: "nat \<Rightarrow> coro_machine \<Rightarrow> bool res" where
  "handle_done h m = (case coro_frames m h of None \<Rightarrow> Inl DeadHandle | Some f \<Rightarrow> Inr (at_final f))"

definition resume_task ::
  "task_type \<Rightarrow> program \<Rightarrow> nat \<Rightarrow> coro_machine \<Rightarrow> (bool \<times> coro_machine) res option" where
  "resume_task T prog h m =
     bind_run (Some (handle_done h m)) (\<lambda>d.
     bind_run (if d then Some (Inr m) else resume_nested T prog h m) (\<lambda>m.
     bind_run (Some (handle_done h m)) (\<lambda>d. Some (Inr (\<not> d, m)))))"

text \<open>\<open>while (t.resume());\<close>\<close>

partial_function (option) resume_loop :: "task_type \<Rightarrow> program \<Rightarrow> nat \<Rightarrow> coro_machine \<Rightarrow> coro_machine res option" where
  "resume_loop T prog h m =
     bind_run (resume_task T prog h m) (\<lambda>(more, m). if more then resume_loop T prog h m else Some (Inr m))"

declare resume_loop.simps [code]

text \<open>
  The owner of the keyword examples: destructor, move construction (the new object and the source), and
  move assignment, where \<open>same\<close> says that source and target are one object.
\<close>

definition resumable_dtor :: "nat option \<Rightarrow> coro_machine \<Rightarrow> coro_machine res option" where
  "resumable_dtor handle m = (case handle of None \<Rightarrow> Some (Inr m) | Some h \<Rightarrow> destroy h m)"

definition resumable_move_new :: "nat option \<Rightarrow> nat option \<times> nat option" where
  "resumable_move_new r = (r, None)"

definition resumable_move_assign ::
  "bool \<Rightarrow> nat option \<Rightarrow> nat option \<Rightarrow> coro_machine \<Rightarrow> (nat option \<times> nat option \<times> coro_machine) res option" where
  "resumable_move_assign same handle r m =
     (if same then Some (Inr (handle, r, m))
      else bind_run (case handle of None \<Rightarrow> Some (Inr m) | Some h \<Rightarrow> destroy h m) (\<lambda>m. Some (Inr (r, None, m))))"

subsection \<open>Programs\<close>

text \<open>A task that is made, resumed until it is done, and destroyed at the end of \<open>main\<close>.\<close>

definition run_root :: "task_type \<Rightarrow> program \<Rightarrow> func \<Rightarrow> coro_machine \<Rightarrow> coro_machine res option" where
  "run_root T prog c m =
     (let (h, m) = call_coro c m
      in bind_run (resume_loop T prog h m) (\<lambda>m. destroy h m))"

text \<open>
  \<open>coro_0\<close>, \<open>coro_1\<close>, \<open>coro_2\<close> and \<open>completes_synchronously\<close> of example1.cpp and example2.cpp are
  \<open>nested 3\<close>: each awaits the next, and the last one awaits nothing.
\<close>

fun nested :: "nat \<Rightarrow> program" where
  "nested n Main pt = ([], Return None)"
| "nested n (Coro k) pt =
     (if k = n then ([''enter'', ''exit''], Return None)
      else if pt = 0 then ([''enter''], Await (Coro (k + 1)) 1) else ([''exit''], Return None))"

definition example1 :: "nat \<Rightarrow> coro_machine res option" where
  "example1 n = run_root task_v0 (nested n) (Coro 0) machine0"

definition example2 :: "nat \<Rightarrow> coro_machine res option" where
  "example2 n =
     (let (h, m) = call_coro (Coro 0) (traces Main [''enter''] machine0)
      in bind_run (resume_loop task_v1 (nested n) h m) (\<lambda>m. destroy h (traces Main [''exit''] m)))"

text \<open>\<open>async_task\<close> of example0.cpp and \<open>foo\<close> of await.cpp; \<open>foo\<close> of return.cpp; \<open>foo\<close> of yield.cpp.\<close>

fun async_task :: program where
  "async_task c pt = (if pt = 0 then ([''enter''], Suspend 1) else ([''exit''], Return None))"

fun return_foo :: program where
  "return_foo c pt =
     (if pt = 0 then ([''enter''], Suspend 1) else ([''exit''], Return (Some ''hello co_return'')))"

fun yield_foo :: program where
  "yield_foo c pt =
     (if pt = 1 then ([], Yield ''co_yield'' 2) else (if pt = 0 then [''enter''] else [], Yield ''Hello'' 1))"

definition example0 :: "coro_machine res option" where
  "example0 =
     (let m = traces Main [''enter''] machine0;
          (t, m) = call_coro (Coro 0) m;
          m = traces Main [''after call to async_task()''] m
      in bind_run (resume_task task_v0 async_task t m) (\<lambda>(_, m).
         bind_run (resume_task task_v0 async_task t (traces Main [''after task::resume() #1''] m)) (\<lambda>(_, m).
           destroy t (traces Main [''exit''] (traces Main [''after task::resume #2''] m)))))"

definition await_main :: "coro_machine res option" where
  "await_main = run_root task_v0 async_task (Coro 0) machine0"

text \<open>The string of the promise: in return.cpp it is not initialised, in yield.cpp it is null.\<close>

definition return_val :: "nat \<Rightarrow> coro_machine \<Rightarrow> string res" where
  "return_val h m =
     (case coro_frames m h of
        None \<Rightarrow> Inl DeadHandle
      | Some f \<Rightarrow> (case prom_string f of None \<Rightarrow> Inl WildPointer | Some x \<Rightarrow> Inr x))"

definition recent_val :: "nat \<Rightarrow> coro_machine \<Rightarrow> string option res" where
  "recent_val h m = (case coro_frames m h of None \<Rightarrow> Inl DeadHandle | Some f \<Rightarrow> Inr (prom_string f))"

definition print_string :: "string option \<Rightarrow> coro_machine \<Rightarrow> coro_machine res" where
  "print_string x m = (case x of None \<Rightarrow> Inl NullDeref | Some x \<Rightarrow> Inr (traces Main [x] m))"

definition return_main :: "coro_machine res option" where
  "return_main =
     (let (h, m) = call_coro (Coro 0) machine0
      in bind_run (resume_loop task_v0 return_foo h m) (\<lambda>m.
         bind_run (Some (return_val h m)) (\<lambda>x. destroy h (traces Main [x] m))))"

fun yield_rounds :: "nat \<Rightarrow> nat \<Rightarrow> coro_machine \<Rightarrow> coro_machine res option" where
  "yield_rounds 0 h m = Some (Inr m)"
| "yield_rounds (Suc i) h m =
     bind_run (resume_task task_v0 yield_foo h m) (\<lambda>(_, m).
     bind_run (Some (bindE (recent_val h m) (\<lambda>x. print_string x m))) (\<lambda>m. yield_rounds i h m))"

definition yield_main :: "nat \<Rightarrow> coro_machine res option" where
  "yield_main n =
     (let (h, m) = call_coro (Coro 0) machine0 in bind_run (yield_rounds n h m) (\<lambda>m. destroy h m))"

subsection \<open>Single steps\<close>

lemma destroy_step:
  "coro_frames m h = Some f \<Longrightarrow> destroy h m =
     (case temporary f of None \<Rightarrow> Some (Inr (m\<lparr>coro_frames := (coro_frames m)(h := None)\<rparr>))
      | Some t \<Rightarrow> destroy t (m\<lparr>coro_frames := (coro_frames m)(h := None)\<rparr>))"
  by (subst destroy.simps) (simp add: Let_def)

lemma resume_step:
  "coro_frames m h = Some f \<Longrightarrow> \<not> at_final f \<Longrightarrow> resume_nested T prog h m =
     bind_run (end_await f m) (\<lambda>m.
       let (out, next) = prog (fname f) (point f);
           f = f\<lparr>temporary := None\<rparr>;
           m = traces (fname f) out m
       in case next of
            Suspend s \<Rightarrow> Some (Inr (put_frame h (f\<lparr>point := s\<rparr>) m))
          | Yield x s \<Rightarrow> Some (Inr (put_frame h (yield_value x (f\<lparr>point := s\<rparr>)) m))
          | Await c s \<Rightarrow>
              (let (t, m) = call_coro c m
               in bind_run (Some (awaiter_suspend T h t (put_frame h (f\<lparr>point := s, temporary := Some t\<rparr>) m)))
                    (\<lambda>m. resume_nested T prog t m))
          | Return r \<Rightarrow>
              (let m = put_frame h ((return_value_of r f)\<lparr>at_final := True\<rparr>) m
               in case final_resumes T f of None \<Rightarrow> Some (Inr m) | Some c \<Rightarrow> resume_nested T prog c m))"
  by (subst resume_nested.simps) simp

lemma resume_loop_step:
  "resume_loop T prog h m =
     bind_run (resume_task T prog h m) (\<lambda>(more, m). if more then resume_loop T prog h m else Some (Inr m))"
  by (subst resume_loop.simps) simp

lemmas machine_simps = put_frame_def traces_def call_coro_def end_await_def handle_done_def resume_task_def
  return_value_of_def yield_value_def

subsection \<open>A body without awaits\<close>

text \<open>
  \<open>straight prog c k r\<close>: the body suspends \<open>k\<close> times, at the points \<open>1\<close> to \<open>k\<close>, and then returns.
\<close>

definition straight :: "program \<Rightarrow> func \<Rightarrow> nat \<Rightarrow> string option \<Rightarrow> bool" where
  "straight prog c k r \<longleftrightarrow> (\<forall>i<k. snd (prog c i) = Suspend (i + 1)) \<and> snd (prog c k) = Return r"

lemma resume_loop_straight:
  assumes s: "straight prog c k r"
  shows "i \<le> k \<Longrightarrow> coro_frames m h = Some f \<Longrightarrow> fname f = c \<Longrightarrow> point f = i \<Longrightarrow> temporary f = None \<Longrightarrow> \<not> at_final f \<Longrightarrow>
    resume_loop task_v0 prog h m =
      Some (Inr (put_frame h ((return_value_of r (f\<lparr>point := k\<rparr>))\<lparr>at_final := True\<rparr>)
        (traces c (concat (map (\<lambda>j. fst (prog c j)) [i ..< Suc k])) m)))"
proof (induction "k - i" arbitrary: i m f)
  case 0
  then have i: "i = k" by simp
  then obtain out where "prog c k = (out, Return r)" using s by (cases "prog c k") (simp add: straight_def)
  with 0 i show ?case
    by (cases f) (subst resume_loop_step, simp add: machine_simps resume_step Let_def task_v0_def v0_final_suspend_def
        split: option.splits)
next
  case (Suc d)
  then have i: "i < k" by simp
  then obtain out where p: "prog c i = (out, Suspend (i + 1))" using s by (cases "prog c i") (force simp: straight_def)
  let ?f = "f\<lparr>point := i + 1\<rparr>"
  have "resume_loop task_v0 prog h m = resume_loop task_v0 prog h (put_frame h ?f (traces c out m))"
    using Suc.prems p
    by (cases f) (subst resume_loop_step, simp add: machine_simps resume_step Let_def task_v0_def)
  also have "\<dots> = Some (Inr (put_frame h ((return_value_of r (?f\<lparr>point := k\<rparr>))\<lparr>at_final := True\<rparr>)
      (traces c (concat (map (\<lambda>j. fst (prog c j)) [i + 1 ..< Suc k])) (put_frame h ?f (traces c out m)))))"
    using Suc by (intro Suc.hyps(1)) (simp_all add: put_frame_def)
  finally show ?case
    using i p by (simp add: machine_simps upt_conv_Cons split: option.splits)
qed

subsection \<open>Nested awaits\<close>

text \<open>
  \<open>going_down k\<close>: the coroutines before \<open>k\<close> wait, \<open>k\<close> has just been called. \<open>coming_up k\<close>: \<open>k\<close> is at
  its end, those behind it are destroyed. The handle of \<open>Coro k\<close> is \<open>k\<close>; \<open>w\<close> is the continuation.
\<close>

definition waiting_frame :: "(nat \<Rightarrow> nat option) \<Rightarrow> nat \<Rightarrow> coro_frame" where
  "waiting_frame w k = \<lparr>fname = Coro k, point = 1, temporary = Some (k + 1), prom_continuation = w k,
     prom_string = None, at_final = False\<rparr>"

definition called :: "(nat \<Rightarrow> nat option) \<Rightarrow> nat \<Rightarrow> coro_frame" where
  "called w k = \<lparr>fname = Coro k, point = 0, temporary = None, prom_continuation = w k,
     prom_string = None, at_final = False\<rparr>"

definition finished :: "(nat \<Rightarrow> nat option) \<Rightarrow> nat \<Rightarrow> nat \<Rightarrow> coro_frame" where
  "finished w pt k = \<lparr>fname = Coro k, point = pt, temporary = None, prom_continuation = w k,
     prom_string = None, at_final = True\<rparr>"

definition going_down :: "(nat \<Rightarrow> nat option) \<Rightarrow> nat \<Rightarrow> nat \<rightharpoonup> coro_frame" where
  "going_down w k = (\<lambda>i. if i < k then Some (waiting_frame w i) else if i = k then Some (called w k) else None)"

definition coming_up :: "(nat \<Rightarrow> nat option) \<Rightarrow> nat \<Rightarrow> nat \<Rightarrow> nat \<rightharpoonup> coro_frame" where
  "coming_up w pt k = (\<lambda>i. if i < k then Some (waiting_frame w i) else if i = k then Some (finished w pt k) else None)"

definition machine :: "nat \<Rightarrow> (nat \<rightharpoonup> coro_frame) \<Rightarrow> (func \<times> string) list \<Rightarrow> coro_machine" where
  "machine n fs out = \<lparr>coro_frames = fs, fresh_handle = n, printed = out\<rparr>"

abbreviation links :: "nat \<Rightarrow> nat option" where
  "links k \<equiv> (case k of 0 \<Rightarrow> None | Suc j \<Rightarrow> Some j)"

abbreviation no_links :: "nat \<Rightarrow> nat option" where
  "no_links k \<equiv> None"

lemmas nested_simps = machine_simps machine_def going_down_def coming_up_def waiting_frame_def called_def finished_def

lemma go_down_v1:
  "k < n \<Longrightarrow> resume_nested task_v1 (nested n) k (machine (k + 1) (going_down links k) out) =
     resume_nested task_v1 (nested n) (k + 1) (machine (k + 2) (going_down links (k + 1)) (out @ [(Coro k, ''enter'')]))"
proof -
  assume k: "k < n"
  have "(going_down links k)(k \<mapsto> waiting_frame links k, k + 1 \<mapsto> called links (k + 1)) = going_down links (k + 1)"
    by (auto simp: going_down_def fun_eq_iff)
  with k show ?thesis
    by (subst resume_step [where f = "called links k"])
      (simp_all add: nested_simps task_v1_def v1_await_suspend_def Let_def fun_upd_twist)
qed

lemma go_down_v0:
  "k < n \<Longrightarrow> resume_nested task_v0 (nested n) k (machine (k + 1) (going_down no_links k) out) =
     resume_nested task_v0 (nested n) (k + 1) (machine (k + 2) (going_down no_links (k + 1)) (out @ [(Coro k, ''enter'')]))"
proof -
  assume k: "k < n"
  have "(going_down no_links k)(k \<mapsto> waiting_frame no_links k, k + 1 \<mapsto> called no_links (k + 1)) = going_down no_links (k + 1)"
    by (auto simp: going_down_def fun_eq_iff)
  with k show ?thesis
    by (subst resume_step [where f = "called no_links k"])
      (simp_all add: nested_simps task_v0_def v0_await_suspend_def Let_def fun_upd_twist)
qed

lemma leaf_frames: "(going_down w n)(n \<mapsto> finished w 0 n) = coming_up w 0 n"
  by (auto simp: going_down_def coming_up_def fun_eq_iff)

lemma leaf:
  "resume_nested task_v0 (nested n) n (machine s (going_down no_links n) out) =
     Some (Inr (machine s (coming_up no_links 0 n) (out @ [(Coro n, ''enter''), (Coro n, ''exit'')])))"
  "resume_nested task_v1 (nested n) n (machine s (going_down links n) out) =
     (let m = machine s (coming_up links 0 n) (out @ [(Coro n, ''enter''), (Coro n, ''exit'')])
      in case n of 0 \<Rightarrow> Some (Inr m) | Suc j \<Rightarrow> resume_nested task_v1 (nested n) j m)"
  unfolding leaf_frames [symmetric]
  by (subst resume_step [where f = "called no_links n"],
      simp_all add: nested_simps task_v0_def v0_final_suspend_def,
      subst resume_step [where f = "called links n"],
      simp_all add: nested_simps task_v1_def v1_final_suspend_def Let_def split: nat.splits)

lemma come_up:
  assumes "k < n"
  shows "resume_nested task_v1 (nested n) k (machine s (coming_up links pt (k + 1)) out) =
     (let m = machine s (coming_up links 1 k) (out @ [(Coro k, ''exit'')])
      in case k of 0 \<Rightarrow> Some (Inr m) | Suc j \<Rightarrow> resume_nested task_v1 (nested n) j m)"
proof -
  have "(coming_up links pt (k + 1))(k + 1 := None, k \<mapsto> finished links 1 k) = coming_up links 1 k"
    by (auto simp: coming_up_def fun_eq_iff)
  moreover have "destroy (k + 1) (machine s (coming_up links pt (k + 1)) out) =
      Some (Inr (machine s ((coming_up links pt (k + 1))(k + 1 := None)) out))"
    by (subst destroy_step [where f = "finished links pt (k + 1)"]) (simp_all add: nested_simps)
  moreover have "coro_frames (machine s (coming_up links pt (k + 1)) out) k = Some (waiting_frame links k)"
    by (simp add: machine_def coming_up_def)
  ultimately show ?thesis
    using assms
    by (subst resume_step [where f = "waiting_frame links k"])
      (simp_all add: machine_simps machine_def waiting_frame_def finished_def task_v1_def v1_final_suspend_def Let_def split: nat.splits)
qed

lemma down_to_leaf:
  "k \<le> n \<Longrightarrow> resume_nested task_v0 (nested n) 0 (machine 1 (going_down no_links 0) out) =
     resume_nested task_v0 (nested n) k (machine (k + 1) (going_down no_links k) (out @ map (\<lambda>i. (Coro i, ''enter'')) [0 ..< k]))"
  "k \<le> n \<Longrightarrow> resume_nested task_v1 (nested n) 0 (machine 1 (going_down links 0) out) =
     resume_nested task_v1 (nested n) k (machine (k + 1) (going_down links k) (out @ map (\<lambda>i. (Coro i, ''enter'')) [0 ..< k]))"
proof (induction k)
  case (Suc k)
  { case 1 with Suc go_down_v0 [of k n "out @ map (\<lambda>i. (Coro i, ''enter'')) [0 ..< k]"] show ?case by simp
  next
    case 2 with Suc go_down_v1 [of k n "out @ map (\<lambda>i. (Coro i, ''enter'')) [0 ..< k]"] show ?case by simp }
qed simp_all

lemma up_from:
  "k < n \<Longrightarrow> resume_nested task_v1 (nested n) k (machine s (coming_up links pt (k + 1)) out) =
     Some (Inr (machine s (coming_up links 1 0) (out @ map (\<lambda>i. (Coro i, ''exit'')) (rev [0 ..< Suc k]))))"
proof (induction k arbitrary: pt out)
  case 0
  with come_up [OF this, of s pt out] show ?case by (simp add: Let_def)
next
  case (Suc k)
  from come_up [OF Suc.prems, of s pt out] Suc.IH [of 1 "out @ [(Coro (Suc k), ''exit'')]"] Suc.prems
  show ?case by (simp add: Let_def)
qed

lemma destroy_chain:
  "i \<le> n \<Longrightarrow> \<forall>j\<in>{i..<n}. fs j = Some (waiting_frame w j) \<Longrightarrow> fs n = Some (finished w pt n) \<Longrightarrow>
   destroy i (machine s fs out) = Some (Inr (machine s (\<lambda>j. if i \<le> j \<and> j \<le> n then None else fs j) out))"
proof (induction "n - i" arbitrary: i fs)
  case 0
  then have "i = n" by simp
  moreover have "fs(n := None) = (\<lambda>j. if n \<le> j \<and> j \<le> n then None else fs j)" by auto
  ultimately show ?case
    using 0 by (subst destroy_step [where f = "finished w pt n"]) (simp_all add: machine_def finished_def)
next
  case (Suc d)
  then have "fs i = Some (waiting_frame w i)" by auto
  then have "destroy i (machine s fs out) = destroy (i + 1) (machine s (fs(i := None)) out)"
    by (subst destroy_step [where f = "waiting_frame w i"]) (simp_all add: machine_def waiting_frame_def)
  also have "\<dots> = Some (Inr (machine s (\<lambda>j. if i + 1 \<le> j \<and> j \<le> n then None else (fs(i := None)) j) out))"
    using Suc by (intro Suc.hyps(1)) auto
  also have "(\<lambda>j. if i + 1 \<le> j \<and> j \<le> n then None else (fs(i := None)) j) = (\<lambda>j. if i \<le> j \<and> j \<le> n then None else fs j)"
    using Suc.hyps(2) by (auto simp: fun_eq_iff)
  finally show ?case .
qed

text \<open>The traces of a program: every coroutine entered, and those in \<open>ks\<close> left, in this order.\<close>

definition enters :: "nat \<Rightarrow> (func \<times> string) list" where
  "enters n = map (\<lambda>i. (Coro i, ''enter'')) [0 ..< Suc n]"

definition exits :: "nat list \<Rightarrow> (func \<times> string) list" where
  "exits ks = map (\<lambda>i. (Coro i, ''exit'')) ks"

lemma v1_run:
  "\<exists>pt. resume_nested task_v1 (nested n) 0 (machine 1 (going_down links 0) out) =
     Some (Inr (machine (n + 1) (coming_up links pt 0) (out @ enters n @ exits (rev [0 ..< Suc n]))))"
proof -
  have "resume_nested task_v1 (nested n) 0 (machine 1 (going_down links 0) out) =
      (let m = machine (n + 1) (coming_up links 0 n) (out @ enters n @ [(Coro n, ''exit'')])
       in case n of 0 \<Rightarrow> Some (Inr m) | Suc j \<Rightarrow> resume_nested task_v1 (nested n) j m)"
    using down_to_leaf(2) [of n n out] leaf(2) [of n "n + 1"] by (simp add: enters_def)
  then show ?thesis
    using up_from [of "n - 1" n "n + 1" 0] by (cases n) (auto simp: exits_def Let_def)
qed

lemma v0_run:
  "resume_nested task_v0 (nested n) 0 (machine 1 (going_down no_links 0) out) =
     Some (Inr (machine (n + 1) (coming_up no_links 0 n) (out @ enters n @ exits [n])))"
  using down_to_leaf(1) [of n n out] leaf(1) [of n "n + 1"] by (simp add: enters_def exits_def)

lemma v0_second_run:
  assumes "0 < n"
  shows "resume_nested task_v0 (nested n) 0 (machine s (coming_up no_links 0 n) out) =
     Some (Inr (machine s (coming_up no_links 1 0) (out @ exits [0])))"
proof -
  have "destroy 1 (machine s (coming_up no_links 0 n) out) =
      Some (Inr (machine s (\<lambda>j. if 1 \<le> j \<and> j \<le> n then None else coming_up no_links 0 n j) out))"
    by (rule destroy_chain [where w = no_links and pt = 0]) (use assms in \<open>auto simp: coming_up_def\<close>)
  moreover have "(\<lambda>j. if 1 \<le> j \<and> j \<le> n then None else coming_up no_links 0 n j)(0 \<mapsto> finished no_links 1 0) =
      coming_up no_links 1 0"
    by (auto simp: coming_up_def fun_eq_iff)
  moreover have "coro_frames (machine s (coming_up no_links 0 n) out) 0 = Some (waiting_frame no_links 0)"
    using assms by (simp add: machine_def coming_up_def)
  ultimately show ?thesis
    using assms
    by (subst resume_step [where f = "waiting_frame no_links 0"])
      (simp_all add: machine_simps machine_def waiting_frame_def finished_def task_v0_def v0_final_suspend_def Let_def exits_def)
qed

lemma run_root_frame: "call_coro (Coro 0) (machine 0 Map.empty out) = (0, machine 1 (going_down w 0) out)"
  if "w 0 = None"
  using that by (auto simp: call_coro_def machine_def put_frame_def going_down_def called_def fun_eq_iff)

lemma root_done:
  "resume_task T prog 0 (machine s (going_down w 0) out) =
     bind_run (resume_nested T prog 0 (machine s (going_down w 0) out)) (\<lambda>m.
     bind_run (Some (handle_done 0 m)) (\<lambda>d. Some (Inr (\<not> d, m))))"
  by (simp add: resume_task_def handle_done_def machine_def going_down_def called_def)

lemma destroy_root: "destroy 0 (machine s (coming_up w pt 0) out) = Some (Inr (machine s Map.empty out))"
  by (subst destroy_step [where f = "finished w pt 0"])
    (auto simp: machine_def coming_up_def finished_def fun_eq_iff)

subsection \<open>Yields\<close>

definition yielding :: "nat \<Rightarrow> string option \<Rightarrow> coro_frame" where
  "yielding pt x = \<lparr>fname = Coro 0, point = pt, temporary = None, prom_continuation = None, prom_string = x, at_final = False\<rparr>"

lemma yield_round:
  "yield_rounds (Suc i) 0 (machine s [0 \<mapsto> yielding pt x] out) =
     (let y = if pt = 1 then ''co_yield'' else ''Hello''; next = if pt = 1 then 2 else 1
      in yield_rounds i 0 (machine s [0 \<mapsto> yielding next (Some y)]
           (out @ (if pt = 0 then [(Coro 0, ''enter'')] else []) @ [(Main, y)])))"
  by (simp add: resume_task_def handle_done_def machine_def yielding_def resume_step end_await_def traces_def
      put_frame_def yield_value_def recent_val_def print_string_def Let_def)

lemma upt_first: "[j ..< j + Suc i] = j # [Suc j ..< Suc j + i]"
  by (simp add: upt_conv_Cons del: upt_Suc)

lemma yield_rounds_alternate:
  "pt = (if even j then 2 else 1) \<Longrightarrow> \<exists>pt' x'. yield_rounds i 0 (machine s [0 \<mapsto> yielding pt x] out) =
     Some (Inr (machine s [0 \<mapsto> yielding pt' x']
       (out @ map (\<lambda>l. (Main, if even l then ''Hello'' else ''co_yield'')) [j ..< j + i])))"
proof (induction i arbitrary: j pt x out)
  case (Suc i)
  let ?y = "if even j then ''Hello'' else ''co_yield''"
  have step: "yield_rounds (Suc i) 0 (machine s [0 \<mapsto> yielding pt x] out) =
      yield_rounds i 0 (machine s [0 \<mapsto> yielding (if even (Suc j) then 2 else 1) (Some ?y)] (out @ [(Main, ?y)]))"
    unfolding yield_round using Suc.prems by (simp add: Let_def)
  obtain pt' x' where ih: "yield_rounds i 0 (machine s [0 \<mapsto> yielding (if even (Suc j) then 2 else 1) (Some ?y)] (out @ [(Main, ?y)])) =
      Some (Inr (machine s [0 \<mapsto> yielding pt' x'] ((out @ [(Main, ?y)]) @
        map (\<lambda>l. (Main, if even l then ''Hello'' else ''co_yield'')) [Suc j ..< Suc j + i])))"
    using Suc.IH by blast
  have "yield_rounds (Suc i) 0 (machine s [0 \<mapsto> yielding pt x] out) = Some (Inr (machine s [0 \<mapsto> yielding pt' x']
      (out @ map (\<lambda>l. (Main, if even l then ''Hello'' else ''co_yield'')) [j ..< j + Suc i])))"
    unfolding step ih upt_first by (simp del: upt_Suc)
  then show ?case by blast
qed auto

subsection \<open>Properties\<close>

text \<open>
  C17. With continuations (task_v1) a chain of nested awaits of any depth returns: every coroutine is
  entered once and left once, in the opposite order, and every frame is destroyed.
\<close>

theorem continuations_complete_chain:
  "example2 n = Some (Inr (machine (n + 1) Map.empty
     ([(Main, ''enter'')] @ enters n @ exits (rev [0 ..< Suc n]) @ [(Main, ''exit'')])))"
proof -
  obtain pt where run: "resume_nested task_v1 (nested n) 0 (machine 1 (going_down links 0) [(Main, ''enter'')]) =
      Some (Inr (machine (n + 1) (coming_up links pt 0) ([(Main, ''enter'')] @ enters n @ exits (rev [0 ..< Suc n]))))"
    using v1_run by blast
  have "handle_done 0 (machine s (coming_up links pt 0) out) = Inr True" for s out
    by (simp add: handle_done_def machine_def coming_up_def finished_def)
  with run have "resume_loop task_v1 (nested n) 0 (machine 1 (going_down links 0) [(Main, ''enter'')]) =
      Some (Inr (machine (n + 1) (coming_up links pt 0) ([(Main, ''enter'')] @ enters n @ exits (rev [0 ..< Suc n]))))"
    by (subst resume_loop_step) (simp add: root_done)
  moreover have "traces Main [''exit''] (machine s fs out) = machine s fs (out @ [(Main, ''exit'')])" for s fs out
    by (simp add: traces_def machine_def)
  moreover have "traces Main [''enter''] machine0 = machine 0 Map.empty [(Main, ''enter'')]"
    by (simp add: traces_def machine_def machine0_def)
  ultimately show ?thesis
    using run_root_frame [of links "[(Main, ''enter'')]"] destroy_root
    by (simp add: example2_def)
qed

text \<open>
  Without continuations (task_v0) the same chain loses its middle: the coroutines between the
  first and the last are entered and destroyed at their await without ever being left.
\<close>

lemma no_continuation_loses_chain:
  "example1 n = Some (Inr (machine (n + 1) Map.empty (enters n @ exits (if n = 0 then [0] else [n, 0]))))"
proof -
  let ?m = "machine (n + 1) (coming_up no_links 0 n) (enters n @ exits [n])"
  have first: "resume_task task_v0 (nested n) 0 (machine 1 (going_down no_links 0) []) = Some (Inr (n \<noteq> 0, ?m))"
    using v0_run [of n "[]"]
    by (simp add: root_done) (simp add: handle_done_def machine_def coming_up_def waiting_frame_def finished_def)
  have last_turn: "resume_task task_v0 (nested n) 0 ?m =
      Some (Inr (False, machine (n + 1) (coming_up no_links 1 0) (enters n @ exits [n, 0])))" if "0 < n"
    using that v0_second_run [OF that, of "n + 1" "enters n @ exits [n]"]
    by (simp add: resume_task_def) (simp add: handle_done_def machine_def coming_up_def waiting_frame_def finished_def exits_def)
  have second: "resume_loop task_v0 (nested n) 0 ?m =
      Some (Inr (machine (n + 1) (coming_up no_links 1 0) (enters n @ exits [n, 0])))" if "0 < n"
    using last_turn [OF that] by (subst resume_loop_step) simp
  have "resume_loop task_v0 (nested n) 0 (machine 1 (going_down no_links 0) []) =
      Some (Inr (machine (n + 1) (coming_up no_links (if n = 0 then 0 else 1) 0) (enters n @ exits (if n = 0 then [0] else [n, 0]))))"
    using first second by (subst resume_loop_step, cases "n = 0") simp_all
  moreover have "machine0 = machine 0 Map.empty []" by (simp add: machine_def machine0_def)
  ultimately show ?thesis
    using run_root_frame [of no_links "[]"] destroy_root by (simp add: example1_def run_root_def)
qed

text \<open>
  Resuming a coroutine that awaits no task until it is done returns: the whole body has run, in
  order, once, whatever the number of its suspension points, and its frame is destroyed.
\<close>

lemma resume_loop_runs_body:
  assumes "straight prog c k r"
  shows "run_root task_v0 prog c machine0 =
    Some (Inr \<lparr>coro_frames = Map.empty, fresh_handle = 1,
      printed = map (Pair c) (concat (map (\<lambda>i. fst (prog c i)) [0 ..< Suc k]))\<rparr>)"
proof -
  let ?f = "\<lparr>fname = c, point = 0, temporary = None, prom_continuation = None, prom_string = None, at_final = False\<rparr>"
  let ?m = "\<lparr>coro_frames = [0 \<mapsto> ?f], fresh_handle = 1, printed = []\<rparr>"
  let ?g = "(return_value_of r (?f\<lparr>point := k\<rparr>))\<lparr>at_final := True\<rparr>"
  have "call_coro c machine0 = (0, ?m)" by (simp add: call_coro_def machine0_def put_frame_def)
  moreover have "resume_loop task_v0 prog 0 ?m =
      Some (Inr (put_frame 0 ?g (traces c (concat (map (\<lambda>j. fst (prog c j)) [0 ..< Suc k])) ?m)))"
    by (rule resume_loop_straight [OF assms]) simp_all
  moreover have "destroy 0 (put_frame 0 ?g m) = Some (Inr (m\<lparr>coro_frames := (coro_frames m)(0 := None)\<rparr>))" for m
    by (subst destroy_step [where f = ?g]) (simp_all add: put_frame_def return_value_of_def split: option.splits)
  ultimately show ?thesis by (simp add: run_root_def traces_def)
qed

text \<open>
  The program of yield.cpp prints, after the trace of the one entry, the two yielded strings in
  turn, once per resumption, for any number of rounds, and destroys the coroutine in its loop.
\<close>

lemma yield_main_alternates:
  "yield_main n = Some (Inr (machine 1 Map.empty
     ((if n = 0 then [] else [(Coro 0, ''enter'')]) @
      map (\<lambda>i. (Main, if even i then ''Hello'' else ''co_yield'')) [0 ..< n])))"
proof -
  have call: "call_coro (Coro 0) machine0 = (0, machine 1 [0 \<mapsto> yielding 0 None] [])"
    by (simp add: call_coro_def machine0_def put_frame_def machine_def yielding_def)
  have free: "destroy 0 (machine s [0 \<mapsto> yielding pt x] out) = Some (Inr (machine s Map.empty out))" for s pt x out
    by (subst destroy_step [where f = "yielding pt x"]) (simp_all add: machine_def yielding_def)
  show ?thesis
  proof (cases n)
    case 0
    then show ?thesis by (simp add: yield_main_def call free)
  next
    case (Suc i)
    obtain pt' x' where "yield_rounds i 0 (machine 1 [0 \<mapsto> yielding 1 (Some ''Hello'')] [(Coro 0, ''enter''), (Main, ''Hello'')]) =
        Some (Inr (machine 1 [0 \<mapsto> yielding pt' x'] ([(Coro 0, ''enter''), (Main, ''Hello'')] @
          map (\<lambda>l. (Main, if even l then ''Hello'' else ''co_yield'')) [1 ..< 1 + i])))"
      using yield_rounds_alternate [of 1 1 i 1 "Some ''Hello''" "[(Coro 0, ''enter''), (Main, ''Hello'')]"] by auto
    then have "yield_rounds n 0 (machine 1 [0 \<mapsto> yielding 0 None] []) =
        Some (Inr (machine 1 [0 \<mapsto> yielding pt' x'] ((Coro 0, ''enter'') #
          map (\<lambda>l. (Main, if even l then ''Hello'' else ''co_yield'')) [0 ..< n])))"
      using upt_first [of 0 i] unfolding Suc yield_round by (simp add: Let_def del: upt_Suc)
    with Suc show ?thesis by (simp add: yield_main_def call free)
  qed
qed

text \<open>
  Assigning to an owner destroys what it owned, takes the other coroutine over, and leaves the source
  empty, so that destroying both afterwards destroys either coroutine once.
\<close>

lemma resumable_assign_then_destroy:
  assumes "coro_frames m h = Some f" "temporary f = None" "coro_frames m g = Some f'" "temporary f' = None" "h \<noteq> g"
  shows "bind_run (resumable_move_assign False (Some h) (Some g) m) (\<lambda>(x, y, m).
    bind_run (resumable_dtor x m) (resumable_dtor y)) = Some (Inr (m\<lparr>coro_frames := (coro_frames m)(h := None, g := None)\<rparr>))"
  using assms by (simp add: resumable_move_assign_def resumable_dtor_def destroy_step)

text \<open>The programs of example0.cpp and return.cpp.\<close>

lemma example0_prints:
  "map_option (map_sum id printed) example0 = Some (Inr
     [(Main, ''enter''), (Main, ''after call to async_task()''), (Coro 0, ''enter''),
      (Main, ''after task::resume() #1''), (Coro 0, ''exit''), (Main, ''after task::resume #2''), (Main, ''exit'')])"
  by code_simp

lemma return_main_prints:
  "map_option (map_sum id printed) return_main = Some (Inr
     [(Coro 0, ''enter''), (Coro 0, ''exit''), (Main, ''hello co_return'')])"
  by code_simp

end
