(* ===== verification/Numbers.thy ===== *)
theory Numbers
  imports Prelude
begin

text \<open>
  The numbers of the programs: the conversion of a \<open>std::size_t\<close> to an \<open>int\<close>, and the functions of the
  standard library that read numbers from the command line.
\<close>

subsection \<open>Conversion to \<open>int\<close>\<close>

text \<open>The conversion of a \<open>std::size_t\<close> to an \<open>int\<close> of 32 bits.\<close>

definition to_int :: "size_t \<Rightarrow> int" where
  "to_int w = sint (ucast w :: 32 word)"

lemma to_int_small:
  assumes "unat w < 2 ^ 31"
  shows "to_int w = int (unat w)"
proof -
  have "int (unat w) < int (2 ^ 31)" using assms by (simp only: of_nat_less_iff)
  then have lt: "uint w < 2 ^ 31" by simp
  have "uint (ucast w :: 32 word) = take_bit 32 (uint w)" by (simp add: unsigned_ucast_eq)
  also have "\<dots> = uint w" using lt by (intro take_bit_int_eq_self) simp_all
  finally have "uint (ucast w :: 32 word) = uint w" .
  then have "to_int w = signed_take_bit 31 (uint w)" by (simp add: to_int_def sint_uint)
  also have "\<dots> = uint w"
  proof (rule signed_take_bit_int_eq_self)
    show "- (2 ^ 31) \<le> uint w" by (rule order.trans [OF _ uint_ge_0]) simp
    show "uint w < 2 ^ 31" by (rule lt)
  qed
  finally show ?thesis by simp
qed

text \<open>The conversion is injective on the first \<open>2 ^ 32\<close> numbers, and then starts again.\<close>

definition as_int :: "nat \<Rightarrow> int" where
  "as_int i = to_int (of_nat i)"

lemma as_int_eq_iff: "as_int i = as_int j \<longleftrightarrow> i mod 2 ^ 32 = j mod 2 ^ 32"
proof -
  have u: "unat (ucast (of_nat n :: size_t) :: 32 word) = n mod 2 ^ 32" for n
    by (simp add: unsigned_ucast_eq unat_of_nat take_bit_nat_def mod_mod_cancel)
  have "as_int i = as_int j \<longleftrightarrow> (ucast (of_nat i :: size_t) :: 32 word) = ucast (of_nat j :: size_t)"
    by (simp add: as_int_def to_int_def word_eq_iff_signed [symmetric])
  also have "\<dots> \<longleftrightarrow> i mod 2 ^ 32 = j mod 2 ^ 32"
    unfolding word_unat_eq_iff u by (rule refl)
  finally show ?thesis .
qed

subsection \<open>Numbers on the command line\<close>

text \<open>\<open>atoi\<close> of the C library: white space, a sign, digits; undefined when the value does not fit an \<open>int\<close>.\<close>

definition code :: "char \<Rightarrow> int" where
  "code c = of_char c"

definition is_space :: "char \<Rightarrow> bool" where
  "is_space c \<longleftrightarrow> code c = 32 \<or> 9 \<le> code c \<and> code c \<le> 13"

fun atoi_digits :: "int \<Rightarrow> string \<Rightarrow> int" where
  "atoi_digits n [] = n"
| "atoi_digits n (c # cs) =
     (if 48 \<le> code c \<and> code c \<le> 57 then atoi_digits (10 * n + (code c - 48)) cs else n)"

definition atoi :: "string \<Rightarrow> int res" where
  "atoi s =
     (let s = dropWhile is_space s;
          n = (case s of
                 [] \<Rightarrow> 0
               | c # cs \<Rightarrow> if code c = 45 then - atoi_digits 0 cs else if code c = 43 then atoi_digits 0 cs
                           else atoi_digits 0 s)
      in if - (2 ^ 31) \<le> n \<and> n < 2 ^ 31 then Inr n else Inl SignedOverflow)"

definition has_digit :: "string \<Rightarrow> bool" where
  "has_digit s = (case s of [] \<Rightarrow> False | c # cs \<Rightarrow> 48 \<le> code c \<and> code c \<le> 57)"

text \<open>What \<open>std::stoul\<close> reads: a sign and a number, or its exception for text that is none.\<close>

definition read_unsigned :: "string \<Rightarrow> (bool \<times> int) res" where
  "read_unsigned s =
     (let s = dropWhile is_space s;
          (negative, s) = (case s of
             [] \<Rightarrow> (False, s)
           | c # cs \<Rightarrow> if code c = 45 then (True, cs) else if code c = 43 then (False, cs) else (False, s))
      in if has_digit s then Inr (negative, atoi_digits 0 s) else Inl (RuntimeError ''invalid_argument''))"

text \<open>
  It throws for a number out of the range of \<open>unsigned long\<close> and negates modulo its width, which is 64 bits on Linux
  and macOS and 32 bits on Windows.
\<close>

definition stoul :: "string \<Rightarrow> size_t res" where
  "stoul s = bindE (read_unsigned s) (\<lambda>(negative, n).
     if 2 ^ 64 \<le> n then Inl (RuntimeError ''out_of_range'')
     else Inr (if negative then - word_of_int n else word_of_int n))"

definition stoul32 :: "string \<Rightarrow> u32 res" where
  "stoul32 s = bindE (read_unsigned s) (\<lambda>(negative, n).
     if 2 ^ 32 \<le> n then Inl (RuntimeError ''out_of_range'')
     else Inr (if negative then - word_of_int n else word_of_int n))"

end
