(* ===== verification/Search_Program.thy ===== *)
theory Search_Program
  imports Binary_Search Numbers
begin

text \<open>
  The program of applications/binary-search: the random numbers of rng.hpp, the arguments, data and main
  loop of manual.cpp, around the three searches of theory Binary_Search. The generator and the
  distribution of the standard library are a parameter. The clock, and the figures computed from it, are
  not modelled; \<open>assert\<close> is on.
\<close>

subsection \<open>Random numbers\<close>

text \<open>\<open>std::mt19937_64\<close> and \<open>std::uniform_int_distribution<int>\<close>: seeding, and drawing from a range.\<close>

record 'g std_random =
  seeded :: "u32 \<Rightarrow> 'g"
  draw :: "int \<Rightarrow> int \<Rightarrow> 'g \<Rightarrow> int \<times> 'g"

definition documented_random :: "'g std_random \<Rightarrow> bool" where
  "documented_random R \<longleftrightarrow> (\<forall>a b g. a \<le> b \<longrightarrow> a \<le> fst (draw R a b g) \<and> fst (draw R a b g) \<le> b)"

record 'g rng =
  rng_state :: 'g
  lower :: int
  upper :: int
  rng_count :: size_t

text \<open>The constructor; a distribution whose range is empty is undefined, here \<open>AssertFailed\<close> as in the library.\<close>

definition rng_new :: "'g std_random \<Rightarrow> u32 \<Rightarrow> int \<Rightarrow> int \<Rightarrow> size_t \<Rightarrow> 'g rng res" where
  "rng_new R seed a b items =
     (if b < a then Inl AssertFailed
      else Inr \<lparr>rng_state = seeded R seed, lower = a, upper = b, rng_count = items\<rparr>)"

text \<open>
  The iterator is its count; \<open>*it\<close> draws through the owner, \<open>++\<close> counts down to the count of \<open>end()\<close>.
\<close>

definition rng_deref :: "'g std_random \<Rightarrow> 'g rng \<Rightarrow> int \<times> 'g rng" where
  "rng_deref R r = (let (x, g) = draw R (lower r) (upper r) (rng_state r) in (x, r\<lparr>rng_state := g\<rparr>))"

function rng_loop :: "'g std_random \<Rightarrow> size_t \<Rightarrow> 'g rng \<Rightarrow> int list" where
  "rng_loop R items r =
     (if items = 0 then [] else let (x, r) = rng_deref R r in x # rng_loop R (items - 1) r)"
  by pat_completeness auto
termination
  by (relation "measure (\<lambda>(_, items, _). unat items)") (auto simp: unat_pred_size unat_gt_0)

declare rng_loop.simps [simp del]

definition rng_all :: "'g std_random \<Rightarrow> 'g rng \<Rightarrow> int list" where
  "rng_all R r = rng_loop R (rng_count r) r"

subsection \<open>The state of a run\<close>

record bench_state =
  dataset :: "int list"
  lookups :: "int list"
  data_count :: size_t
  n_repeat :: size_t
  n_streams :: size_t

definition State_new :: "'g std_random \<Rightarrow> size_t \<Rightarrow> size_t \<Rightarrow> size_t \<Rightarrow> bench_state res" where
  "State_new R byte_count lookup_count rep =
     (let items = byte_count div 4;
          dataset = map (\<lambda>i. to_int (of_nat i + of_nat i)) [0 ..< unat items]
      in bindE (rng_new R 0 0 (to_int (items + items)) lookup_count) (\<lambda>r.
           Inr \<lparr>dataset = dataset, lookups = rng_all R r, data_count = items, n_repeat = rep, n_streams = 0\<rparr>))"

definition start :: "size_t \<Rightarrow> bench_state \<Rightarrow> bench_state" where
  "start streams s = s\<lparr>n_streams := streams\<rparr>"

subsection \<open>The three runners\<close>

datatype runner = Test_Vanilla | Test_State_Machine | Test_Coro

fun vanilla_each :: "int list \<Rightarrow> int list \<Rightarrow> size_t \<Rightarrow> size_t res" where
  "vanilla_each xs [] found = Inr found"
| "vanilla_each xs (key # keys) found =
     bindE (vanilla_binary_search xs 0 (length xs) key) (\<lambda>hit. vanilla_each xs keys (if hit then found + 1 else found))"

definition test_vanilla :: "bench_state \<Rightarrow> size_t res" where
  "test_vanilla s = vanilla_each (dataset s) (lookups s) 0"

definition test_state_machine :: "bench_state \<Rightarrow> size_t res option" where
  "test_state_machine s = state_machine_multi_lookup (dataset s) (lookups s) (n_streams s)"

definition test_coro :: "bench_state \<Rightarrow> nat scheduler_queue \<Rightarrow> (size_t \<times> nat scheduler_queue) res option" where
  "test_coro s q =
     bind_run (coro_multi_lookup (dataset s) (lookups s) (n_streams s) q) (\<lambda>(found, asserted, q).
       Some (if asserted then Inr (found, q) else Inl AssertFailed))"

text \<open>The call through \<open>config.runner\<close>; the scheduler is a global of the program.\<close>

definition run_test ::
  "runner \<Rightarrow> bench_state \<Rightarrow> nat scheduler_queue \<Rightarrow> (size_t \<times> nat scheduler_queue) res option" where
  "run_test r s q =
     (case r of
        Test_Vanilla \<Rightarrow> Some (bindE (test_vanilla s) (\<lambda>n. Inr (n, q)))
      | Test_State_Machine \<Rightarrow> bind_run (test_state_machine s) (\<lambda>n. Some (Inr (n, q)))
      | Test_Coro \<Rightarrow> test_coro s q)"

fun repeat_runs :: "nat \<Rightarrow> runner \<Rightarrow> bench_state \<Rightarrow> nat scheduler_queue \<Rightarrow> size_t \<Rightarrow> size_t res option" where
  "repeat_runs 0 r s q successful_lookups = Some (Inr successful_lookups)"
| "repeat_runs (Suc i) r s q successful_lookups =
     bind_run (run_test r s q) (\<lambda>(n, q). repeat_runs i r s q (successful_lookups + n))"

subsection \<open>Arguments\<close>

record test_params =
  size_in_bytes :: size_t
  n_lookups :: size_t
  tp_repeat :: size_t

record test_config =
  config_valid :: bool
  params :: test_params
  config_streams :: size_t
  algo_name :: "string option"
  config_runner :: "runner option"

definition TestConfig_new :: test_config where
  "TestConfig_new = \<lparr>config_valid = False, params = \<lparr>size_in_bytes = 0, n_lookups = 0, tp_repeat = 0\<rparr>,
     config_streams = 0, algo_name = None, config_runner = None\<rparr>"

definition parse_algo :: "string \<Rightarrow> (string \<times> runner) option" where
  "parse_algo a =
     (if a = ''vanilla'' then Some (''vanilla'', Test_Vanilla)
      else if a = ''sm'' then Some (''state machine'', Test_State_Machine)
      else if a = ''coro'' then Some (''coroutine'', Test_Coro)
      else None)"

definition parse_size :: "string \<Rightarrow> test_params option" where
  "parse_size a =
     (if a = ''quick'' then Some \<lparr>size_in_bytes = 16 * 1024, n_lookups = 1024, tp_repeat = 1\<rparr>
      else if a = ''l1'' then Some \<lparr>size_in_bytes = 16 * 1024, n_lookups = 1024, tp_repeat = 10000\<rparr>
      else if a = ''l2'' then Some \<lparr>size_in_bytes = 200 * 1024, n_lookups = 1024 * 1024, tp_repeat = 50\<rparr>
      else if a = ''l3'' then Some \<lparr>size_in_bytes = 6 * 1024 * 1024, n_lookups = 1024 * 1024, tp_repeat = 50\<rparr>
      else if a = ''big'' then Some \<lparr>size_in_bytes = 256 * 1024 * 1024, n_lookups = 1024 * 1024, tp_repeat = 5\<rparr>
      else None)"

definition parse_args :: "string list \<Rightarrow> test_config res" where
  "parse_args argv =
     (if length argv \<noteq> 4 then Inr TestConfig_new
      else case parse_algo (argv ! 1) of
        None \<Rightarrow> Inr TestConfig_new
      | Some (name, r) \<Rightarrow>
          (let config = TestConfig_new\<lparr>algo_name := Some name, config_runner := Some r\<rparr>
           in case parse_size (argv ! 2) of
                None \<Rightarrow> Inr config
              | Some ps \<Rightarrow>
                  (let config = config\<lparr>params := ps\<rparr>
                   in bindE (atoi (argv ! 3)) (\<lambda>n.
                        if n < 1 then Inr config
                        else Inr (config\<lparr>config_streams := word_of_int n, config_valid := True\<rparr>)))))"

subsection \<open>The program\<close>

text \<open>The number that is printed, or \<open>None\<close> for \<open>EXIT_FAILURE\<close>.\<close>

definition manual_main :: "'g std_random \<Rightarrow> string list \<Rightarrow> size_t option res option" where
  "manual_main R argv =
     bind_run (Some (parse_args argv)) (\<lambda>config.
       if \<not> config_valid config then Some (Inr None)
       else case config_runner config of
         None \<Rightarrow> Some (Inl NullDeref)
       | Some r \<Rightarrow>
           bind_run (Some (State_new R (size_in_bytes (params config)) (n_lookups (params config))
               (tp_repeat (params config)))) (\<lambda>s.
             bind_run (repeat_runs (unat (n_repeat s)) r (start (config_streams config) s) scheduler_queue_init 0)
               (\<lambda>n. Some (Inr (Some n)))))"

subsection \<open>The data\<close>

lemma rng_loop_step:
  "rng_loop R 0 r = []"
  "n \<noteq> 0 \<Longrightarrow> rng_loop R n r = fst (rng_deref R r) # rng_loop R (n - 1) (snd (rng_deref R r))"
  by (subst rng_loop.simps, simp add: case_prod_beta)+

lemma length_rng_loop: "length (rng_loop R n r) = unat n"
proof (induction "unat n" arbitrary: n r)
  case 0
  then show ?case by (simp add: rng_loop_step unat_eq_zero)
next
  case (Suc k)
  then have "n \<noteq> 0" by auto
  then have "unat (n - 1) = k" using Suc.hyps(2) by (simp add: unat_pred_size)
  with Suc \<open>n \<noteq> 0\<close> show ?case by (simp add: rng_loop_step)
qed

lemma rng_loop_range:
  "documented_random R \<Longrightarrow> lower r \<le> upper r \<Longrightarrow> \<forall>x\<in>set (rng_loop R n r). lower r \<le> x \<and> x \<le> upper r"
proof (induction "unat n" arbitrary: n r)
  case 0
  then show ?case by (simp add: rng_loop_step unat_eq_zero)
next
  case (Suc k)
  then have "n \<noteq> 0" by auto
  then have "unat (n - 1) = k" using Suc.hyps(2) by (simp add: unat_pred_size)
  moreover have "lower r \<le> fst (rng_deref R r) \<and> fst (rng_deref R r) \<le> upper r"
    using Suc.prems by (simp add: documented_random_def rng_deref_def case_prod_beta)
  moreover have "lower (snd (rng_deref R r)) = lower r" "upper (snd (rng_deref R r)) = upper r"
    by (simp_all add: rng_deref_def case_prod_beta)
  ultimately show ?case
    using Suc.hyps(1) [of "n - 1" "snd (rng_deref R r)"] Suc.prems \<open>n \<noteq> 0\<close> by (simp add: rng_loop_step)
qed

definition evens :: "nat \<Rightarrow> int list" where
  "evens n = map (\<lambda>i. 2 * int i) [0 ..< n]"

lemma length_evens [simp]: "length (evens n) = n"
  by (simp add: evens_def)

lemma evens_sorted: "sorted (evens n)"
  by (simp add: evens_def sorted_map sorted_wrt_upt)

lemma set_evens: "x \<in> set (evens n) \<longleftrightarrow> even x \<and> 0 \<le> x \<and> x < 2 * int n"
proof
  assume "even x \<and> 0 \<le> x \<and> x < 2 * int n"
  then obtain y where "x = 2 * y" "0 \<le> y" "y < int n" by (auto elim!: evenE)
  then show "x \<in> set (evens n)" by (auto simp: evens_def intro!: image_eqI [of _ _ "nat y"])
qed (auto simp: evens_def)

lemma State_new_ok:
  assumes R: "documented_random R" and small: "unat bytes \<le> 2 ^ 28"
  shows "\<exists>s. State_new R bytes n rep = Inr s \<and> dataset s = evens (unat bytes div 4) \<and> length (lookups s) = unat n \<and>
     (\<forall>x\<in>set (lookups s). 0 \<le> x \<and> x \<le> 2 * int (unat bytes div 4)) \<and> n_repeat s = rep"
proof -
  have d: "unat (bytes div 4) = unat bytes div 4" by (simp add: unat_div)
  have two: "unat (of_nat i + of_nat i :: size_t) = 2 * i" if "i \<le> unat bytes div 4" for i
  proof -
    have "2 * i < 2 ^ 64" using that small by simp
    then show ?thesis using unat_of_nat_size [of "2 * i"] by (simp flip: mult_2)
  qed
  have "to_int (of_nat i + of_nat i) = 2 * int i" if "i \<le> unat bytes div 4" for i
    using two [OF that] to_int_small [of "of_nat i + of_nat i"] that small by simp
  then have ds: "map (\<lambda>i. to_int (of_nat i + of_nat i)) [0 ..< unat (bytes div 4)] = evens (unat bytes div 4)"
    by (simp add: evens_def d)
  have "of_nat (unat (bytes div 4)) = bytes div 4" by simp
  then have "bytes div 4 = of_nat (unat bytes div 4)" by (simp only: d)
  then have to: "to_int (bytes div 4 + bytes div 4) = 2 * int (unat bytes div 4)"
    using two [of "unat bytes div 4"] to_int_small [of "bytes div 4 + bytes div 4"] small by simp
  show ?thesis
    using rng_loop_range [OF R, of "\<lparr>rng_state = seeded R 0, lower = 0, upper = 2 * int (unat bytes div 4), rng_count = n\<rparr>" n]
    unfolding State_new_def Let_def ds to by (simp add: rng_new_def rng_all_def length_rng_loop)
qed

subsection \<open>The runs\<close>

lemma inv_room: "scheduler_queue_inv q \<Longrightarrow> sq_room q = 255"
  by (simp add: scheduler_queue_inv_def sq_room_def queue_room_def as_ring_def scheduler_queue_N_def)

lemma vanilla_each_ok:
  "sorted xs \<Longrightarrow> vanilla_each xs ks n = Inr (n + of_nat (length (filter (\<lambda>k. k \<in> set xs) ks)))"
proof (induction ks arbitrary: n)
  case (Cons k ks)
  have "vanilla_binary_search xs 0 (length xs) k = Inr (k \<in> set xs)"
    using vanilla_loop_sorted [OF Cons.prems, of 0 "int (length xs)" k]
    by (auto simp: vanilla_binary_search_def in_set_conv_nth)
  with Cons show ?case by (simp add: add.assoc)
qed simp

text \<open>A run of any of the three, with the scheduler idle before and after it.\<close>

definition idle :: "nat scheduler_queue \<Rightarrow> bool" where
  "idle q \<longleftrightarrow> scheduler_queue_inv q \<and> sq_pending q = []"

lemma run_test_ok:
  assumes "sorted (dataset s)" "length (dataset s) < 2 ^ 64" "1 \<le> n_streams s" "idle q"
    and "r = Test_Coro \<longrightarrow> unat (n_streams s) \<le> 255"
  shows "\<exists>q'. run_test r s q = Some (Inr (of_nat (length (filter (\<lambda>k. k \<in> set (dataset s)) (lookups s))), q')) \<and> idle q'"
proof (cases r)
  case Test_Vanilla
  then show ?thesis using vanilla_each_ok [OF assms(1)] assms(4) by (simp add: run_test_def test_vanilla_def)
next
  case Test_State_Machine
  moreover have "hit (dataset s) = (\<lambda>k. k \<in> set (dataset s))" using hit_sorted [OF assms(1)] by blast
  ultimately show ?thesis
    using multi_lookup_ok [OF assms(3,2), of "lookups s"] assms(4)
    by (simp add: run_test_def test_state_machine_def)
next
  case Test_Coro
  moreover have "hit (dataset s) = (\<lambda>k. k \<in> set (dataset s))" using hit_sorted [OF assms(1)] by blast
  moreover have "scheduler_queue_inv q" "sq_pending q = []" using assms(4) by (simp_all add: idle_def)
  ultimately show ?thesis
    using coro_multi_lookup_ok [of q "n_streams s" "dataset s" "lookups s"] assms(3,5) inv_room [of q]
    by (auto simp: run_test_def test_coro_def idle_def)
qed

lemma repeat_runs_ok:
  assumes "sorted (dataset s)" "length (dataset s) < 2 ^ 64" "1 \<le> n_streams s"
    and "r = Test_Coro \<longrightarrow> unat (n_streams s) \<le> 255"
  shows "idle q \<Longrightarrow> repeat_runs i r s q acc =
    Some (Inr (acc + of_nat (i * length (filter (\<lambda>k. k \<in> set (dataset s)) (lookups s)))))"
proof (induction i arbitrary: q acc)
  case (Suc i)
  from run_test_ok [OF assms(1,2,3) Suc.prems assms(4)] obtain q' where
    "run_test r s q = Some (Inr (of_nat (length (filter (\<lambda>k. k \<in> set (dataset s)) (lookups s))), q'))" "idle q'" by blast
  with Suc.IH show ?case by (simp add: algebra_simps)
qed simp

subsection \<open>The arguments\<close>

lemma parse_size_bound: "parse_size a = Some ps \<Longrightarrow> unat (size_in_bytes ps) \<le> 2 ^ 28"
  by (auto simp: parse_size_def split: if_splits)

lemma parse_args_valid:
  assumes "parse_args argv = Inr config" "config_valid config"
  shows "length argv = 4" "\<exists>name r. parse_algo (argv ! 1) = Some (name, r) \<and> config_runner config = Some r"
    "parse_size (argv ! 2) = Some (params config)" "1 \<le> config_streams config"
    "\<exists>n. atoi (argv ! 3) = Inr n \<and> 1 \<le> n \<and> config_streams config = word_of_int n"
proof -
  have one: "(1 :: size_t) \<le> word_of_int n" if "1 \<le> n" "n < 2 ^ 31" for n
    using that by (simp add: word_le_def take_bit_int_eq_self unsigned_of_int)
  from assms show "length argv = 4" "\<exists>name r. parse_algo (argv ! 1) = Some (name, r) \<and> config_runner config = Some r"
    "parse_size (argv ! 2) = Some (params config)"
    "\<exists>n. atoi (argv ! 3) = Inr n \<and> 1 \<le> n \<and> config_streams config = word_of_int n"
    by (auto simp: parse_args_def TestConfig_new_def Let_def bindE_Inr_iff split: if_splits option.splits)
  then obtain n where "atoi (argv ! 3) = Inr n" "1 \<le> n" "config_streams config = word_of_int n" by blast
  with one [of n] show "1 \<le> config_streams config" by (auto simp: atoi_def Let_def split: if_splits)
qed

subsection \<open>Properties\<close>


definition always_lowest :: "unit std_random" where
  "always_lowest = \<lparr>seeded = (\<lambda>_. ()), draw = (\<lambda>a b g. (a, g))\<rparr>"

lemma lowest_draws: "rng_loop always_lowest n r = replicate (unat n) (lower r)"
proof (induction "unat n" arbitrary: n r)
  case 0
  then show ?case by (simp add: rng_loop_step unat_eq_zero)
next
  case (Suc k)
  then have "n \<noteq> 0" by auto
  moreover from this have "unat (n - 1) = k" using Suc.hyps(2) by (simp add: unat_pred_size)
  ultimately show ?case
    using Suc.hyps(1) [of "n - 1" "snd (rng_deref always_lowest r)"] Suc.hyps(2)
    by (simp add: rng_loop_step rng_deref_def always_lowest_def flip: Suc.hyps(2))
qed


text \<open>Arguments that the program refuses.\<close>

lemma bad_arguments_fail:
  assumes "length argv \<noteq> 4 \<or> parse_algo (argv ! 1) = None \<or> parse_size (argv ! 2) = None \<or>
    (\<exists>n. atoi (argv ! 3) = Inr n \<and> n < 1)"
  shows "\<exists>x. manual_main R argv = Some x \<and> (\<forall>n. x \<noteq> Inr (Some n))"
  using assms by (auto simp: manual_main_def parse_args_def TestConfig_new_def Let_def split: option.splits)

end
