(* ===== verification/Map_Programs.thy ===== *)
theory Map_Programs
  imports Interleaved_Map Generator Numbers
begin

text \<open>
  Programs on the hash map: the two stress programs (stress_sequential.cpp, stress_interleaved.cpp), which
  put the map, the generator, the scheduler and the throttler together, and stats.cpp. They insert
  the numbers from 0 up as \<open>int\<close> keys, look some of them up, and check what they find with \<open>assert\<close>.
  \<open>std::hash<int>\<close> is an argument. What they print, besides the statistics, is not modelled.
\<close>

subsection \<open>The programs\<close>

definition MAP_MAX_CAPACITY :: size_t where
  "MAP_MAX_CAPACITY = push_bit 16 1"

text \<open>\<open>make_lookup_range\<close>: the state is the loop variable.\<close>

definition lookup_range :: "size_t \<Rightarrow> (size_t, int) gen_body" where
  "lookup_range n i = (if i < n then Yield (to_int i) (i + 1) else Finish)"

text \<open>The insertions, with and without the assertion that the map has taken the pair.\<close>

fun insert_asserted ::
  "(int \<Rightarrow> size_t) \<Rightarrow> nat list \<Rightarrow> (int, int) hmap \<Rightarrow> (int, int) hmap res" where
  "insert_asserted hasher [] m = Inr m"
| "insert_asserted hasher (i # is) m =
     bindE (insert_kv hasher (as_int i) (as_int i) m) (\<lambda>(m, r).
       if \<not> inserted r then Inl AssertFailed else insert_asserted hasher is m)"

fun insert_ints ::
  "(int \<Rightarrow> size_t) \<Rightarrow> nat list \<Rightarrow> (int, int) hmap \<Rightarrow> (int, int) hmap res" where
  "insert_ints hasher [] m = Inr m"
| "insert_ints hasher (i # is) m =
     bindE (insert_kv hasher (as_int i) (as_int i) m) (\<lambda>(m, r). insert_ints hasher is m)"

fun check_results :: "(int, int) lookup_result list \<Rightarrow> unit res" where
  "check_results [] = Inr ()"
| "check_results (r # rs) =
     (if \<not> lookup_bool r then Inl AssertFailed
      else bindE (lookup_get_key r) (\<lambda>k. bindE (lookup_get_value r) (\<lambda>v.
        if k \<noteq> v then Inl AssertFailed else check_results rs)))"

text \<open>
  The keys that the loop of a multi-lookup takes from the generator; the generator and the map share
  no state, so they are read before the lookups.
\<close>

definition keys_of_range ::
  "generator \<Rightarrow> size_t \<Rightarrow> (size_t, int) gen_store \<Rightarrow> (int list \<times> (size_t, int) gen_store) res option" where
  "keys_of_range g n st = accumulate_range (lookup_range n) (\<lambda>ks k. ks @ [k]) g [] st"

definition stress_sequential :: "(int \<Rightarrow> size_t) \<Rightarrow> size_t \<Rightarrow> size_t \<Rightarrow> stats_result res option" where
  "stress_sequential hasher n_inserts n_lookups =
     bind_run (Some (Map_new MAP_MAX_CAPACITY)) (\<lambda>map.
     bind_run (Some (insert_asserted hasher [0 ..< unat n_inserts] map)) (\<lambda>map.
     if count_items map \<noteq> n_inserts then Some (Inl AssertFailed)
     else let (lookups, st) = generator_new 0 0 Map.empty
          in bind_run (keys_of_range lookups n_lookups st) (\<lambda>(keys, st).
             bind_run (Some (sequential_multilookup hasher map keys)) (\<lambda>results.
             if of_nat (length results) \<noteq> n_lookups then Some (Inl AssertFailed)
             else bind_run (Some (check_results results)) (\<lambda>_.
                  bind_run (Some (stats map)) (\<lambda>stats.
                  bind_run (Some (generator_destroy lookups st)) (\<lambda>_. Some (Inr stats))))))))"

definition stress_interleaved :: "(int \<Rightarrow> size_t) \<Rightarrow> size_t \<Rightarrow> size_t \<Rightarrow> stats_result res option" where
  "stress_interleaved hasher n_inserts n_lookups =
     bind_run (Some (Map_new MAP_MAX_CAPACITY)) (\<lambda>map.
     let scheduler = static_queue_init 32
     in bind_run (Some (insert_ints hasher [0 ..< unat n_inserts] map)) (\<lambda>map.
        if count_items map \<noteq> n_inserts then Some (Inl AssertFailed)
        else let (lookups, st) = generator_new 0 0 Map.empty
             in bind_run (keys_of_range lookups n_lookups st) (\<lambda>(keys, st).
                bind_run (interleaved_multilookup hasher map scheduler 4 keys) (\<lambda>w.
                if of_nat (length (results w)) \<noteq> n_lookups then Some (Inl AssertFailed)
                else bind_run (Some (check_results (results w))) (\<lambda>_.
                     bind_run (Some (stats map)) (\<lambda>stats.
                     bind_run (Some (generator_destroy lookups st)) (\<lambda>_. Some (Inr stats))))))))"

text \<open>\<open>main\<close> of both: \<open>None\<close> is \<open>EXIT_FAILURE\<close> after the usage message.\<close>

definition stress_main ::
  "(size_t \<Rightarrow> size_t \<Rightarrow> stats_result res option) \<Rightarrow> string list \<Rightarrow> stats_result option res option" where
  "stress_main stress argv =
     (if length argv < 3 then Some (Inr None)
      else bind_run (Some (stoul (argv ! 1))) (\<lambda>n_inserts.
           bind_run (Some (stoul (argv ! 2))) (\<lambda>n_lookups.
           bind_run (stress n_inserts n_lookups) (\<lambda>s. Some (Inr (Some s))))))"

text \<open>stats.cpp: the statistics and the megabytes for each number of items.\<close>

definition perform_inserts_and_dump_stats :: "(int \<Rightarrow> size_t) \<Rightarrow> size_t \<Rightarrow> (stats_result \<times> size_t) res" where
  "perform_inserts_and_dump_stats hasher items =
     bindE (Map_new MAP_MAX_CAPACITY) (\<lambda>map.
     bindE (insert_ints hasher [0 ..< unat items] map) (\<lambda>map.
     bindE (stats map) (\<lambda>stats.
       Inr (stats, st_count stats * (4 * 2 + 8) div push_bit 20 1))))"

partial_function (option) stats_loop :: "(int \<Rightarrow> size_t) \<Rightarrow> size_t \<Rightarrow> (stats_result \<times> size_t) list res option" where
  "stats_loop hasher i =
     (if i \<le> push_bit 25 1
      then bind_run (Some (perform_inserts_and_dump_stats hasher i)) (\<lambda>s.
           bind_run (stats_loop hasher (push_bit 1 i)) (\<lambda>ss. Some (Inr (s # ss))))
      else Some (Inr []))"

definition stats_main :: "(int \<Rightarrow> size_t) \<Rightarrow> (stats_result \<times> size_t) list res option" where
  "stats_main hasher = stats_loop hasher (push_bit 16 1)"

subsection \<open>The map after the insertions\<close>

text \<open>The map holds exactly the first \<open>n\<close> numbers, each under itself, and needs no resizing.\<close>

definition holds_keys :: "(int \<Rightarrow> size_t) \<Rightarrow> nat \<Rightarrow> (int, int) hmap \<Rightarrow> bool" where
  "holds_keys hasher n m \<longleftrightarrow>
     hm_inv hasher m \<and> max_capacity m = MAP_MAX_CAPACITY \<and> \<not> resize_required m \<and>
     contents hasher m = (\<lambda>k. if k \<in> as_int ` {..<n} then Some k else None)"

lemma card_as_int: "card (as_int ` {..<n}) = min n (2 ^ 32)"
proof -
  have "as_int ` {..<n} = as_int ` {..< min n (2 ^ 32)}"
  proof (rule subset_antisym; rule subsetI)
    fix k assume "k \<in> as_int ` {..<n}"
    then obtain i where i: "i < n" "k = as_int i" by blast
    then have "as_int i = as_int (i mod 2 ^ 32)" unfolding as_int_eq_iff by simp
    moreover have "i mod 2 ^ 32 < min n (2 ^ 32)" using i(1) le_less_trans [OF mod_less_eq_dividend [of i "2 ^ 32"]] by simp
    ultimately show "k \<in> as_int ` {..< min n (2 ^ 32)}" using i by blast
  qed auto
  moreover have "inj_on as_int {..< min n (2 ^ 32)}"
    by (intro inj_onI) (simp only: as_int_eq_iff lessThan_iff min_less_iff_conj mod_less)
  ultimately show ?thesis by (simp only: card_image card_lessThan)
qed

lemma seen_iff: "as_int n \<in> as_int ` {..<n} \<longleftrightarrow> 2 ^ 32 \<le> n"
proof
  assume "as_int n \<in> as_int ` {..<n}"
  then obtain i where "i < n" "n mod 2 ^ 32 = i mod 2 ^ 32" by (auto simp only: as_int_eq_iff image_iff lessThan_iff)
  then show "2 ^ 32 \<le> n" by (metis mod_less not_le_imp_less less_trans less_irrefl)
next
  assume "2 ^ 32 \<le> n"
  then have "n - 2 ^ 32 < n" "as_int n = as_int (n - 2 ^ 32)" 
    unfolding as_int_eq_iff by (simp_all add: le_mod_geq)
  then show "as_int n \<in> as_int ` {..<n}" by blast
qed

lemma holds_keys_count:
  assumes "holds_keys hasher n m"
  shows "unat (n_items m) = min n (2 ^ 32)"
proof -
  have "dom (contents hasher m) = as_int ` {..<n}" using assms by (auto simp: holds_keys_def split: if_splits)
  then show ?thesis using assms card_contents [of hasher m] card_as_int [of n] by (simp add: holds_keys_def)
qed

text \<open>One doubling is enough after one insertion.\<close>

lemma resize_settles:
  fixes m m' :: "(int, int) hmap"
  assumes inv: "hm_inv hasher m" and mc: "max_capacity m = MAP_MAX_CAPACITY"
    and settled: "\<not> resize_required m" and small: "unat (n_items m) \<le> 2 ^ 32"
    and m': "n_items m' = n_items m + 1" "max_capacity m' = max_capacity m"
    and c': "capacity m' = (if resize_required (m\<lparr>n_items := n_items m + 1\<rparr>)
                            then push_bit 1 (capacity m) else capacity m)"
  shows "\<not> resize_required m'"
proof -
  let ?c = "unat (capacity m)" and ?n = "unat (n_items m)"
  have le: "?c \<le> 2 ^ 16" using inv mc by (simp add: hm_inv_def MAP_MAX_CAPACITY_def word_le_nat_alt)
  have pos: "0 < ?c" using inv by (auto simp: hm_inv_def)
  have n1: "unat (n_items m + 1) = ?n + 1" using small by (intro unat_Suc_size) simp
  have dbl: "2 * unat x \<le> 2 ^ 18 \<Longrightarrow> unat (push_bit 1 x) = 2 * unat x" for x :: size_t
    by (simp add: push_bit_eq_mult unat_word_ariths mult.commute)
  have req: "resize_required x \<longleftrightarrow>
      unat (capacity x) < 2 * unat (n_items x) \<and> 2 * unat (capacity x) \<le> 2 ^ 16"
    if "max_capacity x = MAP_MAX_CAPACITY" "0 < unat (capacity x)" "unat (capacity x) \<le> 2 ^ 17"
    for x :: "(int, int) hmap"
  proof -
    have "capacity x \<noteq> 0" using that(2) by auto
    moreover have "unat (push_bit 1 (capacity x)) = 2 * unat (capacity x)" using that(3) by (intro dbl) simp
    ultimately show ?thesis
      unfolding resize_required_def Let_def that(1) MAP_MAX_CAPACITY_def word_le_nat_alt
      by (simp add: load_factor_exceeded_iff)
  qed
  have "\<not> (?c < 2 * ?n \<and> 2 * ?c \<le> 2 ^ 16)" using settled req [of m] le pos mc by simp
  moreover have "unat (capacity m') = (if ?c < 2 * (?n + 1) \<and> 2 * ?c \<le> 2 ^ 16 then 2 * ?c else ?c)"
    using c' req [of "m\<lparr>n_items := n_items m + 1\<rparr>"] le pos mc n1 dbl [of "capacity m"] by (auto split: if_splits)
  ultimately show ?thesis
    using req [of m'] m' mc le pos n1 by (auto split: if_splits) arith
qed

lemma insert_step:
  assumes h: "holds_keys hasher n m"
  shows "\<exists>m' r. insert_kv hasher (as_int n) (as_int n) m = Inr (m', r) \<and>
    holds_keys hasher (Suc n) m' \<and> (inserted r \<longleftrightarrow> n < 2 ^ 32)"
proof -
  note inv = h [unfolded holds_keys_def]
  have n: "unat (n_items m) \<le> 2 ^ 32" using holds_keys_count [OF h] by simp
  obtain m' r where ins: "insert_kv hasher (as_int n) (as_int n) m = Inr (m', r)" "hm_inv hasher m'"
    and cases: "case contents hasher m (as_int n) of
              Some w \<Rightarrow> m' = m \<and> \<not> inserted r \<and> ins_value r = w
            | None \<Rightarrow> contents hasher m' = (contents hasher m)(as_int n \<mapsto> as_int n) \<and> inserted r \<and>
                ins_value r = as_int n \<and> n_items m' = n_items m + 1 \<and> max_capacity m' = max_capacity m \<and>
                capacity m' = (if resize_required (m\<lparr>n_items := n_items m + 1\<rparr>)
                               then push_bit 1 (capacity m) else capacity m)"
    using insert_kv_inv [of hasher m "as_int n" "as_int n"] inv n by auto
  have keys: "as_int ` {..< Suc n} = insert (as_int n) (as_int ` {..<n})" by (simp only: lessThan_Suc image_insert)
  have cm: "contents hasher m = (\<lambda>k. if k \<in> as_int ` {..<n} then Some k else None)" using inv by (elim conjE)
  show ?thesis
  proof (cases "as_int n \<in> as_int ` {..<n}")
    case True
    then have "as_int ` {..< Suc n} = as_int ` {..<n}" using keys by (simp only: insert_absorb)
    then have "holds_keys hasher (Suc n) m" using h unfolding holds_keys_def by simp
    moreover have "contents hasher m (as_int n) = Some (as_int n)" using True by (simp only: cm if_True)
    ultimately show ?thesis using ins cases True seen_iff [of n] by simp
  next
    case False
    then have c: "contents hasher m (as_int n) = None" using False by (simp only: cm if_False)
    note m' = cases [unfolded c option.case]
    have "\<not> resize_required m'"
      using m' inv n by (elim conjE) (rule resize_settles [of hasher m])
    moreover have "contents hasher m' = (\<lambda>k. if k \<in> as_int ` {..< Suc n} then Some k else None)"
      using conjunct1 [OF m'] unfolding keys by (simp only: cm) (simp add: fun_eq_iff)
    moreover have "max_capacity m' = MAP_MAX_CAPACITY" "inserted r" using m' inv by (elim conjE, simp only:)+
    ultimately show ?thesis
      using ins False seen_iff [of n] by (simp only: holds_keys_def) auto
  qed
qed

lemma insert_ints_holds:
  "i \<le> n \<Longrightarrow> holds_keys hasher i m \<Longrightarrow>
    \<exists>m'. insert_ints hasher [i ..< n] m = Inr m' \<and> holds_keys hasher n m'"
proof (induction i arbitrary: m rule: inc_induct)
  case (step i)
  obtain m' r where "insert_kv hasher (as_int i) (as_int i) m = Inr (m', r)" "holds_keys hasher (Suc i) m'"
    using insert_step [OF step.prems] by blast
  with step.IH [of m'] step.hyps show ?case by (auto simp: upt_conv_Cons)
qed simp

lemma insert_asserted_holds:
  "i \<le> n \<Longrightarrow> n \<le> 2 ^ 32 \<Longrightarrow> holds_keys hasher i m \<Longrightarrow>
    \<exists>m'. insert_asserted hasher [i ..< n] m = Inr m' \<and> holds_keys hasher n m'"
proof (induction i arbitrary: m rule: inc_induct)
  case (step i)
  obtain m' r where "insert_kv hasher (as_int i) (as_int i) m = Inr (m', r)" "holds_keys hasher (Suc i) m'"
    "inserted r \<longleftrightarrow> i < 2 ^ 32"
    using insert_step [OF step.prems(2)] by blast
  with step.IH [of m'] step.hyps step.prems(1) show ?case by (auto simp: upt_conv_Cons)
qed simp

lemma insert_asserted_fails:
  "i \<le> 2 ^ 32 \<Longrightarrow> 2 ^ 32 < n \<Longrightarrow> holds_keys hasher i m \<Longrightarrow>
    insert_asserted hasher [i ..< n] m = Inl AssertFailed"
proof (induction i arbitrary: m rule: inc_induct)
  case base
  obtain m' r where "insert_kv hasher (as_int (2 ^ 32)) (as_int (2 ^ 32)) m = Inr (m', r)" "\<not> inserted r"
    using insert_step [OF base(2)] by blast
  moreover have "[2 ^ 32 ..< n] = 2 ^ 32 # [Suc (2 ^ 32) ..< n]" using base(1) by (rule upt_conv_Cons)
  ultimately show ?case by (simp only: insert_asserted.simps bindE_simps prod.case if_True simp_thms)
next
  case (step i)
  obtain m' r where "insert_kv hasher (as_int i) (as_int i) m = Inr (m', r)" "holds_keys hasher (Suc i) m'"
    "inserted r \<longleftrightarrow> i < 2 ^ 32"
    using insert_step [OF step.prems(2)] by blast
  with step.IH [of m'] step.hyps step.prems(1) show ?case by (simp add: upt_conv_Cons)
qed

lemma map_starts:
  obtains m :: "(int, int) hmap" where "Map_new MAP_MAX_CAPACITY = Inr m" "holds_keys hasher 0 m"
proof -
  have two: "2 \<le> MAP_MAX_CAPACITY" by (simp add: MAP_MAX_CAPACITY_def)
  obtain m :: "(int, int) hmap" where m: "Map_new MAP_MAX_CAPACITY = Inr m" "hm_inv hasher m" "contents hasher m = Map.empty"
      "n_items m = 0" "max_capacity m = MAP_MAX_CAPACITY"
    using Map_new_inv [OF two, of hasher] by blast
  moreover have "\<not> resize_required m" using m(4) by (simp add: resize_required_def load_factor_exceeded_def)
  ultimately show thesis using that [of m] by (simp add: holds_keys_def)
qed

lemma asserted_is_unasserted:
  "insert_asserted hasher is m = Inr m' \<Longrightarrow> insert_ints hasher is m = Inr m'"
  by (induction "is" arbitrary: m) (auto simp: bindE_Inr_iff split: if_splits)

subsection \<open>The lookups\<close>

lemma lookup_range_produces:
  "produces (lookup_range n) i (map as_int [unat i ..< unat n]) None"
proof (induction "unat n - unat i" arbitrary: i)
  case 0
  then have "\<not> i < n" by (simp add: word_less_nat_alt)
  then show ?case using 0 by (auto simp: lookup_range_def intro: produces.finish)
next
  case (Suc d)
  then have lt: "i < n" by (simp add: word_less_nat_alt)
  then have i1: "unat (i + 1) = Suc (unat i)" proof -
    have "unat n < 2 ^ 64" by (rule order.strict_trans2 [OF unsigned_less]) simp
    then show ?thesis using lt by (subst unat_Suc_size) (simp_all add: word_less_nat_alt)
  qed
  have "produces (lookup_range n) (i + 1) (map as_int [unat (i + 1) ..< unat n]) None"
    using Suc i1 by (intro Suc.hyps(1)) simp
  moreover have "map as_int [unat i ..< unat n] = to_int i # map as_int [unat (i + 1) ..< unat n]"
    using lt i1 by (simp add: upt_conv_Cons word_less_nat_alt as_int_def)
  moreover have "lookup_range n i = Yield (to_int i) (i + 1)" using lt by (simp add: lookup_range_def)
  ultimately show ?case by (simp add: produces.yield)
qed

lemma foldl_snoc: "foldl (\<lambda>ks k. ks @ [k]) acc vs = acc @ vs"
  by (induction vs arbitrary: acc) simp_all

text \<open>The loop sees the first numbers; afterwards the frame can be destroyed.\<close>

lemma keys_of_range_eq:
  assumes "(lookups, st) = generator_new 0 0 Map.empty"
  shows "\<exists>st'. keys_of_range lookups n st = Some (Inr (map as_int [0 ..< unat n], st')) \<and>
    (\<exists>st''. generator_destroy lookups st' = Inr st'')"
proof -
  have "produces (lookup_range n) 0 (map as_int [0 ..< unat n]) None"
    using lookup_range_produces [of n 0] by simp
  from accumulate_produces [OF this assms, of "\<lambda>ks k. ks @ [k]" "[]"]
  obtain g' where "keys_of_range lookups n st = Some (Inr (map as_int [0 ..< unat n], st(0 \<mapsto> g')))"
    by (auto simp: keys_of_range_def foldl_snoc)
  moreover have "lookups = Some 0" using assms by (simp add: generator_new_def)
  ultimately show ?thesis by (auto simp: generator_destroy_def)
qed

lemma check_results_eq:
  "check_results rs =
     (if \<forall>r \<in> set rs. \<exists>e. r = Some e \<and> key e = val e then Inr () else Inl AssertFailed)"
proof (induction rs)
  case (Cons r rs)
  then show ?case by (cases r) (simp_all add: lookup_bool_def lookup_get_key_def lookup_get_value_def)
qed simp

lemma result_good_iff:
  assumes h: "holds_keys hasher n m"
  shows "(\<exists>e. lookup_fin hasher m (Created k) = Some e \<and> key e = val e) \<longleftrightarrow> k \<in> as_int ` {..<n}"
proof -
  have inv: "hm_inv hasher m" and c: "contents hasher m k = (if k \<in> as_int ` {..<n} then Some k else None)"
    using h by (simp_all add: holds_keys_def)
  have "lookup_kv hasher m k = Inr (lookup_fin hasher m (Created k))"
    using lookup_kv_eq [OF inv, of k] by (simp add: lookup_fin_def)
  then have "map_option val (lookup_fin hasher m (Created k)) = contents hasher m k"
    "\<forall>e. lookup_fin hasher m (Created k) = Some e \<longrightarrow> key e = k"
    using lookup_kv_contents [OF inv, of k] by auto
  then show ?thesis unfolding c by (cases "lookup_fin hasher m (Created k)") (auto split: if_splits)
qed

lemma all_found_iff:
  "(\<forall>i < k. as_int i \<in> as_int ` {..<n}) \<longleftrightarrow> k \<le> n \<or> 2 ^ 32 \<le> n"
proof
  assume all: "\<forall>i < k. as_int i \<in> as_int ` {..<n}"
  show "k \<le> n \<or> 2 ^ 32 \<le> n"
    using all [rule_format, of n] seen_iff [of n] by (cases "n < k") auto
next
  assume kn: "k \<le> n \<or> 2 ^ 32 \<le> n"
  show "\<forall>i < k. as_int i \<in> as_int ` {..<n}"
  proof (intro allI impI)
    fix i assume "i < k"
    show "as_int i \<in> as_int ` {..<n}"
    proof (cases "i < n")
      case False
      then have "i mod 2 ^ 32 < n" using kn \<open>i < k\<close> mod_less_divisor [of "2 ^ 32" i] by simp
      moreover have "as_int i = as_int (i mod 2 ^ 32)" unfolding as_int_eq_iff by simp
      ultimately show ?thesis by (simp only: image_eqI lessThan_iff)
    qed simp
  qed
qed

lemma check_of_lookups:
  assumes h: "holds_keys hasher n m"
    and rs: "mset rs = mset (map (\<lambda>k. lookup_fin hasher m (Created k)) (map as_int [0 ..< k]))"
  shows "check_results rs = (if k \<le> n \<or> 2 ^ 32 \<le> n then Inr () else Inl AssertFailed)"
proof -
  have "set rs = (\<lambda>i. lookup_fin hasher m (Created (as_int i))) ` {..<k}"
    using mset_eq_setD [OF rs] by (auto simp: atLeast0LessThan)
  then have "(\<forall>r \<in> set rs. \<exists>e. r = Some e \<and> key e = val e) \<longleftrightarrow> (\<forall>i < k. as_int i \<in> as_int ` {..<n})"
    using result_good_iff [OF h] by auto
  then show ?thesis unfolding check_results_eq all_found_iff by (rule arg_cong)
qed

subsection \<open>Properties\<close>

lemma statistics_after:
  assumes h: "holds_keys hasher n m"
  shows "\<exists>s. stats m = Inr s \<and> unat (st_count s) = min n (2 ^ 32) \<and> st_capacity s = capacity m \<and>
    unat (st_avg_bucket_depth s) = min n (2 ^ 32) div unat (capacity m)"
  using stats_inv [of hasher m] h holds_keys_count [OF h] by (auto simp: holds_keys_def)

lemma count_after:
  assumes "holds_keys hasher (unat n) m"
  shows "count_items m = n \<longleftrightarrow> unat n \<le> 2 ^ 32"
  using holds_keys_count [OF assms] by (auto simp: count_items_def word_unat_eq_iff)

definition stress_rest ::
  "(int \<Rightarrow> size_t) \<Rightarrow> size_t \<Rightarrow> size_t \<Rightarrow> (int, int) hmap \<Rightarrow> stats_result res" where
  "stress_rest hasher n k m = (if unat k \<le> unat n \<or> unat n = 2 ^ 32 then stats m else Inl AssertFailed)"

lemma stress_sequential_eq:
  assumes m: "Map_new MAP_MAX_CAPACITY = Inr m" and m': "insert_asserted hasher [0 ..< unat n] m = Inr m'"
    and h: "holds_keys hasher (unat n) m'" and n: "unat n \<le> 2 ^ 32"
  shows "stress_sequential hasher n k = Some (stress_rest hasher n k m')"
proof -
  obtain lookups st where g: "generator_new 0 0 Map.empty = (lookups, st :: (size_t, int) gen_store)"
    by (cases "generator_new 0 0 Map.empty :: generator \<times> (size_t, int) gen_store")
  obtain st' st'' where keys: "keys_of_range lookups k st = Some (Inr (map as_int [0 ..< unat k], st'))"
    and d: "generator_destroy lookups st' = Inr st''"
    using keys_of_range_eq [OF g [symmetric], of k] by blast
  define rs where "rs = map (\<lambda>k. lookup_fin hasher m' (Created k)) (map as_int [0 ..< unat k])"
  have inv: "hm_inv hasher m'" using h by (simp add: holds_keys_def)
  have chk: "check_results rs = (if unat k \<le> unat n \<or> unat n = 2 ^ 32 then Inr () else Inl AssertFailed)"
    using check_of_lookups [OF h, of rs "unat k"] n by (simp add: rs_def)
  have len: "of_nat (length rs) = k" by (simp add: rs_def)
  have sq: "sequential_multilookup hasher m' (map as_int [0 ..< unat k]) = Inr rs"
    unfolding rs_def by (rule sequential_multilookup_eq [OF inv])
  obtain s where s: "stats m' = Inr s" using stats_inv [OF inv] by blast
  show ?thesis
    unfolding stress_sequential_def stress_rest_def g
    using m m' keys d sq len chk s count_after [OF h] n by simp
qed

lemma stress_interleaved_eq:
  assumes m: "Map_new MAP_MAX_CAPACITY = Inr m" and m': "insert_ints hasher [0 ..< unat n] m = Inr m'"
    and h: "holds_keys hasher (unat n) m'"
  shows "stress_interleaved hasher n k =
    Some (if unat n \<le> 2 ^ 32 then stress_rest hasher n k m' else Inl AssertFailed)"
proof (cases "unat n \<le> 2 ^ 32")
  case True
  obtain lookups st where g: "generator_new 0 0 Map.empty = (lookups, st :: (size_t, int) gen_store)"
    by (cases "generator_new 0 0 Map.empty :: generator \<times> (size_t, int) gen_store")
  obtain st' st'' where keys: "keys_of_range lookups k st = Some (Inr (map as_int [0 ..< unat k], st'))"
    and d: "generator_destroy lookups st' = Inr st''"
    using keys_of_range_eq [OF g [symmetric], of k] by blast
  have inv: "hm_inv hasher m'" using h by (simp add: holds_keys_def)
  have q: "static_queue_inv (static_queue_init 32)" "pending (static_queue_init 32) = []"
    "(1 :: size_t) \<le> 4" "unat (4 :: size_t) \<le> queue_room (static_queue_init 32)"
    by (simp_all add: ring_simps)
  obtain w where w: "interleaved_multilookup hasher m' (static_queue_init 32) 4 (map as_int [0 ..< unat k]) = Some (Inr w)"
    and ms: "mset (results w) = mset (map (\<lambda>k. lookup_fin hasher m' (Created k)) (map as_int [0 ..< unat k]))"
    using map_engine.throttle_ok [OF q created_good [OF inv, of "map as_int [0 ..< unat k]"]]
      fin_created [of hasher m' "map as_int [0 ..< unat k]"]
    by (auto simp: interleaved_multilookup_def comp_def)
  have chk: "check_results (results w) = (if unat k \<le> unat n \<or> unat n = 2 ^ 32 then Inr () else Inl AssertFailed)"
    using check_of_lookups [OF h ms] True by simp
  have len: "of_nat (length (results w)) = k" using mset_eq_length [OF ms] by simp
  obtain s where s: "stats m' = Inr s" using stats_inv [OF inv] by blast
  show ?thesis
    unfolding stress_interleaved_def stress_rest_def g
    using m m' keys d w len chk s count_after [OF h] True by simp
next
  case False
  then show ?thesis
    using m m' count_after [OF h] by (simp add: stress_interleaved_def Let_def)
qed


text \<open>At the statistics the table has its largest size: it grew as long as it was too full.\<close>

lemma full_table:
  assumes h: "holds_keys hasher n m" and n: "2 ^ 16 \<le> n"
  shows "unat (capacity m) = 2 ^ 16"
proof -
  have c: "unat (capacity m) \<le> 2 ^ 16" "\<exists>e. unat (capacity m) = 2 ^ e" "capacity m \<noteq> 0" "\<not> resize_required m"
    "max_capacity m = MAP_MAX_CAPACITY"
    using h by (auto simp: holds_keys_def hm_inv_def MAP_MAX_CAPACITY_def word_le_nat_alt)
  have "unat (push_bit 1 (capacity m)) = 2 * unat (capacity m)"
    using c(1) by (simp add: push_bit_eq_mult unat_word_ariths mult.commute)
  moreover have "2 ^ 16 \<le> unat (n_items m)" using holds_keys_count [OF h] n by simp
  ultimately have "2 ^ 16 < 2 * unat (capacity m)"
    using c(1,3,4,5) load_factor_exceeded_iff [of "capacity m" "n_items m"]
    by (auto simp: resize_required_def MAP_MAX_CAPACITY_def word_le_nat_alt)
  moreover obtain e where e: "unat (capacity m) = 2 ^ e" using c(2) by blast
  ultimately have "(2::nat) ^ 16 < 2 ^ Suc e" "(2::nat) ^ e \<le> 2 ^ 16" using c(1) by simp_all
  then have "16 < Suc e" "e \<le> 16"
    using power_less_imp_less_exp [of "2::nat" 16 "Suc e"] power_le_imp_le_exp [of "2::nat" e 16] by simp_all
  then have "e = 16" by simp
  then show ?thesis using e by simp
qed

lemma perform_inserts_full:
  assumes "16 \<le> j" "j < 26"
  shows "\<exists>s mb. perform_inserts_and_dump_stats hasher (2 ^ j) = Inr (s, mb) \<and>
    unat (st_count s) = 2 ^ j \<and> unat (st_capacity s) = 2 ^ 16 \<and>
    unat (st_avg_bucket_depth s) = 2 ^ (j - 16) \<and> unat mb = 2 ^ (j - 16)"
proof -
  have j: "unat (2 ^ j :: size_t) = 2 ^ j" using unat_exp_size [of j] assms by simp
  have small: "(2::nat) ^ j < 2 ^ 26" using assms by (intro power_strict_increasing) simp_all
  have large: "(2::nat) ^ 16 \<le> 2 ^ j" using assms by (intro power_increasing) simp_all
  have split: "(2::nat) ^ j = 2 ^ 16 * 2 ^ (j - 16)" using assms by (simp only: power_add [symmetric]) simp
  obtain m where m: "Map_new MAP_MAX_CAPACITY = Inr m" "holds_keys hasher 0 m" by (rule map_starts)
  obtain m' where m': "insert_ints hasher [0 ..< 2 ^ j] m = Inr m'" "holds_keys hasher (2 ^ j) m'"
    using insert_ints_holds [OF _ m(2), of "2 ^ j"] by blast
  obtain s where s: "stats m' = Inr s" "unat (st_count s) = min (2 ^ j) (2 ^ 32)" "st_capacity s = capacity m'"
    "unat (st_avg_bucket_depth s) = min (2 ^ j) (2 ^ 32) div unat (capacity m')"
    using statistics_after [OF m'(2)] by blast
  have c: "unat (capacity m') = 2 ^ 16" by (rule full_table [OF m'(2) large])
  have min: "min (2 ^ j) (2 ^ 32) = (2 ^ j :: nat)" using small by simp
  have "unat (st_count s * (4 * 2 + 8)) = 2 ^ j * 16"
    using s(2) min small by (simp add: unat_word_ariths)
  then have "unat (st_count s * (4 * 2 + 8) div push_bit 20 1) = 2 ^ j * 16 div 2 ^ 20"
    by (simp add: unat_div)
  also have "\<dots> = 2 ^ (j - 16)" unfolding split by simp
  finally have mb: "unat (st_count s * (4 * 2 + 8) div push_bit 20 1) = 2 ^ (j - 16)" .
  have "2 ^ j div 2 ^ 16 = (2 ^ (j - 16) :: nat)" unfolding split by simp
  then show ?thesis
    using m(1) m'(1) s c min mb j by (simp add: perform_inserts_and_dump_stats_def)
qed

lemma stats_loop_full:
  assumes "j \<le> 26"
  shows "16 \<le> j \<Longrightarrow> \<exists>ss. stats_loop hasher (2 ^ j) = Some (Inr ss) \<and>
    map (\<lambda>(s, mb). (unat (st_count s), unat (st_capacity s), unat (st_avg_bucket_depth s), unat mb)) ss =
    map (\<lambda>j. (2 ^ j, 2 ^ 16, 2 ^ (j - 16), 2 ^ (j - 16))) [j ..< 26]"
  using assms
proof (induction j rule: inc_induct)
  case base
  then show ?case by (subst stats_loop.simps) simp
next
  case (step j)
  obtain s mb where p: "perform_inserts_and_dump_stats hasher (2 ^ j) = Inr (s, mb)" 
    "unat (st_count s) = 2 ^ j" "unat (st_capacity s) = 2 ^ 16"
    "unat (st_avg_bucket_depth s) = 2 ^ (j - 16)" "unat mb = 2 ^ (j - 16)"
    using perform_inserts_full [OF step.prems step.hyps(2)] by blast
  have "(2::nat) ^ j \<le> 2 ^ 25" using step.hyps by (intro power_increasing) simp_all
  then have le: "(2 :: size_t) ^ j \<le> push_bit 25 1"
  proof -
    have "unat (2 ^ j :: size_t) = 2 ^ j" using unat_exp_size [of j] step.hyps by simp
    moreover have "unat (push_bit 25 1 :: size_t) = 2 ^ 25" by simp
    ultimately show ?thesis using \<open>2 ^ j \<le> 2 ^ 25\<close> by (simp only: word_le_nat_alt)
  qed
  have dbl: "push_bit 1 (2 ^ j :: size_t) = 2 ^ Suc j" by (simp add: push_bit_eq_mult)
  have "16 \<le> Suc j" using step.prems by simp
  from step.IH [OF this] obtain ss where ss: "stats_loop hasher (2 ^ Suc j) = Some (Inr ss)"
    "map (\<lambda>(s, mb). (unat (st_count s), unat (st_capacity s), unat (st_avg_bucket_depth s), unat mb)) ss =
     map (\<lambda>j. (2 ^ j, 2 ^ 16, 2 ^ (j - 16), 2 ^ (j - 16))) [Suc j ..< 26]" by blast
  have "stats_loop hasher (2 ^ j) = Some (Inr ((s, mb) # ss))"
    by (subst stats_loop.simps, unfold dbl if_P [OF le] p(1) ss(1)) simp
  then show ?case using p ss(2) step.hyps by (simp add: upt_conv_Cons del: power_Suc)
qed

text \<open>
  C36. The statistics program, for any hash function: it ends after ten rounds; in round \<open>j\<close> it has counted
  \<open>2 ^ j\<close> items in a table of \<open>2 ^ 16\<close> buckets, the largest that is allowed, whose
  chains are \<open>2 ^ (j - 16)\<close> long on average, which is also the number of megabytes; no product wraps.
\<close>

theorem stats_program:
  "\<exists>ss. stats_main hasher = Some (Inr ss) \<and>
    map (\<lambda>(s, mb). (unat (st_count s), unat (st_capacity s), unat (st_avg_bucket_depth s), unat mb)) ss =
    map (\<lambda>j. (2 ^ j, 2 ^ 16, 2 ^ (j - 16), 2 ^ (j - 16))) [16 ..< 26]"
  using stats_loop_full [of 16 hasher] by (simp add: stats_main_def)

text \<open>On the command line: too few arguments, and a word for a number.\<close>

lemma stress_main_errors:
  "stress_main stress [''stress'', ''10''] = Some (Inr None)"
  "stress_main stress [''stress'', ''ten'', ''1''] = Some (Inl (RuntimeError ''invalid_argument''))"
  by (simp_all add: stress_main_def, code_simp)

end
