(* ===== verification/Eager_Task.thy ===== *)
theory Eager_Task
  imports Task
begin

text \<open>
  \<open>coro::eager_task<T>\<close> of libcoro/include/libcoro/eager_task.hpp, with what theory Task leaves out: the
  promise keeps the result in a union with a tag, constructs it there with placement new and destroys it
  through the tag, and task objects with their moves own the frames. The coroutine bodies are those
  of Task. Theorems: tag and union always agree, every frame has one owner, what is built in a promise is
  destroyed; up to the union the code behaves as \<open>task\<close> does.
\<close>

subsection \<open>The promise\<close>

text \<open>The anonymous union with the member that is alive in it, and the tag.\<close>

datatype 'v union_member = NoMember | ValueMember 'v | ExceptionMember string

datatype result_tag = RT_empty | RT_value | RT_exception

record 'v eager_promise =
  e_continuation :: "nat option"
  e_state :: bool
  e_tag :: result_tag
  e_union :: "'v union_member"

definition eager_promise_new :: "'v eager_promise" where
  "eager_promise_new = \<lparr>e_continuation = None, e_state = False, e_tag = RT_empty, e_union = NoMember\<rparr>"

definition eager_unhandled_exception :: "string \<Rightarrow> 'v eager_promise \<Rightarrow> 'v eager_promise" where
  "eager_unhandled_exception e p = p\<lparr>e_union := ExceptionMember e, e_tag := RT_exception\<rparr>"

definition eager_return_value :: "'v \<Rightarrow> 'v eager_promise \<Rightarrow> 'v eager_promise" where
  "eager_return_value v p = p\<lparr>e_union := ValueMember v, e_tag := RT_value\<rparr>"

text \<open>Reading or destroying a member that is not alive is undefined.\<close>

definition live_value :: "'v eager_promise \<Rightarrow> 'v res" where
  "live_value p = (case e_union p of ValueMember v \<Rightarrow> Inr v | _ \<Rightarrow> Inl WildPointer)"

definition live_exception :: "'v eager_promise \<Rightarrow> string res" where
  "live_exception p = (case e_union p of ExceptionMember e \<Rightarrow> Inr e | _ \<Rightarrow> Inl WildPointer)"

definition eager_result :: "'v eager_promise \<Rightarrow> 'v res" where
  "eager_result p =
     (if e_tag p = RT_exception then bindE (live_exception p) (\<lambda>e. Inl (RuntimeError e))
      else if e_tag p \<noteq> RT_value then Inl AssertFailed
      else live_value p)"

text \<open>The destructor; the result is the number of objects it has destroyed.\<close>

definition eager_promise_destroy :: "'v eager_promise \<Rightarrow> nat res" where
  "eager_promise_destroy p =
     (case e_tag p of
        RT_value \<Rightarrow> bindE (live_value p) (\<lambda>_. Inr 1)
      | RT_exception \<Rightarrow> bindE (live_exception p) (\<lambda>_. Inr 1)
      | RT_empty \<Rightarrow> Inr 0)"

text \<open>The promise of \<open>eager_task<void>\<close>: an \<open>exception_ptr\<close>, null at first.\<close>

record eager_promise_void =
  ev_continuation :: "nat option"
  ev_flag :: bool
  ev_exception :: "string option"

definition eager_void_unhandled :: "string \<Rightarrow> eager_promise_void \<Rightarrow> eager_promise_void" where
  "eager_void_unhandled e p = p\<lparr>ev_exception := Some e\<rparr>"

definition eager_void_result :: "eager_promise_void \<Rightarrow> unit res" where
  "eager_void_result p = (case ev_exception p of Some e \<Rightarrow> Inl (RuntimeError e) | None \<Rightarrow> Inr ())"

text \<open>The base class.\<close>

definition eager_try_set_continuation :: "nat \<Rightarrow> 'v eager_promise \<Rightarrow> 'v eager_promise \<times> bool" where
  "eager_try_set_continuation c p = (p\<lparr>e_continuation := Some c, e_state := True\<rparr>, \<not> e_state p)"

definition eager_final_suspend :: "'v eager_promise \<Rightarrow> ('v eager_promise \<times> nat option) res" where
  "eager_final_suspend p =
     (if e_state p
      then (case e_continuation p of None \<Rightarrow> Inl NullHandle | Some c \<Rightarrow> Inr (p\<lparr>e_state := True\<rparr>, Some c))
      else Inr (p\<lparr>e_state := True\<rparr>, None))"

subsection \<open>Frames and task objects\<close>

record ('s, 'v) eager_frame =
  e_body_state :: 's
  e_promise :: "'v eager_promise"
  e_done :: bool

text \<open>
  The frames by their handles, the task objects by their names, with the handle each holds, the
  number of objects built in promises and destroyed there, and the continuations that were resumed.
\<close>

record ('s, 'v) eager_world =
  e_frames :: "nat \<rightharpoonup> ('s, 'v) eager_frame"
  e_vars :: "nat \<rightharpoonup> nat option"
  e_built :: nat
  e_freed :: nat
  e_resumed :: "nat list"

definition eager_run_frame ::
  "('s, 'v) task_body \<Rightarrow> ('s, 'v) eager_frame \<Rightarrow> (('s, 'v) eager_frame \<times> nat option) res" where
  "eager_run_frame body f =
     (case body (e_body_state f) of
        TSuspend s \<Rightarrow> Inr (f\<lparr>e_body_state := s\<rparr>, None)
      | TReturn v \<Rightarrow> bindE (eager_final_suspend (eager_return_value v (e_promise f)))
          (\<lambda>(p, c). Inr (f\<lparr>e_promise := p, e_done := True\<rparr>, c))
      | TThrow e \<Rightarrow> bindE (eager_final_suspend (eager_unhandled_exception e (e_promise f)))
          (\<lambda>(p, c). Inr (f\<lparr>e_promise := p, e_done := True\<rparr>, c)))"

definition find_frame :: "nat \<Rightarrow> ('s, 'v) eager_world \<Rightarrow> ('s, 'v) eager_frame res" where
  "find_frame h w = (case e_frames w h of None \<Rightarrow> Inl DeadHandle | Some f \<Rightarrow> Inr f)"

text \<open>\<open>coro_handle.resume()\<close>: a run that ends the coroutine has built a result or an exception.\<close>

definition eager_resume_handle ::
  "('s, 'v) task_body \<Rightarrow> nat \<Rightarrow> ('s, 'v) eager_world \<Rightarrow> ('s, 'v) eager_world res" where
  "eager_resume_handle body h w =
     bindE (find_frame h w) (\<lambda>f.
       if e_done f then Inl DeadHandle
       else bindE (eager_run_frame body f) (\<lambda>(f, c).
         Inr (w\<lparr>e_frames := (e_frames w)(h \<mapsto> f),
                e_built := e_built w + (if e_done f then 1 else 0),
                e_resumed := e_resumed w @ (case c of None \<Rightarrow> [] | Some c \<Rightarrow> [c])\<rparr>)))"

text \<open>\<open>coro_handle.destroy()\<close>.\<close>

definition eager_destroy_handle :: "nat \<Rightarrow> ('s, 'v) eager_world \<Rightarrow> ('s, 'v) eager_world res" where
  "eager_destroy_handle h w =
     bindE (find_frame h w) (\<lambda>f.
       bindE (eager_promise_destroy (e_promise f)) (\<lambda>n.
         Inr (w\<lparr>e_frames := (e_frames w)(h := None), e_freed := e_freed w + n\<rparr>)))"

text \<open>A use of an object that is out of scope, which the language excludes, is \<open>NullDeref\<close>.\<close>

definition eager_var :: "nat \<Rightarrow> ('s, 'v) eager_world \<Rightarrow> nat option res" where
  "eager_var v w = (case e_vars w v of None \<Rightarrow> Inl NullDeref | Some t \<Rightarrow> Inr t)"

definition fresh_var :: "nat \<Rightarrow> ('s, 'v) eager_world \<Rightarrow> unit res" where
  "fresh_var v w = (if e_vars w v = None then Inr () else Inl NullDeref)"

definition set_var :: "nat \<Rightarrow> nat option \<Rightarrow> ('s, 'v) eager_world \<Rightarrow> ('s, 'v) eager_world" where
  "set_var v t w = w\<lparr>e_vars := (e_vars w)(v \<mapsto> t)\<rparr>"

text \<open>
  A call of the coroutine: the frame at the address \<open>h\<close> that the allocation returned, the task object
  of \<open>get_return_object\<close>, and the body at once, since \<open>initial_suspend\<close> does not suspend.
\<close>

definition eager_call ::
  "('s, 'v) task_body \<Rightarrow> nat \<Rightarrow> nat \<Rightarrow> 's \<Rightarrow> ('s, 'v) eager_world \<Rightarrow> ('s, 'v) eager_world res" where
  "eager_call body v h s w =
     bindE (fresh_var v w) (\<lambda>_.
       if e_frames w h \<noteq> None then Inl BadAlloc
       else eager_resume_handle body h
              (set_var v (Some h) (w\<lparr>e_frames := (e_frames w)(h \<mapsto>
                 \<lparr>e_body_state = s, e_promise = eager_promise_new, e_done = False\<rparr>)\<rparr>)))"

definition eager_default :: "nat \<Rightarrow> ('s, 'v) eager_world \<Rightarrow> ('s, 'v) eager_world res" where
  "eager_default v w = bindE (fresh_var v w) (\<lambda>_. Inr (set_var v None w))"

definition eager_drop :: "nat option \<Rightarrow> ('s, 'v) eager_world \<Rightarrow> ('s, 'v) eager_world res" where
  "eager_drop t w = (case t of None \<Rightarrow> Inr w | Some h \<Rightarrow> eager_destroy_handle h w)"

definition eager_dtor :: "nat \<Rightarrow> ('s, 'v) eager_world \<Rightarrow> ('s, 'v) eager_world res" where
  "eager_dtor v w =
     bindE (eager_var v w) (\<lambda>t. bindE (eager_drop t w) (\<lambda>w. Inr (w\<lparr>e_vars := (e_vars w)(v := None)\<rparr>)))"

definition eager_move :: "nat \<Rightarrow> nat \<Rightarrow> ('s, 'v) eager_world \<Rightarrow> ('s, 'v) eager_world res" where
  "eager_move v t w =
     bindE (fresh_var v w) (\<lambda>_. bindE (eager_var t w) (\<lambda>h. Inr (set_var t None (set_var v h w))))"

definition eager_assign :: "nat \<Rightarrow> nat \<Rightarrow> ('s, 'v) eager_world \<Rightarrow> ('s, 'v) eager_world res" where
  "eager_assign v t w =
     bindE (eager_var v w) (\<lambda>this. bindE (eager_var t w) (\<lambda>other.
       if t \<noteq> v then bindE (eager_drop this w) (\<lambda>w. Inr (set_var t None (set_var v other w)))
       else Inr w))"

definition eager_is_ready :: "nat option \<Rightarrow> ('s, 'v) eager_world \<Rightarrow> bool res" where
  "eager_is_ready t w =
     (case t of None \<Rightarrow> Inr True | Some h \<Rightarrow> bindE (find_frame h w) (\<lambda>f. Inr (e_done f)))"

text \<open>\<open>await_suspend\<close> by the coroutine \<open>c\<close>, and \<open>co_await\<close> up to there: whether \<open>c\<close> suspends.\<close>

definition eager_await_suspend ::
  "('s, 'v) task_body \<Rightarrow> nat \<Rightarrow> nat \<Rightarrow> ('s, 'v) eager_world \<Rightarrow> (('s, 'v) eager_world \<times> bool) res" where
  "eager_await_suspend body h c w =
     bindE (eager_resume_handle body h w) (\<lambda>w.
       bindE (find_frame h w) (\<lambda>f.
         let (p, suspend) = eager_try_set_continuation c (e_promise f)
         in Inr (w\<lparr>e_frames := (e_frames w)(h \<mapsto> f\<lparr>e_promise := p\<rparr>)\<rparr>, suspend)))"

definition eager_await ::
  "('s, 'v) task_body \<Rightarrow> nat \<Rightarrow> nat \<Rightarrow> ('s, 'v) eager_world \<Rightarrow> (('s, 'v) eager_world \<times> bool) res" where
  "eager_await body v c w =
     bindE (eager_var v w) (\<lambda>t. bindE (eager_is_ready t w) (\<lambda>ready.
       case t of
         Some h \<Rightarrow> if ready then Inr (w, False) else eager_await_suspend body h c w
       | None \<Rightarrow> Inr (w, False)))"

definition eager_await_resume :: "nat option \<Rightarrow> ('s, 'v) eager_world \<Rightarrow> 'v res" where
  "eager_await_resume t w =
     (case t of
        None \<Rightarrow> Inl (RuntimeError ''broken promise'')
      | Some h \<Rightarrow> bindE (find_frame h w) (\<lambda>f. eager_result (e_promise f)))"

definition eager_resume ::
  "('s, 'v) task_body \<Rightarrow> nat \<Rightarrow> ('s, 'v) eager_world \<Rightarrow> (('s, 'v) eager_world \<times> bool) res" where
  "eager_resume body v w =
     bindE (eager_var v w) (\<lambda>t.
       case t of
         None \<Rightarrow> Inl NullHandle
       | Some h \<Rightarrow>
           bindE (find_frame h w) (\<lambda>f.
             bindE (if \<not> e_done f then eager_resume_handle body h w else Inr w) (\<lambda>w.
               bindE (find_frame h w) (\<lambda>f. Inr (w, \<not> e_done f)))))"

subsection \<open>Histories\<close>

text \<open>
  What a program does with task objects: calls, constructions, moves, destruction, resumption through the
  object or, by whoever holds its handle, directly, and the two ends of a \<open>co_await\<close>.
\<close>

datatype 's eager_op =
    ECall nat nat 's | EDefault nat | EMove nat nat | EAssign nat nat | EDestroy nat
  | EResume nat | EWake nat | EAwait nat nat | EAwaitResume nat

fun eager_step :: "('s, 'v) task_body \<Rightarrow> 's eager_op \<Rightarrow> ('s, 'v) eager_world \<Rightarrow> ('s, 'v) eager_world res" where
  "eager_step body (ECall v h s) w = eager_call body v h s w"
| "eager_step body (EDefault v) w = eager_default v w"
| "eager_step body (EMove v t) w = eager_move v t w"
| "eager_step body (EAssign v t) w = eager_assign v t w"
| "eager_step body (EDestroy v) w = eager_dtor v w"
| "eager_step body (EResume v) w = bindE (eager_resume body v w) (\<lambda>(w, _). Inr w)"
| "eager_step body (EWake h) w = eager_resume_handle body h w"
| "eager_step body (EAwait v c) w = bindE (eager_await body v c w) (\<lambda>(w, _). Inr w)"
| "eager_step body (EAwaitResume v) w =
     bindE (eager_var v w) (\<lambda>t. bindE (eager_await_resume t w) (\<lambda>_. Inr w))"

fun eager_history ::
  "('s, 'v) task_body \<Rightarrow> 's eager_op list \<Rightarrow> ('s, 'v) eager_world \<Rightarrow> ('s, 'v) eager_world res" where
  "eager_history body [] w = Inr w"
| "eager_history body (op # ops) w = bindE (eager_step body op w) (eager_history body ops)"

definition eager_start :: "('s, 'v) eager_world" where
  "eager_start = \<lparr>e_frames = Map.empty, e_vars = Map.empty, e_built = 0, e_freed = 0, e_resumed = []\<rparr>"

subsection \<open>Types\<close>

definition typed_promise :: "bool \<Rightarrow> 'v eager_promise \<Rightarrow> bool" where
  "typed_promise fin p \<longleftrightarrow>
     (case e_union p of
        NoMember \<Rightarrow> e_tag p = RT_empty \<and> \<not> fin
      | ValueMember v \<Rightarrow> e_tag p = RT_value \<and> fin
      | ExceptionMember e \<Rightarrow> e_tag p = RT_exception \<and> fin) \<and>
     (e_state p \<and> \<not> fin \<longrightarrow> e_continuation p \<noteq> None)"

definition typed_frame :: "('s, 'v) eager_frame \<Rightarrow> bool" where
  "typed_frame f \<longleftrightarrow> typed_promise (e_done f) (e_promise f)"

text \<open>Every frame is typed, and the objects in them are those that were built and not destroyed.\<close>

definition frames_typed :: "('s, 'v) eager_world \<Rightarrow> bool" where
  "frames_typed w \<longleftrightarrow> (\<forall>h f. e_frames w h = Some f \<longrightarrow> typed_frame f) \<and> finite (dom (e_frames w)) \<and>
     e_built w = e_freed w + card {h \<in> dom (e_frames w). e_done (the (e_frames w h))}"

text \<open>Every frame has exactly one owner, and no task object holds a dead handle.\<close>

definition owners :: "(nat \<rightharpoonup> nat option) \<Rightarrow> (nat \<rightharpoonup> 'f) \<Rightarrow> bool" where
  "owners vars frames \<longleftrightarrow> (\<forall>h. frames h \<noteq> None \<longleftrightarrow> (\<exists>v. vars v = Some (Some h))) \<and>
     (\<forall>v v' h. vars v = Some (Some h) \<longrightarrow> vars v' = Some (Some h) \<longrightarrow> v = v')"

definition frames_owned :: "('s, 'v) eager_world \<Rightarrow> bool" where
  "frames_owned w \<longleftrightarrow> owners (e_vars w) (e_frames w)"

text \<open>The rule of sequencing for runs that do not touch a dead member of a union.\<close>

definition safe :: "('a \<Rightarrow> bool) \<Rightarrow> 'a res \<Rightarrow> bool" where
  "safe P r \<longleftrightarrow> (case r of Inl e \<Rightarrow> e \<noteq> WildPointer | Inr a \<Rightarrow> P a)"

lemma safe_simps [simp]:
  "safe P (Inr a) \<longleftrightarrow> P a"
  "safe P (Inl e) \<longleftrightarrow> e \<noteq> WildPointer"
  by (simp_all add: safe_def)

lemma safe_bind:
  "safe Q r \<Longrightarrow> (\<And>a. r = Inr a \<Longrightarrow> Q a \<Longrightarrow> safe P (f a)) \<Longrightarrow> safe P (bindE r f)"
  by (cases r) simp_all

lemma safe_mono: "safe Q r \<Longrightarrow> (\<And>a. Q a \<Longrightarrow> P a) \<Longrightarrow> safe P r"
  by (cases r) simp_all

lemma find_frame_safe: "safe (\<lambda>f. e_frames w h = Some f) (find_frame h w)"
  by (simp add: find_frame_def split: option.split)

lemma eager_var_safe: "safe (\<lambda>t. e_vars w v = Some t) (eager_var v w)"
  by (simp add: eager_var_def split: option.split)

lemma fresh_var_safe: "safe (\<lambda>_. e_vars w v = None) (fresh_var v w)"
  by (simp add: fresh_var_def)

lemma run_frame_safe:
  assumes "typed_frame f" "\<not> e_done f"
  shows "safe (\<lambda>(f', c). typed_frame f') (eager_run_frame body f)"
  using assms
  by (auto simp: eager_run_frame_def typed_frame_def typed_promise_def eager_final_suspend_def
      eager_return_value_def eager_unhandled_exception_def split: task_progress.split union_member.splits)

lemma result_safe: "typed_promise fin p \<Longrightarrow> safe (\<lambda>_. True) (eager_result p)"
  by (auto simp: typed_promise_def eager_result_def live_value_def live_exception_def split: union_member.splits)

lemma promise_destroy_safe:
  "typed_promise fin p \<Longrightarrow> safe (\<lambda>n. n = (if fin then 1 else 0)) (eager_promise_destroy p)"
  by (auto simp: typed_promise_def eager_promise_destroy_def live_value_def live_exception_def split: union_member.splits)

text \<open>Writing one frame changes the balance by what it does to that frame.\<close>

lemma done_update:
  assumes "finite (dom m)"
  shows "card {h' \<in> dom (m(h \<mapsto> f)). e_done (the ((m(h \<mapsto> f)) h'))} + (case m h of Some g \<Rightarrow> if e_done g then 1 else 0 | None \<Rightarrow> 0)
    = card {h' \<in> dom m. e_done (the (m h'))} + (if e_done f then 1 else 0)"
    and "card {h' \<in> dom (m(h := None)). e_done (the ((m(h := None)) h'))} + (case m h of Some g \<Rightarrow> if e_done g then 1 else 0 | None \<Rightarrow> 0)
    = card {h' \<in> dom m. e_done (the (m h'))}"
proof -
  let ?D = "\<lambda>m. {h' \<in> dom m. e_done (the (m h'))}"
  have fin: "finite (?D m)" using assms by simp
  have up: "?D (m(h \<mapsto> f)) = (if e_done f then insert h (?D m - {h}) else ?D m - {h})" by auto
  have del: "?D (m(h := None)) = ?D m - {h}" by auto
  have mem: "h \<in> ?D m \<longleftrightarrow> (case m h of Some g \<Rightarrow> e_done g | None \<Rightarrow> False)" by (auto split: option.splits)
  have out: "card (?D m - {h}) + (case m h of Some g \<Rightarrow> if e_done g then 1 else 0 | None \<Rightarrow> 0) = card (?D m)"
    using mem fin card_Suc_Diff1 [OF fin, of h] by (cases "h \<in> ?D m") (auto split: option.splits)
  show "card (?D (m(h := None))) + (case m h of Some g \<Rightarrow> if e_done g then 1 else 0 | None \<Rightarrow> 0) = card (?D m)"
    unfolding del by (rule out)
  show "card (?D (m(h \<mapsto> f))) + (case m h of Some g \<Rightarrow> if e_done g then 1 else 0 | None \<Rightarrow> 0) = card (?D m) + (if e_done f then 1 else 0)"
    unfolding up using out fin by (simp del: insert_Diff_single split: if_splits)
qed

text \<open>What the operations on one handle do to frames and owners.\<close>

lemma new_frame_typed: "typed_frame \<lparr>e_body_state = s, e_promise = eager_promise_new, e_done = False\<rparr>"
  by (simp add: typed_frame_def typed_promise_def eager_promise_new_def)

lemma put_frame_typed:
  assumes "frames_typed w" "e_frames w h = Some g" "e_done g = e_done f" "typed_frame f"
  shows "frames_typed (w\<lparr>e_frames := (e_frames w)(h \<mapsto> f)\<rparr>)"
  using assms done_update(1) [of "e_frames w" h f] by (auto simp: frames_typed_def)

lemma resume_handle_safe:
  fixes w :: "('s, 'v) eager_world"
  assumes "frames_typed w"
  shows "safe (\<lambda>w'. frames_typed w' \<and> e_vars w' = e_vars w \<and>
      (\<forall>h'. e_frames w' h' = None \<longleftrightarrow> e_frames w h' = None)) (eager_resume_handle body h w)"
  unfolding eager_resume_handle_def
proof (rule safe_bind [OF find_frame_safe])
  fix f assume f: "e_frames w h = Some f"
  have tf: "typed_frame f" using assms f by (simp add: frames_typed_def)
  show "safe (\<lambda>w'. frames_typed w' \<and> e_vars w' = e_vars w \<and> (\<forall>h'. e_frames w' h' = None \<longleftrightarrow> e_frames w h' = None))
     (if e_done f then Inl DeadHandle
       else bindE (eager_run_frame body f) (\<lambda>(f, c).
         Inr (w\<lparr>e_frames := (e_frames w)(h \<mapsto> f),
                e_built := e_built w + (if e_done f then 1 else 0),
                e_resumed := e_resumed w @ (case c of None \<Rightarrow> [] | Some c \<Rightarrow> [c])\<rparr>)))"
  proof (cases "e_done f")
    case False
    show ?thesis
      unfolding if_not_P [OF False]
    proof (rule safe_bind [OF run_frame_safe [OF tf False]], clarify)
      fix f' :: "('s, 'v) eager_frame" and c assume "typed_frame f'"
      then show "safe (\<lambda>w'. frames_typed w' \<and> e_vars w' = e_vars w \<and>
          (\<forall>h'. e_frames w' h' = None \<longleftrightarrow> e_frames w h' = None))
         (Inr (w\<lparr>e_frames := (e_frames w)(h \<mapsto> f'), e_built := e_built w + (if e_done f' then 1 else 0),
                e_resumed := e_resumed w @ (case c of None \<Rightarrow> [] | Some c \<Rightarrow> [c])\<rparr>))"
        using assms f False done_update(1) [of "e_frames w" h f'] by (auto simp: frames_typed_def)
    qed
  qed simp
qed

lemma destroy_handle_safe:
  assumes "frames_typed w"
  shows "safe (\<lambda>w'. frames_typed w' \<and> e_vars w' = e_vars w \<and> e_frames w' = (e_frames w)(h := None))
    (eager_destroy_handle h w)"
  unfolding eager_destroy_handle_def
proof (rule safe_bind [OF find_frame_safe])
  fix f assume f: "e_frames w h = Some f"
  then have "typed_promise (e_done f) (e_promise f)" using assms by (simp add: frames_typed_def typed_frame_def)
  from promise_destroy_safe [OF this]
  show "safe (\<lambda>w'. frames_typed w' \<and> e_vars w' = e_vars w \<and> e_frames w' = (e_frames w)(h := None))
     (bindE (eager_promise_destroy (e_promise f))
       (\<lambda>n. Inr (w\<lparr>e_frames := (e_frames w)(h := None), e_freed := e_freed w + n\<rparr>)))"
    by (rule safe_bind) (use assms f done_update(2) [of "e_frames w" h] in \<open>auto simp: frames_typed_def\<close>)
qed

lemma drop_safe:
  assumes "frames_typed w"
  shows "safe (\<lambda>w'. frames_typed w' \<and> e_vars w' = e_vars w \<and>
      e_frames w' = (case t of None \<Rightarrow> e_frames w | Some h \<Rightarrow> (e_frames w)(h := None))) (eager_drop t w)"
  using assms destroy_handle_safe [OF assms] by (cases t) (simp_all add: eager_drop_def)

text \<open>Changes of owners.\<close>

lemma ex_upd: "(\<exists>a. (m(b := y)) a = x) \<longleftrightarrow> y = x \<or> (\<exists>a. a \<noteq> b \<and> m a = x)"
  by (metis fun_upd_apply)

lemma owners_add: "owners V F \<Longrightarrow> V v = None \<Longrightarrow> F h = None \<Longrightarrow> owners (V(v \<mapsto> Some h)) (F(h \<mapsto> f))"
  unfolding owners_def ex_upd by (auto; metis option.distinct(1))

lemma owners_default: "owners V F \<Longrightarrow> V v = None \<Longrightarrow> owners (V(v \<mapsto> None)) F"
  unfolding owners_def ex_upd by (auto; metis option.distinct(1))

lemma owners_drop: "owners V F \<Longrightarrow> V v = Some t \<Longrightarrow>
    owners (V(v := None)) (case t of None \<Rightarrow> F | Some h \<Rightarrow> F(h := None))"
  unfolding owners_def ex_upd by (cases t) (auto; metis option.distinct(1) option.inject)+

lemma owners_move: "owners V F \<Longrightarrow> V v = None \<Longrightarrow> V t = Some h \<Longrightarrow> owners (V(v \<mapsto> h, t \<mapsto> None)) F"
  unfolding owners_def ex_upd by (auto; metis option.distinct(1) option.inject)

lemma owners_assign: "owners V F \<Longrightarrow> V v = Some this \<Longrightarrow> V t = Some other \<Longrightarrow> t \<noteq> v \<Longrightarrow>
    owners (V(v \<mapsto> other, t \<mapsto> None)) (case this of None \<Rightarrow> F | Some h \<Rightarrow> F(h := None))"
  using owners_move [OF owners_drop [of V F v this], of v t other] by simp

lemma frames_typed_vars [simp]: "frames_typed (w\<lparr>e_vars := V\<rparr>) \<longleftrightarrow> frames_typed w"
  by (simp add: frames_typed_def)

text \<open>The operations keep types and owners.\<close>

abbreviation eager_ok :: "('s, 'v) eager_world \<Rightarrow> bool" where
  "eager_ok w \<equiv> frames_typed w \<and> frames_owned w"

lemma owned_same:
  "frames_owned w \<Longrightarrow> e_vars w' = e_vars w \<Longrightarrow> (\<forall>h. e_frames w' h = None \<longleftrightarrow> e_frames w h = None) \<Longrightarrow> frames_owned w'"
  by (simp add: frames_owned_def owners_def)

lemma eager_resume_ok: "eager_ok w \<Longrightarrow> safe (\<lambda>w'. eager_ok w' \<and> (\<forall>h. e_frames w' h = None \<longleftrightarrow> e_frames w h = None)) (eager_resume_handle body h w)"
  by (rule safe_mono [OF resume_handle_safe]) (auto intro: owned_same)

lemma call_ok:
  assumes "eager_ok w"
  shows "safe eager_ok (eager_call body v h s w)"
  unfolding eager_call_def
proof (rule safe_bind [OF fresh_var_safe])
  assume v: "e_vars w v = None"
  let ?f = "\<lparr>e_body_state = s, e_promise = eager_promise_new, e_done = False\<rparr>"
  let ?w = "set_var v (Some h) (w\<lparr>e_frames := (e_frames w)(h \<mapsto> ?f)\<rparr>)"
  have "eager_ok ?w" if "e_frames w h = None"
    using assms v that new_frame_typed [of s] done_update(1) [of "e_frames w" h ?f]
    by (auto simp: frames_typed_def frames_owned_def set_var_def split: if_splits intro!: owners_add)
  then show "safe eager_ok (if e_frames w h \<noteq> None then Inl BadAlloc else eager_resume_handle body h ?w)"
    by (auto intro: safe_mono [OF eager_resume_ok])
qed

lemma dtor_ok:
  assumes "eager_ok w"
  shows "safe eager_ok (eager_dtor v w)"
  unfolding eager_dtor_def
proof (rule safe_bind [OF eager_var_safe])
  fix t assume t: "e_vars w v = Some t"
  show "safe eager_ok (bindE (eager_drop t w) (\<lambda>w. Inr (w\<lparr>e_vars := (e_vars w)(v := None)\<rparr>)))"
  proof (rule safe_bind [OF drop_safe], goal_cases)
    case 1 show ?case using assms by simp
  next
    case (2 w')
    with assms t owners_drop [of "e_vars w" "e_frames w" v t] show ?case
      by (simp add: frames_owned_def)
  qed
qed

lemma move_ok:
  assumes "eager_ok w"
  shows "safe eager_ok (eager_move v t w)"
  unfolding eager_move_def
proof (rule safe_bind [OF fresh_var_safe], rule safe_bind [OF eager_var_safe])
  fix h assume "e_vars w v = None" "e_vars w t = Some h"
  with assms show "safe eager_ok (Inr (set_var t None (set_var v h w)))"
    by (auto simp: frames_typed_def frames_owned_def set_var_def intro!: owners_move)
qed

lemma default_ok:
  assumes "eager_ok w"
  shows "safe eager_ok (eager_default v w)"
  unfolding eager_default_def
  by (rule safe_bind [OF fresh_var_safe])
    (use assms in \<open>auto simp: frames_typed_def frames_owned_def set_var_def intro!: owners_default\<close>)

lemma assign_ok:
  assumes "eager_ok w"
  shows "safe eager_ok (eager_assign v t w)"
  unfolding eager_assign_def
proof (rule safe_bind [OF eager_var_safe], rule safe_bind [OF eager_var_safe])
  fix this other assume v: "e_vars w v = Some this" "e_vars w t = Some other"
  show "safe eager_ok (if t \<noteq> v then bindE (eager_drop this w) (\<lambda>w. Inr (set_var t None (set_var v other w))) else Inr w)"
  proof (cases "t = v")
    case False
    have "safe eager_ok (bindE (eager_drop this w) (\<lambda>w. Inr (set_var t None (set_var v other w))))"
    proof (rule safe_bind [OF drop_safe], goal_cases)
      case 1 show ?case using assms by simp
    next
      case (2 w')
      with assms v False owners_assign [of "e_vars w" "e_frames w" v this t other] show ?case
        by (simp add: frames_owned_def set_var_def)
    qed
    with False show ?thesis by simp
  qed (use assms in simp)
qed

lemma is_ready_safe: "safe (\<lambda>r. \<forall>h. t = Some h \<longrightarrow> (\<exists>f. e_frames w h = Some f \<and> (r \<longleftrightarrow> e_done f))) (eager_is_ready t w)"
  by (auto simp: eager_is_ready_def find_frame_def split: option.splits)

lemma continuation_typed:
  "typed_promise fin p \<Longrightarrow> typed_promise fin (fst (eager_try_set_continuation c p))"
  by (auto simp: typed_promise_def eager_try_set_continuation_def split: union_member.splits)

lemma await_suspend_ok:
  assumes "eager_ok w"
  shows "safe (\<lambda>(w, _). eager_ok w) (eager_await_suspend body h c w)"
  unfolding eager_await_suspend_def
proof (rule safe_bind [OF eager_resume_ok [OF assms]], rule safe_bind [OF find_frame_safe])
  fix w' f assume w': "eager_ok w' \<and> (\<forall>h. e_frames w' h = None \<longleftrightarrow> e_frames w h = None)" "e_frames w' h = Some f"
  define p where "p = fst (eager_try_set_continuation c (e_promise f))"
  have "typed_frame f" using w' by (simp add: frames_typed_def)
  then have "typed_frame (f\<lparr>e_promise := p\<rparr>)" by (simp add: typed_frame_def p_def continuation_typed)
  then have "frames_typed (w'\<lparr>e_frames := (e_frames w')(h \<mapsto> f\<lparr>e_promise := p\<rparr>)\<rparr>)"
    using w' by (intro put_frame_typed [of w' h f]) simp_all
  moreover have "frames_owned (w'\<lparr>e_frames := (e_frames w')(h \<mapsto> f\<lparr>e_promise := p\<rparr>)\<rparr>)"
  proof (rule owned_same)
    show "frames_owned w'" using w'(1) by simp
  qed (simp_all add: w'(2))
  ultimately show "safe (\<lambda>(w, _). eager_ok w)
     (let (p, suspend) = eager_try_set_continuation c (e_promise f)
      in Inr (w'\<lparr>e_frames := (e_frames w')(h \<mapsto> f\<lparr>e_promise := p\<rparr>)\<rparr>, suspend))"
    by (cases "eager_try_set_continuation c (e_promise f)") (simp add: p_def)
qed

lemma step_ok:
  assumes "eager_ok w"
  shows "safe eager_ok (eager_step body op w)"
proof (cases op)
  case (EAwait v c)
  have "safe (\<lambda>(w, _). eager_ok w) (eager_await body v c w)"
    unfolding eager_await_def
    by (rule safe_bind [OF eager_var_safe], rule safe_bind [OF is_ready_safe])
      (use assms await_suspend_ok [OF assms] in \<open>auto split: option.split\<close>)
  then have "safe eager_ok (bindE (eager_await body v c w) (\<lambda>(w, _). Inr w))"
    by (rule safe_bind) auto
  with EAwait show ?thesis by simp
next
  case (EResume v)
  have *: "safe (\<lambda>(w, _). eager_ok w) (bindE (find_frame h w) (\<lambda>f.
      bindE (if \<not> e_done f then eager_resume_handle body h w else Inr w) (\<lambda>w.
        bindE (find_frame h w) (\<lambda>f. Inr (w, \<not> e_done f)))))" for h
  proof (rule safe_bind [OF find_frame_safe], rule safe_bind [where Q = eager_ok], goal_cases)
    case (1 f)
    show ?case using assms by (simp add: safe_mono [OF eager_resume_ok])
  next
    case (2 f w')
    then show ?case by (intro safe_bind [OF find_frame_safe]) simp
  qed
  have "safe (\<lambda>(w, _). eager_ok w) (eager_resume body v w)"
    unfolding eager_resume_def
    by (rule safe_bind [OF eager_var_safe]) (use * in \<open>simp split: option.split\<close>)
  then have "safe eager_ok (bindE (eager_resume body v w) (\<lambda>(w, _). Inr w))"
    by (rule safe_bind) auto
  with EResume show ?thesis by simp
next
  case (EAwaitResume v)
  have "safe (\<lambda>_. True) (eager_await_resume t w)" for t
  proof (cases t)
    case (Some h)
    have "safe (\<lambda>_. True) (bindE (find_frame h w) (\<lambda>f. eager_result (e_promise f)))"
      by (rule safe_bind [OF find_frame_safe], rule result_safe)
        (use assms in \<open>auto simp: frames_typed_def typed_frame_def\<close>)
    with Some show ?thesis by (simp add: eager_await_resume_def)
  qed (simp add: eager_await_resume_def)
  then have "safe eager_ok (bindE (eager_var v w) (\<lambda>t. bindE (eager_await_resume t w) (\<lambda>_. Inr w)))"
    by (intro safe_bind [OF eager_var_safe] safe_bind [where Q = "\<lambda>_. True"]) (use assms in simp_all)
  with EAwaitResume show ?thesis by simp
qed (use assms in \<open>simp_all add: call_ok default_ok move_ok assign_ok dtor_ok safe_mono [OF eager_resume_ok]\<close>)

lemma history_ok: "eager_ok w \<Longrightarrow> safe eager_ok (eager_history body ops w)"
proof (induction ops arbitrary: w)
  case (Cons op ops)
  then show ?case by (auto intro: safe_bind [OF step_ok])
qed simp

lemma start_ok: "eager_ok eager_start"
  by (simp add: eager_start_def frames_typed_def frames_owned_def owners_def)

subsection \<open>Properties\<close>

text \<open>
  C16. Type safety of the promise's union and of the task objects: no history of operations on any number of
  tasks, with any bodies, reads or destroys a member of the union that is not alive; at its end
  each tag names the living member, a coroutine has a result exactly when it is at its end, every
  frame is owned by exactly one task object, and the results and exceptions built in promises are those
  destroyed and those of the finished coroutines whose frames still exist.
\<close>

theorem eager_histories_typed:
  "case eager_history body ops eager_start of
     Inl e \<Rightarrow> e \<noteq> WildPointer
   | Inr w \<Rightarrow> frames_typed w \<and> frames_owned w"
  using history_ok [OF start_ok, of body ops] by (simp add: safe_def split: sum.split)

text \<open>So a program whose task objects are all gone leaves no frame and no object behind.\<close>

lemma all_destroyed:
  assumes "eager_history body ops eager_start = Inr w" and "\<forall>v. e_vars w v = None"
  shows "e_frames w = Map.empty" and "e_built w = e_freed w"
proof -
  have ok: "frames_typed w" "frames_owned w" using history_ok [OF start_ok, of body ops] assms(1) by simp_all
  then show frames: "e_frames w = Map.empty" using assms(2) by (auto simp: frames_owned_def owners_def)
  show "e_built w = e_freed w" using ok(1) frames by (simp add: frames_typed_def)
qed

text \<open>
  Two bugs of \<open>task\<close> are here too: a second awaiter takes the place of the first, and goes on to read a
  result that is not there; resuming an object that was moved from dereferences a null handle.
\<close>

lemma eager_second_awaiter:
  assumes "body s0 = TSuspend s1" "body s1 = TSuspend s2" "body s2 = TSuspend s3"
  shows "eager_history body [ECall 0 0 s0, EAwait 0 1, EAwait 0 2, EAwaitResume 0] eager_start = Inl AssertFailed"
  using assms
  by (simp add: eager_call_def fresh_var_def eager_start_def eager_resume_handle_def find_frame_def set_var_def
      eager_run_frame_def eager_await_def eager_var_def eager_is_ready_def eager_await_suspend_def
      eager_try_set_continuation_def eager_await_resume_def eager_result_def eager_promise_new_def)

lemma eager_moved_resume:
  "eager_history body [EDefault 0, EMove 1 0, EResume 0] eager_start = Inl NullHandle"
  by (simp add: eager_default_def eager_move_def eager_resume_def fresh_var_def eager_var_def set_var_def eager_start_def)

subsection \<open>The same code as \<open>task\<close>\<close>

text \<open>
  Forgetting the tag, a promise is one of Task; on typed promises every operation is
  the operation there, so what is proved of \<open>task\<close> holds here.
\<close>

definition promise_of :: "'v eager_promise \<Rightarrow> 'v task_promise" where
  "promise_of p = \<lparr>continuation = e_continuation p, p_state = e_state p,
     p_result = (case e_union p of NoMember \<Rightarrow> Empty | ValueMember v \<Rightarrow> Value v | ExceptionMember e \<Rightarrow> Exception e)\<rparr>"

definition frame_of :: "('s, 'v) eager_frame \<Rightarrow> ('s, 'v) task_frame" where
  "frame_of f = \<lparr>t_state = e_body_state f, t_promise = promise_of (e_promise f), t_done = e_done f\<rparr>"

lemma result_refines: "typed_promise fin p \<Longrightarrow> eager_result p = get_result (promise_of p)"
  by (auto simp: typed_promise_def eager_result_def live_value_def live_exception_def get_result_def promise_of_def
      split: union_member.splits)

lemma continuation_refines:
  "map_prod promise_of id (eager_try_set_continuation c p) = try_set_continuation c (promise_of p)"
  by (simp add: eager_try_set_continuation_def promise_defs promise_of_def)

lemma run_frame_refines:
  "run_task_frame body (frame_of f) = bindE (eager_run_frame body f) (\<lambda>(f, c). Inr (frame_of f, c))"
  by (simp add: run_task_frame_def eager_run_frame_def frame_of_def finish_task_def promise_defs promise_of_def
      eager_final_suspend_def eager_return_value_def eager_unhandled_exception_def
      split: task_progress.split option.split)

definition store_of :: "('s, 'v) eager_world \<Rightarrow> ('s, 'v) task_store" where
  "store_of w h = map_option frame_of (e_frames w h)"

lemma resume_handle_refines:
  "bindE (resume_handle body h (store_of w)) (\<lambda>(st, _). Inr st) =
   bindE (eager_resume_handle body h w) (\<lambda>w. Inr (store_of w))"
proof (cases "e_frames w h")
  case (Some f)
  then show ?thesis
    using run_frame_refines [of body f]
    by (cases "eager_run_frame body f")
      (auto simp: resume_handle_def eager_resume_handle_def find_frame_def store_of_def frame_of_def fun_eq_iff)
qed (simp add: resume_handle_def eager_resume_handle_def find_frame_def store_of_def)

end
