(* ===== verification/Win_Pipe.thy ===== *)
theory Win_Pipe
  imports Pool_Timer Nix_Pipe
begin

text \<open>
  The pipes of applications/pipes/win-pipe: \<open>io_context\<close> over an IO completion port, the awaiters, both ends,
  \<open>create_pipe_ex\<close> and \<open>pipe\<close>, and the loops of driver.cpp. System calls are fields of a record; a \<open>BOOL\<close>
  is a 32-bit word. The bytes in the buffers are the kernel's business and are not modelled.
\<close>

definition INVALID_HANDLE :: handle_value where
  "INVALID_HANDLE = - 1"

definition ERROR_SUCCESS :: u32 where
  "ERROR_SUCCESS = 0"

definition ERROR_IO_PENDING :: u32 where
  "ERROR_IO_PENDING = 997"

definition FILE_FLAG_OVERLAPPED :: u32 where
  "FILE_FLAG_OVERLAPPED = 0x40000000"

text \<open>
  A pipe's name is the process and the serial number. \<open>ReadFile\<close> and \<open>WriteFile\<close> take handle, buffer,
  length and \<open>OVERLAPPED\<close>, and return the \<open>BOOL\<close> and what they store in the byte count;
  \<open>GetQueuedCompletionStatus\<close> returns status, \<open>OVERLAPPED\<close> and bytes, or never.
\<close>

record 'k win_calls =
  wn_hardware :: u32
  wn_CreatePort :: "u32 \<Rightarrow> 'k \<Rightarrow> handle_value \<times> 'k"
  wn_Associate :: "handle_value \<Rightarrow> handle_value \<Rightarrow> 64 word \<Rightarrow> 'k \<Rightarrow> handle_value \<times> 'k"
  wn_GetStatus :: "handle_value \<Rightarrow> 'k \<Rightarrow> ((u32 \<times> uptr \<times> u32) \<times> 'k) option"
  wn_GetProcessId :: "'k \<Rightarrow> u32"
  wn_CreateNamedPipe :: "u32 \<times> u32 \<Rightarrow> u32 \<Rightarrow> u32 \<Rightarrow> 'k \<Rightarrow> handle_value \<times> 'k"
  wn_CreateFile :: "u32 \<times> u32 \<Rightarrow> u32 \<Rightarrow> 'k \<Rightarrow> handle_value \<times> 'k"
  wn_ReadFile :: "handle_value \<Rightarrow> uptr \<Rightarrow> u32 \<Rightarrow> uptr \<Rightarrow> 'k \<Rightarrow> (u32 \<times> u32) \<times> 'k"
  wn_WriteFile :: "handle_value \<Rightarrow> uptr \<Rightarrow> u32 \<Rightarrow> uptr \<Rightarrow> 'k \<Rightarrow> (u32 \<times> u32) \<times> 'k"
  wn_GetLastError :: "'k \<Rightarrow> u32"
  wn_CloseHandle :: "handle_value \<Rightarrow> 'k \<Rightarrow> 'k"

subsection \<open>The state\<close>

record win_ctx =
  wc_port :: handle_value
  wc_key :: "64 word"

record ioc_awaiter_base =
  wa_coro :: "coro option"
  wa_xfer :: u32

record read_awaiter = ioc_awaiter_base +
  ra_me :: uptr
  ra_buffer :: uptr
  ra_len :: size_t
  ra_error :: u32

record write_awaiter = ioc_awaiter_base +
  xa_me :: uptr
  xa_buffer :: uptr
  xa_len :: size_t

record win_end =
  we_ioc :: uptr
  we_handle :: handle_value

record 'k wpipe_world =
  wk :: 'k
  w_serial :: u32
  w_iocs :: "uptr \<rightharpoonup> win_ctx"
  w_readers :: "uptr \<rightharpoonup> win_end"
  w_writers :: "uptr \<rightharpoonup> win_end"
  w_reads :: "uptr \<rightharpoonup> read_awaiter"
  w_writes :: "uptr \<rightharpoonup> write_awaiter"

subsection \<open>The IO context\<close>

definition win_ctx_ctor :: "'k win_calls \<Rightarrow> uptr \<Rightarrow> u32 \<Rightarrow> ('k wpipe_world, unit) op" where
  "win_ctx_ctor K a max_threads w =
     (let (p, k) = wn_CreatePort K max_threads (wk w)
      in if p = 0 then (Inl SystemError, w\<lparr>wk := k\<rparr>)
         else (Inr (), w\<lparr>wk := k, w_iocs := (w_iocs w)(a \<mapsto> \<lparr>wc_port = p, wc_key = 0\<rparr>)\<rparr>))"

text \<open>Neither the destructor nor \<open>close\<close> asks whether there is a port.\<close>

definition win_ctx_dtor :: "'k win_calls \<Rightarrow> uptr \<Rightarrow> ('k wpipe_world, unit) op" where
  "win_ctx_dtor K a w =
     given (deref (w_iocs w) a) (\<lambda>c w.
       (Inr (), w\<lparr>wk := wn_CloseHandle K (wc_port c) (wk w), w_iocs := (w_iocs w)(a := None)\<rparr>)) w"

text \<open>The move constructor does not initialise the key: \<open>junk\<close>.\<close>

definition win_ctx_move_ctor :: "64 word \<Rightarrow> uptr \<Rightarrow> uptr \<Rightarrow> ('k wpipe_world, unit) op" where
  "win_ctx_move_ctor junk a b w =
     given (deref (w_iocs w) a) (\<lambda>c w.
       (Inr (), w\<lparr>w_iocs := (w_iocs w)(b \<mapsto> \<lparr>wc_port = wc_port c, wc_key = junk\<rparr>, a \<mapsto> c\<lparr>wc_port := 0\<rparr>)\<rparr>)) w"

definition win_ctx_move_assign :: "'k win_calls \<Rightarrow> uptr \<Rightarrow> uptr \<Rightarrow> ('k wpipe_world, unit) op" where
  "win_ctx_move_assign K a b w =
     given (deref (w_iocs w) a) (\<lambda>c. given (deref (w_iocs w) b) (\<lambda>d w.
       if a = b then (Inr (), w)
       else (Inr (), w\<lparr>wk := wn_CloseHandle K (wc_port d) (wk w),
                       w_iocs := (w_iocs w)(b \<mapsto> d\<lparr>wc_port := wc_port c\<rparr>, a \<mapsto> c\<lparr>wc_port := 0\<rparr>)\<rparr>))) w"

definition win_register :: "'k win_calls \<Rightarrow> uptr \<Rightarrow> handle_value \<Rightarrow> ('k wpipe_world, unit) op" where
  "win_register K a h w =
     given (deref (w_iocs w) a) (\<lambda>c w.
       let key = wc_key c + 1;
           (r, k) = wn_Associate K h (wc_port c) key (wk w);
           w = w\<lparr>wk := k, w_iocs := (w_iocs w)(a \<mapsto> c\<lparr>wc_key := key\<rparr>)\<rparr>
       in (if r = 0 then Inl SystemError else Inr (), w)) w"

text \<open>
  \<open>process_events\<close>: it takes packets for ever; the call of \<open>on_io_complete\<close> is commented out, so what
  it does with one is to print a line.
\<close>

partial_function (option) win_process_events ::
  "'k win_calls \<Rightarrow> win_ctx \<Rightarrow> 'k wpipe_world \<Rightarrow> (unit res \<times> 'k wpipe_world) option" where
  "win_process_events K c w =
     (case wn_GetStatus K (wc_port c) (wk w) of
        None \<Rightarrow> None
      | Some (_, k) \<Rightarrow> win_process_events K c (w\<lparr>wk := k\<rparr>))"

text \<open>\<open>on_io_complete\<close>, on the awaiter of a read, with what resumes the coroutine.\<close>

definition on_io_complete ::
  "(coro \<Rightarrow> ('k wpipe_world, unit) op) \<Rightarrow> uptr \<Rightarrow> u32 \<Rightarrow> ('k wpipe_world, unit) op" where
  "on_io_complete resume q bytes w =
     given (deref (w_reads w) q) (\<lambda>x w.
       let w = w\<lparr>w_reads := (w_reads w)(q \<mapsto> x\<lparr>wa_xfer := bytes\<rparr>)\<rparr>
       in case wa_coro x of None \<Rightarrow> (Inl NullHandle, w) | Some h \<Rightarrow> resume h w) w"

subsection \<open>The readable end\<close>

definition win_reader_ctor :: "'k win_calls \<Rightarrow> uptr \<Rightarrow> uptr \<Rightarrow> handle_value \<Rightarrow> ('k wpipe_world, unit) op" where
  "win_reader_ctor K a ioc h w =
     andthen (win_register K ioc h w)
       (\<lambda>_ w. (Inr (), w\<lparr>w_readers := (w_readers w)(a \<mapsto> \<lparr>we_ioc = ioc, we_handle = h\<rparr>)\<rparr>))"

definition win_reader_close :: "'k win_calls \<Rightarrow> win_end \<Rightarrow> 'k \<Rightarrow> 'k" where
  "win_reader_close K r k = (if we_handle r \<noteq> INVALID_HANDLE then wn_CloseHandle K (we_handle r) k else k)"

definition win_reader_dtor :: "'k win_calls \<Rightarrow> uptr \<Rightarrow> ('k wpipe_world, unit) op" where
  "win_reader_dtor K a w =
     given (deref (w_readers w) a) (\<lambda>r w.
       (Inr (), w\<lparr>wk := win_reader_close K r (wk w), w_readers := (w_readers w)(a := None)\<rparr>)) w"

definition win_reader_move :: "uptr \<Rightarrow> uptr \<Rightarrow> ('k wpipe_world, unit) op" where
  "win_reader_move a b w =
     given (deref (w_readers w) a) (\<lambda>r w.
       (Inr (), w\<lparr>w_readers := (w_readers w)(b \<mapsto> r, a \<mapsto> r\<lparr>we_handle := INVALID_HANDLE\<rparr>)\<rparr>)) w"

text \<open>\<open>read\<close> starts a read and says nothing of its outcome.\<close>

definition win_read :: "'k win_calls \<Rightarrow> uptr \<Rightarrow> uptr \<Rightarrow> size_t \<Rightarrow> uptr \<Rightarrow> ('k wpipe_world, unit) op" where
  "win_read K a buffer len ov w =
     given (deref (w_readers w) a) (\<lambda>r w.
       let (_, k) = wn_ReadFile K (we_handle r) buffer (ucast len) ov (wk w) in (Inr (), w\<lparr>wk := k\<rparr>)) w"

text \<open>The awaiter of \<open>read_some\<close>, at \<open>q\<close>; \<open>bytes_xfer\<close> is not initialised.\<close>

definition win_read_some :: "u32 \<Rightarrow> uptr \<Rightarrow> uptr \<Rightarrow> uptr \<Rightarrow> size_t \<Rightarrow> ('k wpipe_world, unit) op" where
  "win_read_some junk q a buffer len w =
     (Inr (), w\<lparr>w_reads := (w_reads w)(q \<mapsto>
        \<lparr>wa_coro = None, wa_xfer = junk, ra_me = a, ra_buffer = buffer, ra_len = len, ra_error = 0\<rparr>)\<rparr>)"

definition win_read_suspend :: "'k win_calls \<Rightarrow> uptr \<Rightarrow> coro \<Rightarrow> ('k wpipe_world, bool) op" where
  "win_read_suspend K q h w =
     given (deref (w_reads w) q) (\<lambda>x. given (deref (w_readers w) (ra_me x)) (\<lambda>r w.
       let ((status, n), k) = wn_ReadFile K (we_handle r) (ra_buffer x) (ucast (ra_len x)) q (wk w);
           x = x\<lparr>wa_coro := Some h, wa_xfer := n\<rparr>;
           err = wn_GetLastError K k
       in if status = 0 \<and> err = ERROR_IO_PENDING
          then (Inr True, w\<lparr>wk := k, w_reads := (w_reads w)(q \<mapsto> x)\<rparr>)
          else (Inr False, w\<lparr>wk := k, w_reads := (w_reads w)(q \<mapsto> x\<lparr>ra_error := err\<rparr>)\<rparr>))) w"

definition win_read_resume :: "uptr \<Rightarrow> ('k wpipe_world, size_t) op" where
  "win_read_resume q w = given (deref (w_reads w) q) (\<lambda>x w. (Inr (ucast (wa_xfer x)), w)) w"

subsection \<open>The writeable end\<close>

definition win_writer_ctor :: "'k win_calls \<Rightarrow> uptr \<Rightarrow> uptr \<Rightarrow> handle_value \<Rightarrow> ('k wpipe_world, unit) op" where
  "win_writer_ctor K a ioc h w =
     andthen (win_register K ioc h w)
       (\<lambda>_ w. (Inr (), w\<lparr>w_writers := (w_writers w)(a \<mapsto> \<lparr>we_ioc = ioc, we_handle = h\<rparr>)\<rparr>))"

text \<open>This \<open>close\<close> closes whatever the handle is.\<close>

definition win_writer_close :: "'k win_calls \<Rightarrow> win_end \<Rightarrow> 'k \<Rightarrow> 'k" where
  "win_writer_close K r k = wn_CloseHandle K (we_handle r) k"

definition win_writer_dtor :: "'k win_calls \<Rightarrow> uptr \<Rightarrow> ('k wpipe_world, unit) op" where
  "win_writer_dtor K a w =
     given (deref (w_writers w) a) (\<lambda>r w.
       (Inr (), w\<lparr>wk := win_writer_close K r (wk w), w_writers := (w_writers w)(a := None)\<rparr>)) w"

definition win_writer_move :: "uptr \<Rightarrow> uptr \<Rightarrow> ('k wpipe_world, unit) op" where
  "win_writer_move a b w =
     given (deref (w_writers w) a) (\<lambda>r w.
       (Inr (), w\<lparr>w_writers := (w_writers w)(b \<mapsto> r, a \<mapsto> r\<lparr>we_handle := INVALID_HANDLE\<rparr>)\<rparr>)) w"

definition win_write_some :: "u32 \<Rightarrow> uptr \<Rightarrow> uptr \<Rightarrow> uptr \<Rightarrow> size_t \<Rightarrow> ('k wpipe_world, unit) op" where
  "win_write_some junk q a buffer len w =
     (Inr (), w\<lparr>w_writes := (w_writes w)(q \<mapsto>
        \<lparr>wa_coro = None, wa_xfer = junk, xa_me = a, xa_buffer = buffer, xa_len = len\<rparr>)\<rparr>)"

text \<open>
  The \<open>BOOL\<close> is compared with error codes; neither the coroutine nor the byte count is stored.
\<close>

definition win_write_suspend :: "'k win_calls \<Rightarrow> uptr \<Rightarrow> coro \<Rightarrow> ('k wpipe_world, bool) op" where
  "win_write_suspend K q h w =
     given (deref (w_writes w) q) (\<lambda>x. given (deref (w_writers w) (xa_me x)) (\<lambda>r w.
       let ((status, bytes_written), k) = wn_WriteFile K (we_handle r) (xa_buffer x) (ucast (xa_len x)) q (wk w);
           w = w\<lparr>wk := k\<rparr>
       in if status = ERROR_IO_PENDING then (Inr True, w)
          else if status \<noteq> ERROR_SUCCESS then (Inl SystemError, w)
          else (Inr False, w))) w"

definition win_write_resume :: "uptr \<Rightarrow> ('k wpipe_world, size_t) op" where
  "win_write_resume q w = given (deref (w_writes w) q) (\<lambda>x w. (Inr (ucast (wa_xfer x)), w)) w"

subsection \<open>Making a pipe\<close>

text \<open>\<open>None\<close> is the result \<open>false\<close>.\<close>

definition create_pipe_ex ::
  "'k win_calls \<Rightarrow> u32 \<Rightarrow> u32 \<Rightarrow> u32 \<Rightarrow> ('k wpipe_world, (handle_value \<times> handle_value) option) op" where
  "create_pipe_ex K bytes read_mode write_mode w =
     (let serial = w_serial w + 1;
          name = (wn_GetProcessId K (wk w), serial);
          (r, k) = wn_CreateNamedPipe K name read_mode bytes (wk w);
          w = w\<lparr>w_serial := serial\<rparr>
      in if r = INVALID_HANDLE then (Inr None, w\<lparr>wk := k\<rparr>)
         else let (s, k) = wn_CreateFile K name write_mode k
              in if s = INVALID_HANDLE then (Inr None, w\<lparr>wk := wn_CloseHandle K r k\<rparr>)
                 else (Inr (Some (r, s)), w\<lparr>wk := k\<rparr>))"

text \<open>
  \<open>pipe\<close>: the two ends are temporaries at \<open>t\<close> and \<open>u\<close>, made in an order the language leaves open and moved into
  the pair at \<open>r\<close> and \<open>s\<close>. A constructor that throws leaves its handle open, since no
  destructor runs for it; the first temporary is destroyed.
\<close>

definition win_make_ends ::
  "'k win_calls \<Rightarrow> bool \<Rightarrow> uptr \<Rightarrow> uptr \<Rightarrow> uptr \<Rightarrow> handle_value \<times> handle_value \<Rightarrow> ('k wpipe_world, unit) op" where
  "win_make_ends K reader_first ioc t u hs w =
     (if reader_first
      then andthen (win_reader_ctor K t ioc (fst hs) w) (\<lambda>_ w.
             case win_writer_ctor K u ioc (snd hs) w of
               (Inl e, w) \<Rightarrow> andthen (win_reader_dtor K t w) (\<lambda>_ w. (Inl e, w))
             | (Inr _, w) \<Rightarrow> (Inr (), w))
      else andthen (win_writer_ctor K u ioc (snd hs) w) (\<lambda>_ w.
             case win_reader_ctor K t ioc (fst hs) w of
               (Inl e, w) \<Rightarrow> andthen (win_writer_dtor K u w) (\<lambda>_ w. (Inl e, w))
             | (Inr _, w) \<Rightarrow> (Inr (), w)))"

definition win_pipe ::
  "'k win_calls \<Rightarrow> bool \<Rightarrow> uptr \<Rightarrow> uptr \<Rightarrow> uptr \<Rightarrow> uptr \<Rightarrow> uptr \<Rightarrow> ('k wpipe_world, unit) op" where
  "win_pipe K reader_first ioc t u r s w =
     andthen (create_pipe_ex K 0 FILE_FLAG_OVERLAPPED FILE_FLAG_OVERLAPPED w) (\<lambda>hs w.
       case hs of
         None \<Rightarrow> (Inl SystemError, w)
       | Some hs \<Rightarrow>
           andthen (win_make_ends K reader_first ioc t u hs w) (\<lambda>_ w.
           andthen (win_reader_move t r w) (\<lambda>_ w.
           andthen (win_writer_move u s w) (\<lambda>_ w.
           andthen (win_writer_dtor K u w) (\<lambda>_.
           win_reader_dtor K t)))))"

subsection \<open>The driver\<close>

definition WIN_BUFFER_SIZE :: u32 where
  "WIN_BUFFER_SIZE = 64"

text \<open>The producer writes, without an \<open>OVERLAPPED\<close>, until a write fails.\<close>

partial_function (option) win_producer ::
  "'k win_calls \<Rightarrow> handle_value \<Rightarrow> uptr \<Rightarrow> 'k wpipe_world \<Rightarrow> (unit res \<times> 'k wpipe_world) option" where
  "win_producer K h buffer w =
     (case wn_WriteFile K h buffer WIN_BUFFER_SIZE 0 (wk w) of
        ((status, _), k) \<Rightarrow>
          if status = 0 then Some (Inr (), w\<lparr>wk := k\<rparr>) else win_producer K h buffer (w\<lparr>wk := k\<rparr>))"

text \<open>The consumer's loop has no end: its first \<open>n\<close> rounds. All of them use the one \<open>OVERLAPPED\<close>.\<close>

fun win_consumer :: "'k win_calls \<Rightarrow> uptr \<Rightarrow> uptr \<Rightarrow> uptr \<Rightarrow> nat \<Rightarrow> ('k wpipe_world, unit) op" where
  "win_consumer K a buffer ov 0 w = (Inr (), w)"
| "win_consumer K a buffer ov (Suc n) w =
     andthen (win_read K a buffer (ucast WIN_BUFFER_SIZE) ov w) (\<lambda>_. win_consumer K a buffer ov n)"

text \<open>
  \<open>main\<close> up to the start of the threads, with the context at \<open>ioc\<close> and the pipe at \<open>a\<close>: \<open>None\<close> is
  \<open>EXIT_FAILURE\<close>, otherwise the write handle, which nothing ever closes.
\<close>

definition win_main :: "'k win_calls \<Rightarrow> uptr \<Rightarrow> uptr \<Rightarrow> ('k wpipe_world, handle_value option) op" where
  "win_main K ioc a w =
     andthen (win_ctx_ctor K ioc (wn_hardware K) w) (\<lambda>_ w.
     andthen (create_pipe_ex K 0 FILE_FLAG_OVERLAPPED FILE_FLAG_OVERLAPPED w) (\<lambda>hs w.
       case hs of
         None \<Rightarrow> andthen (win_ctx_dtor K ioc w) (\<lambda>_ w. (Inr None, w))
       | Some (reader, writer) \<Rightarrow>
           (case win_reader_ctor K a ioc reader w of
              (Inl e, w) \<Rightarrow> andthen (win_ctx_dtor K ioc w) (\<lambda>_ w. (Inl e, w))
            | (Inr _, w) \<Rightarrow> (Inr (Some writer), w))))"

subsection \<open>What the documentation promises\<close>

text \<open>
  The open handles, the number of \<open>CloseHandle\<close> calls on something else, and the addresses of the \<open>OVERLAPPED\<close>s
  whose operation is pending or whose packet is queued.
\<close>

record win_view =
  wv_open :: "handle_value set"
  wv_bad :: nat
  wv_flight :: "uptr set"

text \<open>A handle that a call creates, or the value by which it says that it failed.\<close>

definition creates :: "('k \<Rightarrow> win_view) \<Rightarrow> handle_value \<Rightarrow> 'k \<Rightarrow> handle_value \<times> 'k \<Rightarrow> bool" where
  "creates view failed k r \<longleftrightarrow>
     (if fst r = failed then view (snd r) = view k
      else fst r \<notin> {0, INVALID_HANDLE} \<and> fst r \<notin> wv_open (view k) \<and>
        view (snd r) = (view k)\<lparr>wv_open := insert (fst r) (wv_open (view k))\<rparr>)"

text \<open>An overlapped operation that succeeds at once or is pending will leave a packet in the port.\<close>

definition overlapped ::
  "'k win_calls \<Rightarrow> ('k \<Rightarrow> win_view) \<Rightarrow> uptr \<Rightarrow> 'k \<Rightarrow> (u32 \<times> u32) \<times> 'k \<Rightarrow> bool" where
  "overlapped K view ov k r \<longleftrightarrow>
     fst (fst r) \<in> {0, 1} \<and>
     view (snd r) = (if fst (fst r) = 1 \<or> wn_GetLastError K (snd r) = ERROR_IO_PENDING
                     then (view k)\<lparr>wv_flight := insert ov (wv_flight (view k))\<rparr> else view k)"

definition win_documented :: "'k win_calls \<Rightarrow> ('k \<Rightarrow> win_view) \<Rightarrow> bool" where
  "win_documented K view \<longleftrightarrow>
     (\<forall>k. 0 \<notin> wv_open (view k) \<and> INVALID_HANDLE \<notin> wv_open (view k)) \<and>
     (\<forall>n k. creates view 0 k (wn_CreatePort K n k)) \<and>
     (\<forall>h p key k. view (snd (wn_Associate K h p key k)) = view k) \<and>
     (\<forall>name m n k. creates view INVALID_HANDLE k (wn_CreateNamedPipe K name m n k)) \<and>
     (\<forall>name m k. creates view INVALID_HANDLE k (wn_CreateFile K name m k)) \<and>
     (\<forall>h b n ov k. ov \<noteq> 0 \<longrightarrow> overlapped K view ov k (wn_ReadFile K h b n ov k) \<and>
        overlapped K view ov k (wn_WriteFile K h b n ov k)) \<and>
     (\<forall>h k. view (wn_CloseHandle K h k) =
        (if h \<in> wv_open (view k) then (view k)\<lparr>wv_open := wv_open (view k) - {h}\<rparr>
         else (view k)\<lparr>wv_bad := wv_bad (view k) + 1\<rparr>))"

lemma win_docD:
  assumes "win_documented K view"
  shows "0 \<notin> wv_open (view k)" "INVALID_HANDLE \<notin> wv_open (view k)"
    and "creates view 0 k (wn_CreatePort K n k)"
    and "view (snd (wn_Associate K h p key k)) = view k"
    and "creates view INVALID_HANDLE k (wn_CreateNamedPipe K name m n k)"
    and "creates view INVALID_HANDLE k (wn_CreateFile K name m k)"
    and "ov \<noteq> 0 \<Longrightarrow> overlapped K view ov k (wn_ReadFile K h b n ov k)"
    and "ov \<noteq> 0 \<Longrightarrow> overlapped K view ov k (wn_WriteFile K h b n ov k)"
    and "view (wn_CloseHandle K h k) =
        (if h \<in> wv_open (view k) then (view k)\<lparr>wv_open := wv_open (view k) - {h}\<rparr>
         else (view k)\<lparr>wv_bad := wv_bad (view k) + 1\<rparr>)"
  using assms by (simp_all only: win_documented_def simp_thms)

subsection \<open>A system that keeps these promises\<close>

text \<open>Handles are counted up; a write is pending or is done at once as a flag says.\<close>

record win_table =
  wt_next :: handle_value
  wt_open :: "handle_value list"
  wt_bad :: nat
  wt_flight :: "uptr list"
  wt_full :: bool
  wt_error :: u32

definition win_table_view :: "win_table \<Rightarrow> win_view" where
  "win_table_view k =
     \<lparr>wv_open = set (wt_open k) - {0, INVALID_HANDLE}, wv_bad = wt_bad k, wv_flight = set (wt_flight k)\<rparr>"

definition wt_create :: "handle_value \<Rightarrow> win_table \<Rightarrow> handle_value \<times> win_table" where
  "wt_create failed k =
     (let h = wt_next k
      in if h \<in> {0, INVALID_HANDLE} \<or> h \<in> set (wt_open k) then (failed, k)
         else (h, k\<lparr>wt_next := h + 1, wt_open := h # wt_open k\<rparr>))"

definition wt_io :: "uptr \<Rightarrow> win_table \<Rightarrow> (u32 \<times> u32) \<times> win_table" where
  "wt_io ov k =
     ((if wt_full k then (0, 0) else (1, 64)),
      k\<lparr>wt_flight := ov # wt_flight k, wt_error := (if wt_full k then ERROR_IO_PENDING else 0)\<rparr>)"

definition wt_close :: "handle_value \<Rightarrow> win_table \<Rightarrow> win_table" where
  "wt_close h k =
     (if h \<in> set (wt_open k) - {0, INVALID_HANDLE} then k\<lparr>wt_open := removeAll h (wt_open k)\<rparr>
      else k\<lparr>wt_bad := wt_bad k + 1\<rparr>)"

definition win_table_calls :: "win_table win_calls" where
  "win_table_calls = \<lparr>wn_hardware = 4, wn_CreatePort = (\<lambda>n. wt_create 0),
     wn_Associate = (\<lambda>h p key k. (p, k)), wn_GetStatus = (\<lambda>p k. None), wn_GetProcessId = (\<lambda>k. 1),
     wn_CreateNamedPipe = (\<lambda>name m n. wt_create INVALID_HANDLE), wn_CreateFile = (\<lambda>name m. wt_create INVALID_HANDLE),
     wn_ReadFile = (\<lambda>h b n. wt_io), wn_WriteFile = (\<lambda>h b n. wt_io), wn_GetLastError = wt_error,
     wn_CloseHandle = wt_close\<rparr>"

lemma win_table_documented: "win_documented win_table_calls win_table_view"
  by (auto simp: win_documented_def win_table_calls_def win_table_view_def creates_def overlapped_def
      wt_create_def wt_io_def wt_close_def Let_def ERROR_IO_PENDING_def INVALID_HANDLE_def)

subsection \<open>Properties\<close>

text \<open>
  C39. An awaited write, on a system that keeps its promises: \<open>write_some\<close> never suspends and never reports a byte
  count. A write that succeeds at once is reported by an exception. Any other, pending or
  failed, is taken for done: the coroutine goes on at once and reads a count that was never
  stored, its handle has not been stored either, and a pending operation is left with the address of an
  awaiter that dies at the end of the expression.
\<close>

theorem write_some_misreads_status:
  assumes "win_documented K view" and "w_writers w a = Some r" and "q \<noteq> 0" and "q \<notin> wv_flight (view (wk w))"
  shows "\<exists>status n k. wn_WriteFile K (we_handle r) buffer (ucast len) q (wk w) = ((status, n), k) \<and>
    (case andthen (win_write_some junk q a buffer len w) (\<lambda>_. win_write_suspend K q h) of (result, w') \<Rightarrow>
       wk w' = k \<and> map_option wa_coro (w_writes w' q) = Some None \<and>
       (if status = 1 then result = Inl SystemError
        else result = Inr False \<and> fst (win_write_resume q w') = Inr (ucast junk) \<and>
          (q \<in> wv_flight (view k)) = (wn_GetLastError K k = ERROR_IO_PENDING)))"
proof -
  obtain status n k where wr: "wn_WriteFile K (we_handle r) buffer (ucast len) q (wk w) = ((status, n), k)"
    by (metis prod.exhaust)
  have o: "status \<in> {0, 1}" "view k = (if status = 1 \<or> wn_GetLastError K k = ERROR_IO_PENDING
      then (view (wk w))\<lparr>wv_flight := insert q (wv_flight (view (wk w)))\<rparr> else view (wk w))"
    using win_docD(8) [OF assms(1,3), of "wk w" "we_handle r" buffer "ucast len"] by (simp_all add: overlapped_def wr)
  show ?thesis
    using o assms(2,4) wr
    by (auto simp: win_write_some_def win_write_suspend_def win_write_resume_def ERROR_IO_PENDING_def ERROR_SUCCESS_def)
qed

definition win_table0 :: "bool \<Rightarrow> win_table" where
  "win_table0 full = \<lparr>wt_next = 1, wt_open = [], wt_bad = 0, wt_flight = [], wt_full = full, wt_error = 0\<rparr>"

definition win_world0 :: "bool \<Rightarrow> win_table wpipe_world" where
  "win_world0 full = \<lparr>wk = win_table0 full, w_serial = 0, w_iocs = [1 \<mapsto> \<lparr>wc_port = 9, wc_key = 0\<rparr>],
     w_readers = Map.empty, w_writers = [2 \<mapsto> \<lparr>we_ioc = 1, we_handle = 5\<rparr>], w_reads = Map.empty, w_writes = Map.empty\<rparr>"

theorem write_some_misreads_status_witness:
  "case andthen (win_write_some 7 3 2 100 64 (win_world0 True)) (\<lambda>_. win_write_suspend win_table_calls 3 8) of
     (result, w') \<Rightarrow> result = Inr False \<and> fst (win_write_resume 3 w') = Inr 7 \<and> 3 \<in> wv_flight (win_table_view (wk w'))"
proof -
  have w: "w_writers (win_world0 True) 2 = Some \<lparr>we_ioc = 1, we_handle = 5\<rparr>"
    "3 \<notin> wv_flight (win_table_view (wk (win_world0 True)))"
    by (simp_all add: win_world0_def win_table_view_def win_table0_def)
  have io: "wn_WriteFile win_table_calls 5 100 (ucast (64 :: size_t)) 3 (wk (win_world0 True)) =
      ((0, 0), (win_table0 True)\<lparr>wt_flight := [3], wt_error := ERROR_IO_PENDING\<rparr>)"
    by (simp add: win_table_calls_def wt_io_def win_world0_def win_table0_def)
  show ?thesis
    using write_some_misreads_status [OF win_table_documented w(1) _ w(2), of 100 64 7 8] io
    by (auto simp: win_table_calls_def)
qed

text \<open>
  A read, by contrast, suspends exactly when it is pending, with its coroutine stored; the callback would
  resume that coroutine with the count.
\<close>

lemma read_some_suspends:
  assumes "w_reads w q = Some x" "w_readers w (ra_me x) = Some r"
    and "wn_ReadFile K (we_handle r) (ra_buffer x) (ucast (ra_len x)) q (wk w) = ((status, n), k)"
  obtains w' where "win_read_suspend K q h w = (Inr (status = 0 \<and> wn_GetLastError K k = ERROR_IO_PENDING), w')"
    and "wk w' = k" and "on_io_complete resume q bytes w' =
      resume h (w'\<lparr>w_reads := (w_reads w')(q \<mapsto> (the (w_reads w' q))\<lparr>wa_xfer := bytes\<rparr>)\<rparr>)"
  using assms that
  by (cases "status = 0 \<and> wn_GetLastError K k = ERROR_IO_PENDING")
    (simp_all add: win_read_suspend_def on_io_complete_def)

text \<open>But the reactor takes the packet and resumes nobody, and it never ends.\<close>

lemma reactor_for_ever: "win_process_events K c w = None"
proof -
  have "win_process_events K c w = Some r \<Longrightarrow> False" for r
    by (rule win_process_events.raw_induct [of "\<lambda>_ _ _ _. False" K c w r])
      (auto split: option.splits)
  then show ?thesis by (cases "win_process_events K c w") auto
qed

subsection \<open>Handles of a pipe\<close>

lemma create_pipe_ex_view:
  assumes doc: "win_documented K view"
  shows "\<exists>hs w'. create_pipe_ex K bytes rm wm w = (Inr hs, w') \<and> w_iocs w' = w_iocs w \<and>
    (case hs of
       None \<Rightarrow> view (wk w') = view (wk w)
     | Some (r, s) \<Rightarrow> r \<noteq> s \<and> r \<noteq> INVALID_HANDLE \<and> s \<noteq> INVALID_HANDLE \<and>
         r \<notin> wv_open (view (wk w)) \<and> s \<notin> wv_open (view (wk w)) \<and>
         view (wk w') = (view (wk w))\<lparr>wv_open := {r, s} \<union> wv_open (view (wk w))\<rparr>)"
proof -
  let ?name = "(wn_GetProcessId K (wk w), w_serial w + 1)"
  obtain r k1 where c1: "wn_CreateNamedPipe K ?name rm bytes (wk w) = (r, k1)" by (metis prod.exhaust)
  obtain s k2 where c2: "wn_CreateFile K ?name wm k1 = (s, k2)" by (metis prod.exhaust)
  have v1: "creates view INVALID_HANDLE (wk w) (r, k1)" using win_docD(5) [OF doc] c1 by metis
  have v2: "creates view INVALID_HANDLE k1 (s, k2)" using win_docD(6) [OF doc] c2 by metis
  show ?thesis
  proof (cases "r = INVALID_HANDLE")
    case True
    then show ?thesis using c1 v1 by (simp add: create_pipe_ex_def creates_def Let_def)
  next
    case r: False
    show ?thesis
    proof (cases "s = INVALID_HANDLE")
      case True
      have "view (wn_CloseHandle K r k2) = view (wk w)"
        using v1 v2 r True by (simp add: win_docD(9) [OF doc] creates_def insert_Diff_if)
      then show ?thesis using c1 c2 r True by (simp add: create_pipe_ex_def Let_def)
    next
      case False
      then show ?thesis
        using c1 c2 v1 v2 r by (auto simp: create_pipe_ex_def creates_def Let_def insert_commute)
    qed
  qed
qed

text \<open>The two constructors, and what is open after both ends have been made, or one of them has failed.\<close>

lemma ctor_view:
  assumes doc: "win_documented K view" and ioc: "w_iocs w ioc = Some c"
  obtains e w' c' where "win_reader_ctor K t ioc h w = (e, w')" "view (wk w') = view (wk w)"
    "w_iocs w' ioc = Some c'" "w_writers w' = w_writers w"
    "e = Inr () \<and> w_readers w' = (w_readers w)(t \<mapsto> \<lparr>we_ioc = ioc, we_handle = h\<rparr>) \<or> e = Inl SystemError"
proof -
  obtain p k where p: "wn_Associate K h (wc_port c) (wc_key c + 1) (wk w) = (p, k)" by (metis prod.exhaust)
  then have "view k = view (wk w)" using win_docD(4) [OF doc, of h "wc_port c" "wc_key c + 1" "wk w"] by simp
  then show thesis
    using that ioc p by (cases "p = 0") (simp_all add: win_register_def Let_def win_reader_ctor_def)
qed

lemma writer_ctor_view:
  assumes doc: "win_documented K view" and ioc: "w_iocs w ioc = Some c"
  obtains e w' c' where "win_writer_ctor K u ioc h w = (e, w')" "view (wk w') = view (wk w)"
    "w_iocs w' ioc = Some c'" "w_readers w' = w_readers w"
    "e = Inr () \<and> w_writers w' = (w_writers w)(u \<mapsto> \<lparr>we_ioc = ioc, we_handle = h\<rparr>) \<or> e = Inl SystemError"
proof -
  obtain p k where p: "wn_Associate K h (wc_port c) (wc_key c + 1) (wk w) = (p, k)" by (metis prod.exhaust)
  then have "view k = view (wk w)" using win_docD(4) [OF doc, of h "wc_port c" "wc_key c + 1" "wk w"] by simp
  then show thesis
    using that ioc p by (cases "p = 0") (simp_all add: win_register_def Let_def win_writer_ctor_def)
qed

lemma win_make_ends_view:
  assumes doc: "win_documented K view" and ioc: "w_iocs w ioc = Some c"
    and hs: "r \<noteq> INVALID_HANDLE" "s \<noteq> INVALID_HANDLE"
    and opn: "view (wk w) = v\<lparr>wv_open := {r, s} \<union> wv_open v\<rparr>"
    and fresh: "r \<noteq> s" "r \<notin> wv_open v" "s \<notin> wv_open v"
  shows "case win_make_ends K reader_first ioc t u (r, s) w of
      (Inr _, w') \<Rightarrow> view (wk w') = view (wk w) \<and>
        w_readers w' = (w_readers w)(t \<mapsto> \<lparr>we_ioc = ioc, we_handle = r\<rparr>) \<and>
        w_writers w' = (w_writers w)(u \<mapsto> \<lparr>we_ioc = ioc, we_handle = s\<rparr>)
    | (Inl e, w') \<Rightarrow> e = SystemError \<and> wv_bad (view (wk w')) = wv_bad v \<and>
        wv_open (view (wk w')) - wv_open v \<in> {{r, s}, {r}, {s}} \<and> wv_open v \<subseteq> wv_open (view (wk w'))"
proof (cases reader_first)
  case True
  obtain e w1 c1 where 1: "win_reader_ctor K t ioc r w = (e, w1)" "view (wk w1) = view (wk w)"
    "w_iocs w1 ioc = Some c1" "w_writers w1 = w_writers w"
    "e = Inr () \<and> w_readers w1 = (w_readers w)(t \<mapsto> \<lparr>we_ioc = ioc, we_handle = r\<rparr>) \<or> e = Inl SystemError"
    by (rule ctor_view [OF doc ioc])
  obtain e2 w2 c2 where 2: "win_writer_ctor K u ioc s w1 = (e2, w2)" "view (wk w2) = view (wk w1)"
    "w_iocs w2 ioc = Some c2" "w_readers w2 = w_readers w1"
    "e2 = Inr () \<and> w_writers w2 = (w_writers w1)(u \<mapsto> \<lparr>we_ioc = ioc, we_handle = s\<rparr>) \<or> e2 = Inl SystemError"
    by (rule writer_ctor_view [OF doc 1(3)])
  show ?thesis
    using 1 2 True opn fresh hs
    by (auto simp: win_make_ends_def win_reader_dtor_def win_reader_close_def win_docD(9) [OF doc])
next
  case False
  obtain e w1 c1 where 1: "win_writer_ctor K u ioc s w = (e, w1)" "view (wk w1) = view (wk w)"
    "w_iocs w1 ioc = Some c1" "w_readers w1 = w_readers w"
    "e = Inr () \<and> w_writers w1 = (w_writers w)(u \<mapsto> \<lparr>we_ioc = ioc, we_handle = s\<rparr>) \<or> e = Inl SystemError"
    by (rule writer_ctor_view [OF doc ioc])
  obtain e2 w2 c2 where 2: "win_reader_ctor K t ioc r w1 = (e2, w2)" "view (wk w2) = view (wk w1)"
    "w_iocs w2 ioc = Some c2" "w_writers w2 = w_writers w1"
    "e2 = Inr () \<and> w_readers w2 = (w_readers w1)(t \<mapsto> \<lparr>we_ioc = ioc, we_handle = r\<rparr>) \<or> e2 = Inl SystemError"
    by (rule ctor_view [OF doc 1(3)])
  show ?thesis
    using 1 2 False opn fresh hs
    by (auto simp: win_make_ends_def win_writer_dtor_def win_writer_close_def win_docD(9) [OF doc])
qed

text \<open>
  C27. The life of a pipe's handles. When \<open>pipe\<close> succeeds, both ends are open, and destroying them closes both
  and nothing else; on the way one \<open>CloseHandle\<close> went to an invalid handle, by the destructor of the
  temporary that the writeable end was moved from. When \<open>pipe\<close> throws, either no handle was made or
  at least one of the two is left open, for the constructor that throws does not close its own.
\<close>

theorem win_pipe_handles:
  assumes "win_documented K view" and "w_iocs w ioc = Some c" and "t \<noteq> r" and "u \<noteq> s"
  shows "case win_pipe K reader_first ioc t u r s w of
      (Inr _, w1) \<Rightarrow>
        (\<exists>h g. wv_open (view (wk w1)) = {h, g} \<union> wv_open (view (wk w)) \<and>
           map_option we_handle (w_readers w1 r) = Some h \<and> map_option we_handle (w_writers w1 s) = Some g) \<and>
        (case andthen (win_reader_dtor K r w1) (\<lambda>_. win_writer_dtor K s) of
           (result, w2) \<Rightarrow> result = Inr () \<and> wv_open (view (wk w2)) = wv_open (view (wk w)) \<and>
             wv_bad (view (wk w2)) = wv_bad (view (wk w)) + 1)
    | (Inl e, w1) \<Rightarrow> e = SystemError \<and>
        (view (wk w1) = view (wk w) \<or> wv_open (view (wk w)) \<subset> wv_open (view (wk w1)))"
proof -
  obtain hs w0 where cp: "create_pipe_ex K 0 FILE_FLAG_OVERLAPPED FILE_FLAG_OVERLAPPED w = (Inr hs, w0)"
    and ic: "w_iocs w0 = w_iocs w"
    and v: "case hs of None \<Rightarrow> view (wk w0) = view (wk w)
     | Some (r, s) \<Rightarrow> r \<noteq> s \<and> r \<noteq> INVALID_HANDLE \<and> s \<noteq> INVALID_HANDLE \<and>
         r \<notin> wv_open (view (wk w)) \<and> s \<notin> wv_open (view (wk w)) \<and>
         view (wk w0) = (view (wk w))\<lparr>wv_open := {r, s} \<union> wv_open (view (wk w))\<rparr>"
    using create_pipe_ex_view [OF assms(1), of 0 FILE_FLAG_OVERLAPPED FILE_FLAG_OVERLAPPED w] by blast
  show ?thesis
  proof (cases hs)
    case None
    then show ?thesis using cp v by (simp add: win_pipe_def)
  next
    case (Some hg)
    obtain h g where hg: "hg = (h, g)" by (cases hg)
    have f: "h \<noteq> g" "h \<noteq> INVALID_HANDLE" "g \<noteq> INVALID_HANDLE" "h \<notin> wv_open (view (wk w))"
      "g \<notin> wv_open (view (wk w))" "view (wk w0) = (view (wk w))\<lparr>wv_open := {h, g} \<union> wv_open (view (wk w))\<rparr>"
      using v Some hg by simp_all
    have m: "case win_make_ends K reader_first ioc t u (h, g) w0 of
      (Inr _, w') \<Rightarrow> view (wk w') = view (wk w0) \<and>
        w_readers w' = (w_readers w0)(t \<mapsto> \<lparr>we_ioc = ioc, we_handle = h\<rparr>) \<and>
        w_writers w' = (w_writers w0)(u \<mapsto> \<lparr>we_ioc = ioc, we_handle = g\<rparr>)
    | (Inl e, w') \<Rightarrow> e = SystemError \<and> wv_bad (view (wk w')) = wv_bad (view (wk w)) \<and>
        wv_open (view (wk w')) - wv_open (view (wk w)) \<in> {{h, g}, {h}, {g}} \<and> wv_open (view (wk w)) \<subseteq> wv_open (view (wk w'))"
      by (rule win_make_ends_view [OF assms(1), where c = c]) (use f assms(2) ic in simp_all)
    obtain e w1 where e: "win_make_ends K reader_first ioc t u (h, g) w0 = (e, w1)" by (metis prod.exhaust)
    show ?thesis
    proof (cases e)
      case (Inl x)
      then show ?thesis using m e cp Some hg by (auto simp: win_pipe_def)
    next
      case (Inr x)
      then show ?thesis
        using m e cp Some hg f assms(3,4) win_docD(2) [OF assms(1), of "wk w"]
        by (simp add: win_pipe_def win_reader_move_def win_writer_move_def win_reader_dtor_def win_writer_dtor_def
            win_reader_close_def win_writer_close_def win_docD(9) [OF assms(1)])
    qed
  qed
qed

theorem win_pipe_handles_witness:
  "case win_pipe win_table_calls True 1 10 11 12 13 (win_world0 False) of
     (Inl e, w1) \<Rightarrow> False
   | (Inr _, w1) \<Rightarrow>
       (case andthen (win_reader_dtor win_table_calls 12 w1) (\<lambda>_. win_writer_dtor win_table_calls 13) of
          (result, w2) \<Rightarrow> wv_open (win_table_view (wk w2)) = {} \<and> wv_bad (win_table_view (wk w2)) = 1)"
proof -
  have ioc: "w_iocs (win_world0 False) 1 = Some \<lparr>wc_port = 9, wc_key = 0\<rparr>" by (simp add: win_world0_def)
  have start: "wv_open (win_table_view (wk (win_world0 False))) = {}" "wv_bad (win_table_view (wk (win_world0 False))) = 0"
    by (simp_all add: win_world0_def win_table0_def win_table_view_def)
  have "fst (win_pipe win_table_calls True 1 10 11 12 13 (win_world0 False)) = Inr ()" by code_simp
  then obtain w1 where w1: "win_pipe win_table_calls True 1 10 11 12 13 (win_world0 False) = (Inr (), w1)"
    by (metis fst_conv prod.exhaust)
  show ?thesis
    using win_pipe_handles [OF win_table_documented ioc, of 10 12 11 13 True] w1 start by (auto split: prod.splits)
qed

text \<open>A context that was moved from closes the null handle when it is destroyed.\<close>

lemma moved_context_closes_null:
  assumes "win_documented K view" "w_iocs w a = Some c" "a \<noteq> b"
  shows "case andthen (win_ctx_move_ctor junk a b w) (\<lambda>_. win_ctx_dtor K a) of
    (result, w') \<Rightarrow> wv_open (view (wk w')) = wv_open (view (wk w)) \<and> wv_bad (view (wk w')) = wv_bad (view (wk w)) + 1"
  using assms win_docD(1) [OF assms(1), of "wk w"]
  by (simp add: win_ctx_move_ctor_def win_ctx_dtor_def win_docD(9) [OF assms(1)])

text \<open>
  The driver issues its reads with one \<open>OVERLAPPED\<close>: from the second round on it passes the address
  of an operation that is still under way, when the first is pending.
\<close>

lemma consumer_reuses_overlapped:
  assumes "win_documented K view" "w_readers w a = Some r" "ov \<noteq> 0"
    and "wn_ReadFile K (we_handle r) buffer 64 ov (wk w) = ((0, 0), k)" "wn_GetLastError K k = ERROR_IO_PENDING"
  shows "\<exists>w1. win_consumer K a buffer ov 1 w = (Inr (), w1) \<and> ov \<in> wv_flight (view (wk w1)) \<and>
    win_consumer K a buffer ov (Suc n) w = win_consumer K a buffer ov n w1"
  using assms win_docD(7) [OF assms(1,3), of "wk w" "we_handle r" buffer 64]
  by (simp add: win_read_def WIN_BUFFER_SIZE_def overlapped_def)

end
