(* ===== verification/Vanilla_Timers.thy ===== *)
theory Vanilla_Timers
  imports Pool_Timer Kqueue_Timer Numbers
begin

text \<open>
  The three timer programs without coroutines (vanilla.cpp of timers/nix-timerfd, timers/osx-kqueue
  and timers/win-pool): a callback or a loop that counts expirations. System calls and what is
  promised of them are those of Fd_Timer, Kqueue_Timer and Pool_Timer; each program is an
  interpretation of the loops of Expiry_Loop.
\<close>

definition DEFAULT_N_EXPIRATIONS :: size_t where
  "DEFAULT_N_EXPIRATIONS = 5"

text \<open>The one argument of all three: a number, or the default.\<close>

definition count_argument :: "string list \<Rightarrow> size_t res" where
  "count_argument argv = (if 1 < length argv then stoul (argv ! 1) else Inr DEFAULT_N_EXPIRATIONS)"

subsection \<open>timerfd\<close>

text \<open>The contexts that events point to, with the descriptor; the callback is the same in all.\<close>

record 'k vanilla_world =
  va_kernel :: 'k
  va_ctxs :: "uptr \<rightharpoonup> fd"
  va_fired :: nat

definition van_arm_timer :: "'k timer_calls \<Rightarrow> fd \<Rightarrow> duration \<Rightarrow> ('k vanilla_world, unit) op" where
  "van_arm_timer K f d w =
     (case duration_cast 1 d of
        Inl e \<Rightarrow> (Inl e, w)
      | Inr secs \<Rightarrow>
          let (ok, k) = sys_timerfd_settime K f (secs, 0) (va_kernel w)
          in (if ok then Inr () else Inl SystemError, w\<lparr>va_kernel := k\<rparr>))"

text \<open>The callback does not read the descriptor; setting the timer anew makes it unreadable.\<close>

definition van_on_timer_expiration :: "'k timer_calls \<Rightarrow> fd \<Rightarrow> ('k vanilla_world, unit) op" where
  "van_on_timer_expiration K f w = van_arm_timer K f (seconds 2) (w\<lparr>va_fired := va_fired w + 1\<rparr>)"

definition van_reactor_turn :: "'k timer_calls \<Rightarrow> fd \<Rightarrow> 'k vanilla_world \<Rightarrow> 'k vanilla_world turn option" where
  "van_reactor_turn K epoller w =
     (case sys_epoll_wait K epoller (va_kernel w) of
        None \<Rightarrow> None
      | Some (WaitFailed, k) \<Rightarrow> Some (Fail SystemError (w\<lparr>va_kernel := k\<rparr>))
      | Some (WaitEvent ev, k) \<Rightarrow>
          let w = w\<lparr>va_kernel := k\<rparr>
          in if ep_events ev AND EPOLLIN \<noteq> 0
             then (case va_ctxs w (ep_ptr ev) of
                     None \<Rightarrow> Some (Fail WildPointer w)
                   | Some f \<Rightarrow>
                       (case van_on_timer_expiration K f w of
                          (Inl e, w) \<Rightarrow> Some (Fail e w) | (Inr _, w) \<Rightarrow> Some (Next w)))
             else Some (Next w))"

definition van_reactor :: "'k timer_calls \<Rightarrow> fd \<Rightarrow> nat \<Rightarrow> 'k vanilla_world \<Rightarrow> (unit res \<times> 'k vanilla_world) option" where
  "van_reactor K epoller n w = count_loop (van_reactor_turn K epoller) n w"

text \<open>
  \<open>main\<close>, with the context at \<open>p\<close>. An exception leaves \<open>main\<close>, so the program is terminated; otherwise the
  destructors close the timer and then the instance.
\<close>

definition van_main :: "'k timer_calls \<Rightarrow> uptr \<Rightarrow> string list \<Rightarrow> 'k \<Rightarrow> (unit res \<times> 'k vanilla_world) option" where
  "van_main K p argv k =
     (let w = \<lparr>va_kernel = k, va_ctxs = Map.empty, va_fired = 0\<rparr> in
      case count_argument argv of
        Inl e \<Rightarrow> Some (Inl e, w)
      | Inr n \<Rightarrow>
          let (ioc, k) = sys_epoll_create K k
          in if ioc = -1 then Some (Inl SystemError, w\<lparr>va_kernel := k\<rparr>)
             else let (f, k) = sys_timerfd_create K k
                  in if f = -1 then Some (Inl SystemError, w\<lparr>va_kernel := k\<rparr>)
                     else let (r, k) = sys_epoll_ctl K ioc CtlAdd f \<lparr>ep_events = EPOLLIN, ep_ptr = p\<rparr> k;
                              w = w\<lparr>va_kernel := k, va_ctxs := [p \<mapsto> f]\<rparr>
                          in if r \<noteq> None then Some (Inl SystemError, w)
                             else (case van_arm_timer K f (seconds 2) w of
                                     (Inl e, w) \<Rightarrow> Some (Inl e, w)
                                   | (Inr _, w) \<Rightarrow>
                                       (case van_reactor K ioc (unat n) w of
                                          None \<Rightarrow> None
                                        | Some (Inl e, w) \<Rightarrow> Some (Inl e, w)
                                        | Some (Inr _, w) \<Rightarrow>
                                            Some (Inr (), w\<lparr>va_kernel := sys_close K ioc (sys_close K f (va_kernel w))\<rparr>))))"

text \<open>The timer is armed or has expired, and is the only thing the instance watches.\<close>

definition van_waiting ::
  "'k timer_calls \<Rightarrow> ('k \<Rightarrow> kernel_view) \<Rightarrow> uptr \<Rightarrow> fd \<Rightarrow> fd \<Rightarrow> 'k vanilla_world \<Rightarrow> bool" where
  "van_waiting K view p ioc f w \<longleftrightarrow>
     timerfd_documented K view \<and> wait_never_fails K \<and> va_ctxs w p = Some f \<and>
     kv_interest (view (va_kernel w)) ioc = [f \<mapsto> \<lparr>ep_events = EPOLLIN, ep_ptr = p\<rparr>] \<and>
     (kv_timer (view (va_kernel w)) f = Some (Armed 2 0) \<or> kv_timer (view (va_kernel w)) f = Some Expired)"

lemma two_whole_seconds: "duration_cast 1 (seconds 2) = Inr 2"
  by (simp add: duration_cast_def checked64_def in_int64_def signed_divide_int_def)

lemma van_arms:
  assumes doc: "timerfd_documented K view" and k: "kv_timer (view (va_kernel w)) f \<noteq> None"
  shows "\<exists>k'. van_arm_timer K f (seconds 2) w = (Inr (), w\<lparr>va_kernel := k'\<rparr>) \<and>
    view k' = (view (va_kernel w))\<lparr>kv_timer := (kv_timer (view (va_kernel w)))(f \<mapsto> Armed 2 0)\<rparr>"
proof -
  obtain ok k' where s: "sys_timerfd_settime K f (2, 0) (va_kernel w) = (ok, k')" by fastforce
  note v = settime_view [OF doc s]
  have ok using v(1) k by simp
  then show ?thesis using v(2) s by (auto simp: van_arm_timer_def two_whole_seconds)
qed

lemma van_round:
  assumes w: "van_waiting K view p ioc f w"
  shows "\<exists>w'. van_reactor_turn K ioc w = Some (Next w') \<and> va_fired w' = Suc (va_fired w) \<and> van_waiting K view p ioc f w'"
proof -
  note inv = w [unfolded van_waiting_def]
  then have doc: "timerfd_documented K view" by simp
  have fire: "may_fire (view (va_kernel w)) ioc f"
    using inv by (auto simp: may_fire_def epoll_bits)
  obtain ev k' where wait: "sys_epoll_wait K ioc (va_kernel w) = Some (WaitEvent ev, k')"
    using fire wait_blocks [OF doc, of ioc "va_kernel w" f] inv
    by (metis wait_never_fails_def not_Some_eq surj_pair wait_result.exhaust)
  note v = wait_view [OF doc wait]
  have p: "ep_ptr ev = p" "kv_timer (view k') f = Some Expired"
    using v(3) inv by (auto split: if_splits)
  have i: "kv_interest (view k') ioc = [f \<mapsto> \<lparr>ep_events = EPOLLIN, ep_ptr = p\<rparr>]"
    using v(1) inv by (simp add: time_passes_def)
  let ?w = "w\<lparr>va_kernel := k', va_fired := va_fired w + 1\<rparr>"
  obtain k2 where k2: "van_arm_timer K f (seconds 2) ?w = (Inr (), ?w\<lparr>va_kernel := k2\<rparr>)"
    "view k2 = (view k')\<lparr>kv_timer := (kv_timer (view k'))(f \<mapsto> Armed 2 0)\<rparr>"
    using van_arms [OF doc, of ?w f] p(2) by auto
  then have "van_reactor_turn K ioc w = Some (Next (?w\<lparr>va_kernel := k2\<rparr>))"
    using v(2) p(1) inv by (simp add: van_reactor_turn_def wait van_on_timer_expiration_def epoll_bits)
  then show ?thesis using inv i k2 by (auto simp: van_waiting_def)
qed

interpretation van: expiry_loop "van_reactor_turn K ioc" "\<lambda>c. van_waiting K view p ioc f" "van_waiting K view p ioc f" va_fired
  for K view p ioc f
  using van_round by unfold_locales auto



text \<open>Only whole seconds are passed on: half a second would disarm the timer, and the program would hang.\<close>

lemma short_timeout_disarms:
  assumes "timerfd_documented K view" "duration_cast 1 d = Inr 0" "kv_timer (view (va_kernel w)) f \<noteq> None"
  shows "\<exists>w'. van_arm_timer K f d w = (Inr (), w') \<and> kv_timer (view (va_kernel w')) f = Some Disarmed"
proof -
  obtain ok k' where s: "sys_timerfd_settime K f (0, 0) (va_kernel w) = (ok, k')" by fastforce
  show ?thesis using settime_view [OF assms(1) s] assms(2,3) s by (auto simp: van_arm_timer_def)
qed

subsection \<open>kqueue\<close>

definition EV_DELETE :: u32 where "EV_DELETE = 2"
definition EV_DISABLE :: u32 where "EV_DISABLE = 8"

record 'k kq_vanilla =
  kq_kernel :: 'k
  kq_fired :: nat

text \<open>A periodic timer: without \<open>EV_ONESHOT\<close> it goes on.\<close>

definition periodic_event :: "uptr \<Rightarrow> int \<Rightarrow> kevent" where
  "periodic_event ident us = \<lparr>ke_ident = ident, ke_filter = EVFILT_TIMER, ke_flags = EV_ADD,
     ke_fflags = NOTE_USECONDS, ke_data = us, ke_udata = 0\<rparr>"

definition register_timer :: "'k kq_calls \<Rightarrow> fd \<Rightarrow> uptr \<Rightarrow> duration \<Rightarrow> ('k kq_vanilla, unit) op" where
  "register_timer K i ident d w =
     (case duration_cast micro_per_second d of
        Inl e \<Rightarrow> (Inl e, w)
      | Inr us \<Rightarrow>
          let (ok, k) = sys_kevent_change K i (periodic_event ident us) (kq_kernel w)
          in (if ok then Inr () else Inl SystemError, w\<lparr>kq_kernel := k\<rparr>))"

definition removal_event :: "uptr \<Rightarrow> kevent" where
  "removal_event ident = \<lparr>ke_ident = ident, ke_filter = EVFILT_TIMER, ke_flags = EV_DISABLE OR EV_DELETE,
     ke_fflags = 0, ke_data = 0, ke_udata = 0\<rparr>"

definition unregister_timer :: "'k kq_calls \<Rightarrow> fd \<Rightarrow> uptr \<Rightarrow> ('k kq_vanilla, unit) op" where
  "unregister_timer K i ident w =
     (let (ok, k) = sys_kevent_change K i (removal_event ident) (kq_kernel w)
      in (if ok then Inr () else Inl SystemError, w\<lparr>kq_kernel := k\<rparr>))"

definition kqv_reactor_turn :: "'k kq_calls \<Rightarrow> fd \<Rightarrow> uptr \<Rightarrow> 'k kq_vanilla \<Rightarrow> 'k kq_vanilla turn option" where
  "kqv_reactor_turn K i ident w =
     (case sys_kevent_wait K i (kq_kernel w) of
        None \<Rightarrow> None
      | Some (None, k) \<Rightarrow> Some (Break (w\<lparr>kq_kernel := k\<rparr>))
      | Some (Some ev, k) \<Rightarrow>
          Some (Next (w\<lparr>kq_kernel := k, kq_fired := kq_fired w + (if ident = ke_ident ev then 1 else 0)\<rparr>)))"

definition kqv_reactor ::
  "'k kq_calls \<Rightarrow> fd \<Rightarrow> uptr \<Rightarrow> nat \<Rightarrow> 'k kq_vanilla \<Rightarrow> (unit res \<times> 'k kq_vanilla) option" where
  "kqv_reactor K i ident n w = count_loop (kqv_reactor_turn K i ident) n w"

definition kqv_main :: "'k kq_calls \<Rightarrow> string list \<Rightarrow> 'k \<Rightarrow> (unit res \<times> 'k kq_vanilla) option" where
  "kqv_main K argv k =
     (let w = \<lparr>kq_kernel = k, kq_fired = 0\<rparr> in
      case count_argument argv of
        Inl e \<Rightarrow> Some (Inl e, w)
      | Inr n \<Rightarrow>
          let (i, k) = sys_kqueue K k; w = w\<lparr>kq_kernel := k\<rparr>
          in if i = -1 then Some (Inl SystemError, w)
             else (case register_timer K i 0 (seconds 3) w of
                     (Inl e, w) \<Rightarrow> Some (Inl e, w)
                   | (Inr _, w) \<Rightarrow>
                       (case kqv_reactor K i 0 (unat n) w of
                          None \<Rightarrow> None
                        | Some (Inl e, w) \<Rightarrow> Some (Inl e, w)
                        | Some (Inr _, w) \<Rightarrow>
                            Some (andthen (unregister_timer K i 0 w)
                              (\<lambda>_ w. (Inr (), w\<lparr>kq_kernel := sys_kq_close K i (kq_kernel w)\<rparr>))))))"

text \<open>
  What is promised here: an added event stays until it is deleted, deleting what is not there fails, and
  a wait returns a registered event and keeps it.
\<close>

definition kq_periodic :: "'k kq_calls \<Rightarrow> 'k kq_view \<Rightarrow> bool" where
  "kq_periodic K view \<longleftrightarrow>
     (\<forall>k. (let (i, k') = sys_kqueue K k in view k' = view k \<and> (i \<noteq> -1 \<longrightarrow> view k i = (\<lambda>_. None)))) \<and>
     (\<forall>i u us k. view (snd (sys_kevent_change K i (periodic_event u us) k)) =
        (if fst (sys_kevent_change K i (periodic_event u us) k)
         then (view k)(i := (view k i)(u \<mapsto> periodic_event u us)) else view k)) \<and>
     (\<forall>i u k. fst (sys_kevent_change K i (removal_event u) k) = (view k i u \<noteq> None) \<and>
        view (snd (sys_kevent_change K i (removal_event u) k)) = (view k)(i := (view k i)(u := None))) \<and>
     (\<forall>i k. case sys_kevent_wait K i k of
        None \<Rightarrow> view k i = (\<lambda>_. None)
      | Some (None, k') \<Rightarrow> view k' = view k
      | Some (Some ev, k') \<Rightarrow> view k i (ke_ident ev) \<noteq> None \<and>
          ((\<exists>us. view k i (ke_ident ev) = Some (periodic_event (ke_ident ev) us)) \<longrightarrow> view k' = view k))"

definition kqv_waiting :: "'k kq_calls \<Rightarrow> 'k kq_view \<Rightarrow> fd \<Rightarrow> uptr \<Rightarrow> 'k kq_vanilla \<Rightarrow> bool" where
  "kqv_waiting K view i ident w \<longleftrightarrow>
     kq_periodic K view \<and> (\<forall>i k k'. sys_kevent_wait K i k \<noteq> Some (None, k')) \<and>
     (\<exists>us. view (kq_kernel w) i = [ident \<mapsto> periodic_event ident us])"

lemma kqv_round:
  assumes "kqv_waiting K view i ident w"
  shows "\<exists>w'. kqv_reactor_turn K i ident w = Some (Next w') \<and> kq_fired w' = Suc (kq_fired w) \<and> kqv_waiting K view i ident w'"
proof -
  obtain us where inv: "kq_periodic K view" "\<And>i k k'. sys_kevent_wait K i k \<noteq> Some (None, k')"
    and us: "view (kq_kernel w) i = [ident \<mapsto> periodic_event ident us]"
    using assms by (auto simp: kqv_waiting_def)
  note d = inv(1) [unfolded kq_periodic_def, THEN conjunct2, THEN conjunct2, THEN conjunct2,
      THEN spec [of _ i], THEN spec [of _ "kq_kernel w"]]
  have "view (kq_kernel w) i \<noteq> (\<lambda>_. None)" unfolding us by (metis fun_upd_same option.distinct(1))
  then have "sys_kevent_wait K i (kq_kernel w) \<noteq> None" using d by (auto split: option.splits)
  then obtain ev k' where wait: "sys_kevent_wait K i (kq_kernel w) = Some (Some ev, k')"
    using inv(2) by (metis not_Some_eq surj_pair)
  have "ke_ident ev = ident" "view k' = view (kq_kernel w)"
    using d us by (auto simp: wait split: if_splits)
  then show ?thesis
    using inv us by (auto simp: kqv_reactor_turn_def wait kqv_waiting_def)
qed

interpretation kqv: expiry_loop "kqv_reactor_turn K i ident" "\<lambda>c. kqv_waiting K view i ident" "kqv_waiting K view i ident" kq_fired
  for K view i ident
  using kqv_round by unfold_locales auto

text \<open>The macOS program returns after its number of expirations and has deleted its timer.\<close>

lemma kqv_main_returns:
  assumes doc: "kq_periodic K view" "\<And>i k k'. sys_kevent_wait K i k \<noteq> Some (None, k')"
      "\<And>i u us k. fst (sys_kevent_change K i (periodic_event u us) k)"
    and n: "count_argument argv = Inr n" and i: "sys_kqueue K k = (i, k1)" "i \<noteq> -1"
  shows "\<exists>w k2. kqv_main K argv k = Some (Inr (), w) \<and> kq_fired w = unat n \<and>
    kq_kernel w = sys_kq_close K i k2 \<and> view k2 i = (\<lambda>_. None)"
proof -
  let ?w = "\<lparr>kq_kernel = k1, kq_fired = 0\<rparr>"
  have us: "duration_cast micro_per_second (seconds 3) = Inr 3000000"
    by (simp add: duration_cast_def checked64_def in_int64_def signed_divide_int_def)
  have empty: "view k1 i = (\<lambda>_. None)"
    using doc(1) [unfolded kq_periodic_def, THEN conjunct1, THEN spec [of _ k]] i by simp
  obtain k2 where k2: "sys_kevent_change K i (periodic_event 0 3000000) k1 = (True, k2)"
    using doc(3) [of i 0 3000000 k1] by (metis eq_fst_iff)
  have v2: "view k2 i = [0 \<mapsto> periodic_event 0 3000000]"
    using doc(1) [unfolded kq_periodic_def, THEN conjunct2, THEN conjunct1, THEN spec [of _ i], THEN spec [of _ 0],
      THEN spec [of _ 3000000], THEN spec [of _ k1]] k2 empty by simp
  have reg: "register_timer K i 0 (seconds 3) ?w = (Inr (), ?w\<lparr>kq_kernel := k2\<rparr>)"
    using k2 us by (simp add: register_timer_def)
  have w: "kqv_waiting K view i 0 (?w\<lparr>kq_kernel := k2\<rparr>)"
    using doc v2 by (auto simp: kqv_waiting_def)
  obtain w3 where w3: "kqv_reactor K i 0 (unat n) (?w\<lparr>kq_kernel := k2\<rparr>) = Some (Inr (), w3)"
    "kq_fired w3 = unat n" "kqv_waiting K view i 0 w3"
  proof (cases "unat n = 0")
    case True
    then show thesis using that w by (simp add: kqv_reactor_def)
  next
    case False
    then show thesis using that kqv.all_rounds [OF _ w, of "unat n"] by (auto simp: kqv_reactor_def)
  qed
  obtain ok k4 where k4: "sys_kevent_change K i (removal_event 0) (kq_kernel w3) = (ok, k4)" by fastforce
  have ok "view k4 i = (\<lambda>_. None)"
    using doc(1) [unfolded kq_periodic_def, THEN conjunct2, THEN conjunct2, THEN conjunct1, THEN spec [of _ i],
      THEN spec [of _ 0], THEN spec [of _ "kq_kernel w3"]] w3(3) k4 by (auto simp: kqv_waiting_def fun_eq_iff)
  then show ?thesis
    using n i reg w3 k4 by (auto simp: kqv_main_def unregister_timer_def)
qed

text \<open>A queue that keeps these promises.\<close>

definition kqp_table_calls :: "table_kq kq_calls" where
  "kqp_table_calls = kq_table_calls\<lparr>
     sys_kevent_change := (\<lambda>i ev k.
       if ke_flags ev = EV_ADD then (True, k\<lparr>tq_events := (i, ev) # tq_events k\<rparr>)
       else (tq_view k i (ke_ident ev) \<noteq> None,
             k\<lparr>tq_events := filter (\<lambda>y. tq_key y \<noteq> (i, ke_ident ev)) (tq_events k)\<rparr>)),
     sys_kevent_wait := (\<lambda>i k. map_option (\<lambda>x. (Some (snd x), k)) (find (\<lambda>x. fst x = i) (tq_events k)))\<rparr>"

lemma kqp_table_periodic: "kq_periodic kqp_table_calls tq_view"
proof -
  have create: "\<forall>k. (let (i, k') = sys_kqueue kq_table_calls k in tq_view k' = tq_view k \<and> (i \<noteq> -1 \<longrightarrow> tq_view k i = (\<lambda>_. None)))"
    using kq_table_documented by (simp add: kqueue_documented_def)
  have add: "tq_view (k\<lparr>tq_events := (i, periodic_event u us) # tq_events k\<rparr>) =
      (tq_view k)(i := (tq_view k i)(u \<mapsto> periodic_event u us))" for i u us k
    by (auto simp: fun_eq_iff tq_view_def tq_key_def periodic_event_def)
  have del: "tq_view (k\<lparr>tq_events := filter (\<lambda>y. tq_key y \<noteq> (i, u)) (tq_events k)\<rparr>) =
      (tq_view k)(i := (tq_view k i)(u := None))" for i u k
    by (simp add: fun_eq_iff tq_view_def find_filter_key)
  have none: "tq_view k i = (\<lambda>_. None)" if "find (\<lambda>x. fst x = i) (tq_events k) = None" for i k
    using that by (intro tq_view_none) (auto simp: find_None_iff)
  show ?thesis
    unfolding kq_periodic_def kqp_table_calls_def
    using create add del none tq_wait_view(1)
    by (simp add: periodic_event_def removal_event_def EV_ADD_def EV_DELETE_def EV_DISABLE_def split: option.split)
qed

subsection \<open>Thread-pool timer\<close>

text \<open>The context of the callback; \<open>unsigned long\<close> has 32 bits here. The timer is not an object of the program.\<close>

record 'k vpool_world =
  vp_base :: "'k tpool_world"
  vp_ctx :: uptr
  vp_count :: u32
  vp_max :: u32
  vp_event :: handle_value
  vp_fired :: nat

definition vp_timeout_to_filetime :: "duration \<Rightarrow> pool_filetime res" where
  "vp_timeout_to_filetime d =
     bindE (duration_cast nano_per_second d) (\<lambda>ns.
       let tmp = word_of_int (-1 * (ns sdiv 100)) :: 64 word
       in Inr \<lparr>pf_low = ucast tmp, pf_high = ucast (drop_bit 32 tmp)\<rparr>)"

text \<open>The callback: the last expiration sets the event, any other the timer.\<close>

definition vp_on_timer_expiration :: "'k pool_calls \<Rightarrow> handle_value \<Rightarrow> ('k vpool_world, unit) op" where
  "vp_on_timer_expiration K timer w =
     (let w = w\<lparr>vp_count := vp_count w + 1, vp_fired := vp_fired w + 1\<rparr> in
      if vp_max w \<le> vp_count w
      then (Inr (), w\<lparr>vp_base := (vp_base w)\<lparr>pw_kernel := sys_SetEvent K (vp_event w) (pw_kernel (vp_base w))\<rparr>\<rparr>)
      else (case vp_timeout_to_filetime (seconds 2) of
              Inl e \<Rightarrow> (Inl e, w)
            | Inr due_time \<Rightarrow>
                (Inr (), w\<lparr>vp_base := (vp_base w)\<lparr>pw_kernel := sys_SetTimer K timer due_time (pw_kernel (vp_base w))\<rparr>\<rparr>)))"

definition vp_turn :: "'k pool_calls \<Rightarrow> handle_value \<Rightarrow> 'k vpool_world \<Rightarrow> 'k vpool_world turn option" where
  "vp_turn K timer w =
     (case sys_next_callback K (pw_kernel (vp_base w)) of
        None \<Rightarrow> None
      | Some (p, k) \<Rightarrow>
          let w = w\<lparr>vp_base := (vp_base w)\<lparr>pw_kernel := k\<rparr>\<rparr>
          in if p \<noteq> vp_ctx w then Some (Fail WildPointer w)
             else (case vp_on_timer_expiration K timer w of
                     (Inl e, w) \<Rightarrow> Some (Fail e w) | (Inr _, w) \<Rightarrow> Some (Next w)))"

text \<open>\<open>main\<close>, with the IO context at \<open>ioc\<close> and the timer's context at \<open>p\<close>.\<close>

definition vp_main ::
  "'k pool_calls \<Rightarrow> uptr \<Rightarrow> uptr \<Rightarrow> u32 \<Rightarrow> 'k \<Rightarrow> (unit res \<times> 'k vpool_world) option" where
  "vp_main K ioc p max_count k =
     (let start = \<lparr>vp_base = tpool_start k, vp_ctx = p, vp_count = 0, vp_max = max_count, vp_event = 0, vp_fired = 0\<rparr> in
      case io_context_ctor K ioc 1 (tpool_start k) of
        (Inl e, b) \<Rightarrow> Some (Inl e, start\<lparr>vp_base := b\<rparr>)
      | (Inr _, b) \<Rightarrow>
          (case pw_iocs b ioc of
             None \<Rightarrow> Some (Inl WildPointer, start\<lparr>vp_base := b\<rparr>)
           | Some c \<Rightarrow>
               let (timer, k) = sys_CreateTimer K p (ic_env c) (pw_kernel b);
                   w = start\<lparr>vp_base := b\<lparr>pw_kernel := k\<rparr>, vp_event := ic_event c\<rparr>
               in if timer = 0 then Some (Inl SystemError, w)
                  else (case vp_timeout_to_filetime (seconds 2) of
                          Inl e \<Rightarrow> Some (Inl e, w)
                        | Inr due_time \<Rightarrow>
                            map_option (\<lambda>r. andthen r (\<lambda>_ w.
                                case io_context_dtor K ioc ((vp_base w)\<lparr>pw_kernel := ioc_wait_close K c (pw_kernel (vp_base w))\<rparr>) of
                                  (x, b) \<Rightarrow> (x, w\<lparr>vp_base := b\<rparr>)))
                              (until_loop (\<lambda>w. sys_event_is_set K (pw_kernel (vp_base w)) (ic_event c)) (vp_turn K timer)
                                (w\<lparr>vp_base := (vp_base w)\<lparr>pw_kernel := sys_SetTimer K timer due_time (pw_kernel (vp_base w))\<rparr>\<rparr>)))))"

lemma vp_filetime: "\<exists>ft. vp_timeout_to_filetime (seconds 2) = Inr ft"
  by (simp add: vp_timeout_to_filetime_def duration_cast_def checked64_def in_int64_def signed_divide_int_def Let_def)

text \<open>\<open>c\<close> rounds to go: the count has \<open>c\<close> steps to the maximum, or one if the maximum is zero.\<close>

definition vp_waiting ::
  "'k pool_calls \<Rightarrow> ('k \<Rightarrow> pool_view) \<Rightarrow> uptr \<Rightarrow> handle_value \<Rightarrow> uptr \<Rightarrow> handle_value \<Rightarrow> nat \<Rightarrow> 'k vpool_world \<Rightarrow> bool" where
  "vp_waiting K view p timer ioc event c w \<longleftrightarrow>
     pool_documented K view \<and> timer \<noteq> 0 \<and> vp_ctx w = p \<and> vp_event w = event \<and> pw_iocs (vp_base w) ioc \<noteq> None \<and>
     pv_timers (view (pw_kernel (vp_base w))) = [timer \<mapsto> (p, True)] \<and>
     \<not> pv_events (view (pw_kernel (vp_base w))) event \<and>
     c = (if vp_count w = 0 \<and> vp_max w = 0 then 1 else unat (vp_max w) - unat (vp_count w)) \<and> 0 < c"

definition vp_finished :: "'k pool_calls \<Rightarrow> ('k \<Rightarrow> pool_view) \<Rightarrow> uptr \<Rightarrow> handle_value \<Rightarrow> 'k vpool_world \<Rightarrow> bool" where
  "vp_finished K view ioc event w \<longleftrightarrow>
     pool_documented K view \<and> pw_iocs (vp_base w) ioc \<noteq> None \<and> pv_events (view (pw_kernel (vp_base w))) event"

lemma vp_round:
  assumes w: "vp_waiting K view p timer ioc event (Suc c) w"
  shows "\<exists>w'. vp_turn K timer w = Some (Next w') \<and> vp_fired w' = Suc (vp_fired w) \<and>
    (if c = 0 then vp_finished K view ioc event w' else vp_waiting K view p timer ioc event c w')"
proof -
  note inv = w [unfolded vp_waiting_def]
  have doc: "pool_documented K view" using inv by simp
  have t: "pv_timers (view (pw_kernel (vp_base w))) timer = Some (p, True)" using inv by simp
  obtain a k' g where cb: "sys_next_callback K (pw_kernel (vp_base w)) = Some (a, k')"
    "pv_timers (view (pw_kernel (vp_base w))) g = Some (a, True)"
    "view k' = (view (pw_kernel (vp_base w)))\<lparr>pv_timers := (pv_timers (view (pw_kernel (vp_base w))))(g \<mapsto> (a, False))\<rparr>"
    by (rule callback_view [OF doc t])
  have g: "a = p" "g = timer" using cb(2) inv by (auto split: if_splits)
  obtain ft where ft: "vp_timeout_to_filetime (seconds 2) = Inr ft" using vp_filetime by blast
  have small: "unat (vp_count w) < 2 ^ 32 - 1"
  proof (cases "vp_max w = 0")
    case True
    then show ?thesis using inv by (auto split: if_splits)
  next
    case False
    have "unat (vp_max w) < 2 ^ 32" by (rule order.strict_trans2 [OF unsigned_less]) simp
    moreover have "unat (vp_count w) < unat (vp_max w)" using inv False by (auto split: if_splits)
    ultimately show ?thesis by simp
  qed
  then have step: "unat (vp_count w + 1) = Suc (unat (vp_count w))" by (simp add: unat_word_ariths)
  have last: "vp_max w \<le> vp_count w + 1 \<longleftrightarrow> c = 0"
    using inv step by (auto simp: word_le_nat_alt split: if_splits)
  show ?thesis
  proof (cases "c = 0")
    case True
    then show ?thesis
      using inv cb(1) g last by (simp add: vp_turn_def vp_on_timer_expiration_def Let_def vp_finished_def pool_view [OF doc])
  next
    case False
    have nz: "vp_count w + 1 \<noteq> 0" using step by auto
    have "c = unat (vp_max w) - unat (vp_count w + 1)" using inv False step by (auto split: if_splits)
    then show ?thesis
      using inv cb(1,3) g last False ft nz
      by (simp add: vp_turn_def vp_on_timer_expiration_def Let_def vp_waiting_def pool_view [OF doc])
  qed
qed

interpretation vpool: stopping_loop "vp_turn K timer" "vp_waiting K view p timer ioc event" "vp_finished K view ioc event" vp_fired
    "\<lambda>w. pool_documented K view \<and> sys_event_is_set K (pw_kernel (vp_base w)) event"
  for K view p timer ioc event
  by unfold_locales (auto simp: vp_round vp_waiting_def vp_finished_def pool_view)

text \<open>
  The Windows program returns after as many expirations as it is asked for, but after one if it is asked for none,
  since the callback counts before it compares.
\<close>

lemma vp_main_returns:
  assumes doc: "pool_documented K view"
    and c: "io_context_ctor K ioc 1 (tpool_start k) = (Inr (), b)" "pw_iocs b ioc = Some c"
      "pv_timers (view (pw_kernel b)) = Map.empty" "\<not> pv_events (view (pw_kernel b)) (ic_event c)"
    and t: "sys_CreateTimer K p (ic_env c) (pw_kernel b) = (timer, k1)" "timer \<noteq> 0"
  shows "\<exists>w. vp_main K ioc p max_count k = Some (Inr (), w) \<and> vp_fired w = max 1 (unat max_count)"
proof -
  obtain ft where ft: "vp_timeout_to_filetime (seconds 2) = Inr ft" using vp_filetime by blast
  let ?w = "\<lparr>vp_base = b\<lparr>pw_kernel := sys_SetTimer K timer ft k1\<rparr>, vp_ctx = p, vp_count = 0, vp_max = max_count,
     vp_event = ic_event c, vp_fired = 0\<rparr>"
  have w: "vp_waiting K view p timer ioc (ic_event c) (max 1 (unat max_count)) ?w"
    using doc c t pool_view(1) [OF doc t] by (auto simp: vp_waiting_def pool_view [OF doc] max_def unat_eq_0 Suc_le_eq unat_gt_0)
  have eq: "(\<lambda>w. pool_documented K view \<and> sys_event_is_set K (pw_kernel (vp_base w)) (ic_event c)) =
      (\<lambda>w. sys_event_is_set K (pw_kernel (vp_base w)) (ic_event c))" using doc by simp
  have "0 < max 1 (unat max_count)" by simp
  from vpool.stops_after_all_rounds [OF this w, unfolded eq] obtain w' where w': "until_loop (\<lambda>w. sys_event_is_set K (pw_kernel (vp_base w)) (ic_event c)) (vp_turn K timer) ?w =
      Some (Inr (), w')" "vp_finished K view ioc (ic_event c) w'" "vp_fired w' = max 1 (unat max_count)"
    by auto
  then show ?thesis
    using c t ft by (auto simp: vp_main_def Let_def vp_finished_def io_context_dtor_def)
qed

end
