(* ===== verification/Frame_Memory.thy ===== *)
theory Frame_Memory
  imports Throttling Allocator
begin

text \<open>
  The engine of \<open>Throttling\<close> with the memory its coroutines live in. A frame is allocated and given back
  through the allocator of the program, its promise points to the throttler that owns it, and a
  task object holds its handle until the throttler takes it: \<open>root_task\<close> and \<open>throttler\<close> of
  applications/binary-search/coro_infra.hpp, and under other names \<open>LookupKVTask\<close> and \<open>Throttler\<close> of
  applications/map. A handle is the address of the frame, as a number; the block of a destroyed
  frame holds the header of the list of free blocks, that of a live one does not.

  Every successful run of \<open>Throttling\<close> is one of this machine that meets no null owner, no frame in
  use and no freed block (\<open>coro_resume_sim\<close>, \<open>drain_queue_sim\<close>); the number of calls of \<open>malloc\<close> stays
  below the number of streams plus two, because blocks come back.
\<close>

subsection \<open>Frames, tasks and their surroundings\<close>

record 'f coro_cell =
  p_owner :: uptr
  cell_point :: 'f

type_synonym root_task = "nat option"

record ('f, 'r, 'q, 'a) coro_world =
  cw_queue :: 'q
  cw_frames :: "nat \<rightharpoonup> 'f coro_cell"
  cw_limit :: size_t
  cw_results :: "'r list"
  cw_heap :: "'a free_list_scheme"
  cw_mallocs :: nat

text \<open>
  What a program fixes: its coroutine, its queue, its allocator, the size of a frame, the address of
  the throttler, and what \<open>::malloc\<close> answers at its \<open>k\<close>-th call.
\<close>

record ('f, 'r, 'q, 'a) coro_env =
  e_step :: "('f, 'r) body"
  e_push :: "'q push_op"
  e_pop :: "'q pop_op"
  e_try_pop :: "'q pop_op"
  e_alloc :: "size_t \<Rightarrow> uptr \<Rightarrow> 'a free_list_scheme \<Rightarrow> (uptr \<times> 'a free_list_scheme) res"
  e_release :: "uptr \<Rightarrow> size_t \<Rightarrow> 'a free_list_scheme \<Rightarrow> 'a free_list_scheme res"
  e_malloc :: "nat \<Rightarrow> uptr"
  e_size :: size_t
  e_throttler :: uptr

subsection \<open>The promise\<close>

text \<open>Both allocators turn to \<open>malloc\<close> when the list of free blocks does not serve them.\<close>

definition malloc_called :: "size_t \<Rightarrow> 'a free_list_scheme \<Rightarrow> bool" where
  "malloc_called n a = (case recycle n a of Inr (None, _) \<Rightarrow> True | _ \<Rightarrow> False)"

definition operator_new ::
  "('f, 'r, 'q, 'a) coro_env \<Rightarrow> ('f, 'r, 'q, 'a) coro_world \<Rightarrow> (uptr \<times> ('f, 'r, 'q, 'a) coro_world) res" where
  "operator_new E v =
     bindE (e_alloc E (e_size E) (e_malloc E (cw_mallocs v)) (cw_heap v)) (\<lambda>(p, a).
       Inr (p, v\<lparr>cw_heap := a,
                 cw_mallocs := cw_mallocs v + (if malloc_called (e_size E) (cw_heap v) then 1 else 0)\<rparr>))"

definition operator_delete ::
  "('f, 'r, 'q, 'a) coro_env \<Rightarrow> uptr \<Rightarrow> ('f, 'r, 'q, 'a) coro_world \<Rightarrow> ('f, 'r, 'q, 'a) coro_world res" where
  "operator_delete E p v =
     bindE (e_release E p (e_size E) (cw_heap v)) (\<lambda>a. Inr (v\<lparr>cw_heap := a\<rparr>))"

text \<open>
  Calling the coroutine: the frame is allocated and its promise built there, with no owner, over
  whatever the block held; \<open>initial_suspend\<close> suspends, and the caller gets the task. A block in use
  is a failure, as is the null pointer that \<open>tcalloc\<close> passes on.
\<close>

definition create_coroutine ::
  "('f, 'r, 'q, 'a) coro_env \<Rightarrow> 'f \<Rightarrow> ('f, 'r, 'q, 'a) coro_world \<Rightarrow>
   (root_task \<times> ('f, 'r, 'q, 'a) coro_world) res" where
  "create_coroutine E f v =
     bindE (operator_new E v) (\<lambda>(p, v).
       if p = 0 then Inl NullDeref
       else if unat p \<in> dom (cw_frames v) then Inl WildPointer
       else Inr (Some (unat p),
              v\<lparr>cw_frames := (cw_frames v)(unat p \<mapsto> \<lparr>p_owner = 0, cell_point = f\<rparr>),
                cw_heap := (cw_heap v)\<lparr>fl_headers := (fl_headers (cw_heap v))(p := None)\<rparr>\<rparr>))"

definition handle_destroy_frame ::
  "('f, 'r, 'q, 'a) coro_env \<Rightarrow> nat \<Rightarrow> ('f, 'r, 'q, 'a) coro_world \<Rightarrow> ('f, 'r, 'q, 'a) coro_world res" where
  "handle_destroy_frame E i v =
     (if i \<in> dom (cw_frames v)
      then operator_delete E (of_nat i) (v\<lparr>cw_frames := (cw_frames v)(i := None)\<rparr>)
      else Inl DeadHandle)"

text \<open>The throttler, reached through a pointer: only the one that exists may be written to.\<close>

definition on_task_done :: "('f, 'r, 'q, 'a) coro_world \<Rightarrow> ('f, 'r, 'q, 'a) coro_world" where
  "on_task_done v = v\<lparr>cw_limit := cw_limit v + 1\<rparr>"

definition return_void ::
  "('f, 'r, 'q, 'a) coro_env \<Rightarrow> 'f coro_cell \<Rightarrow> ('f, 'r, 'q, 'a) coro_world \<Rightarrow>
   ('f, 'r, 'q, 'a) coro_world res" where
  "return_void E c v =
     (if p_owner c = 0 then Inl NullDeref
      else if p_owner c \<noteq> e_throttler E then Inl WildPointer
      else Inr (on_task_done v))"

text \<open>
  The end of a coroutine: its result has been handed over, the throttler is told, and as
  \<open>final_suspend\<close> never suspends the frame is destroyed.
\<close>

definition finish_frame ::
  "('f, 'r, 'q, 'a) coro_env \<Rightarrow> nat \<Rightarrow> 'f coro_cell \<Rightarrow> 'r \<Rightarrow> ('f, 'r, 'q, 'a) coro_world \<Rightarrow>
   ('f, 'r, 'q, 'a) coro_world res" where
  "finish_frame E i c r v =
     bindE (return_void E c (v\<lparr>cw_results := cw_results v @ [r]\<rparr>)) (handle_destroy_frame E i)"

subsection \<open>The task object\<close>

definition set_owner ::
  "uptr \<Rightarrow> root_task \<Rightarrow> ('f, 'r, 'q, 'a) coro_world \<Rightarrow> (nat \<times> root_task \<times> ('f, 'r, 'q, 'a) coro_world) res" where
  "set_owner t task v =
     (case task of
        None \<Rightarrow> Inl NullHandle
      | Some h \<Rightarrow>
          (case cw_frames v h of
             None \<Rightarrow> Inl DeadHandle
           | Some c \<Rightarrow> Inr (h, None, v\<lparr>cw_frames := (cw_frames v)(h \<mapsto> c\<lparr>p_owner := t\<rparr>)\<rparr>)))"

definition root_task_move :: "root_task \<Rightarrow> root_task \<times> root_task" where
  "root_task_move rhs = (rhs, None)"

definition root_task_destroy ::
  "('f, 'r, 'q, 'a) coro_env \<Rightarrow> root_task \<Rightarrow> ('f, 'r, 'q, 'a) coro_world \<Rightarrow> ('f, 'r, 'q, 'a) coro_world res" where
  "root_task_destroy E task v = (case task of None \<Rightarrow> Inr v | Some h \<Rightarrow> handle_destroy_frame E h v)"

subsection \<open>Suspension and resumption\<close>

definition prefetch_suspend ::
  "('f, 'r, 'q, 'a) coro_env \<Rightarrow> nat \<Rightarrow> ('f, 'r, 'q, 'a) coro_world \<Rightarrow>
   nat option \<times> ('f, 'r, 'q, 'a) coro_world" where
  "prefetch_suspend E h v =
     (let (h', q) = e_pop E (e_push E (Some h) (cw_queue v)) in (h', v\<lparr>cw_queue := q\<rparr>))"

partial_function (option) coro_resume ::
  "('f, 'r, 'q, 'a) coro_env \<Rightarrow> nat option \<Rightarrow> ('f, 'r, 'q, 'a) coro_world \<Rightarrow>
   ('f, 'r, 'q, 'a) coro_world res option" where
  "coro_resume E h v =
     (case h of
        None \<Rightarrow> Some (Inl NullHandle)
      | Some i \<Rightarrow>
          (case cw_frames v i of
             None \<Rightarrow> Some (Inl DeadHandle)
           | Some c \<Rightarrow>
               (case e_step E (cell_point c) of
                  Inl e \<Rightarrow> Some (Inl e)
                | Inr (Return r) \<Rightarrow> Some (finish_frame E i c r v)
                | Inr (Suspend f') \<Rightarrow>
                    (let (h', v') = prefetch_suspend E i (v\<lparr>cw_frames := (cw_frames v)(i \<mapsto> c\<lparr>cell_point := f'\<rparr>)\<rparr>)
                     in coro_resume E h' v'))))"

declare coro_resume.simps [code]

subsection \<open>The throttler\<close>

text \<open>The task is a parameter of \<open>spawn\<close>: it is destroyed, empty by then, when \<open>spawn\<close> returns.\<close>

definition throttler_spawn ::
  "('f, 'r, 'q, 'a) coro_env \<Rightarrow> root_task \<Rightarrow> ('f, 'r, 'q, 'a) coro_world \<Rightarrow>
   ('f, 'r, 'q, 'a) coro_world res option" where
  "throttler_spawn E t v =
     bind_run
       (if cw_limit v = 0
        then let (h, q) = e_pop E (cw_queue v) in coro_resume E h (v\<lparr>cw_queue := q\<rparr>)
        else Some (Inr v))
       (\<lambda>v. Some (bindE (set_owner (e_throttler E) t v) (\<lambda>(h, t, v).
            let v = v\<lparr>cw_queue := e_push E (Some h) (cw_queue v)\<rparr>;
                v = v\<lparr>cw_limit := cw_limit v - 1\<rparr>
            in root_task_destroy E t v)))"

fun throttler_spawn_each ::
  "('f, 'r, 'q, 'a) coro_env \<Rightarrow> 'f list \<Rightarrow> ('f, 'r, 'q, 'a) coro_world \<Rightarrow>
   ('f, 'r, 'q, 'a) coro_world res option" where
  "throttler_spawn_each E [] v = Some (Inr v)"
| "throttler_spawn_each E (f # fs) v =
     bind_run (Some (create_coroutine E f v)) (\<lambda>(t, v).
       bind_run (throttler_spawn E t v) (throttler_spawn_each E fs))"

partial_function (option) drain_queue ::
  "('f, 'r, 'q, 'a) coro_env \<Rightarrow> ('f, 'r, 'q, 'a) coro_world \<Rightarrow> ('f, 'r, 'q, 'a) coro_world res option" where
  "drain_queue E v =
     (let (h, q) = e_try_pop E (cw_queue v); v = v\<lparr>cw_queue := q\<rparr>
      in if h = None then Some (Inr v)
         else bind_run (coro_resume E h v) (\<lambda>v. drain_queue E v))"

declare drain_queue.simps [code]

definition throttler_run ::
  "('f, 'r, 'q, 'a) coro_env \<Rightarrow> ('f, 'r, 'q, 'a) coro_world \<Rightarrow> ('f, 'r, 'q, 'a) coro_world res option" where
  "throttler_run E v = drain_queue E v"

definition throttler_destroy ::
  "('f, 'r, 'q, 'a) coro_env \<Rightarrow> ('f, 'r, 'q, 'a) coro_world \<Rightarrow> ('f, 'r, 'q, 'a) coro_world res option" where
  "throttler_destroy E v = throttler_run E v"

text \<open>The scope of a throttler of \<open>n\<close> streams; the queue, the allocator and the frames outlive it.\<close>

definition throttled ::
  "('f, 'r, 'q, 'a) coro_env \<Rightarrow> size_t \<Rightarrow> 'f list \<Rightarrow> ('f, 'r, 'q, 'a) coro_world \<Rightarrow>
   ('f, 'r, 'q, 'a) coro_world res option" where
  "throttled E n fs v =
     (let v = v\<lparr>cw_limit := n, cw_results := []\<rparr>
      in bind_run (throttler_spawn_each E fs v) (\<lambda>v.
           bind_run (throttler_run E v) (throttler_destroy E)))"

subsection \<open>Where the frames are\<close>

text \<open>
  \<open>malloc\<close> keeps its promise for \<open>k\<close> calls: blocks that are not null and not the same (the allocators
  give none back to it before they are destroyed).
\<close>

definition malloc_gives :: "(nat \<Rightarrow> uptr) \<Rightarrow> nat \<Rightarrow> bool" where
  "malloc_gives m k \<longleftrightarrow> inj_on m {..<k} \<and> 0 \<notin> m ` {..<k}"

text \<open>
  The blocks of \<open>malloc\<close>, at most \<open>k\<close>, are the frames and the list \<open>bs\<close> of free blocks, without overlap.
\<close>

definition frames_in ::
  "('f, 'r, 'q, 'a) coro_env \<Rightarrow> nat \<Rightarrow> ('f, 'r, 'q, 'a) coro_world \<Rightarrow> (uptr \<times> size_t) list \<Rightarrow> bool" where
  "frames_in E k v bs \<longleftrightarrow>
     malloc_gives (e_malloc E) k \<and> e_throttler E \<noteq> 0 \<and> cw_mallocs v \<le> k \<and>
     free_on (cw_heap v) bs \<and> distinct (map fst bs) \<and> snd ` set bs \<subseteq> {e_size E} \<and>
     dom (cw_frames v) \<inter> unat ` fst ` set bs = {} \<and>
     dom (cw_frames v) \<union> unat ` fst ` set bs = unat ` e_malloc E ` {..<cw_mallocs v}"

lemma malloc_new:
  assumes "malloc_gives m k" "j < k"
  shows "m j \<noteq> 0" "m j \<notin> m ` {..<j}"
proof -
  show "m j \<noteq> 0" using assms by (force simp: malloc_gives_def)
  have "inj_on m {..<k}" "insert j {..<j} \<subseteq> {..<k}" using assms by (auto simp: malloc_gives_def)
  then have "inj_on m (insert j {..<j})" by (rule inj_on_subset)
  then show "m j \<notin> m ` {..<j}" by simp
qed

lemma malloc_called_simps:
  "free_on a [] \<Longrightarrow> malloc_called n a"
  "free_on a ((p, n) # bs) \<Longrightarrow> \<not> malloc_called n a"
  using recycle_none [of a "[]" n] recycle_head [of a p n bs n] by (auto simp: malloc_called_def)

lemma inj_unat: "inj_on (unat :: 'w :: len word \<Rightarrow> nat) A"
  by (rule inj_onI) (simp add: word_unat_eq_iff)

lemma frames_in_blocks:
  assumes "frames_in E k v bs" "p \<in> fst ` set bs"
  shows "p \<in> e_malloc E ` {..<cw_mallocs v}" "p \<noteq> 0"
proof -
  have "unat p \<in> unat ` e_malloc E ` {..<cw_mallocs v}"
    using assms by (simp only: frames_in_def) blast
  then show "p \<in> e_malloc E ` {..<cw_mallocs v}" by (simp only: inj_image_mem_iff [OF inj_unat])
  moreover have "0 \<notin> e_malloc E ` {..<cw_mallocs v}"
    using assms(1) by (auto simp: frames_in_def malloc_gives_def)
  ultimately show "p \<noteq> 0" by metis
qed

lemma frames_in_frame:
  assumes "frames_in E k v bs" "i \<in> dom (cw_frames v)"
  shows "\<exists>p. i = unat p \<and> p \<noteq> 0 \<and> p \<notin> fst ` set bs"
proof -
  have "i \<in> unat ` e_malloc E ` {..<cw_mallocs v}" using assms unfolding frames_in_def by blast
  then obtain j where j: "i = unat (e_malloc E j)" "j < cw_mallocs v" by blast
  with assms(1) have "e_malloc E j \<noteq> 0" by (force simp: frames_in_def malloc_gives_def)
  moreover have "e_malloc E j \<notin> fst ` set bs" using assms j(1) unfolding frames_in_def by blast
  ultimately show ?thesis using j(1) by blast
qed

lemma frames_in_card:
  assumes "frames_in E k v bs"
  shows "finite (dom (cw_frames v))" "cw_mallocs v = card (dom (cw_frames v)) + length bs"
proof -
  let ?B = "unat ` fst ` set bs"
  have eq: "dom (cw_frames v) \<union> ?B = unat ` e_malloc E ` {..<cw_mallocs v}" "dom (cw_frames v) \<inter> ?B = {}"
    using assms by (simp_all add: frames_in_def)
  then show fin: "finite (dom (cw_frames v))" by (metis finite_UnI finite_Un finite_imageI finite_lessThan)
  have "inj_on (e_malloc E) {..<cw_mallocs v}"
    using assms by (auto simp: frames_in_def malloc_gives_def intro: inj_on_subset)
  then have "card (unat ` e_malloc E ` {..<cw_mallocs v}) = cw_mallocs v"
    by (simp add: card_image inj_unat)
  moreover have "card ?B = length bs"
    using assms distinct_card [of "map fst bs"] by (simp add: frames_in_def card_image [OF inj_unat])
  ultimately show "cw_mallocs v = card (dom (cw_frames v)) + length bs"
    using card_Un_disjoint [OF fin _ eq(2)] eq(1) by simp
qed

lemma frames_in_same:
  "cw_frames v' = cw_frames v \<Longrightarrow> cw_heap v' = cw_heap v \<Longrightarrow> cw_mallocs v' = cw_mallocs v \<Longrightarrow>
    frames_in E k v' bs = frames_in E k v bs"
  by (simp add: frames_in_def)

lemma frames_in_update:
  "i \<in> dom (cw_frames v) \<Longrightarrow> frames_in E k (v\<lparr>cw_frames := (cw_frames v)(i \<mapsto> c)\<rparr>) bs = frames_in E k v bs"
  by (simp add: frames_in_def insert_absorb)

text \<open>What the engine without memory sees: the frames the throttler owns.\<close>

definition shown :: "uptr \<Rightarrow> (nat \<rightharpoonup> 'f coro_cell) \<Rightarrow> nat \<Rightarrow> 'f option" where
  "shown t fr i = (case fr i of None \<Rightarrow> None | Some c \<Rightarrow> if p_owner c = t then Some (cell_point c) else None)"

definition seen :: "('f, 'r, 'q, 'a) coro_env \<Rightarrow> ('f, 'r, 'q, 'a) coro_world \<Rightarrow> ('f, 'r, 'q) world" where
  "seen E v = \<lparr>queue = cw_queue v, frames = shown (e_throttler E) (cw_frames v),
     next_handle = 2 ^ 64, limit = cw_limit v, results = cw_results v\<rparr>"

definition strangers :: "uptr \<Rightarrow> (nat \<rightharpoonup> 'f coro_cell) \<Rightarrow> nat \<Rightarrow> 'f coro_cell option" where
  "strangers t fr i = (case fr i of None \<Rightarrow> None | Some c \<Rightarrow> if p_owner c = t then None else Some c)"

lemma shown_Some: "shown t fr i = Some f \<longleftrightarrow> (\<exists>c. fr i = Some c \<and> p_owner c = t \<and> cell_point c = f)"
  by (auto simp: shown_def split: option.splits)

lemma shown_upd:
  "shown t (fr(i \<mapsto> c)) = (shown t fr)(i := if p_owner c = t then Some (cell_point c) else None)"
  "shown t (fr(i := None)) = (shown t fr)(i := None)"
  by (auto simp: shown_def fun_eq_iff)

lemma strangers_upd:
  "strangers t (fr(i \<mapsto> c)) = (strangers t fr)(i := if p_owner c = t then None else Some c)"
  "strangers t (fr(i := None)) = (strangers t fr)(i := None)"
  by (auto simp: strangers_def fun_eq_iff)

lemma strangers_Some: "strangers t fr i = Some c \<longleftrightarrow> fr i = Some c \<and> p_owner c \<noteq> t"
  by (auto simp: strangers_def split: option.splits)

lemma strangers_owned: "fr i = Some c \<Longrightarrow> p_owner c = t \<Longrightarrow> (strangers t fr)(i := None) = strangers t fr"
  by (auto simp: strangers_def fun_eq_iff)

lemma dom_shown: "strangers t fr = Map.empty \<Longrightarrow> dom (shown t fr) = dom fr"
  by (auto simp: shown_def strangers_def fun_eq_iff dom_def split: option.splits if_splits)

lemma seen_simps:
  "queue (seen E v) = cw_queue v" "frames (seen E v) = shown (e_throttler E) (cw_frames v)"
  "limit (seen E v) = cw_limit v" "results (seen E v) = cw_results v" "next_handle (seen E v) = 2 ^ 64"
  by (simp_all add: seen_def)

subsection \<open>The two halves of spawning, on the engine without memory\<close>

context engine begin

definition admitting :: "nat \<Rightarrow> ('f, 'r, 'q) world \<Rightarrow> nat list \<Rightarrow> bool" where
  "admitting n w is \<longleftrightarrow> live good w is \<and> queued w is \<and> limit w \<noteq> 0 \<and>
     unat (limit w) + length is = n \<and> n \<le> room (queue w)"

lemma make_room:
  assumes "steady n w is" "1 \<le> n"
  shows "\<exists>w' is'. (if limit w = 0 then let (h, q) = pop (queue w) in resume step push pop h (w\<lparr>queue := q\<rparr>)
      else Some (Inr w)) = Some (Inr w') \<and> admitting n w' is' \<and> promised fin w' is' = promised fin w is \<and>
      next_handle w' = next_handle w"
proof (cases "limit w = 0")
  case True
  then have len: "length is = n" using assms by (simp add: steady_def)
  then obtain j js where js: "is = j # js" using assms(2) by (cases "is") auto
  obtain h q where pop: "pop (queue w) = (h, q)" by fastforce
  from resume_next [OF _ _ _ _ this, of j js "[]"] assms js len
  obtain w' is' where "resume step push pop h (w\<lparr>queue := q\<rparr>) = Some (Inr w')"
      "live good w' is'" "queued w' is'" "length is' = length js"
      "promised fin w' is' = promised fin w is" "limit w' = limit w + 1" "room (queue w') = room (queue w)"
      "next_handle w' = next_handle w"
    by (auto simp: steady_def queued_def)
  then show ?thesis using True pop len js assms
    by (intro exI [of _ w'] exI [of _ is']) (simp add: steady_def admitting_def)
qed (use assms in \<open>auto simp: steady_def admitting_def\<close>)

lemma admit:
  assumes wait: "admitting n w is" and h: "h \<notin> dom (frames w)" "h < next_handle w" and "good f"
  defines "w' \<equiv> w\<lparr>frames := (frames w)(h \<mapsto> f), queue := push (Some h) (queue w), limit := limit w - 1\<rparr>"
  shows "steady n w' (is @ [h])" "promised fin w' (is @ [h]) = add_mset (fin f) (promised fin w is)"
proof -
  have "0 < unat (limit w)" using wait by (simp add: admitting_def unat_gt_0)
  then have q: "qinv (queue w)" "length (pend (queue w)) < room (queue w)"
    using wait by (simp_all add: admitting_def queued_def)
  have fresh: "h \<notin> set is" using wait h(1) by (auto simp: admitting_def live_def)
  have "live good w' (is @ [h])"
    using wait h \<open>good f\<close> fresh by (auto simp: admitting_def live_def w'_def)
  then show "steady n w' (is @ [h])"
    using wait push_inv [OF q] push_pend [OF q] push_room [OF q] \<open>0 < unat (limit w)\<close>
    by (simp add: admitting_def steady_def queued_def w'_def unat_pred_size)
  show "promised fin w' (is @ [h]) = add_mset (fin f) (promised fin w is)"
    by (simp add: promised_def w'_def fun_upd_same map_frames_other [OF fresh, of fin "frames w" "Some f"]
        del: fun_upd_apply mset_map)
qed

end

subsection \<open>The engine with memory\<close>

locale framed_engine =
  engine qinv pend room "e_push E" "e_pop E" "e_try_pop E" "e_step E" good fin mu +
  memory: recycler "e_alloc E" "e_release E" free_on
  for E :: "('f, 'r, 'q, 'a) coro_env" and qinv pend room good fin mu
begin

lemma create_ok:
  assumes mem: "frames_in E k v bs" and few: "card (dom (cw_frames v)) < k"
  shows "\<exists>h v' bs'. create_coroutine E f v = Inr (Some h, v') \<and> frames_in E k v' bs' \<and>
    h \<notin> dom (cw_frames v) \<and> h < 2 ^ 64 \<and> cw_frames v' = (cw_frames v)(h \<mapsto> \<lparr>p_owner = 0, cell_point = f\<rparr>) \<and>
    cw_queue v' = cw_queue v \<and> cw_limit v' = cw_limit v \<and> cw_results v' = cw_results v"
proof (cases bs)
  case Nil
  let ?p = "e_malloc E (cw_mallocs v)"
  have n: "cw_mallocs v < k" using frames_in_card [OF mem] few Nil by simp
  then have p: "?p \<noteq> 0" "?p \<notin> e_malloc E ` {..<cw_mallocs v}"
    using malloc_new [OF _ n] mem by (simp_all add: frames_in_def)
  then have new: "unat ?p \<notin> dom (cw_frames v)"
    using mem Nil by (auto simp: frames_in_def word_unat_eq_iff [symmetric])
  obtain a where a: "e_alloc E (e_size E) ?p (cw_heap v) = Inr (?p, a)" "free_on a []"
    using memory.allocates [of "cw_heap v" "[]" "e_size E" ?p] mem Nil p(1) by (auto simp: frames_in_def)
  let ?v = "v\<lparr>cw_heap := a\<lparr>fl_headers := (fl_headers a)(?p := None)\<rparr>, cw_mallocs := Suc (cw_mallocs v),
     cw_frames := (cw_frames v)(unat ?p \<mapsto> \<lparr>p_owner = 0, cell_point = f\<rparr>)\<rparr>"
  have "create_coroutine E f v = Inr (Some (unat ?p), ?v)"
    using a(1) p(1) new mem malloc_called_simps(1) [of "cw_heap v"] Nil
    by (simp add: create_coroutine_def operator_new_def frames_in_def)
  moreover have "frames_in E k ?v []"
    using mem Nil n a(2) by (auto simp: frames_in_def free_on_def lessThan_Suc)
  ultimately show ?thesis using new unat_size_bound [of ?p] by auto
next
  case (Cons b bs')
  with mem obtain p where b: "b = (p, e_size E)" by (cases b) (auto simp: frames_in_def)
  have p: "p \<noteq> 0" using frames_in_blocks [OF mem, of p] Cons b by simp
  have new: "unat p \<notin> dom (cw_frames v)" using mem Cons b by (auto simp: frames_in_def)
  obtain a where a: "e_alloc E (e_size E) (e_malloc E (cw_mallocs v)) (cw_heap v) = Inr (p, a)" "free_on a bs'"
    using memory.recycles [of "cw_heap v" p "e_size E" bs' "e_size E" "e_malloc E (cw_mallocs v)"] mem Cons b
    by (auto simp: frames_in_def simp del: is_free_list.simps)
  let ?v = "v\<lparr>cw_heap := a\<lparr>fl_headers := (fl_headers a)(p := None)\<rparr>,
     cw_frames := (cw_frames v)(unat p \<mapsto> \<lparr>p_owner = 0, cell_point = f\<rparr>)\<rparr>"
  have "create_coroutine E f v = Inr (Some (unat p), ?v)"
    using a(1) p new mem malloc_called_simps(2) [of "cw_heap v" p "e_size E" bs'] Cons b
    by (simp add: create_coroutine_def operator_new_def frames_in_def)
  moreover have "frames_in E k ?v bs'"
  proof -
    have "p \<notin> fst ` set bs'" using mem Cons b by (simp add: frames_in_def)
    then have "free_on (a\<lparr>fl_headers := (fl_headers a)(p := None)\<rparr>) bs'" "unat p \<notin> unat ` fst ` set bs'"
      using a(2) by (simp_all add: free_on_def is_free_list_upd inj_image_mem_iff [OF inj_unat])
    then show ?thesis using mem Cons b by (simp add: frames_in_def)
  qed
  ultimately show ?thesis using new unat_size_bound [of p] by auto
qed

lemma destroy_frame_ok:
  assumes mem: "frames_in E k v bs" and i: "i \<in> dom (cw_frames v)"
  shows "\<exists>v' bs'. handle_destroy_frame E i v = Inr v' \<and> frames_in E k v' bs' \<and>
    cw_frames v' = (cw_frames v)(i := None) \<and>
    cw_queue v' = cw_queue v \<and> cw_limit v' = cw_limit v \<and> cw_results v' = cw_results v"
proof -
  obtain p where p: "i = unat p" "p \<noteq> 0" "p \<notin> fst ` set bs" using frames_in_frame [OF assms] by blast
  obtain a where a: "e_release E p (e_size E) (cw_heap v) = Inr a" "free_on a ((p, e_size E) # bs)"
    using memory.releases [of "cw_heap v" bs p "e_size E"] mem p by (auto simp: frames_in_def)
  let ?v = "v\<lparr>cw_frames := (cw_frames v)(i := None), cw_heap := a\<rparr>"
  have "handle_destroy_frame E i v = Inr ?v"
    using i a(1) p(1) by (simp add: handle_destroy_frame_def operator_delete_def)
  moreover have "frames_in E k ?v ((p, e_size E) # bs)"
  proof -
    let ?D = "dom (cw_frames v)" and ?B = "unat ` fst ` set bs"
    have "(?D - {i}) \<inter> insert i ?B = ?D \<inter> ?B - {i}" "(?D - {i}) \<union> insert i ?B = ?D \<union> ?B"
      using i by blast+
    then show ?thesis using mem p a(2) by (simp add: frames_in_def)
  qed
  ultimately show ?thesis by auto
qed

lemma finish_frame_sim:
  assumes mem: "frames_in E k v bs" and c: "cw_frames v i = Some c" "p_owner c = e_throttler E"
  shows "\<exists>v' bs'. finish_frame E i c r v = Inr v' \<and> frames_in E k v' bs' \<and> seen E v' = finish i r (seen E v) \<and>
    strangers (e_throttler E) (cw_frames v') = strangers (e_throttler E) (cw_frames v)"
proof -
  let ?v = "v\<lparr>cw_results := cw_results v @ [r], cw_limit := cw_limit v + 1\<rparr>"
  have mem': "frames_in E k ?v bs" using mem by (simp add: frames_in_same [of ?v v])
  obtain v' bs' where v': "handle_destroy_frame E i ?v = Inr v'" "frames_in E k v' bs'"
      "cw_frames v' = (cw_frames v)(i := None)" "cw_queue v' = cw_queue v" "cw_limit v' = cw_limit v + 1"
      "cw_results v' = cw_results v @ [r]"
    using destroy_frame_ok [OF mem', of i] c(1) by auto
  have "finish_frame E i c r v = Inr v'"
    using v'(1) c(2) mem by (simp add: finish_frame_def return_void_def on_task_done_def frames_in_def)
  moreover have "seen E v' = finish i r (seen E v)"
    by (simp add: seen_def finish_def on_task_complete_def v' shown_upd)
  moreover have "strangers (e_throttler E) (cw_frames v') = strangers (e_throttler E) (cw_frames v)"
    unfolding v'(3) strangers_upd using c by (rule strangers_owned)
  ultimately show ?thesis using v'(2) by blast
qed

text \<open>
  Every successful resumption of the engine without memory is one of the machine with memory.
\<close>

lemma coro_resume_sim:
  assumes "resume (e_step E) (e_push E) (e_pop E) h (seen E v) = Some (Inr w')" "frames_in E k v bs"
  shows "\<exists>v' bs'. coro_resume E h v = Some (Inr v') \<and> frames_in E k v' bs' \<and> seen E v' = w' \<and>
    strangers (e_throttler E) (cw_frames v') = strangers (e_throttler E) (cw_frames v)"
proof -
  let ?goal = "\<lambda>st pu po h w r. \<forall>v bs. st = e_step E \<longrightarrow> pu = e_push E \<longrightarrow> po = e_pop E \<longrightarrow>
      w = seen E v \<longrightarrow> (r :: ('f, 'r, 'q) world res) = Inr w' \<longrightarrow> frames_in E k v bs \<longrightarrow>
      (\<exists>v' bs'. coro_resume E h v = Some (Inr v') \<and> frames_in E k v' bs' \<and> seen E v' = w' \<and>
        strangers (e_throttler E) (cw_frames v') = strangers (e_throttler E) (cw_frames v))"
  have "?goal (e_step E) (e_push E) (e_pop E) h (seen E v) (Inr w')"
  proof (rule resume.raw_induct [where P = ?goal, OF _ assms(1)], goal_cases)
    case (1 self st pu po h w r)
    show ?case
    proof (intro allI impI)
      fix v bs
      assume st: "st = e_step E" "pu = e_push E" "po = e_pop E" "w = seen E v" "r = Inr w'"
        and mem: "frames_in E k v bs"
      from 1(2) st obtain i where h: "h = Some i" by (cases h) auto
      with 1(2) st obtain f where "frames w i = Some f" by (cases "frames w i") auto
      then obtain c where c: "cw_frames v i = Some c" "p_owner c = e_throttler E" "cell_point c = f"
        using st by (auto simp: seen_simps shown_Some)
      consider (Return) x where "e_step E f = Inr (Return x)" | (Suspend) f' where "e_step E f = Inr (Suspend f')"
        using 1(2) st h c by (auto simp: seen_simps shown_Some shown_def split: sum.splits outcome.splits)
      then show "\<exists>v' bs'. coro_resume E h v = Some (Inr v') \<and> frames_in E k v' bs' \<and>
        seen E v' = w' \<and> strangers (e_throttler E) (cw_frames v') = strangers (e_throttler E) (cw_frames v)"
      proof cases
        case (Return x)
        then have "w' = finish i x (seen E v)" using 1(2) st h c by (simp add: seen_simps shown_def)
        with finish_frame_sim [OF mem c(1,2), of x] Return h c show ?thesis
          by (auto simp: coro_resume.simps)
      next
        case (Suspend f')
        define v1 where "v1 = v\<lparr>cw_frames := (cw_frames v)(i \<mapsto> c\<lparr>cell_point := f'\<rparr>)\<rparr>"
        obtain h' q where q: "e_pop E (e_push E (Some i) (cw_queue v)) = (h', q)" by fastforce
        let ?v2 = "v1\<lparr>cw_queue := q\<rparr>"
        have mem2: "frames_in E k ?v2 bs"
          using mem c(1) frames_in_update [of i v E k] frames_in_same [of ?v2 v1] by (auto simp: v1_def)
        have "seen E ?v2 = (seen E v)\<lparr>frames := (frames (seen E v))(i \<mapsto> f'), queue := q\<rparr>"
          using c(2) by (simp add: seen_def v1_def shown_upd)
        then have "self st pu po h' (seen E ?v2) = Some r"
          using 1(2) st h c Suspend q by (simp add: await_suspend_def seen_simps shown_def)
        from 1(1) [OF this] st mem2 obtain v' bs' where v': "coro_resume E h' ?v2 = Some (Inr v')"
            "frames_in E k v' bs'" "seen E v' = w'"
            "strangers (e_throttler E) (cw_frames v') = strangers (e_throttler E) (cw_frames ?v2)" by blast
        moreover have "coro_resume E h v = coro_resume E h' ?v2"
          by (subst coro_resume.simps) (simp add: h c Suspend prefetch_suspend_def q v1_def)
        moreover have "strangers (e_throttler E) (cw_frames ?v2) = strangers (e_throttler E) (cw_frames v)"
          using c by (simp add: v1_def strangers_upd strangers_owned)
        ultimately show ?thesis by auto
      qed
    qed
  qed
  with assms show ?thesis by blast
qed

lemma drain_queue_sim:
  assumes "run_queue (e_step E) (e_push E) (e_pop E) (e_try_pop E) (seen E v) = Some (Inr w')" "frames_in E k v bs"
  shows "\<exists>v' bs'. drain_queue E v = Some (Inr v') \<and> frames_in E k v' bs' \<and> seen E v' = w' \<and>
    strangers (e_throttler E) (cw_frames v') = strangers (e_throttler E) (cw_frames v)"
proof -
  let ?goal = "\<lambda>st pu po tp w r. \<forall>v bs. st = e_step E \<longrightarrow> pu = e_push E \<longrightarrow> po = e_pop E \<longrightarrow> tp = e_try_pop E \<longrightarrow>
      w = seen E v \<longrightarrow> (r :: ('f, 'r, 'q) world res) = Inr w' \<longrightarrow> frames_in E k v bs \<longrightarrow>
      (\<exists>v' bs'. drain_queue E v = Some (Inr v') \<and> frames_in E k v' bs' \<and> seen E v' = w' \<and>
        strangers (e_throttler E) (cw_frames v') = strangers (e_throttler E) (cw_frames v))"
  have "?goal (e_step E) (e_push E) (e_pop E) (e_try_pop E) (seen E v) (Inr w')"
  proof (rule run_queue.raw_induct [OF _ assms(1), where P = ?goal], goal_cases)
    case (1 self st pu po tp w r)
    show ?case
    proof (intro allI impI)
      fix v bs
      assume st: "st = e_step E" "pu = e_push E" "po = e_pop E" "tp = e_try_pop E" "w = seen E v" "r = Inr w'"
        and mem: "frames_in E k v bs"
      obtain h q where q: "e_try_pop E (cw_queue v) = (h, q)" by fastforce
      let ?v = "v\<lparr>cw_queue := q\<rparr>"
      have mem': "frames_in E k ?v bs" using mem by (simp add: frames_in_same [of ?v v])
      have see: "(seen E v)\<lparr>queue := q\<rparr> = seen E ?v" by (simp add: seen_def)
      show "\<exists>v' bs'. drain_queue E v = Some (Inr v') \<and> frames_in E k v' bs' \<and> seen E v' = w' \<and>
        strangers (e_throttler E) (cw_frames v') = strangers (e_throttler E) (cw_frames v)"
      proof (cases "h = None")
        case True
        then have "w' = seen E ?v" using 1(2) st q see by (simp add: seen_simps)
        moreover have "drain_queue E v = Some (Inr ?v)"
          using q True by (subst drain_queue.simps) simp
        ultimately show ?thesis using mem' by auto
      next
        case False
        with 1(2) st q see have run: "bind_run (resume (e_step E) (e_push E) (e_pop E) h (seen E ?v))
            (\<lambda>w. self st pu po tp w) = Some (Inr w')" by (simp add: seen_simps)
        then obtain w1 where w1: "resume (e_step E) (e_push E) (e_pop E) h (seen E ?v) = Some (Inr w1)"
            "self st pu po tp w1 = Some (Inr w')"
          using run by (auto simp only: bind_run_Some_Inr)
        from coro_resume_sim [OF w1(1) mem'] obtain v1 bs1 where v1: "coro_resume E h ?v = Some (Inr v1)"
            "frames_in E k v1 bs1" "seen E v1 = w1"
            "strangers (e_throttler E) (cw_frames v1) = strangers (e_throttler E) (cw_frames v)" by auto
        moreover have "drain_queue E v = drain_queue E v1"
          using q False v1(1) by (subst drain_queue.simps) (auto simp: Let_def)
        moreover from 1(1) [OF w1(2)] st v1(2,3) obtain v' bs' where "drain_queue E v1 = Some (Inr v')"
            "frames_in E k v' bs'" "seen E v' = w'"
            "strangers (e_throttler E) (cw_frames v') = strangers (e_throttler E) (cw_frames v1)" by blast
        ultimately show ?thesis by auto
      qed
    qed
  qed
  with assms show ?thesis by blast
qed

text \<open>
  Between calls: every frame is owned by the throttler, \<open>is\<close> are queued, and the limit is what is left of \<open>n\<close>.
\<close>

definition settled ::
  "nat \<Rightarrow> nat \<Rightarrow> ('f, 'r, 'q, 'a) coro_world \<Rightarrow> nat list \<Rightarrow> (uptr \<times> size_t) list \<Rightarrow> bool" where
  "settled n k v is bs \<longleftrightarrow> steady n (seen E v) is \<and> frames_in E k v bs \<and>
     strangers (e_throttler E) (cw_frames v) = Map.empty"

lemma settled_frames:
  assumes "settled n k v is bs"
  shows "dom (cw_frames v) = set is" "card (dom (cw_frames v)) \<le> n"
proof -
  have "distinct is" "length is \<le> n" "set is = dom (shown (e_throttler E) (cw_frames v))"
    using assms by (auto simp: settled_def steady_def live_def seen_simps)
  moreover have "dom (shown (e_throttler E) (cw_frames v)) = dom (cw_frames v)"
    using assms by (intro dom_shown) (simp add: settled_def)
  ultimately show "dom (cw_frames v) = set is" "card (dom (cw_frames v)) \<le> n"
    using distinct_card [of "is"] by simp_all
qed

lemma throttler_spawn_ok:
  assumes set: "settled n k v is bs" and n: "1 \<le> n" "n < k" and "good f"
    and new: "create_coroutine E f v = Inr (t, v0)"
  shows "\<exists>v' is' bs'. throttler_spawn E t v0 = Some (Inr v') \<and> settled n k v' is' bs' \<and>
    promised fin (seen E v') is' = add_mset (fin f) (promised fin (seen E v) is)"
proof -
  let ?t = "e_throttler E"
  have mem: "frames_in E k v bs" and t: "?t \<noteq> 0" using set by (simp_all add: settled_def frames_in_def)
  obtain h bs0 where h: "t = Some h" "frames_in E k v0 bs0" "h \<notin> dom (cw_frames v)" "h < 2 ^ 64"
      "cw_frames v0 = (cw_frames v)(h \<mapsto> \<lparr>p_owner = 0, cell_point = f\<rparr>)"
      "cw_queue v0 = cw_queue v" "cw_limit v0 = cw_limit v" "cw_results v0 = cw_results v"
    using create_ok [OF mem, of f] settled_frames(2) [OF set] n(2) new by auto
  have see0: "seen E v0 = seen E v"
    using h(3,5-8) t by (auto simp: seen_def shown_upd shown_def fun_eq_iff domIff)
  have str0: "strangers ?t (cw_frames v0) = [h \<mapsto> \<lparr>p_owner = 0, cell_point = f\<rparr>]"
    using set t by (simp add: h(5) strangers_upd settled_def)
  obtain w1 is1 where w1: "(if cw_limit v0 = 0 then let (g, q) = e_pop E (cw_queue v0) in
        resume (e_step E) (e_push E) (e_pop E) g ((seen E v0)\<lparr>queue := q\<rparr>) else Some (Inr (seen E v0))) = Some (Inr w1)"
      "admitting n w1 is1" "promised fin w1 is1 = promised fin (seen E v) is" "next_handle w1 = 2 ^ 64"
  proof -
    have "steady n (seen E v0) is" using set by (simp add: settled_def see0)
    from make_room [OF this n(1), unfolded seen_simps] see0 that show thesis by auto
  qed
  obtain v1 bs1 where v1: "(if cw_limit v0 = 0 then let (g, q) = e_pop E (cw_queue v0) in coro_resume E g (v0\<lparr>cw_queue := q\<rparr>)
        else Some (Inr v0)) = Some (Inr v1)" "frames_in E k v1 bs1" "seen E v1 = w1"
      "strangers ?t (cw_frames v1) = [h \<mapsto> \<lparr>p_owner = 0, cell_point = f\<rparr>]"
  proof (cases "cw_limit v0 = 0")
    case True
    obtain g q where q: "e_pop E (cw_queue v0) = (g, q)" by fastforce
    let ?v = "v0\<lparr>cw_queue := q\<rparr>"
    have "resume (e_step E) (e_push E) (e_pop E) g (seen E ?v) = Some (Inr w1)"
      using w1(1) True q by (simp add: seen_def)
    moreover have "frames_in E k ?v bs0" using h(2) by (simp add: frames_in_same [of ?v v0])
    ultimately obtain v' bs' where "coro_resume E g ?v = Some (Inr v')" "frames_in E k v' bs'" "seen E v' = w1"
        "strangers ?t (cw_frames v') = strangers ?t (cw_frames v0)"
      using coro_resume_sim [of g ?v w1 k bs0] by auto
    then show ?thesis using that [of v' bs'] True q str0 by simp
  next
    case False
    then show ?thesis using that [of v0 bs0] w1(1) h(2) str0 by simp
  qed
  have c: "cw_frames v1 h = Some \<lparr>p_owner = 0, cell_point = f\<rparr>"
    using v1(4) strangers_Some [of ?t "cw_frames v1" h "\<lparr>p_owner = 0, cell_point = f\<rparr>"] by simp
  define v2 where "v2 = v1\<lparr>cw_frames := (cw_frames v1)(h \<mapsto> \<lparr>p_owner = ?t, cell_point = f\<rparr>),
    cw_queue := e_push E (Some h) (cw_queue v1), cw_limit := cw_limit v1 - 1\<rparr>"
  have "throttler_spawn E t v0 = Some (Inr v2)"
    unfolding throttler_spawn_def v1(1) by (simp add: set_owner_def h(1) c root_task_destroy_def v2_def Let_def)
  moreover have see2: "seen E v2 = w1\<lparr>frames := (frames w1)(h \<mapsto> f), queue := e_push E (Some h) (queue w1),
      limit := limit w1 - 1\<rparr>"
    by (simp add: v1(3) [symmetric] seen_def v2_def shown_upd)
  have "h \<notin> dom (frames w1)" using c t by (simp add: v1(3) [symmetric] seen_simps shown_def domIff)
  note ad = admit [OF w1(2) this _ \<open>good f\<close>, folded see2]
  moreover have "frames_in E k v2 bs1"
  proof -
    have "frames_in E k (v1\<lparr>cw_frames := (cw_frames v1)(h \<mapsto> \<lparr>p_owner = ?t, cell_point = f\<rparr>)\<rparr>) bs1"
      using v1(2) c by (subst frames_in_update) auto
    then show ?thesis by (subst (asm) frames_in_same [symmetric]) (simp_all add: v2_def)
  qed
  moreover have "strangers ?t (cw_frames v2) = Map.empty" by (simp add: v2_def strangers_upd v1(4))
  ultimately show ?thesis using ad h(4) w1(3,4) by (auto simp: settled_def)
qed

lemma throttler_spawn_each_ok:
  assumes "settled n k v is bs" "1 \<le> n" "n < k" "\<forall>f \<in> set fs. good f"
  shows "\<exists>v' is' bs'. throttler_spawn_each E fs v = Some (Inr v') \<and> settled n k v' is' bs' \<and>
    promised fin (seen E v') is' = promised fin (seen E v) is + mset (map fin fs)"
  using assms
proof (induction fs arbitrary: v "is" bs)
  case (Cons f fs)
  then have "frames_in E k v bs" "card (dom (cw_frames v)) < k"
    using settled_frames(2) [OF Cons.prems(1)] by (simp_all add: settled_def)
  from create_ok [OF this, of f] obtain t v0 where new: "create_coroutine E f v = Inr (t, v0)" by blast
  from throttler_spawn_ok [OF Cons.prems(1-3) _ new] Cons.prems(4) obtain v1 is1 bs1 where
      v1: "throttler_spawn E t v0 = Some (Inr v1)" "settled n k v1 is1 bs1"
      "promised fin (seen E v1) is1 = add_mset (fin f) (promised fin (seen E v) is)" by auto
  from Cons.IH [OF v1(2) Cons.prems(2,3)] Cons.prems(4) v1 new show ?case by auto
qed auto

lemma throttler_run_ok:
  assumes "settled n k v is bs" "n < 2 ^ 64"
  shows "\<exists>v' bs'. throttler_run E v = Some (Inr v') \<and> settled n k v' [] bs' \<and>
    promised fin (seen E v') [] = promised fin (seen E v) is"
proof -
  obtain w' where w': "run_queue (e_step E) (e_push E) (e_pop E) (e_try_pop E) (seen E v) = Some (Inr w')"
      "steady n w' []" "promised fin w' [] = promised fin (seen E v) is"
    using run_queue_ok [of n "seen E v" "is"] assms by (auto simp: settled_def)
  with drain_queue_sim [OF w'(1), of k bs] assms(1) show ?thesis
    by (auto simp: settled_def throttler_run_def)
qed

text \<open>
  A scope of at least one stream, on an idle queue that has room for the streams, with no frame
  left from before: it returns what the bodies compute, it leaves no frame, and the blocks of \<open>malloc\<close> are all free
  and at most \<open>k\<close>, for any \<open>k\<close> above the number of streams.
\<close>

lemma throttler_scope_ok:
  assumes "qinv (cw_queue v)" "pend (cw_queue v) = []" "1 \<le> n" "unat n \<le> room (cw_queue v)" "unat n < k"
    and "frames_in E k v bs" "cw_frames v = Map.empty" "\<forall>f \<in> set fs. good f"
  shows "\<exists>v1 v2 v3 bs3. throttler_spawn_each E fs (v\<lparr>cw_limit := n, cw_results := []\<rparr>) = Some (Inr v1) \<and>
    throttler_run E v1 = Some (Inr v2) \<and> mset (cw_results v2) = mset (map fin fs) \<and>
    throttler_destroy E v2 = Some (Inr v3) \<and> mset (cw_results v3) = mset (map fin fs) \<and>
    frames_in E k v3 bs3 \<and> cw_frames v3 = Map.empty \<and> cw_mallocs v3 = length bs3 \<and>
    qinv (cw_queue v3) \<and> pend (cw_queue v3) = [] \<and> room (cw_queue v3) \<ge> unat n \<and> cw_limit v3 = n"
proof -
  let ?v = "v\<lparr>cw_limit := n, cw_results := []\<rparr>"
  have "settled (unat n) k ?v [] bs"
    using assms by (auto simp: settled_def steady_def live_def queued_def seen_simps frames_in_def shown_def strangers_def)
  moreover have n: "1 \<le> unat n" "unat n < 2 ^ 64"
    using assms(3) unat_size_bound [of n] by (auto simp: word_le_nat_alt)
  ultimately obtain v1 is1 bs1 where v1: "throttler_spawn_each E fs ?v = Some (Inr v1)" "settled (unat n) k v1 is1 bs1"
      "promised fin (seen E v1) is1 = mset (map fin fs)"
    using throttler_spawn_each_ok [of "unat n" k ?v "[]" bs fs] assms(5,8) by (auto simp: promised_def seen_simps)
  obtain v2 bs2 where v2: "throttler_run E v1 = Some (Inr v2)" "settled (unat n) k v2 [] bs2"
      "promised fin (seen E v2) [] = mset (map fin fs)"
    using throttler_run_ok [OF v1(2) n(2)] v1(3) by auto
  obtain v3 bs3 where v3: "throttler_run E v2 = Some (Inr v3)" "settled (unat n) k v3 [] bs3"
      "promised fin (seen E v3) [] = mset (map fin fs)"
    using throttler_run_ok [OF v2(2) n(2)] v2(3) by auto
  have "cw_frames v3 = Map.empty" using settled_frames(1) [OF v3(2)] by simp
  moreover from this have "cw_mallocs v3 = length bs3"
    using frames_in_card(2) [of E k v3 bs3] v3(2) by (simp add: settled_def)
  moreover have "cw_limit v3 = n"
    using v3(2) by (simp add: settled_def steady_def seen_simps word_unat_eq_iff)
  ultimately show ?thesis using v1(1) v2 v3
    by (auto simp: settled_def steady_def queued_def promised_def seen_simps throttler_destroy_def)
qed

lemma throttled_ok:
  assumes "qinv (cw_queue v)" "pend (cw_queue v) = []" "1 \<le> n" "unat n \<le> room (cw_queue v)" "unat n < k"
    and "frames_in E k v bs" "cw_frames v = Map.empty" "\<forall>f \<in> set fs. good f"
  shows "\<exists>v' bs'. throttled E n fs v = Some (Inr v') \<and> mset (cw_results v') = mset (map fin fs) \<and>
    frames_in E k v' bs' \<and> cw_frames v' = Map.empty \<and> cw_mallocs v' = length bs' \<and>
    qinv (cw_queue v') \<and> pend (cw_queue v') = [] \<and> cw_limit v' = n"
  using throttler_scope_ok [OF assms] by (auto simp: throttled_def)

end

text \<open>
  Tasks that no throttler takes: the destructor gives the frame back, a moved-from task owns nothing,
  and a coroutine that runs without an owner dereferences the null pointer at its end.
\<close>

lemma ownerless_coroutine_crashes:
  assumes "cw_frames v i = Some c" and "p_owner c = 0" and "e_step E (cell_point c) = Inr (Return r)"
  shows "coro_resume E (Some i) v = Some (Inl NullDeref)"
  using assms by (simp add: coro_resume.simps finish_frame_def return_void_def)

lemma moved_from_task_owns_nothing:
  "root_task_move t = (t', s) \<Longrightarrow> t' = t \<and> root_task_destroy E s v = Inr v"
  by (simp add: root_task_move_def root_task_destroy_def)

lemma unspawned_task_returns_block:
  assumes "frames_in E k v bs" "card (dom (cw_frames v)) < k" "framed_engine E qinv pend room good fin mu"
    and "create_coroutine E f v = Inr (t, v0)"
  shows "\<exists>v' bs'. root_task_destroy E t v0 = Inr v' \<and> frames_in E k v' bs' \<and> cw_frames v' = cw_frames v"
proof -
  obtain h bs0 where h: "t = Some h" "frames_in E k v0 bs0" "h \<notin> dom (cw_frames v)"
      "cw_frames v0 = (cw_frames v)(h \<mapsto> \<lparr>p_owner = 0, cell_point = f\<rparr>)"
    using framed_engine.create_ok [OF assms(3,1,2), of f] assms(4) by auto
  moreover have "(cw_frames v)(h := None) = cw_frames v" using h(3) by (auto simp: fun_eq_iff domIff)
  ultimately show ?thesis
    using framed_engine.destroy_frame_ok [OF assms(3) h(2), of h] by (auto simp: root_task_destroy_def)
qed

end
