(* ===== verification/Framed_Lookups.thy ===== *)
theory Framed_Lookups
  imports Frame_Memory Binary_Search Interleaved_Map
begin

text \<open>
  The two interleaved lookups with the memory of their coroutines: \<open>coro_multi_lookup\<close> of
  applications/binary-search/coroutine.hpp on \<open>tcalloc\<close>, and \<open>interleaved_multilookup\<close> of
  applications/map/map.hpp on \<open>RecyclingAllocator\<close>. The scheduler and the allocator are globals and
  outlive a call, so frames of one call are served from the blocks of the calls before.
\<close>

subsection \<open>The binary search on its allocator\<close>

definition search_env ::
  "int list \<Rightarrow> (nat \<Rightarrow> uptr) \<Rightarrow> size_t \<Rightarrow> uptr \<Rightarrow>
   (search_frame, bool, nat scheduler_queue, unit tcalloc_ext) coro_env" where
  "search_env dataset malloc frame_size throttler =
     \<lparr>e_step = coro_binary_search dataset, e_push = push_back, e_pop = pop_front, e_try_pop = try_pop_front,
      e_alloc = tcalloc_alloc, e_release = tcalloc_free, e_malloc = malloc, e_size = frame_size,
      e_throttler = throttler\<rparr>"

type_synonym search_world = "(search_frame, bool, nat scheduler_queue, unit tcalloc_ext) coro_world"

definition search_globals :: search_world where
  "search_globals = \<lparr>cw_queue = scheduler_queue_init, cw_frames = Map.empty, cw_limit = 0, cw_results = [],
     cw_heap = tcalloc_new, cw_mallocs = 0\<rparr>"

text \<open>
  The counters are those of the results handed over so far; they are compared, and reset, after
  \<open>run\<close>, and the throttler is destroyed when the function returns.
\<close>

definition framed_multi_lookup ::
  "int list \<Rightarrow> (nat \<Rightarrow> uptr) \<Rightarrow> size_t \<Rightarrow> uptr \<Rightarrow> int list \<Rightarrow> size_t \<Rightarrow> search_world \<Rightarrow>
   (size_t \<times> search_world) res option" where
  "framed_multi_lookup dataset malloc frame_size t lookups n_streams v =
     (let E = search_env dataset malloc frame_size t;
          v = v\<lparr>cw_limit := n_streams, cw_results := []\<rparr>
      in bind_run (throttler_spawn_each E (map (Search_Created 0 (length dataset)) lookups) v) (\<lambda>v.
           bind_run (throttler_run E v) (\<lambda>v.
             let found_count = of_nat (length (filter (\<lambda>r. r) (cw_results v)));
                 not_found_count = of_nat (length (filter (\<lambda>r. \<not> r) (cw_results v)))
             in if found_count + not_found_count = of_nat (length lookups)
                then bind_run (throttler_destroy E v) (\<lambda>v. Some (Inr (found_count, v)))
                else Some (Inl AssertFailed))))"

text \<open>Any number of calls, one after the other, and the end of the program.\<close>

fun framed_rounds ::
  "int list \<Rightarrow> (nat \<Rightarrow> uptr) \<Rightarrow> size_t \<Rightarrow> uptr \<Rightarrow> size_t \<Rightarrow> int list list \<Rightarrow> search_world \<Rightarrow>
   (size_t list \<times> search_world) res option" where
  "framed_rounds xs malloc sz t n [] v = Some (Inr ([], v))"
| "framed_rounds xs malloc sz t n (ks # kss) v =
     bind_run (framed_multi_lookup xs malloc sz t ks n v) (\<lambda>(found, v).
       bind_run (framed_rounds xs malloc sz t n kss v) (\<lambda>(counts, v). Some (Inr (found # counts, v))))"

interpretation search_memory: framed_engine "search_env xs malloc sz t" scheduler_queue_inv sq_pending sq_room
  "search_good xs" "search_fin xs" search_mu
  for xs malloc sz t
  using search_engine.engine_axioms [of xs] tc.recycler_axioms
  by (simp add: framed_engine_def search_env_def)

lemma framed_multi_lookup_ok:
  assumes "scheduler_queue_inv (cw_queue v)" "sq_pending (cw_queue v) = []" "1 \<le> n" "unat n \<le> sq_room (cw_queue v)"
    and "frames_in (search_env xs malloc sz t) (unat n + 1) v bs" "cw_frames v = Map.empty"
  shows "\<exists>v' bs'. framed_multi_lookup xs malloc sz t ks n v = Some (Inr (of_nat (length (filter (hit xs) ks)), v')) \<and>
    scheduler_queue_inv (cw_queue v') \<and> sq_pending (cw_queue v') = [] \<and> unat n \<le> sq_room (cw_queue v') \<and>
    frames_in (search_env xs malloc sz t) (unat n + 1) v' bs' \<and> cw_frames v' = Map.empty"
proof -
  let ?fs = "map (Search_Created 0 (length xs)) ks"
  have good: "\<forall>f \<in> set ?fs. search_good xs f" by auto
  note scope = search_memory.throttler_scope_ok [OF assms(1-4) _ assms(5,6) good]
  obtain v1 v2 v3 bs3 where v: "throttler_spawn_each (search_env xs malloc sz t) ?fs
        (v\<lparr>cw_limit := n, cw_results := []\<rparr>) = Some (Inr v1)"
      "throttler_run (search_env xs malloc sz t) v1 = Some (Inr v2)"
      "mset (cw_results v2) = mset (map (search_fin xs) ?fs)"
      "throttler_destroy (search_env xs malloc sz t) v2 = Some (Inr v3)"
      "frames_in (search_env xs malloc sz t) (unat n + 1) v3 bs3" "cw_frames v3 = Map.empty"
      "scheduler_queue_inv (cw_queue v3)" "sq_pending (cw_queue v3) = []" "unat n \<le> sq_room (cw_queue v3)"
    using scope by auto
  have "mset (cw_results v2) = mset (map (hit xs) ks)"
    using v(3) by (simp add: comp_def hit_def [abs_def])
  note cnt = count_answers [OF this]
  have "framed_multi_lookup xs malloc sz t ks n v = Some (Inr (of_nat (length (filter (hit xs) ks)), v3))"
    by (simp add: framed_multi_lookup_def Let_def v(1,2,4) cnt)
  with v(5-9) show ?thesis by blast
qed

lemma framed_rounds_ok:
  assumes "scheduler_queue_inv (cw_queue v)" "sq_pending (cw_queue v) = []" "1 \<le> n" "unat n \<le> sq_room (cw_queue v)"
    and "frames_in (search_env xs malloc sz t) (unat n + 1) v bs" "cw_frames v = Map.empty"
  shows "\<exists>v' bs'. framed_rounds xs malloc sz t n kss v =
      Some (Inr (map (\<lambda>ks. of_nat (length (filter (hit xs) ks))) kss, v')) \<and>
    frames_in (search_env xs malloc sz t) (unat n + 1) v' bs' \<and> cw_frames v' = Map.empty"
  using assms
proof (induction kss arbitrary: v bs)
  case (Cons ks kss)
  obtain v1 bs1 where v1: "framed_multi_lookup xs malloc sz t ks n v = Some (Inr (of_nat (length (filter (hit xs) ks)), v1))"
      "scheduler_queue_inv (cw_queue v1)" "sq_pending (cw_queue v1) = []" "unat n \<le> sq_room (cw_queue v1)"
      "frames_in (search_env xs malloc sz t) (unat n + 1) v1 bs1" "cw_frames v1 = Map.empty"
    using framed_multi_lookup_ok [OF Cons.prems] by blast
  from Cons.IH [OF v1(2,3) Cons.prems(3) v1(4-6)] v1(1) show ?case by auto
qed auto

text \<open>When no frame is left the destructor of the allocator frees every block of \<open>malloc\<close>, once.\<close>

lemma blocks_all_freed:
  assumes "frames_in E k v bs" "cw_frames v = Map.empty"
  shows "free_blocks (fl_headers (cw_heap v)) (fl_root (cw_heap v)) = Some (Inr (map fst bs))"
    and "distinct (map fst bs)" and "set (map fst bs) = e_malloc E ` {..<cw_mallocs v}"
proof -
  have mem: "free_on (cw_heap v) bs" "distinct (map fst bs)"
      "unat ` fst ` set bs = unat ` e_malloc E ` {..<cw_mallocs v}"
    using assms by (simp_all add: frames_in_def)
  then show "free_blocks (fl_headers (cw_heap v)) (fl_root (cw_heap v)) = Some (Inr (map fst bs))"
    by (simp add: free_on_def free_blocks_list)
  show "distinct (map fst bs)" by (rule mem(2))
  show "set (map fst bs) = e_malloc E ` {..<cw_mallocs v}"
    using mem(3) by (simp add: inj_image_eq_iff [OF inj_unat])
qed

lemma frames_in_new:
  assumes "malloc_gives (e_malloc E) k" "e_throttler E \<noteq> 0" "cw_frames v = Map.empty" "cw_mallocs v = 0"
    and "fl_root (cw_heap v) = 0"
  shows "frames_in E k v []"
  using assms by (simp add: frames_in_def free_on_def)

subsection \<open>The map on its allocator\<close>

definition map_env ::
  "('k \<Rightarrow> size_t) \<Rightarrow> ('k, 'v) hmap \<Rightarrow> (nat \<Rightarrow> uptr) \<Rightarrow> size_t \<Rightarrow> uptr \<Rightarrow>
   (('k, 'v) lookup_frame, ('k, 'v) lookup_result, nat static_queue, unit) coro_env" where
  "map_env hasher m malloc frame_size throttler =
     \<lparr>e_step = lookup_task hasher m, e_push = schedule, e_pop = remove_next_task, e_try_pop = try_remove_next_task,
      e_alloc = recycling_alloc, e_release = recycling_free, e_malloc = malloc, e_size = frame_size,
      e_throttler = throttler\<rparr>"

definition framed_multilookup ::
  "('k \<Rightarrow> size_t) \<Rightarrow> ('k, 'v) hmap \<Rightarrow> (nat \<Rightarrow> uptr) \<Rightarrow> size_t \<Rightarrow> uptr \<Rightarrow> size_t \<Rightarrow> 'k list \<Rightarrow>
   (('k, 'v) lookup_frame, ('k, 'v) lookup_result, nat static_queue, unit) coro_world \<Rightarrow>
   (('k, 'v) lookup_frame, ('k, 'v) lookup_result, nat static_queue, unit) coro_world res option" where
  "framed_multilookup hasher m malloc frame_size t n_streams keys v =
     throttled (map_env hasher m malloc frame_size t) n_streams (map Created keys) v"

interpretation map_memory: framed_engine "map_env hasher m malloc sz t" static_queue_inv pending queue_room
  "lookup_good hasher m" "lookup_fin hasher m" "lookup_mu hasher m"
  for hasher :: "'k \<Rightarrow> size_t" and m :: "('k, 'v) hmap" and malloc sz t
  using map_engine.engine_axioms [of hasher m] ra.recycler_axioms
  by (simp add: framed_engine_def map_env_def)

text \<open>
  One call on the map, from whatever the calls before left in the allocator: the results of the
  sequential lookup, no frame left, and the same accounting of blocks for the next call.
\<close>

lemma framed_multilookup_ok:
  assumes "hm_inv hasher m" "static_queue_inv (cw_queue v)" "pending (cw_queue v) = []"
    and "1 \<le> n" "unat n \<le> queue_room (cw_queue v)"
    and "frames_in (map_env hasher m malloc sz t) (unat n + 1) v bs" "cw_frames v = Map.empty"
  shows "\<exists>v' rs bs'. framed_multilookup hasher m malloc sz t n ks v = Some (Inr v') \<and>
    sequential_multilookup hasher m ks = Inr rs \<and> mset (cw_results v') = mset rs \<and>
    static_queue_inv (cw_queue v') \<and> pending (cw_queue v') = [] \<and>
    frames_in (map_env hasher m malloc sz t) (unat n + 1) v' bs' \<and> cw_frames v' = Map.empty \<and>
    cw_mallocs v' = length bs' \<and> cw_mallocs v' \<le> unat n + 1"
  using map_memory.throttled_ok [OF assms(2-5) _ assms(6,7) created_good [OF assms(1), of ks]]
    sequential_multilookup_eq [OF assms(1), of ks] fin_created [of hasher m ks]
  by (auto simp: framed_multilookup_def comp_def frames_in_def)

text \<open>
  When \<open>malloc\<close> fails the two programs part: \<open>RecyclingAllocator\<close> throws, \<open>tcalloc\<close> hands the null pointer
  on and the promise is built there.
\<close>

lemma malloc_failure:
  assumes "malloc 0 = 0"
  shows "framed_multi_lookup xs malloc sz t (k # ks) n search_globals = Some (Inl NullDeref)"
    and "cw_heap v = recycling_allocator_new \<Longrightarrow> cw_mallocs v = 0 \<Longrightarrow>
      framed_multilookup hasher m malloc sz t n (key # keys) v = Some (Inl BadAlloc)"
  using assms
  by (simp_all add: framed_multi_lookup_def framed_multilookup_def throttled_def search_env_def map_env_def
      search_globals_def create_coroutine_def operator_new_def tcalloc_alloc_def tcalloc_new_def
      recycling_alloc_def recycling_allocator_new_def recycle_def Let_def)

subsection \<open>Properties\<close>

text \<open>
  C5. With at least one and at most 255 streams, any number of calls of the interleaved binary search, one after the
  other on the same scheduler and allocator, return the numbers of hits, when \<open>malloc\<close> grants one block
  more than there are streams: no coroutine is resumed that is not alive or has no owner, no frame is placed
  over another, \<open>malloc\<close> is called at most once more than there are streams however many lookups there
  are, no frame is left, and the destructor of the allocator frees exactly the blocks of \<open>malloc\<close>, each once.
\<close>

theorem search_frames_recycled:
  assumes "1 \<le> n" and "unat n \<le> 255" and "malloc_gives malloc (unat n + 1)" and "t \<noteq> 0"
  shows "\<exists>v blocks. framed_rounds xs malloc sz t n kss search_globals =
      Some (Inr (map (\<lambda>ks. of_nat (length (filter (hit xs) ks))) kss, v)) \<and>
    cw_frames v = Map.empty \<and> cw_mallocs v \<le> unat n + 1 \<and>
    tcalloc_destroy (cw_heap v) = Some (Inr blocks) \<and> distinct blocks \<and> set blocks = malloc ` {..<cw_mallocs v}"
proof -
  let ?E = "search_env xs malloc sz t"
  have "frames_in ?E (unat n + 1) search_globals []"
    using assms(3,4) by (intro frames_in_new) (simp_all add: search_env_def search_globals_def tcalloc_new_def)
  moreover have "cw_queue search_globals = scheduler_queue_init" "cw_frames search_globals = Map.empty"
    by (simp_all add: search_globals_def)
  ultimately obtain v bs where v: "framed_rounds xs malloc sz t n kss search_globals =
        Some (Inr (map (\<lambda>ks. of_nat (length (filter (hit xs) ks))) kss, v))"
      "frames_in ?E (unat n + 1) v bs" "cw_frames v = Map.empty"
    using framed_rounds_ok [of search_globals n xs malloc sz t "[]" kss] assms(1,2)
    by (auto simp: ring_simps)
  moreover have "cw_mallocs v \<le> unat n + 1" using v(2) by (simp add: frames_in_def)
  moreover have "e_malloc ?E = malloc" by (simp add: search_env_def)
  moreover have "tcalloc_destroy (cw_heap v) = Some (Inr (map fst bs))"
    unfolding tcalloc_destroy_def by (rule blocks_all_freed(1) [OF v(2,3)])
  ultimately show ?thesis
    using blocks_all_freed(2,3) [OF v(2,3)] by (intro exI [of _ v] exI [of _ "map fst bs"]) simp
qed

definition aligned_blocks :: "nat \<Rightarrow> uptr" where
  "aligned_blocks i = of_nat (4096 * (i + 1))"

theorem search_frames_recycled_witness:
  "\<exists>v. framed_rounds [1, 3, 5] aligned_blocks 96 64 2 [[3, 4], [], [1, 1, 5, 2]] search_globals =
     Some (Inr ([1, 0, 3], v)) \<and> cw_mallocs v \<le> 3"
proof -
  have "{..<unat (2 :: size_t) + 1} = {0, 1, 2}" by auto
  then have "malloc_gives aligned_blocks (unat (2 :: size_t) + 1)"
    unfolding malloc_gives_def by (simp add: aligned_blocks_def)
  moreover have "map (\<lambda>ks. of_nat (length (filter (hit [1, 3, 5]) ks))) [[3, 4], [], [1, 1, 5, 2]] = [1, 0, 3 :: size_t]"
    by code_simp
  ultimately show ?thesis
    using search_frames_recycled [of 2 aligned_blocks 64 "[1, 3, 5]" 96 "[[3, 4], [], [1, 1, 5, 2]]"] by auto
qed

end
