(* ===== verification/Timer_Driver.thy ===== *)
theory Timer_Driver
  imports Timer_Service Numbers
begin

text \<open>
  The two programs on the timer service (driver_vanilla.cpp and driver_awaitable.cpp of
  applications/timers/win-iocp): the calls of \<open>post\<close>, \<open>run\<close> and \<open>shutdown\<close> as the threads of the programs make
  them, action by action, against the worker thread and the timers of the system (\<open>worker_step\<close>). An action is one
  access to what the threads share or one system call; system calls succeed.

  Every run of the program with callbacks ends, with both threads returned, the worker gone, and one
  line for each of the timers asked for. The program with a coroutine destroys it before the first timer fires.
\<close>

subsection \<open>Creation and destruction of the service\<close>

record service_handles =
  h_port :: uptr
  h_worker :: uptr
  h_lock :: uptr
  h_non_empty :: uptr

text \<open>
  The arguments are what the system calls returned, 0 for a failure; the second result are the handles
  left open when the constructor throws.
\<close>

definition request_queue_new :: "uptr \<Rightarrow> uptr \<Rightarrow> (uptr \<times> uptr) res \<times> uptr list" where
  "request_queue_new lock non_empty =
     (if lock = 0 \<or> non_empty = 0 then (Inl SystemError, filter (\<lambda>h. h \<noteq> 0) [lock, non_empty])
      else (Inr (lock, non_empty), []))"

definition request_queue_destroy :: "uptr \<times> uptr \<Rightarrow> uptr list" where
  "request_queue_destroy q = (let (lock, non_empty) = q in [non_empty, lock])"

definition timer_service_new :: "uptr \<Rightarrow> uptr \<Rightarrow> uptr \<Rightarrow> uptr \<Rightarrow> service_handles res \<times> uptr list" where
  "timer_service_new p w lock non_empty =
     (let opened = filter (\<lambda>h. h \<noteq> 0) [p, w]
      in case request_queue_new lock non_empty of
           (Inl e, left) \<Rightarrow> (Inl e, opened @ left)
         | (Inr (l, n), _) \<Rightarrow>
             if p = 0 \<or> w = 0 then (Inl SystemError, opened)
             else (Inr \<lparr>h_port = p, h_worker = w, h_lock = l, h_non_empty = n\<rparr>, []))"

definition timer_service_destroy :: "service_handles \<Rightarrow> uptr list" where
  "timer_service_destroy s = [h_worker s, h_port s] @ request_queue_destroy (h_lock s, h_non_empty s)"

text \<open>A constructor that throws leaks what it opened, a service that was made closes all it has.\<close>

lemma service_handles_closed:
  "timer_service_new p w l e = (Inr s, left) \<Longrightarrow> left = [] \<and> timer_service_destroy s = [w, p, e, l]"
  by (auto simp: timer_service_new_def request_queue_new_def timer_service_destroy_def request_queue_destroy_def
      Let_def split: if_splits)

lemma failed_service_leaks:
  assumes "p = 0 \<or> w = 0 \<or> l = 0 \<or> e = 0"
  shows "\<exists>left. timer_service_new p w l e = (Inl SystemError, left) \<and>
    (\<forall>h. h \<in> set left \<longleftrightarrow> h \<noteq> 0 \<and> (h \<in> {p, w} \<or> (l = 0 \<or> e = 0) \<and> h \<in> {l, e}))"
  using assms by (auto simp: timer_service_new_def request_queue_new_def Let_def)

subsection \<open>The calls of the service\<close>

text \<open>\<open>post\<close>: test of the closed flag, count, push. It ends with what it returns.\<close>

datatype post_pc = Post_Load | Post_Count | Post_Push | Post_Returned bool

inductive post_step :: "nat \<Rightarrow> post_pc \<times> 'a service_world_scheme \<Rightarrow> post_pc \<times> 'a service_world_scheme \<Rightarrow> bool"
  for r where
  post_load: "post_step r (Post_Load, w)
    (if active w AND CLOSED \<noteq> 0 then Post_Returned False else Post_Count, w)"
| post_count: "post_step r (Post_Count, w) (Post_Push, w\<lparr>inflight := inflight w + 1\<rparr>)"
| post_push: "post_step r (Post_Push, w) (Post_Returned True, w\<lparr>reqs := request_push r (reqs w)\<rparr>)"

datatype shutdown_pc = Shut_Close | Shut_Ask | Shut_Wait | Shut_Load | Shut_Post nat | Shut_Returned

inductive shutdown_step ::
  "shutdown_pc \<times> 'a service_world_scheme \<Rightarrow> shutdown_pc \<times> 'a service_world_scheme \<Rightarrow> bool" where
  shut_close: "close_service (active w) = (a, first_call) \<Longrightarrow>
    shutdown_step (Shut_Close, w) (if first_call then Shut_Ask else Shut_Returned, w\<lparr>active := a\<rparr>)"
| shut_ask: "shutdown_step (Shut_Ask, w) (Shut_Wait, w\<lparr>apcs := apcs w @ [ShutdownRequest]\<rparr>)"
| shut_wait: "worker w = WExited \<Longrightarrow> shutdown_step (Shut_Wait, w) (Shut_Load, w)"
| shut_load: "shutdown_step (Shut_Load, w) (Shut_Post (shutdown_packets (active w)), w)"
| shut_post: "shutdown_step (Shut_Post (Suc k), w) (Shut_Post k, w\<lparr>packets := packets w @ [Shutdown_Packet]\<rparr>)"
| shut_posted: "shutdown_step (Shut_Post 0, w) (Shut_Returned, w)"

text \<open>
  \<open>run\<close>: entry, with the inverted loop of \<open>enter_turn\<close> and spurious failures; a packet taken; the timer counted
  off; then the handler of request \<open>r\<close> is due (\<open>Run_Handler\<close>), which the program supplies.
\<close>

datatype run_pc = Run_Load | Run_Enter u32 | Run_Wait | Run_Took nat | Run_Handler nat | Run_Leave | Run_Returned

inductive run_step :: "run_pc \<times> 'a service_world_scheme \<Rightarrow> run_pc \<times> 'a service_world_scheme \<Rightarrow> bool" where
  run_load: "run_step (Run_Load, w) (Run_Enter (active w), w)"
| run_turn: "enter_turn s (active w) = (a, Inl s') \<Longrightarrow> run_step (Run_Enter s, w) (Run_Enter s', w\<lparr>active := a\<rparr>)"
| run_entered: "enter_turn s (active w) = (a, Inr b) \<Longrightarrow>
    run_step (Run_Enter s, w) (if b then Run_Wait else Run_Returned, w\<lparr>active := a\<rparr>)"
| run_spurious: "s AND CLOSED = 0 \<Longrightarrow> run_step (Run_Enter s, w) (Run_Wait, w)"
| run_take: "packets w = Completion r # ps \<Longrightarrow> run_step (Run_Wait, w) (Run_Took r, w\<lparr>packets := ps\<rparr>)"
| run_stop: "packets w = Shutdown_Packet # ps \<Longrightarrow> run_step (Run_Wait, w) (Run_Leave, w\<lparr>packets := ps\<rparr>)"
| run_count: "run_step (Run_Took r, w) (Run_Handler r, w\<lparr>inflight := inflight w - 1\<rparr>)"
| run_leave: "run_step (Run_Leave, w) (Run_Returned, w\<lparr>active := leave_reactor (active w)\<rparr>)"

inductive_cases post_stepE: "post_step r s s'"
lemmas post_step_cases = post_stepE [consumes 1, case_names load count push]

inductive_cases shutdown_stepE: "shutdown_step s s'"
inductive_cases run_stepE: "run_step s s'"

lemmas run_step_cases = run_stepE [consumes 1, case_names load turn entered spurious take stop count leave]

subsection \<open>The program with callbacks\<close>

text \<open>
  The thread of \<open>std::async\<close>: the loop, \<open>post\<close>, the wait for the event, the line and the reset, the end. The event
  is manual-reset; \<open>None\<close> is a closed handle, and setting it has no effect.
\<close>

datatype async_pc = A_Loop | A_Post post_pc | A_Await | A_Fired | A_Close | A_Shutdown shutdown_pc | A_Returned

datatype main_pc = M_Run run_pc | M_Join | M_Returned

record vanilla_service = service_world +
  event :: "bool option"
  async :: async_pc
  v_main :: main_pc
  v_count :: nat
  v_lines :: nat

inductive vanilla_step :: "nat \<Rightarrow> vanilla_service \<Rightarrow> vanilla_service \<Rightarrow> bool" for n where
  loop: "async w = A_Loop \<Longrightarrow>
    vanilla_step n w (w\<lparr>async := if v_count w < n then A_Post Post_Load else A_Close\<rparr>)"
| post: "async w = A_Post p \<Longrightarrow> post_step (v_count w) (p, w) (p', w') \<Longrightarrow> vanilla_step n w (w'\<lparr>async := A_Post p'\<rparr>)"
| posted: "async w = A_Post (Post_Returned b) \<Longrightarrow> vanilla_step n w (w\<lparr>async := A_Await\<rparr>)"
| signalled: "async w = A_Await \<Longrightarrow> event w = Some True \<Longrightarrow> vanilla_step n w (w\<lparr>async := A_Fired\<rparr>)"
| fired: "async w = A_Fired \<Longrightarrow>
    vanilla_step n w (w\<lparr>v_lines := v_lines w + 1, event := map_option (\<lambda>_. False) (event w), v_count := v_count w + 1, async := A_Loop\<rparr>)"
| close: "async w = A_Close \<Longrightarrow> vanilla_step n w (w\<lparr>event := None, async := A_Shutdown Shut_Close\<rparr>)"
| shut: "async w = A_Shutdown p \<Longrightarrow> shutdown_step (p, w) (p', w') \<Longrightarrow> vanilla_step n w (w'\<lparr>async := A_Shutdown p'\<rparr>)"
| shut_down: "async w = A_Shutdown Shut_Returned \<Longrightarrow> vanilla_step n w (w\<lparr>async := A_Returned\<rparr>)"
| run: "v_main w = M_Run p \<Longrightarrow> run_step (p, w) (p', w') \<Longrightarrow> vanilla_step n w (w'\<lparr>v_main := M_Run p'\<rparr>)"
| handler: "v_main w = M_Run (Run_Handler r) \<Longrightarrow>
    vanilla_step n w (w\<lparr>event := map_option (\<lambda>_. True) (event w), v_main := M_Run Run_Wait\<rparr>)"
| ran: "v_main w = M_Run Run_Returned \<Longrightarrow> vanilla_step n w (w\<lparr>v_main := M_Join\<rparr>)"
| join: "v_main w = M_Join \<Longrightarrow> async w = A_Returned \<Longrightarrow> vanilla_step n w (w\<lparr>v_main := M_Returned\<rparr>)"
| works: "worker_step w w' \<Longrightarrow> vanilla_step n w w'"

inductive_cases vanilla_stepE: "vanilla_step n w w'"

lemmas vanilla_step_cases = vanilla_stepE [consumes 1, case_names loop post posted signalled fired close shut
  shut_down run handler ran join works]

definition vanilla_start :: vanilla_service where
  "vanilla_start = \<lparr>active = 0, inflight = 0, reqs = [], armed = {#}, apcs = [], packets = [], worker = WServing,
     event = Some False, async = A_Loop, v_main = M_Run Run_Load, v_count = 0, v_lines = 0\<rparr>"

subsection \<open>Every run is finite\<close>

fun apc_weight :: "apc \<Rightarrow> nat" where
  "apc_weight (Expired r) = 6" | "apc_weight ShutdownRequest = 2"

fun packet_weight :: "packet \<Rightarrow> nat" where
  "packet_weight (Completion r) = 3" | "packet_weight Shutdown_Packet = 0"

fun worker_weight :: "worker_pc \<Rightarrow> nat" where
  "worker_weight WServing = 20" | "worker_weight WDraining = 15" | "worker_weight WChecking = 2"
| "worker_weight WSleeping = 1" | "worker_weight WExited = 0"

definition service_weight :: "'a service_world_scheme \<Rightarrow> nat" where
  "service_weight w = 8 * length (reqs w) + 7 * size (armed w) + sum_list (map apc_weight (apcs w)) +
     sum_list (map packet_weight (packets w)) + worker_weight (worker w)"

lemma expirations_weight: "as \<noteq> [] \<Longrightarrow> 3 * length (expirations as) + 2 \<le> sum_list (map apc_weight as)"
proof (induction as rule: expirations.induct)
  case (2 r as) then show ?case by (cases "as = []") simp_all
next
  case (3 as) then show ?case by (cases "as = []") simp_all
qed simp

lemma completions_weight: "sum_list (map (packet_weight \<circ> Completion) rs) = 3 * length rs"
  by (induction rs) simp_all

lemma worker_step_weight:
  assumes "worker_step w w'"
  shows "service_weight w' < service_weight w"
  using assms
proof (cases rule: worker_step_cases)
  case wakes
  with expirations_weight [of "apcs w"] completions_weight [of "expirations (apcs w)"]
  show ?thesis by (simp add: service_weight_def)
qed (auto simp: service_weight_def queue_simps split: list.splits)

text \<open>\<open>active\<close> decides how many turns the loop of the entry still takes.\<close>

fun run_weight :: "u32 \<Rightarrow> run_pc \<Rightarrow> nat" where
  "run_weight a Run_Load = 25"
| "run_weight a (Run_Enter s) = (if a = s \<and> s AND CLOSED = 0 then 20 else 15)"
| "run_weight a Run_Wait = 10" | "run_weight a (Run_Took r) = 12" | "run_weight a (Run_Handler r) = 11"
| "run_weight a Run_Leave = 5" | "run_weight a Run_Returned = 1"

fun post_weight :: "post_pc \<Rightarrow> nat" where
  "post_weight Post_Load = 30" | "post_weight Post_Count = 28" | "post_weight Post_Push = 26"
| "post_weight (Post_Returned b) = 10"

fun shutdown_weight :: "shutdown_pc \<Rightarrow> nat" where
  "shutdown_weight Shut_Close = 2 ^ 32 + 30" | "shutdown_weight Shut_Ask = 2 ^ 32 + 20"
| "shutdown_weight Shut_Wait = 2 ^ 32 + 10" | "shutdown_weight Shut_Load = 2 ^ 32 + 5"
| "shutdown_weight (Shut_Post k) = k + 2" | "shutdown_weight Shut_Returned = 1"

lemma post_step_weight:
  assumes "post_step r (p, w) (p', w')"
  shows "service_weight w' + post_weight p' < service_weight w + post_weight p"
    "active w' = active w" "worker w' = worker w"
  using assms by (auto elim!: post_stepE simp: service_weight_def queue_simps split: if_splits)

lemma or_closed [simp]: "(a OR CLOSED) AND CLOSED = CLOSED" "CLOSED \<noteq> 0"
  by (simp_all add: CLOSED_def bit.conj_disj_distrib2)

lemma packets_bound: "unat (a :: u32) < 4294967299"
  by (rule order.strict_trans2 [OF unsigned_less]) simp

lemma shutdown_step_weight:
  assumes "shutdown_step (p, w) (p', w')"
  shows "service_weight w' + shutdown_weight p' < service_weight w + shutdown_weight p"
    "active w' = active w \<or> active w' = active w OR CLOSED"
  using assms
  by (auto elim!: shutdown_stepE simp: service_weight_def shutdown_packets_def close_service_def
      split: if_splits intro: packets_bound)

lemma run_weight_close: "run_weight (a OR CLOSED) p \<le> run_weight a p"
proof (cases p)
  case (Run_Enter s)
  have "\<not> (a OR CLOSED = s \<and> s AND CLOSED = 0)" using or_closed by auto
  with Run_Enter show ?thesis by (simp only: run_weight.simps if_False) simp
qed simp_all

lemma run_step_weight:
  assumes "run_step (p, w) (p', w')"
  shows "service_weight w' + run_weight (active w') p' < service_weight w + run_weight (active w) p"
  using assms
  by (auto elim!: run_stepE simp: service_weight_def enter_turn_def NEW_REACTOR_def split: if_splits)

fun async_weight :: "nat \<Rightarrow> nat \<Rightarrow> async_pc \<Rightarrow> nat" where
  "async_weight n i A_Loop = 2 ^ 33 + 40 * (n - i)"
| "async_weight n i (A_Post p) = 2 ^ 33 + 40 * (n - i - 1) + post_weight p"
| "async_weight n i A_Await = 2 ^ 33 + 40 * (n - i - 1) + 8"
| "async_weight n i A_Fired = 2 ^ 33 + 40 * (n - i - 1) + 5"
| "async_weight n i A_Close = 2 ^ 32 + 50"
| "async_weight n i (A_Shutdown p) = shutdown_weight p + 2"
| "async_weight n i A_Returned = 0"

fun main_weight :: "u32 \<Rightarrow> main_pc \<Rightarrow> nat" where
  "main_weight a (M_Run p) = run_weight a p + 5" | "main_weight a M_Join = 3" | "main_weight a M_Returned = 0"

definition vanilla_weight :: "nat \<Rightarrow> vanilla_service \<Rightarrow> nat" where
  "vanilla_weight n w = service_weight w + async_weight n (v_count w) (async w) + main_weight (active w) (v_main w)"

lemma vanilla_step_weight:
  assumes "vanilla_step n w w'"
  shows "vanilla_weight n w' < vanilla_weight n w"
  using assms
proof (cases rule: vanilla_step_cases)
  case (post p p' w1)
  note p = post_step_weight [OF post(3)]
  have "v_count w1 = v_count w \<and> v_main w1 = v_main w" using post(3) by (auto elim!: post_stepE)
  with p post show ?thesis by (simp add: vanilla_weight_def service_weight_def)
next
  case (shut p p' w1)
  note p = shutdown_step_weight [OF shut(3)]
  have "v_count w1 = v_count w \<and> v_main w1 = v_main w" using shut(3) by (auto elim!: shutdown_stepE)
  moreover have "main_weight (active w1) (v_main w) \<le> main_weight (active w) (v_main w)"
    using p(2) run_weight_close [of "active w"] by (cases "v_main w") auto
  ultimately show ?thesis using p(1) shut
    by (simp add: vanilla_weight_def service_weight_def)
next
  case (run p p' w1)
  note p = run_step_weight [OF run(3)]
  have "v_count w1 = v_count w \<and> async w1 = async w" using run(3) by (auto elim!: run_stepE)
  with p run show ?thesis by (simp add: vanilla_weight_def service_weight_def)
next
  case works
  have "async w' = async w \<and> v_count w' = v_count w \<and> v_main w' = v_main w \<and> active w' = active w"
    using works by (auto elim!: worker_stepE)
  with worker_step_weight [OF works] show ?thesis by (simp add: vanilla_weight_def)
qed (auto simp: vanilla_weight_def service_weight_def)

lemma no_infinite_run:
  fixes mu :: "'s \<Rightarrow> nat"
  assumes "\<And>s s'. R s s' \<Longrightarrow> mu s' < mu s"
  shows "\<not> (\<exists>f. \<forall>i. R (f i) (f (Suc i)))"
proof
  assume "\<exists>f. \<forall>i. R (f i) (f (Suc i))"
  then obtain f where f: "R (f i) (f (Suc i))" for i by blast
  have "mu (f i) + i \<le> mu (f 0)" for i
  proof (induction i)
    case (Suc i)
    with assms [OF f [of i]] show ?case by simp
  qed simp
  from this [of "Suc (mu (f 0))"] show False by simp
qed

subsection \<open>Where the one timer is\<close>

fun took :: "main_pc \<Rightarrow> nat" where
  "took (M_Run (Run_Took r)) = 1" | "took _ = 0"

fun firing :: "main_pc \<Rightarrow> nat" where
  "firing (M_Run (Run_Handler r)) = 1" | "firing _ = 0"

fun awaited :: "async_pc \<Rightarrow> nat" where
  "awaited A_Await = 1" | "awaited A_Fired = 1" | "awaited (A_Post (Post_Returned b)) = 1" | "awaited _ = 0"

fun pushing :: "async_pc \<Rightarrow> nat" where
  "pushing (A_Post Post_Push) = 1" | "pushing _ = 0"

definition flying :: "vanilla_service \<Rightarrow> nat" where
  "flying w = length (reqs w) + size (armed w) + length (expirations (apcs w)) + length (completions (packets w)) +
     took (v_main w)"

text \<open>Before the service is closed: the reactor is in, or on its way in, and the worker serves.\<close>

fun async_open :: "nat \<Rightarrow> nat \<Rightarrow> async_pc \<Rightarrow> bool" where
  "async_open n i A_Loop \<longleftrightarrow> i \<le> n"
| "async_open n i (A_Post p) \<longleftrightarrow> i < n \<and> p \<noteq> Post_Returned False"
| "async_open n i A_Await \<longleftrightarrow> i < n" | "async_open n i A_Fired \<longleftrightarrow> i < n" | "async_open n i A_Close \<longleftrightarrow> i = n"
| "async_open n i (A_Shutdown p) \<longleftrightarrow> i = n \<and> p = Shut_Close" | "async_open n i A_Returned \<longleftrightarrow> False"

fun main_open :: "main_pc \<Rightarrow> bool" where
  "main_open (M_Run (Run_Enter s)) \<longleftrightarrow> s = 0"
| "main_open (M_Run p) \<longleftrightarrow> p \<noteq> Run_Leave \<and> p \<noteq> Run_Returned"
| "main_open _ \<longleftrightarrow> False"

definition open_inv :: "nat \<Rightarrow> vanilla_service \<Rightarrow> bool" where
  "open_inv n w \<longleftrightarrow> async_open n (v_count w) (async w) \<and> main_open (v_main w) \<and> v_lines w = v_count w \<and>
     (active w = 0 \<or> active w = NEW_REACTOR) \<and> (v_main w = M_Run Run_Load \<longrightarrow> active w = 0) \<and> worker w = WServing \<and>
     ShutdownRequest \<notin> set (apcs w) \<and> Shutdown_Packet \<notin> set (packets w) \<and>
     flying w + firing (v_main w) + (if event w = Some True then 1 else 0) = awaited (async w) \<and>
     (async w = A_Fired \<longrightarrow> event w = Some True) \<and>
     (event w = None \<longleftrightarrow> async w = A_Shutdown Shut_Close) \<and>
     inflight w = of_nat (flying w + pushing (async w))"

text \<open>After that: no timer is left, and as long as the reactor has not ended a packet is or will be there for it.\<close>

fun main_closed :: "main_pc \<Rightarrow> bool" where
  "main_closed (M_Run (Run_Enter s)) \<longleftrightarrow> s = 0 \<or> s AND CLOSED \<noteq> 0"
| "main_closed (M_Run (Run_Took r)) \<longleftrightarrow> False" | "main_closed (M_Run (Run_Handler r)) \<longleftrightarrow> False"
| "main_closed _ \<longleftrightarrow> True"

fun main_before :: "main_pc \<Rightarrow> bool" where
  "main_before (M_Run p) \<longleftrightarrow> p \<noteq> Run_Leave \<and> p \<noteq> Run_Returned" | "main_before _ \<longleftrightarrow> False"

fun async_closed :: "async_pc \<Rightarrow> vanilla_service \<Rightarrow> bool" where
  "async_closed (A_Shutdown Shut_Ask) w \<longleftrightarrow> worker w = WServing \<and> apcs w = [] \<and> packets w = []"
| "async_closed (A_Shutdown Shut_Wait) w \<longleftrightarrow> packets w = [] \<and>
     (worker w = WServing \<and> apcs w = [ShutdownRequest] \<or> worker w \<in> {WDraining, WChecking, WExited} \<and> apcs w = [])"
| "async_closed (A_Shutdown Shut_Load) w \<longleftrightarrow> worker w = WExited \<and> apcs w = [] \<and> packets w = []"
| "async_closed (A_Shutdown (Shut_Post k)) w \<longleftrightarrow> worker w = WExited \<and> apcs w = [] \<and> set (packets w) \<subseteq> {Shutdown_Packet} \<and>
     (main_before (v_main w) \<longrightarrow> 0 < k \<or> packets w \<noteq> [])"
| "async_closed (A_Shutdown Shut_Returned) w \<longleftrightarrow> worker w = WExited \<and> apcs w = [] \<and>
     set (packets w) \<subseteq> {Shutdown_Packet} \<and> (main_before (v_main w) \<longrightarrow> packets w \<noteq> [])"
| "async_closed A_Returned w \<longleftrightarrow> worker w = WExited \<and> apcs w = [] \<and>
     set (packets w) \<subseteq> {Shutdown_Packet} \<and> (main_before (v_main w) \<longrightarrow> packets w \<noteq> [])"
| "async_closed _ w \<longleftrightarrow> False"

definition closed_inv :: "nat \<Rightarrow> vanilla_service \<Rightarrow> bool" where
  "closed_inv n w \<longleftrightarrow> v_count w = n \<and> v_lines w = n \<and> active w AND CLOSED \<noteq> 0 \<and> reqs w = [] \<and> armed w = {#} \<and>
     inflight w = 0 \<and> main_closed (v_main w) \<and> async_closed (async w) w \<and> (v_main w = M_Returned \<longrightarrow> async w = A_Returned)"

definition vanilla_inv :: "nat \<Rightarrow> vanilla_service \<Rightarrow> bool" where
  "vanilla_inv n w \<longleftrightarrow> open_inv n w \<or> closed_inv n w"

lemma worker_step_rest:
  fixes w :: vanilla_service
  assumes "worker_step w w'"
  shows "async w' = async w" "v_main w' = v_main w" "v_count w' = v_count w" "v_lines w' = v_lines w"
    "active w' = active w" "inflight w' = inflight w" "event w' = event w"
  using assms by (auto elim!: worker_stepE)

lemma open_inv_worker:
  assumes "worker_step w w'" "open_inv n w"
  shows "open_inv n w'"
proof -
  have "worker w = WServing" "ShutdownRequest \<notin> set (apcs w)" "Shutdown_Packet \<notin> set (packets w)"
    using assms(2) by (simp_all add: open_inv_def)
  with assms(1) have "worker w' = WServing \<and> ShutdownRequest \<notin> set (apcs w') \<and> Shutdown_Packet \<notin> set (packets w')"
    by (auto elim!: worker_stepE)
  moreover from assms(1) \<open>worker w = WServing\<close> have "flying w' = flying w"
    by (auto elim!: worker_stepE simp: flying_def queue_simps split: list.splits)
  ultimately show ?thesis using assms(2) worker_step_rest [OF assms(1)] by (simp add: open_inv_def)
qed

lemma async_closed_worker:
  assumes "async_closed a w"
  shows "worker w \<noteq> WSleeping" "worker w = WDraining \<or> worker w = WChecking \<Longrightarrow> a = A_Shutdown Shut_Wait"
    "apcs w \<noteq> [] \<Longrightarrow> a = A_Shutdown Shut_Wait \<and> apcs w = [ShutdownRequest]"
proof -
  consider (wait) "a = A_Shutdown Shut_Wait" | (other) "a \<noteq> A_Shutdown Shut_Wait" by blast
  then have "worker w \<noteq> WSleeping \<and> (worker w = WDraining \<or> worker w = WChecking \<longrightarrow> a = A_Shutdown Shut_Wait) \<and>
      (apcs w \<noteq> [] \<longrightarrow> a = A_Shutdown Shut_Wait \<and> apcs w = [ShutdownRequest])"
  proof cases
    case wait
    with assms show ?thesis by auto
  next
    case other
    then have "worker w \<in> {WServing, WExited} \<and> apcs w = []"
      using assms by (cases a; cases "case a of A_Shutdown p \<Rightarrow> p | _ \<Rightarrow> Shut_Close") auto
    then show ?thesis by auto
  qed
  then show "worker w \<noteq> WSleeping" "worker w = WDraining \<or> worker w = WChecking \<Longrightarrow> a = A_Shutdown Shut_Wait"
    "apcs w \<noteq> [] \<Longrightarrow> a = A_Shutdown Shut_Wait \<and> apcs w = [ShutdownRequest]" by blast+
qed

lemma closed_inv_worker:
  assumes "worker_step w w'" "closed_inv n w"
  shows "closed_inv n w'"
proof -
  have w: "reqs w = []" "armed w = {#}" "inflight w = 0" "async_closed (async w) w"
    using assms(2) by (simp_all add: closed_inv_def)
  note a = async_closed_worker [OF w(4)]
  from assms(1) have "reqs w' = [] \<and> armed w' = {#} \<and> async_closed (async w) w'"
  proof (cases rule: worker_step_cases)
    case (asked as)
    then have "async w = A_Shutdown Shut_Wait" "as = []" using a(3) by simp_all
    with asked w show ?thesis by simp
  next
    case (drained q)
    then have "async w = A_Shutdown Shut_Wait" using a(2) by simp
    with drained w show ?thesis by simp
  next
    case exits
    then have "async w = A_Shutdown Shut_Wait" using a(2) by simp
    with exits w show ?thesis by simp
  next
    case (expired r as)
    then show ?thesis using a(3) by simp
  next
    case wakes
    then show ?thesis using a(1) by simp
  qed (use w in \<open>simp_all add: queue_simps\<close>)
  then show ?thesis using assms(2) worker_step_rest [OF assms(1)] by (simp add: closed_inv_def)
qed

lemma open_inv_run:
  assumes "run_step (p, w) (p', w')" "v_main w = M_Run p" "open_inv n w"
  shows "open_inv n (w'\<lparr>v_main := M_Run p'\<rparr>)"
  using assms(1)
proof (cases rule: run_step_cases)
  case (take r ps)
  with assms(2,3) show ?thesis by (simp add: open_inv_def flying_def)
next
  case (count r)
  with assms(2,3) show ?thesis by (simp add: open_inv_def flying_def)
next
  case stop
  with assms(2,3) show ?thesis by (simp add: open_inv_def)
next
  case turn
  with assms(2,3) show ?thesis by (auto simp: open_inv_def flying_def enter_turn_def CLOSED_def split: if_splits)
next
  case entered
  with assms(2,3) show ?thesis by (auto simp: open_inv_def flying_def enter_turn_def CLOSED_def split: if_splits)
qed (use assms(2,3) in \<open>auto simp: open_inv_def flying_def\<close>)

lemma async_closed_packets: "async_closed a w \<Longrightarrow> set (packets w) \<subseteq> {Shutdown_Packet}"
  by (cases a; cases "case a of A_Shutdown p \<Rightarrow> p | _ \<Rightarrow> Shut_Close") auto

lemma no_completions: "set ps \<subseteq> {Shutdown_Packet} \<Longrightarrow> completions ps = []"
  by (induction ps rule: completions.induct) auto

lemma async_closed_mono:
  assumes "async_closed a w" "worker w' = worker w" "apcs w' = apcs w" "set (packets w') \<subseteq> set (packets w)"
    and "main_before (v_main w') \<Longrightarrow> main_before (v_main w) \<and> packets w' = packets w"
  shows "async_closed a w'"
  using assms by (cases a; cases "case a of A_Shutdown p \<Rightarrow> p | _ \<Rightarrow> Shut_Close") auto

lemma leave_closed: "leave_reactor a AND CLOSED = a AND CLOSED"
proof -
  have "odd (a - 2) \<longleftrightarrow> odd a" by (simp add: even_diff)
  then show ?thesis by (simp add: leave_reactor_def NEW_REACTOR_def CLOSED_def and_one_eq mod_2_eq_odd)
qed

lemma closed_inv_run:
  assumes "run_step (p, w) (p', w')" "v_main w = M_Run p" "closed_inv n w"
  shows "closed_inv n (w'\<lparr>v_main := M_Run p'\<rparr>)"
proof -
  have c: "async_closed (async w) w" "active w AND CLOSED \<noteq> 0" "main_closed (M_Run p)"
    using assms(2,3) by (simp_all add: closed_inv_def)
  note ps = async_closed_packets [OF c(1)]
  have "async_closed (async w) (w'\<lparr>v_main := M_Run p'\<rparr>)"
    by (rule async_closed_mono [OF c(1)]) (use assms(1,2) c(3) ps in \<open>auto elim!: run_stepE split: if_splits\<close>)
  moreover have "main_closed (M_Run p') \<and> active w' AND CLOSED \<noteq> 0"
    using assms(1) c ps by (auto elim!: run_stepE simp: enter_turn_def leave_closed split: if_splits)
  moreover have "reqs w' = reqs w \<and> armed w' = armed w \<and> inflight w' = inflight w \<and> v_count w' = v_count w \<and>
      v_lines w' = v_lines w \<and> async w' = async w"
    using assms(1) c(3) ps by (auto elim!: run_stepE)
  ultimately show ?thesis using assms(3) by (simp add: closed_inv_def)
qed

lemma open_inv_post:
  assumes "post_step (v_count w) (p, w) (p', w')" "async w = A_Post p" "open_inv n w"
  shows "open_inv n (w'\<lparr>async := A_Post p'\<rparr>)"
  using assms(1)
proof (cases rule: post_step_cases)
  case load
  have "active w AND CLOSED = 0"
    using assms(3) by (auto simp: open_inv_def NEW_REACTOR_def CLOSED_def)
  with load assms(2,3) show ?thesis by (simp add: open_inv_def flying_def)
next
  case count
  with assms(2,3) show ?thesis by (simp add: open_inv_def flying_def)
next
  case push
  with assms(2,3) show ?thesis by (simp add: open_inv_def flying_def queue_simps)
qed

lemma close_inv:
  assumes "open_inv n w" "async w = A_Shutdown Shut_Close"
  shows "closed_inv n (w\<lparr>active := active w OR CLOSED, async := A_Shutdown Shut_Ask\<rparr>)"
proof -
  have z: "flying w = 0" "firing (v_main w) = 0" using assms by (simp_all add: open_inv_def)
  then have "reqs w = [] \<and> armed w = {#} \<and> expirations (apcs w) = [] \<and> completions (packets w) = [] \<and> took (v_main w) = 0"
    by (simp add: flying_def)
  moreover have "apcs w = []" if "expirations (apcs w) = []"
    using that assms(1) by (cases "apcs w" rule: expirations.cases) (auto simp: open_inv_def)
  moreover have "packets w = []" if "completions (packets w) = []"
    using that assms(1) by (cases "packets w" rule: completions.cases) (auto simp: open_inv_def)
  moreover have "main_closed (v_main w)" if "took (v_main w) = 0"
    using that z(2) assms(1) by (cases "v_main w" rule: main_closed.cases) (auto simp: open_inv_def)
  moreover have "v_main w \<noteq> M_Returned" using assms(1) by (auto simp: open_inv_def)
  ultimately show ?thesis using assms z(1) by (auto simp: closed_inv_def open_inv_def)
qed

lemma closed_inv_shut:
  assumes "shutdown_step (p, w) (p', w')" "async w = A_Shutdown p" "closed_inv n w"
  shows "closed_inv n (w'\<lparr>async := A_Shutdown p'\<rparr>)"
proof -
  have "0 < shutdown_packets (active w)"
    using assms(3) by (cases "active w = 0") (auto simp: closed_inv_def shutdown_packets_def unat_gt_0)
  with assms show ?thesis by (auto elim!: shutdown_stepE simp: closed_inv_def)
qed

lemma open_inv_step:
  assumes "vanilla_step n w w'" "open_inv n w"
  shows "vanilla_inv n w'"
  using assms(1)
proof (cases rule: vanilla_step_cases)
  case (post p p' w1)
  with open_inv_post [of w p p' w1 n] assms(2) show ?thesis by (simp add: vanilla_inv_def)
next
  case (shut p p' w1)
  then have "p = Shut_Close" using assms(2) by (simp add: open_inv_def)
  moreover have "active w AND CLOSED = 0" using assms(2) by (auto simp: open_inv_def NEW_REACTOR_def CLOSED_def)
  ultimately have "p' = Shut_Ask" "w1 = w\<lparr>active := active w OR CLOSED\<rparr>"
    using shut(3) by (auto elim!: shutdown_stepE simp: close_service_def)
  with shut close_inv [OF assms(2)] \<open>p = Shut_Close\<close> show ?thesis by (simp add: vanilla_inv_def)
next
  case (run p p' w1)
  with open_inv_run [of p w p' w1 n] assms(2) show ?thesis by (simp add: vanilla_inv_def)
next
  case works
  with open_inv_worker [OF works assms(2)] show ?thesis by (simp add: vanilla_inv_def)
next
  case loop
  with assms(2) show ?thesis by (auto simp: vanilla_inv_def open_inv_def flying_def)
next
  case (posted b)
  with assms(2) show ?thesis by (auto simp: vanilla_inv_def open_inv_def flying_def)
next
  case (handler r)
  have "awaited (async w) \<le> 1" by (cases "async w" rule: awaited.cases) simp_all
  then have "event w = Some False" using assms(2) handler
    by (cases "event w") (auto simp: open_inv_def split: if_splits)
  with handler assms(2) show ?thesis by (simp add: vanilla_inv_def open_inv_def flying_def)
next
  case fired
  with assms(2) show ?thesis by (auto simp: vanilla_inv_def open_inv_def flying_def)
next
  case signalled
  with assms(2) show ?thesis by (auto simp: vanilla_inv_def open_inv_def flying_def)
next
  case close
  with assms(2) show ?thesis by (auto simp: vanilla_inv_def open_inv_def flying_def split: if_splits)
qed (use assms(2) in \<open>simp_all add: open_inv_def\<close>)

lemma closed_inv_async: "closed_inv n w \<Longrightarrow> async w = A_Returned \<or> (\<exists>p. async w = A_Shutdown p)"
  by (cases "async w") (auto simp: closed_inv_def)

lemma closed_inv_step:
  assumes "vanilla_step n w w'" "closed_inv n w"
  shows "vanilla_inv n w'"
  using assms(1)
proof (cases rule: vanilla_step_cases)
  case (shut p p' w1)
  with closed_inv_shut [of p w p' w1 n] assms(2) show ?thesis by (simp add: vanilla_inv_def)
next
  case (run p p' w1)
  with closed_inv_run [of p w p' w1 n] assms(2) show ?thesis by (simp add: vanilla_inv_def)
next
  case works
  with closed_inv_worker [OF works assms(2)] show ?thesis by (simp add: vanilla_inv_def)
next
  case shut_down
  with assms(2) show ?thesis by (simp add: vanilla_inv_def closed_inv_def)
next
  case ran
  then have "async_closed (async w) (w\<lparr>v_main := M_Join\<rparr>)"
    using assms(2) async_closed_mono [of "async w" w "w\<lparr>v_main := M_Join\<rparr>"] by (simp add: closed_inv_def)
  with ran assms(2) show ?thesis by (simp add: vanilla_inv_def closed_inv_def)
next
  case join
  with assms(2) show ?thesis by (simp add: vanilla_inv_def closed_inv_def)
next
  case handler
  with assms(2) show ?thesis by (simp add: closed_inv_def)
qed (use closed_inv_async [OF assms(2)] in auto)

lemma vanilla_run_inv:
  assumes "(vanilla_step n)\<^sup>*\<^sup>* vanilla_start w"
  shows "vanilla_inv n w"
  using assms
proof (induction rule: rtranclp_induct)
  case base
  then show ?case by (simp add: vanilla_inv_def open_inv_def vanilla_start_def flying_def)
next
  case (step w w')
  then show ?case using open_inv_step closed_inv_step unfolding vanilla_inv_def [of n w] by blast
qed

subsection \<open>Nothing waits for ever\<close>

lemma run_progress:
  assumes "v_main w = M_Run p" "p \<noteq> Run_Wait \<or> packets w \<noteq> []"
  shows "\<exists>w'. vanilla_step n w w'"
proof -
  consider (handler) r where "p = Run_Handler r" | (returned) "p = Run_Returned" | (step) p' w' where "run_step (p, w) (p', w')"
  proof (cases p)
    case (Run_Enter s)
    obtain a t where "enter_turn s (active w) = (a, t)" by fastforce
    with Run_Enter show thesis
      using step run_turn [of s w a] run_entered [of s w a] by (cases t) blast+
  next
    case Run_Wait
    with assms(2) obtain q ps where "packets w = q # ps" by (cases "packets w") auto
    with Run_Wait show thesis using step run_take [of w] run_stop [of w ps] by (cases q) blast+
  qed (use handler returned step run_load run_count run_leave in blast)+
  then show ?thesis
  proof cases
    case handler
    with assms(1) show ?thesis by (blast intro: vanilla_step.handler)
  next
    case returned
    with assms(1) show ?thesis by (blast intro: vanilla_step.ran)
  next
    case step
    with assms(1) show ?thesis by (blast intro: vanilla_step.run)
  qed
qed

lemma worker_acts: "worker_step w w' \<Longrightarrow> \<exists>w'. vanilla_step n w w'"
  by (blast intro: vanilla_step.works)

lemma open_progress:
  assumes "open_inv n w"
  shows "\<exists>w'. vanilla_step n w w'"
proof (cases "async w")
  case (A_Post p)
  then have "p = Post_Returned True \<or> (\<exists>p' w'. post_step (v_count w) (p, w) (p', w'))"
    using assms post_load [of "v_count w" w] post_count [of "v_count w" w] post_push [of "v_count w" w]
    by (cases p) (auto simp: open_inv_def)
  with A_Post show ?thesis by (blast intro: vanilla_step.post vanilla_step.posted)
next
  case A_Await
  show ?thesis
  proof (cases "event w = Some True")
    case True
    with A_Await show ?thesis by (blast intro: vanilla_step.signalled)
  next
    case False
    then have one: "flying w + firing (v_main w) = 1" using assms A_Await by (simp add: open_inv_def)
    have main: "main_open (v_main w)" and worker: "worker w = WServing"
      and no: "ShutdownRequest \<notin> set (apcs w)" using assms by (simp_all add: open_inv_def)
    then obtain p where p: "v_main w = M_Run p" by (cases "v_main w") auto
    show ?thesis
    proof (cases "p \<noteq> Run_Wait \<or> packets w \<noteq> []")
      case True
      with run_progress [OF p] show ?thesis by blast
    next
      case False
      then have "reqs w \<noteq> [] \<or> armed w \<noteq> {#} \<or> expirations (apcs w) \<noteq> []"
        using one p by (auto simp: flying_def)
      then consider "reqs w \<noteq> []" | "armed w \<noteq> {#}" | "expirations (apcs w) \<noteq> []" by blast
      then show ?thesis
      proof cases
        case 1
        then obtain r q where "request_pop (reqs w) = Some (r, q)" by (cases "reqs w") (auto simp: queue_simps)
        from worker_acts [OF worker_step.serve [OF worker this]] show ?thesis .
      next
        case 2
        then obtain r m where "armed w = add_mset r m" by (metis multiset_cases)
        from worker_acts [OF worker_step.fires [OF this]] show ?thesis .
      next
        case 3
        then obtain r as where "apcs w = Expired r # as"
          using no by (cases "apcs w" rule: expirations.cases) auto
        from worker_acts [OF worker_step.expired [OF _ this]] worker show ?thesis by blast
      qed
    qed
  qed
next
  case (A_Shutdown p)
  then have "p = Shut_Close" using assms by (simp add: open_inv_def)
  moreover obtain a b where "close_service (active w) = (a, b)" by fastforce
  ultimately show ?thesis using A_Shutdown shut_close by (blast intro: vanilla_step.shut)
next
  case A_Returned
  with assms show ?thesis by (simp add: open_inv_def)
qed (blast intro: vanilla_step.intros)+

lemma closed_progress:
  assumes "closed_inv n w" "v_main w \<noteq> M_Returned"
  shows "\<exists>w'. vanilla_step n w w'"
proof -
  have w: "reqs w = []" "inflight w = 0" "async_closed (async w) w" using assms(1) by (simp_all add: closed_inv_def)
  from closed_inv_async [OF assms(1)] show ?thesis
  proof (elim disjE exE)
    fix p assume p: "async w = A_Shutdown p"
    have "(\<exists>p' w'. shutdown_step (p, w) (p', w')) \<or> p = Shut_Returned \<or> (\<exists>w'. worker_step w w')"
    proof (cases p)
      case Shut_Wait
      consider "worker w = WServing" "apcs w = [ShutdownRequest]" | "worker w = WDraining" | "worker w = WChecking"
        | "worker w = WExited"
        using w(3) p Shut_Wait by auto
      then show ?thesis
        using Shut_Wait w(1,2) shut_wait [of w] worker_step.asked [of w "[]"] worker_step.drained [of w "[]"]
          worker_step.exits [of w]
        by cases (auto simp: queue_simps)
    next
      case Shut_Close
      with p w(3) show ?thesis by simp
    next
      case (Shut_Post k)
      then show ?thesis using shut_post shut_posted by (cases k) blast+
    qed (blast intro: shut_ask shut_load)+
    with p show ?thesis by (blast intro: vanilla_step.shut vanilla_step.shut_down vanilla_step.works)
  next
    assume r: "async w = A_Returned"
    show ?thesis
    proof (cases "v_main w")
      case (M_Run p)
      moreover have "packets w \<noteq> []" if "p = Run_Wait" using that M_Run w(3) r by simp
      ultimately show ?thesis using run_progress by blast
    qed (use r assms(2) in \<open>auto intro: vanilla_step.join\<close>)
  qed
qed

subsection \<open>The arguments\<close>

definition DEFAULT_N_REPS :: u32 where
  "DEFAULT_N_REPS = 5"

definition reps_argument :: "string list \<Rightarrow> u32 res" where
  "reps_argument argv = (if 1 < length argv then stoul32 (argv ! 1) else Inr DEFAULT_N_REPS)"

subsection \<open>The program with a coroutine\<close>

text \<open>
  The thread of \<open>main\<close> calls the coroutine, which starts at once; the \<open>eager_task\<close> that the call returns is a
  temporary, and its destructor destroys the frame at the end of the statement; then \<open>main\<close> is the reactor. A frame holds
  the loop variable; \<open>Post_Returned\<close> is the result of \<open>await_suspend\<close>, which does what \<open>post\<close> does.
\<close>

datatype co_frame = Frame_At nat | Frame_Done | Frame_Gone

datatype awaitable_pc =
    C_Loop | C_Await post_pc | C_Shutdown shutdown_pc | C_Temporary
  | W_Run run_pc | W_Returned | W_Crashed

record awaitable_service = service_world +
  a_pc :: awaitable_pc
  a_frame :: co_frame
  in_handler :: bool
  a_lines :: nat

text \<open>Where a coroutine that suspends or ends gives the thread back to.\<close>

definition hand_back :: "awaitable_service \<Rightarrow> awaitable_pc" where
  "hand_back w = (if in_handler w then W_Run Run_Wait else C_Temporary)"

inductive awaitable_step :: "nat \<Rightarrow> awaitable_service \<Rightarrow> awaitable_service \<Rightarrow> bool" for n where
  co_loop: "a_pc w = C_Loop \<Longrightarrow> a_frame w = Frame_At i \<Longrightarrow>
    awaitable_step n w (w\<lparr>a_pc := if i < n then C_Await Post_Load else C_Shutdown Shut_Close\<rparr>)"
| co_await: "a_pc w = C_Await p \<Longrightarrow> post_step 0 (p, w) (p', w') \<Longrightarrow> awaitable_step n w (w'\<lparr>a_pc := C_Await p'\<rparr>)"
| co_denied: "a_pc w = C_Await (Post_Returned False) \<Longrightarrow> a_frame w = Frame_At i \<Longrightarrow>
    awaitable_step n w (w\<lparr>a_lines := a_lines w + 1, a_frame := Frame_At (i + 1), a_pc := C_Loop\<rparr>)"
| co_suspends: "a_pc w = C_Await (Post_Returned True) \<Longrightarrow> awaitable_step n w (w\<lparr>a_pc := hand_back w\<rparr>)"
| co_shut: "a_pc w = C_Shutdown p \<Longrightarrow> shutdown_step (p, w) (p', w') \<Longrightarrow>
    awaitable_step n w (w'\<lparr>a_pc := C_Shutdown p'\<rparr>)"
| co_ends: "a_pc w = C_Shutdown Shut_Returned \<Longrightarrow>
    awaitable_step n w (w\<lparr>a_frame := Frame_Done, a_pc := hand_back w\<rparr>)"
| temporary: "a_pc w = C_Temporary \<Longrightarrow> awaitable_step n w (w\<lparr>a_frame := Frame_Gone, a_pc := W_Run Run_Load\<rparr>)"
| runs: "a_pc w = W_Run p \<Longrightarrow> run_step (p, w) (p', w') \<Longrightarrow> awaitable_step n w (w'\<lparr>a_pc := W_Run p'\<rparr>)"
| resumes: "a_pc w = W_Run (Run_Handler r) \<Longrightarrow> a_frame w = Frame_At i \<Longrightarrow>
    awaitable_step n w (w\<lparr>in_handler := True, a_lines := a_lines w + 1, a_frame := Frame_At (i + 1), a_pc := C_Loop\<rparr>)"
| crashes: "a_pc w = W_Run (Run_Handler r) \<Longrightarrow> a_frame w = Frame_Done \<or> a_frame w = Frame_Gone \<Longrightarrow>
    awaitable_step n w (w\<lparr>a_pc := W_Crashed\<rparr>)"
| ran: "a_pc w = W_Run Run_Returned \<Longrightarrow> awaitable_step n w (w\<lparr>a_pc := W_Returned\<rparr>)"
| works: "worker_step w w' \<Longrightarrow> awaitable_step n w w'"

inductive_cases awaitable_stepE: "awaitable_step n w w'"

lemmas awaitable_step_cases = awaitable_stepE [consumes 1, case_names co_loop co_await co_denied co_suspends co_shut
  co_ends temporary runs resumes crashes ran works]

definition awaitable_start :: awaitable_service where
  "awaitable_start = \<lparr>active = 0, inflight = 0, reqs = [], armed = {#}, apcs = [], packets = [], worker = WServing,
     a_pc = C_Loop, a_frame = Frame_At 0, in_handler = False, a_lines = 0\<rparr>"

text \<open>With a round to do the service is never closed, and in the reactor the frame is gone.\<close>

fun awaitable_at :: "awaitable_pc \<Rightarrow> awaitable_service \<Rightarrow> bool" where
  "awaitable_at C_Loop w \<longleftrightarrow> a_frame w = Frame_At 0 \<and> active w = 0"
| "awaitable_at (C_Await p) w \<longleftrightarrow> a_frame w = Frame_At 0 \<and> active w = 0 \<and> p \<noteq> Post_Returned False"
| "awaitable_at C_Temporary w \<longleftrightarrow> active w = 0"
| "awaitable_at (W_Run p) w \<longleftrightarrow> a_frame w = Frame_Gone \<and> p \<noteq> Run_Leave \<and> p \<noteq> Run_Returned \<and>
     (\<forall>s. p = Run_Enter s \<longrightarrow> s = 0) \<and> (p = Run_Load \<longrightarrow> active w = 0)"
| "awaitable_at W_Crashed w \<longleftrightarrow> True"
| "awaitable_at _ w \<longleftrightarrow> False"

definition awaitable_inv :: "awaitable_service \<Rightarrow> bool" where
  "awaitable_inv w \<longleftrightarrow> awaitable_at (a_pc w) w \<and> (active w = 0 \<or> active w = NEW_REACTOR) \<and> \<not> in_handler w \<and>
     a_lines w = 0 \<and> Shutdown_Packet \<notin> set (packets w)"

lemma awaitable_step_inv:
  assumes "awaitable_step n w w'" "awaitable_inv w" "0 < n"
  shows "awaitable_inv w'"
  using assms(1)
proof (cases rule: awaitable_step_cases)
  case (co_await p p' w1)
  then show ?thesis using assms(2)
    by (auto elim!: post_stepE simp: awaitable_inv_def CLOSED_def split: if_splits)
next
  case (runs p p' w1)
  from runs(3) show ?thesis
    by (cases rule: run_step_cases)
      (use runs(1,2) assms(2) in \<open>auto simp: awaitable_inv_def enter_turn_def NEW_REACTOR_def CLOSED_def split: if_splits\<close>)
next
  case works
  then have same: "a_pc w' = a_pc w" "a_frame w' = a_frame w" "active w' = active w" "in_handler w' = in_handler w"
      "a_lines w' = a_lines w" "set (packets w') \<subseteq> set (packets w) \<union> range Completion"
    by (auto elim!: worker_stepE)
  moreover have "awaitable_at (a_pc w) w'"
    using assms(2) same(2,3) by (cases "a_pc w") (auto simp: awaitable_inv_def)
  ultimately show ?thesis using assms(2) by (auto simp: awaitable_inv_def)
qed (use assms(2,3) in \<open>auto simp: awaitable_inv_def hand_back_def\<close>)

lemma awaitable_run_inv:
  assumes "(awaitable_step n)\<^sup>*\<^sup>* awaitable_start w" "0 < n"
  shows "awaitable_inv w"
  using assms(1)
proof (induction rule: rtranclp_induct)
  case base
  then show ?case by (simp add: awaitable_inv_def awaitable_start_def)
next
  case (step w w')
  with awaitable_step_inv assms(2) show ?case by blast
qed

text \<open>One way to the end: the timer is set, fires, is posted, and the reactor takes it.\<close>

definition awaitable_state ::
  "u32 \<Rightarrow> u32 \<Rightarrow> nat request_queue \<Rightarrow> nat multiset \<Rightarrow> apc list \<Rightarrow> packet list \<Rightarrow> awaitable_pc \<Rightarrow> co_frame \<Rightarrow> awaitable_service" where
  "awaitable_state a i q m as ps pc f = \<lparr>active = a, inflight = i, reqs = q, armed = m, apcs = as, packets = ps,
     worker = WServing, a_pc = pc, a_frame = f, in_handler = False, a_lines = 0\<rparr>"

lemma awaitable_crash:
  assumes "0 < n"
  shows "\<exists>w. (awaitable_step n)\<^sup>*\<^sup>* awaitable_start w \<and> a_pc w = W_Crashed"
proof -
  let ?w = awaitable_state and ?f = "Frame_At 0" and ?R = "awaitable_step n"
  have "?R\<^sup>*\<^sup>* awaitable_start (?w 0 0 [] {#} [] [] C_Loop ?f)" by (simp add: awaitable_start_def awaitable_state_def)
  also have "?R (?w 0 0 [] {#} [] [] C_Loop ?f) (?w 0 0 [] {#} [] [] (C_Await Post_Load) ?f)"
    using awaitable_step.co_loop [of "?w 0 0 [] {#} [] [] C_Loop ?f" 0 n] assms by (simp add: awaitable_state_def)
  also have "?R (?w 0 0 [] {#} [] [] (C_Await Post_Load) ?f) (?w 0 0 [] {#} [] [] (C_Await Post_Count) ?f)"
    using awaitable_step.co_await [OF _ post_load, of "?w 0 0 [] {#} [] [] (C_Await Post_Load) ?f" n]
    by (simp add: awaitable_state_def)
  also have "?R (?w 0 0 [] {#} [] [] (C_Await Post_Count) ?f) (?w 0 1 [] {#} [] [] (C_Await Post_Push) ?f)"
    using awaitable_step.co_await [OF _ post_count, of "?w 0 0 [] {#} [] [] (C_Await Post_Count) ?f" n]
    by (simp add: awaitable_state_def)
  also have "?R (?w 0 1 [] {#} [] [] (C_Await Post_Push) ?f) (?w 0 1 [0] {#} [] [] (C_Await (Post_Returned True)) ?f)"
    using awaitable_step.co_await [OF _ post_push, of "?w 0 1 [] {#} [] [] (C_Await Post_Push) ?f" n]
    by (simp add: awaitable_state_def queue_simps)
  also have "?R (?w 0 1 [0] {#} [] [] (C_Await (Post_Returned True)) ?f) (?w 0 1 [0] {#} [] [] C_Temporary ?f)"
    using awaitable_step.co_suspends [of "?w 0 1 [0] {#} [] [] (C_Await (Post_Returned True)) ?f" n]
    by (simp add: awaitable_state_def hand_back_def)
  also have "?R (?w 0 1 [0] {#} [] [] C_Temporary ?f) (?w 0 1 [0] {#} [] [] (W_Run Run_Load) Frame_Gone)"
    using awaitable_step.temporary [of "?w 0 1 [0] {#} [] [] C_Temporary ?f" n] by (simp add: awaitable_state_def)
  also have "?R (?w 0 1 [0] {#} [] [] (W_Run Run_Load) Frame_Gone) (?w 0 1 [0] {#} [] [] (W_Run (Run_Enter 0)) Frame_Gone)"
    using awaitable_step.runs [OF _ run_load, of "?w 0 1 [0] {#} [] [] (W_Run Run_Load) Frame_Gone" n]
    by (simp add: awaitable_state_def)
  also have "?R (?w 0 1 [0] {#} [] [] (W_Run (Run_Enter 0)) Frame_Gone) (?w 0 1 [0] {#} [] [] (W_Run Run_Wait) Frame_Gone)"
    using awaitable_step.runs [OF _ run_spurious [of 0], of "?w 0 1 [0] {#} [] [] (W_Run (Run_Enter 0)) Frame_Gone" n]
    by (simp add: awaitable_state_def)
  also have "?R (?w 0 1 [0] {#} [] [] (W_Run Run_Wait) Frame_Gone) (?w 0 1 [] {#0#} [] [] (W_Run Run_Wait) Frame_Gone)"
    using awaitable_step.works [OF worker_step.serve [of "?w 0 1 [0] {#} [] [] (W_Run Run_Wait) Frame_Gone" 0 "[]"], of n]
    by (simp add: awaitable_state_def queue_simps)
  also have "?R (?w 0 1 [] {#0#} [] [] (W_Run Run_Wait) Frame_Gone) (?w 0 1 [] {#} [Expired 0] [] (W_Run Run_Wait) Frame_Gone)"
    using awaitable_step.works [OF worker_step.fires [of "?w 0 1 [] {#0#} [] [] (W_Run Run_Wait) Frame_Gone" 0 "{#}"], of n]
    by (simp add: awaitable_state_def)
  also have "?R (?w 0 1 [] {#} [Expired 0] [] (W_Run Run_Wait) Frame_Gone) (?w 0 1 [] {#} [] [Completion 0] (W_Run Run_Wait) Frame_Gone)"
    using awaitable_step.works [OF worker_step.expired [of "?w 0 1 [] {#} [Expired 0] [] (W_Run Run_Wait) Frame_Gone" 0 "[]"], of n]
    by (simp add: awaitable_state_def)
  also have "?R (?w 0 1 [] {#} [] [Completion 0] (W_Run Run_Wait) Frame_Gone) (?w 0 1 [] {#} [] [] (W_Run (Run_Took 0)) Frame_Gone)"
    using awaitable_step.runs [OF _ run_take [of "?w 0 1 [] {#} [] [Completion 0] (W_Run Run_Wait) Frame_Gone" 0 "[]"], of n]
    by (simp add: awaitable_state_def)
  also have "?R (?w 0 1 [] {#} [] [] (W_Run (Run_Took 0)) Frame_Gone) (?w 0 0 [] {#} [] [] (W_Run (Run_Handler 0)) Frame_Gone)"
    using awaitable_step.runs [OF _ run_count [of 0], of "?w 0 1 [] {#} [] [] (W_Run (Run_Took 0)) Frame_Gone" n]
    by (simp add: awaitable_state_def)
  also have "?R (?w 0 0 [] {#} [] [] (W_Run (Run_Handler 0)) Frame_Gone) (?w 0 0 [] {#} [] [] W_Crashed Frame_Gone)"
    using awaitable_step.crashes [of "?w 0 0 [] {#} [] [] (W_Run (Run_Handler 0)) Frame_Gone" 0 n]
    by (simp add: awaitable_state_def)
  finally show ?thesis by (intro exI conjI) (auto simp: awaitable_state_def)
qed

subsection \<open>Properties\<close>



text \<open>
  C40. The timer program with a coroutine never gets a timer: with a round to do no run prints a line or returns from
  \<open>main\<close>, and the frame is destroyed before the reactor is entered, so that the first timer that is taken resumes a
  destroyed coroutine, which does happen.
\<close>

theorem awaitable_driver_resumes_dead:
  assumes "0 < n"
  shows "(\<forall>w. (awaitable_step n)\<^sup>*\<^sup>* awaitable_start w \<longrightarrow>
      a_lines w = 0 \<and> a_pc w \<noteq> W_Returned \<and> (\<forall>p. a_pc w = W_Run p \<longrightarrow> a_frame w = Frame_Gone)) \<and>
    (\<exists>w. (awaitable_step n)\<^sup>*\<^sup>* awaitable_start w \<and> a_pc w = W_Crashed)"
proof -
  have "a_lines w = 0 \<and> a_pc w \<noteq> W_Returned \<and> (\<forall>p. a_pc w = W_Run p \<longrightarrow> a_frame w = Frame_Gone)"
    if "(awaitable_step n)\<^sup>*\<^sup>* awaitable_start w" for w
    using awaitable_run_inv [OF that assms] by (auto simp: awaitable_inv_def)
  with awaitable_crash [OF assms] show ?thesis by blast
qed

theorem awaitable_driver_resumes_dead_witness:
  "\<exists>w. (awaitable_step 5)\<^sup>*\<^sup>* awaitable_start w \<and> a_pc w = W_Crashed \<and> a_lines w = 0"
  using awaitable_driver_resumes_dead [of 5] by auto

end
