(* ===== verification/When_All_Tasks.thy ===== *)
theory When_All_Tasks
  imports When_All
begin

text \<open>
  The coroutines of \<open>when_all\<close> (algorithms/when-all/when_all.hpp): \<open>make_when_all_task\<close>, the intermediate coroutine
  that owns and awaits one of the tasks, its promise and its owner \<open>when_all_task\<close>, and the awaiter that
  starts them all. The counter is that of When_All. What a task does when it is awaited is up to the
  caller: it completes at once (\<open>sync\<close>) or suspends, and then completes later, from anywhere.
\<close>

subsection \<open>The intermediate coroutine\<close>

datatype wa_point = WA_Created | WA_Awaiting | WA_Ended

text \<open>The task it owns, whether its promise points to a counter, and where it is suspended.\<close>

record wa_frame =
  wa_task :: nat
  wa_counted :: bool
  wa_point :: wa_point

type_synonym when_all_task = "nat option"

record wa_world =
  wa_frames :: "nat \<rightharpoonup> wa_frame"
  wa_next :: nat
  wa_remaining :: counter
  wa_dropped :: "nat list"

definition make_when_all_task :: "nat \<Rightarrow> wa_world \<Rightarrow> when_all_task \<times> wa_world" where
  "make_when_all_task t w =
     (Some (wa_next w),
      w\<lparr>wa_frames := (wa_frames w)(wa_next w \<mapsto> \<lparr>wa_task = t, wa_counted = False, wa_point = WA_Created\<rparr>),
        wa_next := wa_next w + 1\<rparr>)"

text \<open>
  The final suspension tells the counter; the coroutine stays where it is, and the awaiter that the counter may
  name is resumed.
\<close>

definition wa_final_suspend :: "nat \<Rightarrow> wa_frame \<Rightarrow> wa_world \<Rightarrow> (nat option \<times> wa_world) res" where
  "wa_final_suspend h f w =
     (let w = w\<lparr>wa_frames := (wa_frames w)(h \<mapsto> f\<lparr>wa_point := WA_Ended\<rparr>)\<rparr>
      in if \<not> wa_counted f then Inl NullDeref
         else let (k, r) = notify_task_completion (wa_remaining w)
              in bindE r (\<lambda>resumed. Inr (resumed, w\<lparr>wa_remaining := k\<rparr>)))"

definition wa_resume :: "(nat \<Rightarrow> bool) \<Rightarrow> nat \<Rightarrow> wa_world \<Rightarrow> (nat option \<times> wa_world) res" where
  "wa_resume sync h w =
     (case wa_frames w h of
        None \<Rightarrow> Inl DeadHandle
      | Some f \<Rightarrow>
          (case wa_point f of
             WA_Created \<Rightarrow>
               if sync (wa_task f) then wa_final_suspend h f w
               else Inr (None, w\<lparr>wa_frames := (wa_frames w)(h \<mapsto> f\<lparr>wa_point := WA_Awaiting\<rparr>)\<rparr>)
           | WA_Awaiting \<Rightarrow> wa_final_suspend h f w
           | WA_Ended \<Rightarrow> Inl DeadHandle))"

text \<open>\<open>start\<close> of the promise: it stores the address of the counter and resumes its coroutine.\<close>

definition wa_promise_start :: "(nat \<Rightarrow> bool) \<Rightarrow> nat \<Rightarrow> wa_world \<Rightarrow> (nat option \<times> wa_world) res" where
  "wa_promise_start sync h w =
     (case wa_frames w h of
        None \<Rightarrow> Inl DeadHandle
      | Some f \<Rightarrow> wa_resume sync h (w\<lparr>wa_frames := (wa_frames w)(h \<mapsto> f\<lparr>wa_counted := True\<rparr>)\<rparr>))"

subsection \<open>The owner\<close>

text \<open>Destroying the frame destroys the task in it.\<close>

definition wa_task_destroy :: "when_all_task \<Rightarrow> wa_world \<Rightarrow> wa_world res" where
  "wa_task_destroy t w =
     (case t of
        None \<Rightarrow> Inr w
      | Some h \<Rightarrow>
          (case wa_frames w h of
             None \<Rightarrow> Inl DeadHandle
           | Some f \<Rightarrow> Inr (w\<lparr>wa_frames := (wa_frames w)(h := None), wa_dropped := wa_dropped w @ [wa_task f]\<rparr>)))"

definition wa_task_move :: "when_all_task \<Rightarrow> when_all_task \<times> when_all_task" where
  "wa_task_move t = (t, None)"

text \<open>Assignment between two tasks (\<open>itself\<close>: the same object), giving the target and the source.\<close>

definition wa_task_assign ::
  "bool \<Rightarrow> when_all_task \<Rightarrow> when_all_task \<Rightarrow> wa_world \<Rightarrow> (when_all_task \<times> when_all_task \<times> wa_world) res" where
  "wa_task_assign itself target source w =
     (if itself then Inr (target, source, w)
      else bindE (wa_task_destroy target w) (\<lambda>w. Inr (source, None, w)))"

definition wa_task_start :: "(nat \<Rightarrow> bool) \<Rightarrow> when_all_task \<Rightarrow> wa_world \<Rightarrow> (nat option \<times> wa_world) res" where
  "wa_task_start sync t w = (case t of None \<Rightarrow> Inl NullHandle | Some h \<Rightarrow> wa_promise_start sync h w)"

subsection \<open>The awaiter\<close>

fun make_all :: "nat list \<Rightarrow> wa_world \<Rightarrow> when_all_task list \<times> wa_world" where
  "make_all [] w = ([], w)"
| "make_all (t # ts) w =
     (let (h, w) = make_when_all_task t w; (hs, w) = make_all ts w in (h # hs, w))"

definition when_all_awaiter_new :: "when_all_task list \<Rightarrow> wa_world \<Rightarrow> when_all_task list \<times> wa_world" where
  "when_all_awaiter_new tasks w = (tasks, w\<lparr>wa_remaining := counter_new (length tasks)\<rparr>)"

definition when_all :: "nat list \<Rightarrow> wa_world \<Rightarrow> when_all_task list \<times> wa_world" where
  "when_all input_tasks w = (let (tasks, w) = make_all input_tasks w in when_all_awaiter_new tasks w)"

text \<open>Whom the starts resume is collected; \<open>True\<close> suspends the awaiting coroutine.\<close>

fun start_all :: "(nat \<Rightarrow> bool) \<Rightarrow> when_all_task list \<Rightarrow> wa_world \<Rightarrow> (nat option list \<times> wa_world) res" where
  "start_all sync [] w = Inr ([], w)"
| "start_all sync (t # ts) w =
     bindE (wa_task_start sync t w) (\<lambda>(r, w). bindE (start_all sync ts w) (\<lambda>(rs, w). Inr (r # rs, w)))"

definition wa_await_suspend ::
  "(nat \<Rightarrow> bool) \<Rightarrow> nat \<Rightarrow> when_all_task list \<Rightarrow> wa_world \<Rightarrow> (bool \<times> nat option list \<times> wa_world) res" where
  "wa_await_suspend sync awaiting_coro tasks w =
     bindE (start_all sync tasks w) (\<lambda>(rs, w).
       let (k, suspends) = try_await awaiting_coro (wa_remaining w)
       in Inr (suspends, rs, w\<lparr>wa_remaining := k\<rparr>))"

fun awaiter_destroy :: "when_all_task list \<Rightarrow> wa_world \<Rightarrow> wa_world res" where
  "awaiter_destroy [] w = Inr w"
| "awaiter_destroy (t # ts) w = bindE (wa_task_destroy t w) (awaiter_destroy ts)"

text \<open>A task that suspended completes: it resumes the intermediate coroutine, its continuation.\<close>

fun complete_each :: "nat list \<Rightarrow> wa_world \<Rightarrow> (nat option list \<times> wa_world) res" where
  "complete_each [] w = Inr ([], w)"
| "complete_each (h # hs) w =
     bindE (wa_resume (\<lambda>_. False) h w) (\<lambda>(r, w). bindE (complete_each hs w) (\<lambda>(rs, w). Inr (r # rs, w)))"

subsection \<open>What the calls do to the frames\<close>

definition wa_stage :: "nat list \<Rightarrow> (nat \<Rightarrow> wa_frame) \<Rightarrow> wa_world \<Rightarrow> wa_world" where
  "wa_stage hs fr w = w\<lparr>wa_frames := (\<lambda>h. if h \<in> set hs then Some (fr h) else wa_frames w h)\<rparr>"

lemma make_all_eq:
  "make_all ts w = (map Some [wa_next w ..< wa_next w + length ts],
     (wa_stage [wa_next w ..< wa_next w + length ts]
        (\<lambda>h. \<lparr>wa_task = ts ! (h - wa_next w), wa_counted = False, wa_point = WA_Created\<rparr>) w)
     \<lparr>wa_next := wa_next w + length ts\<rparr>)"
proof (induction ts arbitrary: w)
  case (Cons t ts)
  define w1 where "w1 = snd (make_when_all_task t w)"
  have w1: "make_when_all_task t w = (Some (wa_next w), w1)" "wa_next w1 = Suc (wa_next w)"
      "wa_frames w1 = (wa_frames w)(wa_next w \<mapsto> \<lparr>wa_task = t, wa_counted = False, wa_point = WA_Created\<rparr>)"
      "wa_remaining w1 = wa_remaining w" "wa_dropped w1 = wa_dropped w"
    by (simp_all add: w1_def make_when_all_task_def)
  have "[wa_next w ..< wa_next w + length (t # ts)] = wa_next w # [Suc (wa_next w) ..< Suc (wa_next w) + length ts]"
    by (simp add: upt_conv_Cons del: upt_Suc)
  moreover have "w1 = w\<lparr>wa_frames := (wa_frames w)(wa_next w \<mapsto> \<lparr>wa_task = t, wa_counted = False, wa_point = WA_Created\<rparr>),
      wa_next := Suc (wa_next w)\<rparr>"
    using w1 by (simp add: w1_def make_when_all_task_def)
  moreover have "make_all (t # ts) w = (Some (wa_next w) # fst (make_all ts w1), snd (make_all ts w1))"
    using w1(1) by (simp add: split_beta)
  ultimately show ?case
    unfolding Cons.IH [of w1] by (auto simp: wa_stage_def fun_eq_iff nth_Cons' simp del: upt_Suc)
qed (simp add: wa_stage_def)

definition syncs :: "(nat \<Rightarrow> bool) \<Rightarrow> (nat \<Rightarrow> nat) \<Rightarrow> nat list \<Rightarrow> nat list" where
  "syncs sync tk hs = filter (\<lambda>h. sync (tk h)) hs"

definition wa_started :: "(nat \<Rightarrow> bool) \<Rightarrow> (nat \<Rightarrow> nat) \<Rightarrow> nat \<Rightarrow> wa_frame" where
  "wa_started sync tk h =
     \<lparr>wa_task = tk h, wa_counted = True, wa_point = if sync (tk h) then WA_Ended else WA_Awaiting\<rparr>"

lemma start_one:
  assumes "wa_frames w h = Some \<lparr>wa_task = tk h, wa_counted = False, wa_point = WA_Created\<rparr>"
    and "sync (tk h) \<Longrightarrow> 1 < unat (remaining (wa_remaining w))"
  shows "wa_task_start sync (Some h) w = Inr (None, w\<lparr>wa_frames := (wa_frames w)(h \<mapsto> wa_started sync tk h),
     wa_remaining := (wa_remaining w)\<lparr>remaining := remaining (wa_remaining w) - of_nat (length (syncs sync tk [h]))\<rparr>\<rparr>)"
proof -
  have "remaining (wa_remaining w) \<noteq> 1" if "sync (tk h)" using assms(2) [OF that] by auto
  then show ?thesis using assms(1)
    by (simp add: wa_task_start_def wa_promise_start_def wa_resume_def wa_final_suspend_def Let_def
        notify_task_completion_def wa_started_def syncs_def)
qed

lemma start_all_eq:
  assumes "distinct hs" "\<forall>h \<in> set hs. wa_frames w h = Some \<lparr>wa_task = tk h, wa_counted = False, wa_point = WA_Created\<rparr>"
    and "length (syncs sync tk hs) < unat (remaining (wa_remaining w))"
  shows "start_all sync (map Some hs) w = Inr (replicate (length hs) None,
    (wa_stage hs (wa_started sync tk) w)
    \<lparr>wa_remaining := (wa_remaining w)\<lparr>remaining := remaining (wa_remaining w) - of_nat (length (syncs sync tk hs))\<rparr>\<rparr>)"
  using assms
proof (induction hs arbitrary: w)
  case (Cons h hs)
  let ?k = "length (syncs sync tk [h])"
  define w1 where "w1 = w\<lparr>wa_frames := (wa_frames w)(h \<mapsto> wa_started sync tk h),
     wa_remaining := (wa_remaining w)\<lparr>remaining := remaining (wa_remaining w) - of_nat ?k\<rparr>\<rparr>"
  have split: "length (syncs sync tk (h # hs)) = ?k + length (syncs sync tk hs)" by (simp add: syncs_def)
  have start: "wa_task_start sync (Some h) w = Inr (None, w1)"
    using Cons.prems unfolding w1_def by (intro start_one) (auto simp: syncs_def)
  have "remaining (wa_remaining w) \<noteq> 0" using Cons.prems(3) by auto
  then have "unat (remaining (wa_remaining w1)) = unat (remaining (wa_remaining w)) - ?k"
    by (cases "sync (tk h)") (simp_all add: w1_def syncs_def unat_pred_size)
  then have "length (syncs sync tk hs) < unat (remaining (wa_remaining w1))"
    using Cons.prems(3) split by simp
  moreover have "\<forall>x \<in> set hs. wa_frames w1 x = Some \<lparr>wa_task = tk x, wa_counted = False, wa_point = WA_Created\<rparr>"
    using Cons.prems(1,2) by (auto simp: w1_def)
  ultimately have "start_all sync (map Some hs) w1 = Inr (replicate (length hs) None,
    (wa_stage hs (wa_started sync tk) w1)
    \<lparr>wa_remaining := (wa_remaining w1)\<lparr>remaining := remaining (wa_remaining w1) - of_nat (length (syncs sync tk hs))\<rparr>\<rparr>)"
    using Cons.IH [of w1] Cons.prems(1) by simp
  with start show ?case
    using Cons.prems(1) unfolding split by (auto simp: w1_def wa_stage_def fun_eq_iff algebra_simps)
qed (simp add: wa_stage_def syncs_def)

definition wa_finished :: "(nat \<Rightarrow> nat) \<Rightarrow> nat \<Rightarrow> wa_frame" where
  "wa_finished tk h = \<lparr>wa_task = tk h, wa_counted = True, wa_point = WA_Ended\<rparr>"

lemma complete_each_eq:
  assumes "distinct hs" "\<forall>h \<in> set hs. wa_frames w h = Some \<lparr>wa_task = tk h, wa_counted = True, wa_point = WA_Awaiting\<rparr>"
    and "unat (remaining (wa_remaining w)) = length hs" "waiting_coro (wa_remaining w) = Some c"
  shows "complete_each hs w = Inr (if hs = [] then [] else replicate (length hs - 1) None @ [Some c],
    (wa_stage hs (wa_finished tk) w)\<lparr>wa_remaining := (wa_remaining w)\<lparr>remaining := 0\<rparr>\<rparr>)"
  using assms
proof (induction hs arbitrary: w)
  case Nil
  then have "remaining (wa_remaining w) = 0" by (simp add: unat_eq_0)
  then have "w\<lparr>wa_remaining := (wa_remaining w)\<lparr>remaining := 0\<rparr>\<rparr> = w" by simp
  then show ?case by (simp add: wa_stage_def)
next
  case (Cons h hs)
  let ?k = "remaining (wa_remaining w)"
  define w1 where "w1 = w\<lparr>wa_frames := (wa_frames w)(h \<mapsto> wa_finished tk h),
     wa_remaining := (wa_remaining w)\<lparr>remaining := ?k - 1\<rparr>\<rparr>"
  have "?k = 1 \<longleftrightarrow> unat ?k = 1" by (metis unat_1 word_unat_eq_iff)
  then have k: "?k \<noteq> 0" "?k = 1 \<longleftrightarrow> hs = []" using Cons.prems(3) by auto
  have "wa_resume (\<lambda>_. False) h w = Inr (if hs = [] then Some c else None, w1)"
    using Cons.prems(2,4) k(2)
    by (auto simp: wa_resume_def wa_final_suspend_def notify_task_completion_def Let_def w1_def wa_finished_def)
  moreover have "unat (remaining (wa_remaining w1)) = length hs"
    using Cons.prems(3) k(1) by (simp add: w1_def unat_pred_size)
  moreover have "\<forall>x \<in> set hs. wa_frames w1 x = Some \<lparr>wa_task = tk x, wa_counted = True, wa_point = WA_Awaiting\<rparr>"
    using Cons.prems(1,2) by (auto simp: w1_def)
  ultimately show ?case
    using Cons.IH [of w1] Cons.prems(1,4) by (cases hs) (auto simp: w1_def wa_stage_def fun_eq_iff)
qed

lemma awaiter_destroy_eq:
  assumes "distinct hs" "\<forall>h \<in> set hs. \<exists>f. wa_frames w h = Some f \<and> wa_task f = tk h"
  shows "awaiter_destroy (map Some hs) w = Inr (w\<lparr>wa_frames := (\<lambda>h. if h \<in> set hs then None else wa_frames w h),
     wa_dropped := wa_dropped w @ map tk hs\<rparr>)"
  using assms
proof (induction hs arbitrary: w)
  case (Cons h hs)
  then obtain f where f: "wa_frames w h = Some f" "wa_task f = tk h" by auto
  let ?w = "w\<lparr>wa_frames := (wa_frames w)(h := None), wa_dropped := wa_dropped w @ [tk h]\<rparr>"
  have "wa_task_destroy (Some h) w = Inr ?w" using f by (simp add: wa_task_destroy_def)
  moreover have "\<forall>x \<in> set hs. \<exists>f. wa_frames ?w x = Some f \<and> wa_task f = tk x" using Cons.prems by auto
  ultimately show ?case
    using Cons.IH [of ?w] Cons.prems(1) by (auto simp: fun_eq_iff)
qed simp

text \<open>The handles of the intermediate coroutines whose tasks suspend when they are awaited.\<close>

definition to_complete :: "(nat \<Rightarrow> bool) \<Rightarrow> nat list \<Rightarrow> nat \<Rightarrow> nat list" where
  "to_complete sync ts n = filter (\<lambda>h. \<not> sync (ts ! (h - n))) [n ..< n + length ts]"

subsection \<open>Every interleaving\<close>

text \<open>
  Tasks complete on other threads while the awaiter still starts tasks or runs \<open>try_await\<close>. Where the awaiting thread
  is: the tasks it has not started; behind the store of its handle; behind the decrement, with what \<open>await_suspend\<close> returns.
  Each step has one access to the count. The coroutines resumed so far are a list.
\<close>

datatype wa_pc = WA_Starting "when_all_task list" | WA_Stored | WA_Decided bool | WA_Failed cpp_error

primrec resumed_by :: "nat option \<Rightarrow> nat list" where
  "resumed_by None = []"
| "resumed_by (Some c) = [c]"

inductive wa_step ::
  "(nat \<Rightarrow> bool) \<Rightarrow> nat \<Rightarrow> when_all_task list \<Rightarrow> wa_pc \<times> nat list \<times> wa_world \<Rightarrow> wa_pc \<times> nat list \<times> wa_world \<Rightarrow> bool"
  for sync c tasks where
  wa_start: "wa_task_start sync t w = Inr (r, w') \<Longrightarrow>
    wa_step sync c tasks (WA_Starting (t # ts), l, w) (WA_Starting ts, l @ resumed_by r, w')"
| wa_start_fails: "wa_task_start sync t w = Inl e \<Longrightarrow>
    wa_step sync c tasks (WA_Starting (t # ts), l, w) (WA_Failed e, l, w)"
| wa_store: "wa_step sync c tasks (WA_Starting [], l, w)
    (WA_Stored, l, w\<lparr>wa_remaining := (wa_remaining w)\<lparr>waiting_coro := Some c\<rparr>\<rparr>)"
| wa_decide: "try_await c (wa_remaining w) = (k, suspends) \<Longrightarrow>
    wa_step sync c tasks (WA_Stored, l, w) (WA_Decided suspends, l, w\<lparr>wa_remaining := k\<rparr>)"
| wa_complete: "Some h \<in> set tasks \<Longrightarrow> wa_frames w h = Some f \<Longrightarrow> wa_point f = WA_Awaiting \<Longrightarrow>
    wa_resume sync h w = Inr (r, w') \<Longrightarrow> wa_step sync c tasks (pc, l, w) (pc, l @ resumed_by r, w')"
| wa_complete_fails: "Some h \<in> set tasks \<Longrightarrow> wa_frames w h = Some f \<Longrightarrow> wa_point f = WA_Awaiting \<Longrightarrow>
    wa_resume sync h w = Inl e \<Longrightarrow> wa_step sync c tasks (pc, l, w) (WA_Failed e, l, w)"

text \<open>The intermediate coroutines that have not ended; the count is theirs and one for the awaiting thread.\<close>

definition wa_live :: "nat list \<Rightarrow> wa_world \<Rightarrow> nat set" where
  "wa_live hs w = {h \<in> set hs. map_option wa_point (wa_frames w h) \<noteq> Some WA_Ended}"

definition wa_unstarted :: "wa_pc \<Rightarrow> when_all_task list" where
  "wa_unstarted pc = (case pc of WA_Starting ts \<Rightarrow> ts | _ \<Rightarrow> [])"

definition wa_decided :: "wa_pc \<Rightarrow> bool" where
  "wa_decided pc \<longleftrightarrow> (case pc of WA_Decided _ \<Rightarrow> True | _ \<Rightarrow> False)"

definition wa_frame_ok :: "when_all_task list \<Rightarrow> nat \<Rightarrow> wa_frame \<Rightarrow> bool" where
  "wa_frame_ok todo h f \<longleftrightarrow>
     (if Some h \<in> set todo then wa_point f = WA_Created else wa_counted f \<and> wa_point f \<noteq> WA_Created)"

definition wa_frames_ok :: "nat list \<Rightarrow> when_all_task list \<Rightarrow> wa_world \<Rightarrow> bool" where
  "wa_frames_ok hs todo w \<longleftrightarrow> distinct todo \<and> set todo \<subseteq> Some ` set hs \<and>
     (\<forall>h \<in> set hs. \<exists>f. wa_frames w h = Some f \<and> wa_frame_ok todo h f)"

definition wa_inv :: "nat list \<Rightarrow> nat \<Rightarrow> wa_pc \<times> nat list \<times> wa_world \<Rightarrow> bool" where
  "wa_inv hs c = (\<lambda>(pc, l, w). wa_frames_ok hs (wa_unstarted pc) w \<and>
     unat (remaining (wa_remaining w)) = card (wa_live hs w) + (if wa_decided pc then 0 else 1) \<and>
     (pc = WA_Stored \<or> wa_decided pc \<longrightarrow> waiting_coro (wa_remaining w) = Some c) \<and>
     (pc = WA_Decided False \<longrightarrow> wa_live hs w = {}) \<and> (\<forall>e. pc \<noteq> WA_Failed e) \<and>
     l = (if pc = WA_Decided True \<and> wa_live hs w = {} then [c] else []))"

lemma wa_live_put:
  "h \<in> set hs \<Longrightarrow> wa_live hs (w\<lparr>wa_frames := (wa_frames w)(h \<mapsto> f), wa_remaining := k\<rparr>) =
     (if wa_point f = WA_Ended then wa_live hs w - {h} else insert h (wa_live hs w))"
  "h \<in> set hs \<Longrightarrow> wa_live hs (w\<lparr>wa_frames := (wa_frames w)(h \<mapsto> f)\<rparr>) =
     (if wa_point f = WA_Ended then wa_live hs w - {h} else insert h (wa_live hs w))"
  by (auto simp: wa_live_def)

lemma finite_wa_live [simp]: "finite (wa_live hs w)"
  by (simp add: wa_live_def)

lemma wa_live_remaining [simp]: "wa_live hs (w\<lparr>wa_remaining := k\<rparr>) = wa_live hs w"
  by (simp add: wa_live_def)

lemma wa_resume_eq:
  assumes "wa_frames w h = Some f" "wa_counted f" "wa_point f \<noteq> WA_Ended"
    and "goes \<longleftrightarrow> wa_point f = WA_Awaiting \<or> sync (wa_task f)"
    and "goes \<Longrightarrow> remaining (wa_remaining w) = 1 \<Longrightarrow> waiting_coro (wa_remaining w) = Some c"
  shows "wa_resume sync h w = Inr (if goes \<and> remaining (wa_remaining w) = 1 then Some c else None,
    if goes then w\<lparr>wa_frames := (wa_frames w)(h \<mapsto> f\<lparr>wa_point := WA_Ended\<rparr>),
       wa_remaining := (wa_remaining w)\<lparr>remaining := remaining (wa_remaining w) - 1\<rparr>\<rparr>
    else w\<lparr>wa_frames := (wa_frames w)(h \<mapsto> f\<lparr>wa_point := WA_Awaiting\<rparr>)\<rparr>)"
  using assms by (cases "wa_point f")
    (auto simp: wa_resume_def wa_final_suspend_def Let_def notify_task_completion_def)

text \<open>The count after an intermediate coroutine ran: it resumes the awaiter only as the last, and after the decision.\<close>

lemma wa_run_keeps:
  assumes at: "wa_frames w h = Some f" "wa_counted f" "wa_point f \<noteq> WA_Ended" "h \<in> set hs"
    and rest: "distinct todo" "set todo \<subseteq> Some ` set hs" "Some h \<notin> set todo"
      "\<forall>x \<in> set hs - {h}. \<exists>f. wa_frames w x = Some f \<and> wa_frame_ok todo x f"
    and count: "unat (remaining (wa_remaining w)) = card (wa_live hs w) + (if d then 0 else 1)"
      "d \<longrightarrow> waiting_coro (wa_remaining w) = Some c"
  shows "\<exists>r w'. wa_resume sync h w = Inr (r, w') \<and> wa_frames_ok hs todo w' \<and>
    unat (remaining (wa_remaining w')) = card (wa_live hs w') + (if d then 0 else 1) \<and>
    waiting_coro (wa_remaining w') = waiting_coro (wa_remaining w) \<and>
    wa_live hs w' \<subseteq> wa_live hs w \<and> (wa_point f = WA_Awaiting \<longrightarrow> wa_live hs w' \<subset> wa_live hs w) \<and>
    resumed_by r = (if d \<and> wa_live hs w' = {} then [c] else [])"
proof -
  define goes where "goes \<longleftrightarrow> wa_point f = WA_Awaiting \<or> sync (wa_task f)"
  have live: "h \<in> wa_live hs w" using at by (simp add: wa_live_def)
  then have pos: "0 < card (wa_live hs w)" by (auto simp: card_gt_0_iff)
  have one: "remaining (wa_remaining w) = 1 \<longleftrightarrow> d \<and> card (wa_live hs w) = 1"
    using pos count(1) by (auto simp: word_unat_eq_iff split: if_splits)
  have last: "card (wa_live hs w) = 1 \<longleftrightarrow> wa_live hs w - {h} = {}"
    using live by (auto simp: card_1_singleton_iff)
  have dec: "unat (remaining (wa_remaining w) - 1) = unat (remaining (wa_remaining w)) - 1"
    using count(1) pos by (intro unat_pred_size) auto
  note eq = wa_resume_eq [of w h f goes sync c, OF at(1-3) goes_def]
  show ?thesis
  proof (cases goes)
    case True
    let ?w = "w\<lparr>wa_frames := (wa_frames w)(h \<mapsto> f\<lparr>wa_point := WA_Ended\<rparr>),
       wa_remaining := (wa_remaining w)\<lparr>remaining := remaining (wa_remaining w) - 1\<rparr>\<rparr>"
    have "wa_resume sync h w = Inr (if d \<and> wa_live hs w - {h} = {} then Some c else None, ?w)"
      using eq count(2) one last True by simp
    moreover have lw: "wa_live hs ?w = wa_live hs w - {h}" using at(4) by (simp add: wa_live_put)
    moreover have "wa_frames_ok hs todo ?w" using rest at(1,2,4) by (simp add: wa_frames_ok_def wa_frame_ok_def)
    moreover have "unat (remaining (wa_remaining ?w)) = card (wa_live hs ?w) + (if d then 0 else 1)"
      unfolding lw using dec count(1) live pos by (simp add: card_Diff_singleton)
    ultimately show ?thesis using live
      by (intro exI [of _ "if d \<and> wa_live hs w - {h} = {} then Some c else None"] exI [of _ ?w]) (simp add: psubset_eq, blast)
  next
    case False
    let ?w = "w\<lparr>wa_frames := (wa_frames w)(h \<mapsto> f\<lparr>wa_point := WA_Awaiting\<rparr>)\<rparr>"
    have "wa_resume sync h w = Inr (None, ?w)" using eq False by simp
    moreover have "wa_live hs ?w = wa_live hs w" using at(4) live by (auto simp: wa_live_put)
    moreover have "wa_frames_ok hs todo ?w" using rest at(1,2,4) by (simp add: wa_frames_ok_def wa_frame_ok_def)
    moreover have "wa_point f \<noteq> WA_Awaiting" using False goes_def by simp
    ultimately show ?thesis using live count
      by (intro exI [of _ None] exI [of _ ?w]) auto
  qed
qed

text \<open>What is left of a run: tasks to start, the two actions of the awaiting thread, tasks to complete.\<close>

definition wa_left :: "nat list \<Rightarrow> wa_pc \<times> nat list \<times> wa_world \<Rightarrow> nat" where
  "wa_left hs = (\<lambda>(pc, l, w). card (wa_live hs w) +
     (case pc of WA_Starting ts \<Rightarrow> length ts + 2 | WA_Stored \<Rightarrow> 1 | _ \<Rightarrow> 0))"

lemmas wa_state_simps = wa_inv_def wa_unstarted_def wa_decided_def wa_left_def

lemma wa_start_keeps:
  assumes "wa_inv hs c (WA_Starting (t # ts), l, w)"
  shows "\<exists>r w'. wa_task_start sync t w = Inr (r, w') \<and> wa_inv hs c (WA_Starting ts, l @ resumed_by r, w') \<and>
    wa_left hs (WA_Starting ts, l @ resumed_by r, w') < wa_left hs (WA_Starting (t # ts), l, w)"
proof -
  have ok: "wa_frames_ok hs (t # ts) w" and l: "l = []"
      and cnt: "unat (remaining (wa_remaining w)) = card (wa_live hs w) + 1"
    using assms by (simp_all add: wa_state_simps)
  obtain h where h: "t = Some h" "h \<in> set hs" "Some h \<notin> set ts" using ok by (auto simp: wa_frames_ok_def)
  obtain f where f: "wa_frames w h = Some f" "wa_point f = WA_Created"
    using ok h(1,2) unfolding wa_frames_ok_def wa_frame_ok_def by force
  let ?w = "w\<lparr>wa_frames := (wa_frames w)(h \<mapsto> f\<lparr>wa_counted := True\<rparr>)\<rparr>"
  have start: "wa_task_start sync t w = wa_resume sync h ?w"
    using h f by (simp add: wa_task_start_def wa_promise_start_def)
  have live: "wa_live hs ?w = wa_live hs w" using h(2) f by (auto simp: wa_live_def)
  have "wa_frame_ok (t # ts) x g = wa_frame_ok ts x g" if "x \<noteq> h" for x g
    using that h(1) by (simp add: wa_frame_ok_def)
  then have "\<forall>x \<in> set hs - {h}. \<exists>f. wa_frames ?w x = Some f \<and> wa_frame_ok ts x f"
    using ok unfolding wa_frames_ok_def by (metis (no_types, lifting) Diff_iff insertI1 fun_upd_other wa_world.select_convs(1)
        wa_world.surjective wa_world.update_convs(1))
  moreover have "distinct ts" "set ts \<subseteq> Some ` set hs" using ok by (auto simp: wa_frames_ok_def)
  ultimately obtain r w' where "wa_resume sync h ?w = Inr (r, w')" "wa_frames_ok hs ts w'"
      "unat (remaining (wa_remaining w')) = card (wa_live hs w') + 1" "wa_live hs w' \<subseteq> wa_live hs w" "resumed_by r = []"
    using wa_run_keeps [of ?w h "f\<lparr>wa_counted := True\<rparr>" hs ts False c sync] f(2) h(2,3) cnt live by auto
  then show ?thesis
    using start l card_mono [of "wa_live hs w" "wa_live hs w'"] by (auto simp: wa_state_simps)
qed

lemma wa_complete_keeps:
  assumes inv: "wa_inv hs c (pc, l, w)" and at: "h \<in> set hs" "wa_frames w h = Some f" "wa_point f = WA_Awaiting"
  shows "\<exists>r w'. wa_resume sync h w = Inr (r, w') \<and> wa_inv hs c (pc, l @ resumed_by r, w') \<and>
    wa_left hs (pc, l @ resumed_by r, w') < wa_left hs (pc, l, w)"
proof -
  have ok: "wa_frames_ok hs (wa_unstarted pc) w" using inv by (simp add: wa_inv_def)
  have h: "Some h \<notin> set (wa_unstarted pc)" "wa_counted f"
    using ok at unfolding wa_frames_ok_def wa_frame_ok_def by (auto split: if_splits)
  have live: "h \<in> wa_live hs w" using at by (simp add: wa_live_def)
  then have l: "l = []" and pc: "wa_decided pc \<longrightarrow> pc = WA_Decided True"
    using inv by (auto simp: wa_state_simps split: wa_pc.splits bool.splits)
  obtain r w' where w': "wa_resume sync h w = Inr (r, w')" "wa_frames_ok hs (wa_unstarted pc) w'"
      "unat (remaining (wa_remaining w')) = card (wa_live hs w') + (if wa_decided pc then 0 else 1)"
      "waiting_coro (wa_remaining w') = waiting_coro (wa_remaining w)"
      "wa_point f = WA_Awaiting \<longrightarrow> wa_live hs w' \<subset> wa_live hs w"
      "resumed_by r = (if wa_decided pc \<and> wa_live hs w' = {} then [c] else [])"
  proof -
    have "wa_point f \<noteq> WA_Ended" "distinct (wa_unstarted pc)" "set (wa_unstarted pc) \<subseteq> Some ` set hs"
      "\<forall>x \<in> set hs - {h}. \<exists>f. wa_frames w x = Some f \<and> wa_frame_ok (wa_unstarted pc) x f"
      "unat (remaining (wa_remaining w)) = card (wa_live hs w) + (if wa_decided pc then 0 else 1)"
      "wa_decided pc \<longrightarrow> waiting_coro (wa_remaining w) = Some c"
      using ok at inv by (simp_all add: wa_inv_def wa_frames_ok_def)
    from wa_run_keeps [OF at(2) h(2) this(1) at(1) this(2,3) h(1) this(4-6), of sync]
    show ?thesis by (elim exE conjE) (rule that; assumption)
  qed
  have "card (wa_live hs w') < card (wa_live hs w)" using w'(5) at(3) by (simp add: psubset_card_mono)
  moreover have "wa_inv hs c (pc, l @ resumed_by r, w')"
  proof -
    have dec: "wa_decided pc \<longleftrightarrow> pc = WA_Decided True" using pc by (auto simp: wa_decided_def)
    have "\<forall>e. pc \<noteq> WA_Failed e" "pc \<noteq> WA_Decided False"
      "pc = WA_Stored \<or> wa_decided pc \<longrightarrow> waiting_coro (wa_remaining w) = Some c"
      using inv live by (auto simp: wa_inv_def)
    with w'(2,3,4,6) l dec show ?thesis unfolding wa_inv_def by simp
  qed
  ultimately show ?thesis using w'(1) by (simp add: wa_left_def)
qed

lemma wa_step_keeps:
  assumes "wa_step sync c (map Some hs) s s'" "wa_inv hs c s"
  shows "wa_inv hs c s' \<and> wa_left hs s' < wa_left hs s"
  using assms
proof cases
  case (wa_start t w r w' ts l)
  then show ?thesis using wa_start_keeps [of hs c t ts l w sync] assms(2) by auto
next
  case (wa_start_fails t w e ts l)
  then show ?thesis using wa_start_keeps [of hs c t ts l w sync] assms(2) by auto
next
  case (wa_store l w)
  then show ?thesis using assms(2) by (simp add: wa_state_simps wa_frames_ok_def wa_live_def)
next
  case (wa_decide w k suspends l)
  have cnt: "unat (remaining (wa_remaining w)) = card (wa_live hs w) + 1" using assms(2) wa_decide by (simp add: wa_state_simps)
  then have "unat (remaining (wa_remaining w) - 1) = card (wa_live hs w)" by (subst unat_pred_size) auto
  moreover have "suspends \<longleftrightarrow> wa_live hs w \<noteq> {}"
    using wa_decide(3) cnt by (auto simp: try_await_def Let_def word_less_nat_alt card_gt_0_iff)
  ultimately show ?thesis using assms(2) wa_decide
    by (auto simp: wa_state_simps wa_frames_ok_def try_await_def Let_def)
next
  case (wa_complete h w f r w' pc l)
  then show ?thesis using wa_complete_keeps [of hs c pc l w h f sync] assms(2) by auto
next
  case (wa_complete_fails h w f e pc l)
  then show ?thesis using wa_complete_keeps [of hs c pc l w h f sync] assms(2) by auto
qed

text \<open>As long as the awaiter has not gone on, some step is possible.\<close>

lemma wa_progress:
  assumes "wa_inv hs c (pc, l, w)" and "\<And>s'. \<not> wa_step sync c (map Some hs) (pc, l, w) s'"
  shows "wa_live hs w = {} \<and> (pc = WA_Decided False \<and> l = [] \<or> pc = WA_Decided True \<and> l = [c])"
proof -
  have dec: "wa_decided pc"
  proof (cases pc)
    case (WA_Starting ts)
    then show ?thesis
      using assms wa_start_keeps [of hs c _ _ l w sync] wa_store by (cases ts) (blast intro: wa_start)+
  next
    case WA_Stored
    then show ?thesis using assms(2) wa_decide [OF surjective_pairing] by blast
  qed (use assms(1) in \<open>simp_all add: wa_inv_def wa_decided_def\<close>)
  have "wa_live hs w = {}"
  proof (rule ccontr)
    assume "wa_live hs w \<noteq> {}"
    then obtain h where h: "h \<in> set hs" "map_option wa_point (wa_frames w h) \<noteq> Some WA_Ended" by (auto simp: wa_live_def)
    have "wa_frames_ok hs [] w" using assms(1) dec by (auto simp: wa_state_simps split: wa_pc.splits)
    then obtain f where f: "wa_frames w h = Some f" "wa_point f = WA_Awaiting"
      using h unfolding wa_frames_ok_def wa_frame_ok_def by (metis list.set(1) empty_iff option.map(2) wa_point.exhaust)
    obtain r w' where "wa_resume sync h w = Inr (r, w')" using wa_complete_keeps [OF assms(1) h(1) f, of sync] by blast
    with f h(1) assms(2) show False using wa_complete [of h "map Some hs" w f sync r w' c pc l] by (simp add: image_iff)
  qed
  then show ?thesis using assms(1) dec by (auto simp: wa_state_simps split: wa_pc.splits bool.splits)
qed

lemma relpow_4: "R a b \<Longrightarrow> R b c \<Longrightarrow> R c d \<Longrightarrow> R d e \<Longrightarrow> (R ^^ 4) a e"
  by (auto simp: numeral_eq_Suc intro!: relcomppI)

lemma wa_run_keeps_inv:
  assumes "(wa_step sync c (map Some hs) ^^ n) s s'" "wa_inv hs c s"
  shows "wa_inv hs c s' \<and> n + wa_left hs s' \<le> wa_left hs s"
  using assms
proof (induction n arbitrary: s')
  case (Suc n)
  then obtain s1 where "(wa_step sync c (map Some hs) ^^ n) s s1" "wa_step sync c (map Some hs) s1 s'" by auto
  with Suc wa_step_keeps [of sync c hs s1 s'] show ?case by fastforce
qed simp

lemma when_all_inv:
  assumes "length ts + 1 < 2 ^ 64" and "when_all ts w = (tasks, w1)"
  obtains hs where "tasks = map Some hs" "wa_inv hs c (WA_Starting tasks, [], w1)"
    "wa_left hs (WA_Starting tasks, [], w1) = 2 * length ts + 2"
proof -
  let ?hs = "[wa_next w ..< wa_next w + length ts]"
  have tasks: "tasks = map Some ?hs" and rem: "wa_remaining w1 = counter_new (length ts)"
    and fr: "\<And>h. wa_frames w1 h = (if h \<in> set ?hs
       then Some \<lparr>wa_task = ts ! (h - wa_next w), wa_counted = False, wa_point = WA_Created\<rparr> else wa_frames w h)"
    using assms(2) by (auto simp: when_all_def when_all_awaiter_new_def make_all_eq wa_stage_def)
  have live: "wa_live ?hs w1 = set ?hs" by (auto simp: wa_live_def fr)
  have "unat (remaining (wa_remaining w1)) = length ts + 1"
    using assms(1) unat_of_nat_size [of "length ts + 1"] by (simp add: rem counter_new_def add.commute)
  then have "wa_inv ?hs c (WA_Starting tasks, [], w1)"
    by (simp add: wa_state_simps live tasks wa_frames_ok_def wa_frame_ok_def fr distinct_map)
  then show ?thesis using that [of ?hs] tasks live by (simp add: wa_left_def)
qed

subsection \<open>Properties\<close>

text \<open>
  C18. In every interleaving of the thread that awaits \<open>when_all\<close> with the completions of its tasks on other threads,
  during the starts, around \<open>try_await\<close> and after it: nothing fails; the awaiting coroutine is resumed at most once and only
  when it suspended; when it goes on, resumed or not suspended, every intermediate coroutine is at its end; every run is
  finite; and one that can go no further has continued it exactly once.
\<close>

theorem when_all_every_interleaving:
  assumes "length ts + 1 < 2 ^ 64" and "when_all ts w = (tasks, w1)"
    and "(wa_step sync c tasks ^^ n) (WA_Starting tasks, [], w1) (pc, l, w2)"
  shows "n \<le> 2 * length ts + 2 \<and> (\<forall>e. pc \<noteq> WA_Failed e) \<and> (l = [] \<or> l = [c] \<and> pc = WA_Decided True) \<and>
    (l = [c] \<or> pc = WA_Decided False \<longrightarrow>
       (\<forall>t \<in> set tasks. \<exists>h f. t = Some h \<and> wa_frames w2 h = Some f \<and> wa_point f = WA_Ended)) \<and>
    ((\<forall>s. \<not> wa_step sync c tasks (pc, l, w2) s) \<longrightarrow> pc = WA_Decided False \<and> l = [] \<or> pc = WA_Decided True \<and> l = [c])"
proof -
  obtain hs where hs: "tasks = map Some hs" "wa_inv hs c (WA_Starting tasks, [], w1)"
      "wa_left hs (WA_Starting tasks, [], w1) = 2 * length ts + 2"
    using when_all_inv [OF assms(1,2)] by blast
  have inv: "wa_inv hs c (pc, l, w2)" and bound: "n \<le> 2 * length ts + 2"
    using wa_run_keeps_inv [OF assms(3) [unfolded hs(1)] hs(2) [unfolded hs(1)]] hs(3) unfolding hs(1) by auto
  have "(\<forall>e. pc \<noteq> WA_Failed e) \<and> (l = [] \<or> l = [c] \<and> pc = WA_Decided True)" using inv by (simp add: wa_inv_def)
  moreover have "l = [c] \<or> pc = WA_Decided False \<longrightarrow> wa_live hs w2 = {}" using inv by (auto simp: wa_inv_def split: if_splits)
  then have "l = [c] \<or> pc = WA_Decided False \<longrightarrow>
      (\<forall>t \<in> set tasks. \<exists>h f. t = Some h \<and> wa_frames w2 h = Some f \<and> wa_point f = WA_Ended)"
    unfolding hs(1) wa_live_def by auto
  moreover have "(\<forall>s. \<not> wa_step sync c tasks (pc, l, w2) s) \<longrightarrow> pc = WA_Decided False \<and> l = [] \<or> pc = WA_Decided True \<and> l = [c]"
    using wa_progress [OF inv, of sync] unfolding hs(1) by blast
  ultimately show ?thesis using bound by blast
qed

theorem when_all_every_interleaving_witness:
  "\<exists>tasks w1 w2. when_all [7] \<lparr>wa_frames = Map.empty, wa_next = 0, wa_remaining = counter_new 0, wa_dropped = []\<rparr> = (tasks, w1) \<and>
     (wa_step (\<lambda>_. False) 5 tasks ^^ 4) (WA_Starting tasks, [], w1) (WA_Decided True, [5], w2) \<and>
     (\<forall>t \<in> set tasks. \<exists>h f. t = Some h \<and> wa_frames w2 h = Some f \<and> wa_point f = WA_Ended)"
proof -
  let ?w = "\<lparr>wa_frames = Map.empty, wa_next = 0, wa_remaining = counter_new 0, wa_dropped = []\<rparr>"
  let ?f = "\<lambda>b p. [0 \<mapsto> \<lparr>wa_task = 7, wa_counted = b, wa_point = p\<rparr>]"
  let ?v = "\<lambda>fr r a. \<lparr>wa_frames = fr, wa_next = 1, wa_remaining = \<lparr>remaining = r, waiting_coro = a\<rparr>, wa_dropped = []\<rparr>"
  let ?step = "wa_step (\<lambda>_. False) 5 [Some 0]"
  have new: "when_all [7] ?w = ([Some 0], ?v (?f False WA_Created) 2 None)"
    by (simp add: when_all_def make_when_all_task_def when_all_awaiter_new_def counter_new_def)
  have "wa_task_start (\<lambda>_. False) (Some 0) (?v (?f False WA_Created) 2 None) = Inr (None, ?v (?f True WA_Awaiting) 2 None)"
    by (simp add: wa_task_start_def wa_promise_start_def wa_resume_def)
  from wa_start [OF this, of 5 "[Some 0]" "[]" "[]"]
  have s1: "?step (WA_Starting [Some 0], [], ?v (?f False WA_Created) 2 None) (WA_Starting [], [], ?v (?f True WA_Awaiting) 2 None)"
    by simp
  have s2: "?step (WA_Starting [], [], ?v (?f True WA_Awaiting) 2 None) (WA_Stored, [], ?v (?f True WA_Awaiting) 2 (Some 5))"
    using wa_store [of "\<lambda>_. False" 5 "[Some 0]" "[]" "?v (?f True WA_Awaiting) 2 None"] by simp
  have "try_await 5 (wa_remaining (?v (?f True WA_Awaiting) 2 (Some 5))) = (\<lparr>remaining = 1, waiting_coro = Some 5\<rparr>, True)"
    by (simp add: try_await_def)
  from wa_decide [OF this, of "\<lambda>_. False" "[Some 0]" "[]"]
  have s3: "?step (WA_Stored, [], ?v (?f True WA_Awaiting) 2 (Some 5)) (WA_Decided True, [], ?v (?f True WA_Awaiting) 1 (Some 5))"
    by simp
  have "wa_resume (\<lambda>_. False) 0 (?v (?f True WA_Awaiting) 1 (Some 5)) = Inr (Some 5, ?v (?f True WA_Ended) 0 (Some 5))"
    by (simp add: wa_resume_def wa_final_suspend_def notify_task_completion_def)
  from wa_complete [OF _ _ _ this, of "[Some 0]" _ 5 "WA_Decided True" "[]"]
  have s4: "?step (WA_Decided True, [], ?v (?f True WA_Awaiting) 1 (Some 5)) (WA_Decided True, [5], ?v (?f True WA_Ended) 0 (Some 5))"
    by simp
  from s1 s2 s3 s4 have run: "(?step ^^ 4) (WA_Starting [Some 0], [], ?v (?f False WA_Created) 2 None)
      (WA_Decided True, [5], ?v (?f True WA_Ended) 0 (Some 5))"
    by (rule relpow_4)
  have "length [7 :: nat] + 1 < 2 ^ 64" by simp
  from when_all_every_interleaving [OF this new run] new run show ?thesis by blast
qed


text \<open>
  C19. \<open>when_all\<close> waits for all: of any number of tasks, some of which complete as they are awaited and the others later in
  any order, no start resumes the awaiting coroutine, it suspends exactly when some task is not complete, and the last
  completion and no other resumes it, with every intermediate coroutine at its end; destroying the awaiter then destroys
  every intermediate coroutine and every task, each once.
\<close>

theorem when_all_waits_for_all:
  assumes "length ts + 1 < 2 ^ 64" and "\<forall>h \<ge> wa_next w. wa_frames w h = None"
    and "mset cs = mset (to_complete sync ts (wa_next w))"
  shows "\<exists>tasks w1 w2 w3 w4. when_all ts w = (tasks, w1) \<and>
    wa_await_suspend sync c tasks w1 = Inr (cs \<noteq> [], replicate (length ts) None, w2) \<and>
    complete_each cs w2 = Inr (if cs = [] then [] else replicate (length cs - 1) None @ [Some c], w3) \<and>
    (\<forall>h. wa_next w \<le> h \<and> h < wa_next w + length ts \<longrightarrow> map_option wa_point (wa_frames w3 h) = Some WA_Ended) \<and>
    awaiter_destroy tasks w3 = Inr w4 \<and> wa_frames w4 = wa_frames w \<and> wa_dropped w4 = wa_dropped w @ ts"
proof -
  let ?n = "wa_next w" and ?hs = "[wa_next w ..< wa_next w + length ts]" and ?tk = "\<lambda>h. ts ! (h - wa_next w)"
  let ?done = "length (syncs sync ?tk ?hs)"
  define w1 where "w1 = snd (when_all ts w)"
  have all: "when_all ts w = (map Some ?hs, w1)"
    by (simp add: w1_def when_all_def when_all_awaiter_new_def make_all_eq)
  have w1: "wa_remaining w1 = counter_new (length ts)" "wa_dropped w1 = wa_dropped w"
      "\<forall>h \<in> set ?hs. wa_frames w1 h = Some \<lparr>wa_task = ?tk h, wa_counted = False, wa_point = WA_Created\<rparr>"
      "\<forall>h. h \<notin> set ?hs \<longrightarrow> wa_frames w1 h = wa_frames w h"
    by (simp_all add: w1_def when_all_def when_all_awaiter_new_def make_all_eq wa_stage_def)
  have sum: "?done + length cs = length ts"
    using sum_length_filter_compl [of "\<lambda>h. sync (?tk h)" ?hs] mset_eq_length [OF assms(3)]
    unfolding syncs_def to_complete_def length_upt by linarith
  have rem: "unat (remaining (wa_remaining w1)) = length ts + 1"
    using assms(1) unat_of_nat_size [of "length ts + 1"] by (simp add: w1(1) counter_new_def add.commute)
  define w2 where "w2 = (wa_stage ?hs (wa_started sync ?tk) w1)\<lparr>wa_remaining :=
     \<lparr>remaining = of_nat (length cs), waiting_coro = Some c\<rparr>\<rparr>"
  have left: "remaining (wa_remaining w1) - of_nat ?done = of_nat (length cs + 1)"
  proof -
    have "remaining (wa_remaining w1) = of_nat (?done + (length cs + 1))"
      by (subst add.assoc [symmetric], subst sum) (simp add: w1(1) counter_new_def add.commute)
    then show ?thesis by simp
  qed
  have "unat (of_nat (length cs + 1) :: size_t) = length cs + 1" "unat (of_nat (length cs) :: size_t) = length cs"
    using assms(1) sum by (intro unat_of_nat_size; simp)+
  note cs = this
  then have more: "1 < (of_nat (length cs + 1) :: size_t) \<longleftrightarrow> cs \<noteq> []" by (simp add: word_less_nat_alt)
  have "start_all sync (map Some ?hs) w1 = Inr (replicate (length ?hs) None, (wa_stage ?hs (wa_started sync ?tk) w1)
      \<lparr>wa_remaining := (wa_remaining w1)\<lparr>remaining := of_nat (length cs + 1)\<rparr>\<rparr>)"
    unfolding left [symmetric] by (rule start_all_eq) (use w1(3) rem sum in simp_all)
  then have suspend: "wa_await_suspend sync c (map Some ?hs) w1 = Inr (cs \<noteq> [], replicate (length ts) None, w2)"
    using more by (simp add: wa_await_suspend_def try_await_def w2_def)
  have "distinct cs"
    using mset_eq_imp_distinct_iff [OF assms(3)] by (simp only: to_complete_def distinct_filter distinct_upt)
  have mem: "h \<in> set cs \<longleftrightarrow> h \<in> set ?hs \<and> \<not> sync (?tk h)" for h
    using mset_eq_setD [OF assms(3)] by (simp only: to_complete_def set_filter mem_Collect_eq)
  have w2: "wa_frames w2 h = (if h \<in> set ?hs then Some (wa_started sync ?tk h) else wa_frames w1 h)" for h
    by (simp add: w2_def wa_stage_def)
  have at: "\<forall>h \<in> set cs. wa_frames w2 h = Some \<lparr>wa_task = ?tk h, wa_counted = True, wa_point = WA_Awaiting\<rparr>"
      "\<forall>h \<in> set ?hs. h \<in> set cs \<or> wa_frames w2 h = Some (wa_finished ?tk h)" "set cs \<subseteq> set ?hs"
    unfolding w2 wa_started_def wa_finished_def using mem by (simp_all add: subset_iff)
  define w3 where "w3 = (wa_stage cs (wa_finished ?tk) w2)\<lparr>wa_remaining := (wa_remaining w2)\<lparr>remaining := 0\<rparr>\<rparr>"
  have complete: "complete_each cs w2 = Inr (if cs = [] then [] else replicate (length cs - 1) None @ [Some c], w3)"
    unfolding w3_def by (rule complete_each_eq) (use \<open>distinct cs\<close> at(1) cs(2) in \<open>simp_all add: w2_def\<close>)
  have end3: "\<forall>h \<in> set ?hs. wa_frames w3 h = Some (wa_finished ?tk h)"
    using at(2) by (auto simp: w3_def wa_stage_def)
  have other: "\<forall>h. h \<notin> set ?hs \<longrightarrow> wa_frames w3 h = wa_frames w h"
    using at(3) w1(4) by (auto simp: w3_def w2_def wa_stage_def)
  define w4 where "w4 = w3\<lparr>wa_frames := (\<lambda>h. if h \<in> set ?hs then None else wa_frames w3 h),
     wa_dropped := wa_dropped w3 @ map ?tk ?hs\<rparr>"
  have "awaiter_destroy (map Some ?hs) w3 = Inr w4"
    unfolding w4_def by (rule awaiter_destroy_eq) (use end3 in \<open>simp_all add: wa_finished_def\<close>)
  moreover have "wa_frames w4 = wa_frames w"
    using other assms(2) by (auto simp: w4_def fun_eq_iff)
  moreover have "map ?tk ?hs = ts" by (rule nth_equalityI) simp_all
  then have "wa_dropped w4 = wa_dropped w @ ts"
    by (simp add: w4_def w3_def w2_def wa_stage_def w1(2))
  ultimately show ?thesis
    using all suspend complete end3
    by (intro exI [of _ "map Some ?hs"] exI [of _ w1] exI [of _ w2] exI [of _ w3] exI [of _ w4])
      (simp add: wa_finished_def)
qed

theorem when_all_waits_for_all_witness:
  "\<exists>tasks w1 w2 w3. when_all [7, 8, 9] \<lparr>wa_frames = Map.empty, wa_next = 0, wa_remaining = counter_new 0, wa_dropped = []\<rparr> =
     (tasks, w1) \<and> wa_await_suspend (\<lambda>t. t = 8) 5 tasks w1 = Inr (True, [None, None, None], w2) \<and>
     complete_each [2, 0] w2 = Inr ([None, Some 5], w3)"
proof -
  let ?w = "\<lparr>wa_frames = Map.empty, wa_next = 0, wa_remaining = counter_new 0, wa_dropped = []\<rparr>"
  have "to_complete (\<lambda>t. t = 8) [7, 8, 9] 0 = [0, 2]" by code_simp
  then have "mset [2, 0] = mset (to_complete (\<lambda>t. t = 8) [7, 8, 9] (wa_next ?w))" by simp
  moreover have "length [7, 8, 9 :: nat] + 1 < 2 ^ 64" "\<forall>h \<ge> wa_next ?w. wa_frames ?w h = None" by simp_all
  ultimately obtain tasks w1 w2 w3 where "when_all [7, 8, 9] ?w = (tasks, w1)"
      "wa_await_suspend (\<lambda>t. t = 8) 5 tasks w1 = Inr ([2, 0 :: nat] \<noteq> [], replicate (length [7, 8, 9 :: nat]) None, w2)"
      "complete_each [2, 0] w2 = Inr (if [2, 0 :: nat] = [] then [] else replicate (length [2, 0 :: nat] - 1) None @ [Some 5], w3)"
    using when_all_waits_for_all [of "[7, 8, 9]" ?w "[2, 0]" "\<lambda>t. t = 8" 5] by blast
  moreover have "replicate (length [7, 8, 9 :: nat]) None = [None, None, None :: nat option]"
    "replicate (length [2, 0 :: nat] - 1) None @ [Some 5] = [None, Some (5 :: nat)]" by simp_all
  ultimately show ?thesis by (simp only: list.simps if_False not_True_eq_False not_False_eq_True) blast
qed

end
