(* ===== verification/Pool_Program.thy ===== *)
theory Pool_Program
  imports Thread_Pool Numbers
begin

text \<open>
  The program on the thread pool (driver.cpp of applications/threadpool): the main thread starts \<open>n\<close> coroutines
  that each await \<open>schedule\<close>, shuts the pool down, and destroys tasks and pool; one worker thread resumes
  the coroutines. A step is one access to what the threads share. The frame of coroutine \<open>i\<close> is at \<open>A i\<close>.

  Whatever the interleaving, every coroutine is entered and left once and none is destroyed early.
\<close>

subsection \<open>The coroutine and the main thread\<close>

datatype launch_point = L_Entered | L_Scheduled | L_Finished

record launch_frame =
  l_id :: nat
  l_point :: launch_point

datatype launch_line = is_enters: Enters nat | is_exits: Exits nat

text \<open>
  Where the main thread is: in the loop; in \<open>await_suspend\<close> of a coroutine it runs, about to load the state, to compare
  and exchange it, or to queue the handle; in \<open>shutdown\<close>; joining, from \<open>shutdown\<close> or from the destructor (\<open>True\<close>);
  destroying the vector of tasks, and then the pool.
\<close>

datatype program_pc =
    P_Launch nat | P_Await nat | P_Compare nat u32 | P_Push nat
  | P_Close | P_Post | P_Join bool nat | P_Destroy | P_Returned | P_Failed cpp_error

record pool_program =
  pg_pool :: thread_pool
  pg_worker :: thread_pc
  pg_main :: program_pc
  pg_frames :: "uptr \<rightharpoonup> launch_frame"
  pg_tasks :: "uptr list"
  pg_lines :: "launch_line list"

definition launch_resume :: "uptr \<Rightarrow> pool_program \<Rightarrow> pool_program res" where
  "launch_resume h w =
     (case pg_frames w h of
        Some f \<Rightarrow>
          if l_point f = L_Scheduled
          then Inr (w\<lparr>pg_frames := (pg_frames w)(h \<mapsto> f\<lparr>l_point := L_Finished\<rparr>), pg_lines := pg_lines w @ [Exits (l_id f)]\<rparr>)
          else Inl DeadHandle
      | None \<Rightarrow> Inl DeadHandle)"

text \<open>The destructor of a task destroys its frame, which must not be running.\<close>

definition launched_destroy :: "uptr \<Rightarrow> pool_program \<Rightarrow> pool_program res" where
  "launched_destroy h w =
     (case pg_frames w h of
        Some f \<Rightarrow> if l_point f = L_Entered then Inl DeadHandle else Inr (w\<lparr>pg_frames := (pg_frames w)(h := None)\<rparr>)
      | None \<Rightarrow> Inl DeadHandle)"

text \<open>The label is \<open>True\<close> for a spurious failure of compare-exchange.\<close>

inductive program_step :: "nat \<Rightarrow> (nat \<Rightarrow> uptr) \<Rightarrow> bool \<Rightarrow> pool_program \<Rightarrow> pool_program \<Rightarrow> bool" for n A where
  p_launch: "pg_main w = P_Launch i \<Longrightarrow> i < n \<Longrightarrow>
    program_step n A False w (w\<lparr>pg_frames := (pg_frames w)(A i \<mapsto> \<lparr>l_id = i, l_point = L_Entered\<rparr>),
      pg_lines := pg_lines w @ [Enters i], pg_main := P_Await i\<rparr>)"
| p_await: "pg_main w = P_Await i \<Longrightarrow> pg_frames w (A i) = Some f \<Longrightarrow>
    program_step n A False w (w\<lparr>pg_frames := (pg_frames w)(A i \<mapsto> f\<lparr>l_point := L_Scheduled\<rparr>),
      pg_main := P_Compare i (pool_state (pg_pool w))\<rparr>)"
| p_again: "pg_main w = P_Compare i s \<Longrightarrow> try_awaiter_enter s (pg_pool w) = (p, Inl s') \<Longrightarrow>
    program_step n A False w (w\<lparr>pg_pool := p, pg_main := P_Compare i s'\<rparr>)"
| p_spurious: "pg_main w = P_Compare i s \<Longrightarrow> s AND CLOSED_FLAG = 0 \<Longrightarrow>
    program_step n A True w (w\<lparr>pg_main := P_Compare i (pool_state (pg_pool w))\<rparr>)"
| p_refused: "pg_main w = P_Compare i s \<Longrightarrow> try_awaiter_enter s (pg_pool w) = (p, Inr False) \<Longrightarrow>
    program_step n A False w (case launch_resume (A i) (w\<lparr>pg_pool := p\<rparr>) of
        Inl e \<Rightarrow> w\<lparr>pg_main := P_Failed e\<rparr>
      | Inr w' \<Rightarrow> w'\<lparr>pg_tasks := pg_tasks w' @ [A i], pg_main := P_Launch (i + 1)\<rparr>)"
| p_enters: "pg_main w = P_Compare i s \<Longrightarrow> try_awaiter_enter s (pg_pool w) = (p, Inr True) \<Longrightarrow>
    program_step n A False w (w\<lparr>pg_pool := p, pg_main := P_Push i\<rparr>)"
| p_push: "pg_main w = P_Push i \<Longrightarrow>
    program_step n A False w (w\<lparr>pg_pool := (pg_pool w)\<lparr>awaiters := pool_push (awaiters (pg_pool w)) (A i)\<rparr>,
      pg_tasks := pg_tasks w @ [A i], pg_main := P_Launch (i + 1)\<rparr>)"
| p_launched: "pg_main w = P_Launch i \<Longrightarrow> n \<le> i \<Longrightarrow> program_step n A False w (w\<lparr>pg_main := P_Close\<rparr>)"
| p_close: "pg_main w = P_Close \<Longrightarrow> close_pool (pg_pool w) = (p, first_call) \<Longrightarrow>
    program_step n A False w (w\<lparr>pg_pool := p, pg_main := if first_call then P_Post else P_Join False 0\<rparr>)"
| p_post: "pg_main w = P_Post \<Longrightarrow>
    program_step n A False w (w\<lparr>pg_pool := post_sentinels (pg_pool w), pg_main := P_Join False 0\<rparr>)"
| p_join: "pg_main w = P_Join b i \<Longrightarrow> i < unat (n_threads (pg_pool w)) \<Longrightarrow> pg_worker w = Exited \<Longrightarrow>
    program_step n A False w (case join_thread i (pg_pool w) of
        Inl e \<Rightarrow> w\<lparr>pg_main := P_Failed e\<rparr>
      | Inr p \<Rightarrow> w\<lparr>pg_pool := p, pg_main := P_Join b (i + 1)\<rparr>)"
| p_joined: "pg_main w = P_Join b i \<Longrightarrow> unat (n_threads (pg_pool w)) \<le> i \<Longrightarrow>
    program_step n A False w (w\<lparr>pg_pool := (pg_pool w)\<lparr>joined := True\<rparr>, pg_main := if b then P_Returned else P_Destroy\<rparr>)"
| p_destroy: "pg_main w = P_Destroy \<Longrightarrow> pg_tasks w = h # hs \<Longrightarrow>
    program_step n A False w (case launched_destroy h w of
        Inl e \<Rightarrow> w\<lparr>pg_main := P_Failed e\<rparr>
      | Inr w' \<Rightarrow> w'\<lparr>pg_tasks := hs\<rparr>)"
| p_returns: "pg_main w = P_Destroy \<Longrightarrow> pg_tasks w = [] \<Longrightarrow>
    program_step n A False w (w\<lparr>pg_main := if joined (pg_pool w) then P_Returned else P_Join True 0\<rparr>)"
| p_pop: "pg_worker w = Popping \<Longrightarrow> work_pop (pg_pool w) = Some (p, pc) \<Longrightarrow>
    program_step n A False w (w\<lparr>pg_pool := p, pg_worker := pc\<rparr>)"
| p_resume: "pg_worker w = Running h \<Longrightarrow>
    program_step n A False w (case launch_resume h w of
        Inl e \<Rightarrow> w\<lparr>pg_main := P_Failed e\<rparr>
      | Inr w' \<Rightarrow> w'\<lparr>pg_worker := Back\<rparr>)"
| p_leave: "pg_worker w = Back \<Longrightarrow>
    program_step n A False w (w\<lparr>pg_pool := notify_awaiter_leave (pg_pool w), pg_worker := Popping\<rparr>)"

inductive_cases program_stepE: "program_step n A b w w'"

text \<open>The start, with the pool constructed for one worker; and the number of tasks the arguments ask for.\<close>

definition program_start :: pool_program where
  "program_start = \<lparr>pg_pool = thread_pool_new 1, pg_worker = Popping, pg_main = P_Launch 0,
     pg_frames = Map.empty, pg_tasks = [], pg_lines = []\<rparr>"

definition DEFAULT_N_TASKS :: size_t where
  "DEFAULT_N_TASKS = 5"

definition tasks_argument :: "string list \<Rightarrow> size_t res" where
  "tasks_argument argv = (if 1 < length argv then stoul (argv ! 1) else Inr DEFAULT_N_TASKS)"

inductive program_run :: "nat \<Rightarrow> (nat \<Rightarrow> uptr) \<Rightarrow> bool list \<Rightarrow> pool_program \<Rightarrow> bool" for n A where
  program_begins: "program_run n A [] program_start"
| program_goes_on: "program_run n A bs w \<Longrightarrow> program_step n A b w w' \<Longrightarrow> program_run n A (bs @ [b]) w'"

subsection \<open>The invariant\<close>

text \<open>
  \<open>p\<close> coroutines have been queued, \<open>e\<close> of them have ended, \<open>d\<close> have been destroyed; one more is in the hands of the
  main thread while it is in a body.
\<close>

fun in_body :: "program_pc \<Rightarrow> bool" where
  "in_body (P_Await i) = True"
| "in_body (P_Compare i s) = True"
| "in_body (P_Push i) = True"
| "in_body _ = False"

fun main_at :: "nat \<Rightarrow> nat \<Rightarrow> nat \<Rightarrow> program_pc \<Rightarrow> bool" where
  "main_at n p d (P_Launch i) \<longleftrightarrow> i = p \<and> p \<le> n \<and> d = 0"
| "main_at n p d (P_Await i) \<longleftrightarrow> i = p \<and> p < n \<and> d = 0"
| "main_at n p d (P_Compare i s) \<longleftrightarrow> i = p \<and> p < n \<and> d = 0 \<and> s AND 1 = 0"
| "main_at n p d (P_Push i) \<longleftrightarrow> i = p \<and> p < n \<and> d = 0"
| "main_at n p d P_Close \<longleftrightarrow> p = n \<and> d = 0"
| "main_at n p d P_Post \<longleftrightarrow> p = n \<and> d = 0"
| "main_at n p d (P_Join b i) \<longleftrightarrow> p = n \<and> d = 0 \<and> \<not> b \<and> i \<le> 1"
| "main_at n p d P_Destroy \<longleftrightarrow> p = n \<and> d \<le> n"
| "main_at n p d P_Returned \<longleftrightarrow> p = n \<and> d = n"
| "main_at n p d (P_Failed e) \<longleftrightarrow> False"

text \<open>How far \<open>shutdown\<close> and what follows it are.\<close>

fun closing :: "program_pc \<Rightarrow> nat" where
  "closing P_Post = 1"
| "closing (P_Join b i) = 2 + i"
| "closing P_Destroy = 4"
| "closing P_Returned = 4"
| "closing _ = 0"

definition frames_at :: "(nat \<Rightarrow> uptr) \<Rightarrow> nat \<Rightarrow> nat \<Rightarrow> nat \<Rightarrow> program_pc \<Rightarrow> (uptr \<rightharpoonup> launch_frame) \<Rightarrow> bool" where
  "frames_at A e p d m fr \<longleftrightarrow>
     (\<forall>j. d \<le> j \<and> j < p + of_bool (in_body m) \<longrightarrow>
        fr (A j) = Some \<lparr>l_id = j, l_point = if j < e then L_Finished else if m = P_Await j then L_Entered else L_Scheduled\<rparr>) \<and>
     (\<forall>h. h \<notin> A ` {d ..< p + of_bool (in_body m)} \<longrightarrow> fr h = None)"

definition worker_at :: "(nat \<Rightarrow> uptr) \<Rightarrow> nat \<Rightarrow> nat \<Rightarrow> bool \<Rightarrow> thread_pc \<Rightarrow> uptr list \<Rightarrow> bool" where
  "worker_at A e p posted pc q \<longleftrightarrow>
     (case pc of
        Running h \<Rightarrow> e < p \<and> h = A e \<and> q = map A [Suc e ..< p] @ (if posted then [0] else [])
      | Exited \<Rightarrow> posted \<and> e = p \<and> q = []
      | _ \<Rightarrow> (pc = Popping \<or> pc = Back) \<and> q = map A [e ..< p] @ (if posted then [0] else []))"

definition pool_at :: "program_pc \<Rightarrow> thread_pc \<Rightarrow> thread_pool \<Rightarrow> bool" where
  "pool_at m pc q \<longleftrightarrow> n_threads q = 1 \<and> (pool_state q AND 1 = 0 \<longleftrightarrow> closing m = 0) \<and>
     joinable q = [closing m < 3] \<and> (3 \<le> closing m \<longrightarrow> pc = Exited) \<and> (joined q \<longleftrightarrow> closing m = 4)"

definition program_at :: "nat \<Rightarrow> (nat \<Rightarrow> uptr) \<Rightarrow> nat \<Rightarrow> nat \<Rightarrow> nat \<Rightarrow> pool_program \<Rightarrow> bool" where
  "program_at n A e p d w \<longleftrightarrow> e \<le> p \<and> main_at n p d (pg_main w) \<and>
     filter is_enters (pg_lines w) = map Enters [0 ..< p + of_bool (in_body (pg_main w))] \<and>
     filter is_exits (pg_lines w) = map Exits [0 ..< e] \<and>
     frames_at A e p d (pg_main w) (pg_frames w) \<and> pg_tasks w = map A [d ..< p] \<and>
     worker_at A e p (2 \<le> closing (pg_main w)) (pg_worker w) (awaiters (pg_pool w)) \<and>
     pool_at (pg_main w) (pg_worker w) (pg_pool w)"

text \<open>What is left: of the main thread, and of the worker with \<open>e\<close> coroutines behind it.\<close>

fun main_left :: "nat \<Rightarrow> pool_program \<Rightarrow> program_pc \<Rightarrow> nat" where
  "main_left n w (P_Launch i) = 6 * (n - i) + n + 9"
| "main_left n w (P_Await i) = 6 * (n - i) + n + 8"
| "main_left n w (P_Compare i s) = 6 * (n - i) + n + 6 + of_bool (s \<noteq> pool_state (pg_pool w))"
| "main_left n w (P_Push i) = 6 * (n - i) + n + 5"
| "main_left n w P_Close = n + 8"
| "main_left n w P_Post = n + 7"
| "main_left n w (P_Join b i) = n + 6 - i"
| "main_left n w P_Destroy = length (pg_tasks w) + 1"
| "main_left n w _ = 0"

definition program_left :: "nat \<Rightarrow> nat \<Rightarrow> pool_program \<Rightarrow> nat" where
  "program_left n e w = main_left n w (pg_main w) + 4 * (n - e) +
     (case pg_worker w of Back \<Rightarrow> 3 | Popping \<Rightarrow> 1 | _ \<Rightarrow> 0)"

lemma addr_eq: "inj_on A {..<n} \<Longrightarrow> i < n \<Longrightarrow> j < n \<Longrightarrow> A i = A j \<longleftrightarrow> i = j"
  by (auto simp: inj_on_def)

lemma frames_at_cong:
  "in_body m = in_body m' \<Longrightarrow> (\<And>j. m = P_Await j \<longleftrightarrow> m' = P_Await j) \<Longrightarrow> frames_at A e p d m = frames_at A e p d m'"
  by (simp add: frames_at_def fun_eq_iff)

lemma frames_launch:
  assumes "frames_at A e p 0 (P_Launch p) fr" "inj_on A {..<n}" "p < n" "e \<le> p"
  shows "frames_at A e p 0 (P_Await p) (fr(A p \<mapsto> \<lparr>l_id = p, l_point = L_Entered\<rparr>))"
proof -
  have "A j \<noteq> A p" if "j < p" for j using assms(2,3) that by (simp add: addr_eq)
  with assms(1,4) show ?thesis by (auto simp: frames_at_def less_Suc_eq image_iff)
qed

lemma frames_await:
  assumes "frames_at A e p 0 (P_Await p) fr" "inj_on A {..<n}" "p < n" "e \<le> p"
  shows "fr (A p) = Some \<lparr>l_id = p, l_point = L_Entered\<rparr>"
    and "frames_at A e p 0 (P_Compare p s) (fr(A p \<mapsto> \<lparr>l_id = p, l_point = L_Scheduled\<rparr>))"
proof -
  have "A j \<noteq> A p" if "j < p" for j using assms(2,3) that by (simp add: addr_eq)
  with assms(1,4) show "fr (A p) = Some \<lparr>l_id = p, l_point = L_Entered\<rparr>"
    "frames_at A e p 0 (P_Compare p s) (fr(A p \<mapsto> \<lparr>l_id = p, l_point = L_Scheduled\<rparr>))"
    by (auto simp: frames_at_def less_Suc_eq image_iff)
qed

lemma frames_push: "frames_at A e p d (P_Push p) = frames_at A e (Suc p) d (P_Launch (Suc p))"
  by (simp add: frames_at_def fun_eq_iff)

lemma frames_exit:
  assumes "frames_at A e p 0 m fr" "main_at n p 0 m" "inj_on A {..<n}" "e < p"
  shows "fr (A e) = Some \<lparr>l_id = e, l_point = L_Scheduled\<rparr>"
    and "frames_at A (Suc e) p 0 m (fr(A e \<mapsto> \<lparr>l_id = e, l_point = L_Finished\<rparr>))"
proof -
  have q: "p + of_bool (in_body m) \<le> n" and m: "m \<noteq> P_Await e" using assms(2,4) by (cases m; simp)+
  then have "A j \<noteq> A e" if "j < p + of_bool (in_body m)" "j \<noteq> e" for j
    using assms(3,4) that by (simp add: addr_eq)
  with assms(1,4) m show "fr (A e) = Some \<lparr>l_id = e, l_point = L_Scheduled\<rparr>"
    "frames_at A (Suc e) p 0 m (fr(A e \<mapsto> \<lparr>l_id = e, l_point = L_Finished\<rparr>))"
    by (auto simp: frames_at_def less_Suc_eq image_iff)
qed

lemma frames_destroy:
  assumes "frames_at A n n d P_Destroy fr" "inj_on A {..<n}" "d < n"
  shows "fr (A d) = Some \<lparr>l_id = d, l_point = L_Finished\<rparr>"
    and "frames_at A n n (Suc d) P_Destroy (fr(A d := None))"
proof -
  have "A j \<noteq> A d" if "j < n" "d < j" for j using assms(2,3) that by (simp add: addr_eq)
  moreover have "{d ..< n} = insert d {Suc d ..< n}" using assms(3) by auto
  ultimately show "fr (A d) = Some \<lparr>l_id = d, l_point = L_Finished\<rparr>" "frames_at A n n (Suc d) P_Destroy (fr(A d := None))"
    using assms(1,3) by (auto simp: frames_at_def image_iff)
qed

lemma program_start_at: "program_at n A 0 0 0 program_start"
  by (simp add: program_at_def program_start_def frames_at_def worker_at_def pool_at_def thread_pool_new_def)

text \<open>The steps of the main thread.\<close>

lemmas program_parts = program_at_def program_left_def pool_at_def worker_at_def

definition steps_to :: "nat \<Rightarrow> (nat \<Rightarrow> uptr) \<Rightarrow> bool \<Rightarrow> nat \<Rightarrow> pool_program \<Rightarrow> bool" where
  "steps_to n A b k w \<longleftrightarrow> (\<exists>e p d. program_at n A e p d w \<and> program_left n e w + (if b then 0 else 1) \<le> k)"

lemma steps_toI: "program_at n A e p d w \<Longrightarrow> program_left n e w + (if b then 0 else 1) \<le> k \<Longrightarrow> steps_to n A b k w"
  unfolding steps_to_def by blast

lemma program_step_at:
  assumes "program_step n A b w w'" "program_at n A e p d w" "inj_on A {..<n}" "\<forall>i<n. A i \<noteq> 0"
  shows "steps_to n A b (program_left n e w) w'"
  using assms(1)
proof cases
  case (p_launch i)
  then have i: "i = p" "d = 0" "p < n" using assms(2) by (simp_all add: program_at_def)
  show ?thesis
    by (rule steps_toI [where e = e and p = p and d = 0])
      (use p_launch i assms(2) frames_launch [OF _ assms(3) i(3)] in \<open>auto simp: program_parts\<close>)
next
  case (p_await i f)
  then have i: "i = p" "d = 0" "p < n" "e \<le> p" "pool_state (pg_pool w) AND 1 = 0"
    using assms(2) by (simp_all add: program_parts)
  have fr: "frames_at A e p 0 (P_Await p) (pg_frames w)" using assms(2) p_await i by (simp add: program_at_def)
  have "f = \<lparr>l_id = p, l_point = L_Entered\<rparr>" using p_await frames_await(1) [OF fr assms(3) i(3,4)] i by simp
  then show ?thesis
    by (intro steps_toI [where e = e and p = p and d = 0])
      (use p_await i assms(2) frames_await(2) [OF fr assms(3) i(3,4)] in \<open>auto simp: program_parts\<close>)
next
  case (p_again i s p' s')
  then show ?thesis
    by (intro steps_toI [where e = e and p = p and d = d])
      (use assms(2) frames_at_cong [of "P_Compare i s" "P_Compare i s'"] in \<open>auto simp: program_parts pool_ops\<close>)
next
  case (p_spurious i s)
  then show ?thesis
    by (intro steps_toI [where e = e and p = p and d = d])
      (use assms(2) frames_at_cong [of "P_Compare i s" "P_Compare i (pool_state (pg_pool w))"] in \<open>auto simp: program_parts\<close>)
next
  case (p_refused i s p')
  then show ?thesis using assms(2) by (simp add: program_at_def pool_ops)
next
  case (p_enters i s p')
  then show ?thesis
    by (intro steps_toI [where e = e and p = p and d = d])
      (use assms(2) frames_at_cong [of "P_Compare i s" "P_Push i"] in \<open>auto simp: program_parts pool_ops\<close>)
next
  case (p_push i)
  then have i: "i = p" "d = 0" "p < n" "e \<le> p" using assms(2) by (simp_all add: program_at_def)
  show ?thesis
    by (rule steps_toI [where e = e and p = "Suc p" and d = 0])
      (use p_push i assms(2) frames_push [of A e p] in \<open>auto simp: program_parts pool_ops split: thread_pc.splits\<close>)
next
  case (p_launched i)
  then show ?thesis
    by (intro steps_toI [where e = e and p = p and d = d])
      (use assms(2) frames_at_cong [of "P_Launch i" P_Close] in \<open>auto simp: program_parts split: thread_pc.splits\<close>)
next
  case (p_close p' first)
  then show ?thesis
    by (intro steps_toI [where e = e and p = p and d = d])
      (use assms(2) frames_at_cong [of P_Close P_Post] in \<open>auto simp: program_parts pool_ops split: thread_pc.splits\<close>)
next
  case p_post
  then show ?thesis
    by (intro steps_toI [where e = e and p = p and d = d])
      (use assms(2) frames_at_cong [of P_Post "P_Join False 0"] in \<open>auto simp: program_parts pool_ops split: thread_pc.splits\<close>)
next
  case (p_join c i)
  then show ?thesis
    by (intro steps_toI [where e = e and p = p and d = d])
      (use assms(2) frames_at_cong [of "P_Join c i" "P_Join c (i + 1)"] in \<open>auto simp: program_parts join_thread_def\<close>)
next
  case (p_joined c i)
  then show ?thesis
    by (intro steps_toI [where e = e and p = p and d = d])
      (use assms(2) frames_at_cong [of "P_Join c i" P_Destroy] in \<open>auto simp: program_parts\<close>)
next
  case (p_destroy h hs)
  then have n: "p = n" "e = n" "d \<le> n" "h # hs = map A [d ..< n]" using assms(2) by (auto simp: program_parts)
  then have d: "d < n" by (cases "d < n") auto
  then have h: "h = A d" "hs = map A [Suc d ..< n]" using n(4) by (simp_all add: upt_conv_Cons)
  have fr: "frames_at A n n d P_Destroy (pg_frames w)" using assms(2) p_destroy n by (simp add: program_at_def)
  show ?thesis
    by (rule steps_toI [where e = n and p = n and d = "Suc d"])
      (use p_destroy n h d assms(2) frames_destroy [OF fr assms(3) d] in \<open>auto simp: program_parts launched_destroy_def\<close>)
next
  case p_returns
  then show ?thesis
    by (intro steps_toI [where e = e and p = p and d = d])
      (use assms(2) frames_at_cong [of P_Destroy P_Returned] in \<open>auto simp: program_parts\<close>)
next
  case (p_pop p' pc)
  then have worker: "worker_at A e p (2 \<le> closing (pg_main w)) Popping (awaiters (pg_pool w))"
    and le: "closing (pg_main w) < 3" "e \<le> p" "2 \<le> closing (pg_main w) \<Longrightarrow> p = n" "p \<le> n"
    using assms(2) by (cases "pg_main w"; simp add: program_at_def pool_at_def)+
  show ?thesis
  proof (cases "e < p")
    case True
    then have "p' = (pg_pool w)\<lparr>awaiters := map A [Suc e ..< p] @ (if 2 \<le> closing (pg_main w) then [0] else [])\<rparr>"
      "pc = Running (A e)"
      using p_pop(4) worker le(4) assms(4) by (auto simp: worker_at_def work_pop_Some upt_conv_Cons pool_consts)
    with True p_pop show ?thesis
      by (intro steps_toI [where e = e and p = p and d = d])
        (use assms(2) le in \<open>cases "pg_main w"; auto simp: program_parts\<close>)+
  next
    case False
    then have "2 \<le> closing (pg_main w)" "p' = (pg_pool w)\<lparr>awaiters := []\<rparr>" "pc = Exited" "e = n"
      using p_pop(4) worker le by (auto simp: worker_at_def work_pop_Some pool_consts split: if_splits)
    with False p_pop show ?thesis
      by (intro steps_toI [where e = e and p = p and d = d])
        (use assms(2) le in \<open>cases "pg_main w"; auto simp: program_parts\<close>)+
  qed
next
  case (p_resume h)
  then have e: "e < p" "h = A e" "d = 0" "p \<le> n"
    using assms(2) by (cases "pg_main w"; simp add: program_parts)+
  have fr: "frames_at A e p 0 (pg_main w) (pg_frames w)" "main_at n p 0 (pg_main w)"
    using assms(2) e(3) by (simp_all add: program_at_def)
  note frames = frames_exit [OF fr assms(3) e(1)]
  have w': "w' = w\<lparr>pg_frames := (pg_frames w)(A e \<mapsto> \<lparr>l_id = e, l_point = L_Finished\<rparr>),
      pg_lines := pg_lines w @ [Exits e], pg_worker := Back\<rparr>"
    using p_resume frames(1) e(2) by (simp add: launch_resume_def)
  have "program_at n A (Suc e) p 0 w'"
    using assms(2) p_resume(3) e frames(2) unfolding w' by (simp add: program_parts)
  moreover have "main_left n w' (pg_main w') = main_left n w (pg_main w)" unfolding w' by (cases "pg_main w") simp_all
  ultimately show ?thesis using p_resume(1,3) e
    by (intro steps_toI [where e = "Suc e" and p = p and d = 0]) (simp_all add: program_left_def w')
next
  case p_leave
  have "main_left n w' (pg_main w) \<le> Suc (main_left n w (pg_main w))"
    unfolding p_leave by (cases "pg_main w") simp_all
  then show ?thesis
    by (intro steps_toI [where e = e and p = p and d = d])
      (use assms(2) p_leave in \<open>auto simp: program_parts notify_awaiter_leave_def pool_consts\<close>)
qed

text \<open>As long as the program has not returned, some step is possible that is no spurious failure.\<close>

lemma worker_can_step:
  assumes "program_at n A e p d w" "2 \<le> closing (pg_main w)" "pg_worker w \<noteq> Exited"
  shows "\<exists>w'. program_step n A False w w'"
proof (cases "pg_worker w")
  case Popping
  then have "awaiters (pg_pool w) \<noteq> []" using assms by (simp add: program_parts)
  then obtain p pc where "work_pop (pg_pool w) = Some (p, pc)" by (auto simp: neq_Nil_conv work_pop_Some)
  with Popping show ?thesis by (blast intro: program_step.p_pop)
next
  case Running
  then show ?thesis by (blast intro: program_step.p_resume)
next
  case Back
  then show ?thesis by (blast intro: program_step.p_leave)
qed (use assms in \<open>simp_all add: program_parts\<close>)

lemma program_can_step:
  assumes "program_at n A e p d w" "inj_on A {..<n}" "pg_main w \<noteq> P_Returned"
  shows "\<exists>w'. program_step n A False w w'"
proof (cases "pg_main w")
  case (P_Launch i)
  show ?thesis
  proof (cases "i < n")
    case False
    then have "n \<le> i" by simp
    from program_step.p_launched [OF P_Launch this] show ?thesis by blast
  qed (blast intro: program_step.p_launch [OF P_Launch])
next
  case (P_Await i)
  then have "i = p" "p < n" "e \<le> p" "frames_at A e p 0 (P_Await p) (pg_frames w)" using assms(1) by (auto simp: program_at_def)
  with frames_await(1) [OF _ assms(2)] P_Await show ?thesis by (blast intro: program_step.p_await)
next
  case (P_Compare i s)
  obtain q r where "try_awaiter_enter s (pg_pool w) = (q, r)" by fastforce
  then consider s' where "try_awaiter_enter s (pg_pool w) = (q, Inl s')"
    | "try_awaiter_enter s (pg_pool w) = (q, Inr True)" | "try_awaiter_enter s (pg_pool w) = (q, Inr False)"
    by (cases r) auto
  then show ?thesis
    by cases (blast intro: program_step.p_again [OF P_Compare] program_step.p_refused [OF P_Compare]
        program_step.p_enters [OF P_Compare])+
next
  case P_Close
  then show ?thesis using program_step.p_close [OF _ surjective_pairing] by blast
next
  case (P_Join b i)
  show ?thesis
  proof (cases "i = 0")
    case True
    have one: "unat (n_threads (pg_pool w)) = 1" using assms(1) by (simp add: program_parts)
    show ?thesis
    proof (cases "pg_worker w = Exited")
      case False
      then show ?thesis using worker_can_step [OF assms(1)] P_Join by simp
    next
      case exited: True
      have "\<exists>w'. program_step n A False w w'" by (rule exI, rule program_step.p_join [OF P_Join _ exited]) (simp add: one True)
      then show ?thesis .
    qed
  next
    case False
    have "unat (n_threads (pg_pool w)) \<le> i" using assms(1) False by (simp add: program_parts)
    with P_Join show ?thesis by (blast intro: program_step.p_joined)
  qed
next
  case P_Destroy
  then show ?thesis using program_step.p_destroy program_step.p_returns by (cases "pg_tasks w") blast+
qed (use assms in \<open>auto intro: program_step.p_push program_step.p_post simp: program_at_def\<close>)

lemma program_run_at:
  assumes "program_run n A bs w" "inj_on A {..<n}" "\<forall>i<n. A i \<noteq> 0"
  shows "\<exists>e p d. program_at n A e p d w \<and> length (filter Not bs) + program_left n e w \<le> 11 * n + 10"
  using assms(1)
proof induction
  case program_begins
  show ?case using program_start_at by (intro exI conjI) (assumption, simp add: program_left_def program_start_def)
next
  case (program_goes_on bs w b w')
  then obtain e p d where at: "program_at n A e p d w" "length (filter Not bs) + program_left n e w \<le> 11 * n + 10" by blast
  obtain e' p' d' where "program_at n A e' p' d' w'" "program_left n e' w' + (if b then 0 else 1) \<le> program_left n e w"
    using program_step_at [OF program_goes_on(2) at(1) assms(2,3)] by (auto simp: steps_to_def)
  with at(2) show ?case by (intro exI [of _ e'] exI [of _ p'] exI [of _ d']) (auto split: if_splits)
qed

text \<open>So a run that has not returned can go on until it has.\<close>

lemma program_can_return:
  assumes "program_run n A bs w" "inj_on A {..<n}" "\<forall>i<n. A i \<noteq> 0"
  shows "\<exists>bs w. program_run n A bs w \<and> pg_main w = P_Returned"
  using assms(1)
proof (induction "11 * n + 10 - length (filter Not bs)" arbitrary: bs w rule: less_induct)
  case less
  obtain e p d where at: "program_at n A e p d w" "length (filter Not bs) + program_left n e w \<le> 11 * n + 10"
    using program_run_at [OF less.prems assms(2,3)] by blast
  show ?case
  proof (cases "pg_main w = P_Returned")
    case False
    then obtain w' where step: "program_step n A False w w'" using program_can_step [OF at(1) assms(2)] by blast
    have run: "program_run n A (bs @ [False]) w'" by (rule program_goes_on [OF less.prems step])
    have "length (filter Not (bs @ [False])) \<le> 11 * n + 10" using program_run_at [OF run assms(2,3)] by auto
    then have "11 * n + 10 - length (filter Not (bs @ [False])) < 11 * n + 10 - length (filter Not bs)" by simp
    from less.hyps [OF this run] show ?thesis .
  qed (use less.prems in blast)
qed

subsection \<open>Properties\<close>

text \<open>
  C10. The program on the pool runs every task: whatever the arguments, the addresses of the frames and the
  interleaving of the two threads, no destroyed or running coroutine is resumed and none destroyed early; apart from
  spurious failures of compare-exchange every run is finite, and can stop only when \<open>main\<close> has returned; then every
  coroutine has been entered and left once, in order, and every frame is destroyed.
\<close>

theorem pool_program_runs_every_task:
  assumes "tasks_argument argv = Inr c" and "inj_on A {..<unat c}" and "\<forall>i<unat c. A i \<noteq> 0"
    and "program_run (unat c) A bs w"
  shows "length (filter Not bs) \<le> 11 * unat c + 10 \<and> (\<forall>e. pg_main w \<noteq> P_Failed e) \<and>
    ((\<forall>w'. \<not> program_step (unat c) A False w w') \<longrightarrow> pg_main w = P_Returned) \<and>
    (pg_main w = P_Returned \<longrightarrow> filter is_enters (pg_lines w) = map Enters [0 ..< unat c] \<and>
       filter is_exits (pg_lines w) = map Exits [0 ..< unat c] \<and> pg_frames w = Map.empty \<and> pg_worker w = Exited)"
proof -
  obtain e p d where at: "program_at (unat c) A e p d w" "length (filter Not bs) + program_left (unat c) e w \<le> 11 * unat c + 10"
    using program_run_at [OF assms(4,2,3)] by blast
  have "\<forall>e. pg_main w \<noteq> P_Failed e" using at(1) by (auto simp: program_at_def)
  moreover have "pg_main w = P_Returned \<Longrightarrow> filter is_enters (pg_lines w) = map Enters [0 ..< unat c] \<and>
      filter is_exits (pg_lines w) = map Exits [0 ..< unat c] \<and> pg_frames w = Map.empty \<and> pg_worker w = Exited"
    using at(1) by (auto simp: program_parts frames_at_def)
  ultimately show ?thesis using at(2) program_can_step [OF at(1) assms(2)] by auto
qed

theorem pool_program_runs_every_task_witness:
  "\<exists>bs w. program_run 2 (\<lambda>i. 64 * of_nat (i + 1)) bs w \<and> pg_main w = P_Returned \<and>
     filter is_exits (pg_lines w) = [Exits 0, Exits 1] \<and> pg_frames w = Map.empty"
proof -
  let ?A = "\<lambda>i. 64 * of_nat (i + 1) :: uptr"
  have c: "tasks_argument [''driver'', ''2''] = Inr 2" by code_simp
  have two: "unat (2 :: size_t) = 2" by simp
  have A: "inj_on ?A {..<2}" "\<forall>i<2. ?A i \<noteq> 0" by (auto simp: inj_on_def less_2_cases_iff)
  obtain bs w where run: "program_run 2 ?A bs w" "pg_main w = P_Returned"
    using program_can_return [OF program_begins A] by blast
  from pool_program_runs_every_task [OF c, unfolded two, OF A run(1)] run show ?thesis
    by (auto simp: upt_rec)
qed

end
