(* ===== verification/Primitive_Programs.thy ===== *)
theory Primitive_Programs
  imports Reset_Event Async_Latch Async_Lock Lazy
begin

text \<open>
  The example programs of the primitives: driver.cpp of manual-reset-event, async-latch and async-lock,
  and lazy.cpp. Each has one thread; the result is what it prints, or how it fails. A coroutine runs inside the
  call that starts or resumes it; awaiters lie in the frames, at addresses the caller gives.
\<close>

datatype trace = Enter nat | Exit nat | Setting | Performing | Complete | Computed int

subsection \<open>The manual-reset event\<close>

text \<open>\<open>consumer\<close> prints, awaits the event and prints again, at once when the event is set; \<open>main\<close> starts some.\<close>

definition consumer :: "uptr \<Rightarrow> (nat \<Rightarrow> uptr) \<Rightarrow> nat \<Rightarrow> reset_event \<Rightarrow> (reset_event \<times> trace list) res option" where
  "consumer event A i re =
     bind_run (event_step event (Await (A i) i) re) (\<lambda>(re, resumed). Some (Inr (re, Enter i # map Exit resumed)))"

fun consumers :: "uptr \<Rightarrow> (nat \<Rightarrow> uptr) \<Rightarrow> nat list \<Rightarrow> reset_event \<Rightarrow> (reset_event \<times> trace list) res option" where
  "consumers event A [] re = Some (Inr (re, []))"
| "consumers event A (i # is) re =
     bind_run (consumer event A i re) (\<lambda>(re, out).
       bind_run (consumers event A is re) (\<lambda>(re, outs). Some (Inr (re, out @ outs))))"

definition producer :: "uptr \<Rightarrow> reset_event \<Rightarrow> (reset_event \<times> trace list) res option" where
  "producer event re =
     bind_run (event_set event re) (\<lambda>(re, resumed). Some (Inr (re, Setting # map Exit resumed)))"

definition N_CONSUMERS :: nat where
  "N_CONSUMERS = 5"

definition event_example :: "uptr \<Rightarrow> (nat \<Rightarrow> uptr) \<Rightarrow> nat \<Rightarrow> trace list res option" where
  "event_example event A n =
     bind_run (consumers event A [0 ..< n] (manual_reset_event event False)) (\<lambda>(re, out).
       bind_run (producer event re) (\<lambda>(re, outs). Some (Inr (out @ outs))))"

lemma consumers_wait:
  assumes "event_abs event re False (map A ws)" "coros re (map A ws) = ws" "event \<noteq> 0"
    "distinct (map A (is @ ws))" "0 \<notin> A ` set is" "event \<notin> A ` set is"
  shows "\<exists>re'. consumers event A is re = Some (Inr (re', map Enter is)) \<and>
    event_abs event re' False (map A (rev is @ ws)) \<and> coros re' (map A (rev is @ ws)) = rev is @ ws"
  using assms
proof (induction "is" arbitrary: re ws)
  case (Cons i "is")
  obtain re1 where re1: "event_await event (A i) i re = (re1, Inr True)" "event_abs event re1 False (map A (i # ws))"
      "coros re1 (map A (i # ws)) = i # ws"
    using event_await_ok [of event re False "map A ws" "A i" i] Cons.prems by auto
  have "distinct (map A (is @ i # ws))" using Cons.prems(4) by auto
  then obtain re2 where "consumers event A is re1 = Some (Inr (re2, map Enter is))"
      "event_abs event re2 False (map A (rev is @ i # ws))" "coros re2 (map A (rev is @ i # ws)) = rev is @ i # ws"
    using Cons.IH [OF re1(2,3) Cons.prems(3)] Cons.prems(5,6) by auto
  with re1(1) show ?case by (auto simp: consumer_def)
qed simp

text \<open>
  Every consumer is entered and waits; setting the event resumes them all, the last one first. This needs only
  that the awaiters are different objects, and none of them the event.
\<close>

lemma event_example_resumes_all:
  assumes "event \<noteq> 0" "inj_on A {..<n}" "\<forall>i<n. A i \<noteq> 0 \<and> A i \<noteq> event"
  shows "event_example event A n = Some (Inr (map Enter [0 ..< n] @ Setting # map Exit (rev [0 ..< n])))"
proof -
  have "event_abs event (manual_reset_event event False) False (map A [])"
    using assms(1) by (simp add: event_abs_def manual_reset_event_def)
  moreover have "distinct (map A ([0 ..< n] @ []))" using assms(2) by (simp add: distinct_map lessThan_atLeast0)
  moreover have "0 \<notin> A ` set [0 ..< n]" "event \<notin> A ` set [0 ..< n]" using assms(3) by auto
  ultimately obtain re where re: "consumers event A [0 ..< n] (manual_reset_event event False) = Some (Inr (re, map Enter [0 ..< n]))"
      "event_abs event re False (map A (rev [0 ..< n]))" "coros re (map A (rev [0 ..< n])) = rev [0 ..< n]"
    using consumers_wait [of event "manual_reset_event event False" A "[]" "[0 ..< n]"] assms(1)
    by (auto simp: coros_def)
  have "is_chain (ev_store re) (ev_state re) 0 (map A (rev [0 ..< n]))" "ev_state re \<noteq> event"
    using re(2) by (simp_all add: event_abs_def)
  then have "event_set event re = Some (Inr (re\<lparr>ev_state := event\<rparr>, rev [0 ..< n]))"
    using resume_all_chain re(3) by (simp add: event_set_def Let_def coros_def)
  with re(1) show ?thesis by (simp add: event_example_def producer_def)
qed

definition event_main :: "uptr \<Rightarrow> (nat \<Rightarrow> uptr) \<Rightarrow> trace list res option" where
  "event_main event A = event_example event A N_CONSUMERS"

lemma event_main_resumes_all:
  assumes "event \<noteq> 0" "inj_on A {..<5}" "\<forall>i<5. A i \<noteq> 0 \<and> A i \<noteq> event"
  shows "event_main event A = Some (Inr [Enter 0, Enter 1, Enter 2, Enter 3, Enter 4, Setting,
     Exit 4, Exit 3, Exit 2, Exit 1, Exit 0])"
  using event_example_resumes_all [of event A 5] assms by (simp add: event_main_def N_CONSUMERS_def upt_rec)

subsection \<open>The latch\<close>

definition latch_waiter :: "uptr \<Rightarrow> async_latch \<Rightarrow> (async_latch \<times> trace list) res option" where
  "latch_waiter a l =
     bind_run (latch_step (LAwait a 0) l) (\<lambda>(l, resumed). Some (Inr (l, Enter 0 # map Exit resumed)))"

definition latch_main :: "uptr \<Rightarrow> trace list res option" where
  "latch_main a =
     bind_run (latch_waiter a (async_latch_new 1)) (\<lambda>(l, out).
       bind_run (count_down 1 l) (\<lambda>(l, resumed). Some (Inr (out @ map Exit resumed))))"

lemma latch_main_resumes:
  assumes "a \<noteq> 0"
  shows "latch_main a = Some (Inr [Enter 0, Exit 0])"
proof -
  obtain l where l: "latch_await a 0 (async_latch_new 1) = (l, Inr True)" "latch_count l = 1"
      "is_chain (latch_store l) (latch_awaiters l) 0 [a]" "waiting l [a] = [0]"
    using latch_await_ok [of "async_latch_new 1" "[]" a 0] assms by (auto simp: async_latch_new_def expired_def waiting_def)
  have "resume_all (latch_store l) (latch_awaiters l) = Some (Inr [0])"
    using resume_all_chain [OF l(3)] l(4) by (simp add: waiting_def)
  with l(1,2) show ?thesis by (simp add: latch_main_def latch_waiter_def count_down_def Let_def)
qed

subsection \<open>The lock\<close>

text \<open>
  \<open>uncontended\<close>: the awaiter is in the frame; when it does not suspend, \<open>await_resume\<close> gives a guard that owns the lock
  and is destroyed at the end of the block, before the coroutine prints again.
\<close>

definition uncontended :: "uptr \<Rightarrow> async_lock \<Rightarrow> (async_lock \<times> trace list) res option" where
  "uncontended a l =
     (case lock_await_suspend a 0 (acquire a l) of
        (l, Inr False) \<Rightarrow>
          bind_run (guard_destroy True l) (\<lambda>(l, resumed). Some (Inr (l, [Enter 0, Exit 0])))
      | (l, Inr True) \<Rightarrow> Some (Inr (l, [Enter 0]))
      | (l, Inl _) \<Rightarrow> None)"

definition lock_main :: "uptr \<Rightarrow> (async_lock \<times> trace list) res option" where
  "lock_main a = uncontended a async_lock_init"

lemma lock_main_runs:
  "\<exists>l. lock_main a = Some (Inr (l, [Enter 0, Exit 0])) \<and> lock_state l = NOT_LOCKED \<and> lock_awaiters l = 0"
  by (auto simp: lock_main_def uncontended_def lock_await_suspend_def lock_try_def acquire_def set_coro_def
      async_lock_init_def guard_destroy_def release_def NOT_LOCKED_def LOCKED_NO_WAITERS_def)

subsection \<open>The lazy value\<close>

text \<open>The computation prints twice and returns 42. What is printed before a failure is kept.\<close>

definition lazy_main :: "bool \<Rightarrow> trace list \<times> (int lazy_store) res" where
  "lazy_main get =
     (let (l, st) = lazy_call 0 (Returns 42) Map.empty
      in if get
         then (case lazy_get l st of
                 Inl e \<Rightarrow> ([Performing, Complete], Inl e)
               | Inr (v, l, st) \<Rightarrow> ([Performing, Complete, Computed v], lazy_destroy l st))
         else ([], lazy_destroy l st))"

text \<open>Asked for its value the program computes it and then reads it from the frame that is gone.\<close>

lemma lazy_main_reads_dead_frame:
  "lazy_main True = ([Performing, Complete], Inl DeadHandle)" "lazy_main False = ([], Inr Map.empty)"
  using lazy_get_reads_dead_frame [of 0 "Returns 42 :: int computation" Map.empty]
  by (simp_all add: lazy_main_def split_beta)

end
