(* ===== verification/Spec2Isabelle.thy ===== *)
theory Spec2Isabelle
  imports Interleaved_Map Binary_Search Async_Lock Reset_Event Async_Latch Generator When_All
    Thread_Pool Allocator Handles Timer_Service Lazy Fd_Timer Kqueue_Timer
    Pool_Timer Nix_Pipe Pool_Liveness Map_Heap First_Tasks Search_Program Map_Programs Eager_Task Win_Pipe Vanilla_Timers
    Framed_Lookups Timer_Driver When_All_Tasks Pool_Program Primitive_Programs
begin

text \<open>
  A verification of the coroutine repository: the synchronisation primitives and task types it
  builds from C++20 coroutines (primitives/, libcoro/, algorithms/) and the applications that use
  them (applications/).

  \<^bold>\<open>Conventions\<close> (theory Prelude). A C++ exception, a failed allocation and undefined
  behaviour are values of \<open>cpp_error\<close>, so a theorem cannot hold because an array was read out of
  range. \<open>std::size_t\<close> is a 64-bit word, \<open>std::uint32_t\<close> a 32-bit word, a \<open>uintptr_t\<close> a 64-bit word, and
  arithmetic on them wraps. A loop that may run for ever is a \<open>partial_function (option)\<close>, with \<open>None\<close>
  for not returning, and a theorem about it says that it returns; the others are total. There is
  no fuel. A coroutine is a body, a function from what is live at one suspension point to what it
  does next, and a frame in a store keyed by its handle. Concurrent code is cut at its atomic
  operations and runs as an \<open>inductive\<close> step relation over the program points of all threads;
  compare-exchange may fail spuriously; memory is sequentially consistent.

  \<^bold>\<open>Applications: the map\<close> (applications/map). Hash_Map holds \<open>Map\<close> of map.hpp: \<open>hmap\<close> with its
  buckets, whose chains are the lists reached through \<open>next\<close>, construction, lookup, insert, update,
  remove, resizing, stats; Power_Two holds \<open>next_power_of_2\<close>. The invariant says that every entry is
  in the bucket of its hash, once, and that the counts are right; resizing keeps it and the
  contents. Map_History runs histories of operations and refines them to a partial function: for
  all histories without removal, and for those whose removals hit an absent key or the head of
  its chain; other removals lose entries, and this is proved too. Map_Heap is the same map with its
  pointers: entries on a heap, chains through \<open>next\<close>, \<open>new\<close> a function of the heap that may fail. Every
  operation refines the one on lists (no chain is cyclic, no pointer wild) and insertion moves no entry.
  Ring_Queue holds the two bounded queues (\<open>StaticQueueScheduler\<close> of scheduler.hpp, \<open>scheduler_queue\<close>
  of binary-search/coro_infra.hpp), both interpretations of the locale \<open>bounded_fifo\<close>, with the proof that
  one slot is always lost.
  Throttling is the engine both coroutine applications share: the prefetch awaitable, \<open>Throttler\<close>
  with \<open>spawn\<close> and \<open>on_task_complete\<close>, and \<open>run\<close> of the scheduler, for any queue that is a
  \<open>bounded_fifo\<close> and any body with a step contract (locale \<open>engine\<close>). Interleaved_Map puts the lookup
  coroutine on it: the interleaved multi-lookup returns what the sequential one does, as a multiset.
  Allocator holds the two frame allocators: they serve frames of one size correctly, and only those.
  Frame_Memory puts the engine on such an allocator: a frame lies in a block, its promise points to its throttler,
  a task owns its handle until \<open>spawn\<close> takes it. Every successful run of Throttling is one of this machine;
  Framed_Lookups instantiates it for both lookups and bounds the calls of \<open>malloc\<close>.
  Map_Programs holds the programs around the map (stress_sequential.cpp, stress_interleaved.cpp, stats.cpp)
  from their arguments to their exit, on the number parsing of Numbers: they succeed on every count they can
  read, because the checks in them hold.

  \<^bold>\<open>Applications: binary search\<close> (applications/binary-search). Binary_Search holds the plain loop,
  the state machine of state_machine.hpp with its round-robin over frames, and the coroutine
  version on Throttling; the three agree. Iterators are indices, the searched elements integers.
  Search_Program is the program around them (manual.cpp, rng.hpp): arguments, data, repetitions and the
  count it prints, with the random numbers of the standard library as a parameter.

  \<^bold>\<open>Applications: thread pool and timers.\<close> Thread_Pool is applications/threadpool: work loop,
  \<open>await_suspend\<close>, \<open>shutdown\<close>, destructor. Its invariants: a handle has one holder; the state word
  counts the coroutines inside; one sentinel per worker. Pool_Liveness shows that a
  call of \<open>shutdown\<close> can return from wherever the threads are. Pool_Program is the program on the pool
  (driver.cpp): its two threads run every task and return. Timer_Service is applications/timers/win-iocp:
  conversion of timeouts, requests, posting, entry of reactors, the shutdown protocol.
  Timer_Driver is its construction and its two programs, action by action against the worker thread: the one with callbacks returns
  from every run, the one with a coroutine destroys it first.
  Vanilla_Timers holds the three vanilla.cpp programs beside the coroutine ones: the same event loops written
  by hand, also interpretations of \<open>expiry_loop\<close>.

  \<^bold>\<open>Applications: timers and pipes over system calls.\<close> Duration is the part of \<open>std::chrono\<close> they use, Epoll
  the event interface. System calls are fields of a record of functions, and what their manual
  pages promise is a predicate on that record and on a view of the kernel's state; each is shown
  to be satisfiable by a small kernel of tables. Fd_Timer, Kqueue_Timer and Pool_Timer are
  applications/timers/nix-timerfd, osx-kqueue and win-pool: the timers with their moves, and the example
  programs, which are interpretations of the locale \<open>expiry_loop\<close> (a reactor that plays the rounds of one
  coroutine, theory Expiry_Loop) and so return after the right number of expirations. Nix_Pipe is
  applications/pipes/nix-pipe: reactor, awaiters, both ends, \<open>make_pipe\<close>, and the consumer of driver1.cpp.
  Win_Pipe is applications/pipes/win-pipe, over a completion port: the context, the \<open>OVERLAPPED\<close> awaiters, both
  ends, the named pipe behind \<open>create_pipe_ex\<close>, and the loops of driver.cpp; every handle it opens is closed
  once on every failure, and what the two partial operations do wrong is stated.

  \<^bold>\<open>Primitives.\<close> Awaiter_List is the intrusive list of awaiters, through a store of addresses,
  that three primitives share. Async_Lock, Reset_Event and Async_Latch hold one primitive each: its
  operations, where there is one an abstract specification that histories of one caller refine, and
  the interleaving of its atomic actions with an invariant or a run that breaks it. Generator is the
  promise, iterator and owner of libcoro/generator.hpp and the loops of primitives/generator/driver.cpp.
  Lazy is primitives/lazy. Primitive_Programs holds the example programs of the event, the latch, the lock and the
  lazy value: the first three resume every coroutine, the last reads its value from a frame that is gone.

  \<^bold>\<open>Tasks.\<close> Task is libcoro/task.hpp: promise, awaitable and owner, and the exchange by which an
  awaiter and the end of the task decide who continues the awaiter. Eager_Task is libcoro/eager_task.hpp,
  the same exchange in a task that starts at once, with the result as a tagged union whose tag always agrees with
  what is stored; its histories refine those of Task. First_Tasks is basics/: the two earlier
  task types, with and without continuations, and the tutorial programs, on a machine of frames whose
  resumptions nest; chains of awaits have any depth. When_All is algorithms/when-all:
  the counter, the scheduler, and the example program; When_All_Tasks is \<open>when_all\<close> over any tasks: the
  intermediate coroutines, their owners, the awaiter, and the interleaving of its thread with completions on
  others. Handles is libcoro's \<open>unique_handle\<close> and
  \<open>unique_fd\<close>, two interpretations of the locale \<open>owner\<close>, whose histories account for every handle.

  \<^bold>\<open>Bounds.\<close> Theorems on queues ask for fewer elements than slots, those on searches for ranges of
  fewer than \<open>2^64\<close> elements and (for the coroutine queue) at most 255 streams, those on \<open>when_all\<close> for fewer than \<open>2^64 - 1\<close> tasks, the one on timers for
  fewer than \<open>2^32\<close> posting threads; below these no word in the model wraps. The count of the thread
  pool is stated modulo \<open>2^32\<close> and needs no bound.

  \<^bold>\<open>Not modelled.\<close> driver2.cpp of nix-pipe, whose task queue is not in the repository; maybe.hpp, which is unfinished and does not compile; the programs of internals/, whose headers are not in the repository; benchmarks, tests, build files; weak
  memory orders; the destructors that only free memory.
\<close>

end
